(* ===== verification/Prelude.thy ===== *)
theory Prelude
  imports Main "HOL-Library.Word" "HOL-Library.Monad_Syntax"
begin

text \<open>
  Shared vocabulary of the development: the failure convention, the integer
  conversions of the source, singly linked chains threaded through a vector (the free
  lists of \<^verbatim>\<open>sparse_vector\<close>, \<^verbatim>\<open>linear_allocator\<close> and
  \<^verbatim>\<open>vectorized_queue\<close>), bounds-checked vector access, and the generic lemmas on
  lists and options the components use.

  Failure convention. An operation whose source can hit a failed \<^verbatim>\<open>assert\<close>,
  an out-of-range vector access or a null dereference returns an \<open>option\<close>;
  \<open>None\<close> is that failure. A theorem that an operation yields \<open>Some\<close> is therefore a
  theorem that none of its assertions fails and none of its accesses is undefined.
\<close>

section \<open>Lemma collections\<close>

named_theorems chain_simps \<open>rewriting of chains under updates of their cells\<close>
named_theorems rep_intros \<open>introduction rules of the representation predicates\<close>

section \<open>Machine integers\<close>

type_synonym size_t = "64 word"
type_synonym int32 = "32 word"

text \<open>The conversion of an \<^verbatim>\<open>int64_t\<close> or \<^verbatim>\<open>size_t\<close> value to a 32-bit \<^verbatim>\<open>int\<close>.\<close>

definition to_int32 :: "int \<Rightarrow> int" where
  "to_int32 x = signed_take_bit 31 x"

lemma to_int32_id [simp]: "- (2 ^ 31) \<le> x \<Longrightarrow> x < 2 ^ 31 \<Longrightarrow> to_int32 x = x"
  by (simp add: to_int32_def signed_take_bit_int_eq_self)

text \<open>
  The cell of a ring buffer of \<open>n\<close> cells for a running position: \<^verbatim>\<open>position % n\<close> on
  \<^verbatim>\<open>size_t\<close>. The position wraps at \<open>2 ^ 64\<close>; the cells follow each other if \<open>n\<close> divides
  \<open>2 ^ 64\<close>, or as long as fewer than \<open>2 ^ 64\<close> positions were used.
\<close>

definition ring_index :: "nat \<Rightarrow> size_t \<Rightarrow> nat" where
  "ring_index n position = unat position mod n"

definition ring_bound :: "nat \<Rightarrow> nat \<Rightarrow> bool" where
  "ring_bound n k \<longleftrightarrow> n dvd 2 ^ 64 \<or> k \<le> 2 ^ 64"

lemma ring_index_of_nat:
  assumes "ring_bound n k" and "j < k"
  shows "ring_index n (of_nat j) = j mod n"
proof -
  have "unat (of_nat j :: size_t) = j mod 2 ^ 64"
    by (simp only: unsigned_of_nat take_bit_eq_mod) simp
  with assms show ?thesis by (auto simp: ring_index_def ring_bound_def mod_mod_cancel)
qed

lemma ring_bound_mono: "ring_bound n k \<Longrightarrow> j \<le> k \<Longrightarrow> ring_bound n j"
  by (auto simp: ring_bound_def)

lemma mod_neq:
  fixes a b n :: nat
  assumes "a < b" and "b - a < n"
  shows "a mod n \<noteq> b mod n"
proof
  assume "a mod n = b mod n"
  then have "n dvd b - a" using assms(1) by (metis mod_eq_dvd_iff_nat less_imp_le)
  with assms show False by (auto dest: dvd_imp_le)
qed

section \<open>Vectors\<close>

text \<open>Bounds-checked read and write of a vector cell.\<close>

definition vec_get :: "'a list \<Rightarrow> nat \<Rightarrow> 'a option" where
  "vec_get xs i = (if i < length xs then Some (xs ! i) else None)"

definition vec_set :: "'a list \<Rightarrow> nat \<Rightarrow> 'a \<Rightarrow> 'a list option" where
  "vec_set xs i v = (if i < length xs then Some (xs[i := v]) else None)"

lemma vec_get_Some [simp]: "vec_get xs i = Some v \<longleftrightarrow> i < length xs \<and> xs ! i = v"
  by (auto simp: vec_get_def)

lemma vec_get_None [simp]: "vec_get xs i = None \<longleftrightarrow> length xs \<le> i"
  by (auto simp: vec_get_def)

lemma vec_set_Some [simp]: "vec_set xs i v = Some ys \<longleftrightarrow> i < length xs \<and> ys = xs[i := v]"
  by (auto simp: vec_set_def)

lemma vec_in_range [simp]:
  "i < length xs \<Longrightarrow> vec_get xs i = Some (xs ! i)"
  "i < length xs \<Longrightarrow> vec_set xs i v = Some (xs[i := v])"
  by (simp_all add: vec_get_def vec_set_def)

text \<open>Folding a partial operation over a list of arguments, stopping at the first failure.\<close>

fun fold_opt :: "('x \<Rightarrow> 's \<Rightarrow> 's option) \<Rightarrow> 'x list \<Rightarrow> 's \<Rightarrow> 's option" where
  "fold_opt f [] s = Some s"
| "fold_opt f (x # xs) s = Option.bind (f x s) (fold_opt f xs)"

text \<open>Repeating an operation that returns a result, collecting the results.\<close>

fun repeat_opt :: "nat \<Rightarrow> ('s \<Rightarrow> ('r \<times> 's) option) \<Rightarrow> 's \<Rightarrow> ('r list \<times> 's) option" where
  "repeat_opt 0 f s = Some ([], s)"
| "repeat_opt (Suc n) f s =
     do { (r, s') \<leftarrow> f s; (rs, s'') \<leftarrow> repeat_opt n f s'; Some (r # rs, s'') }"

lemma bind_assoc_prod:
  "Option.bind (Option.bind m (\<lambda>(a, b). f a b)) g = Option.bind m (\<lambda>(a, b). Option.bind (f a b) g)"
  by (cases m) auto

lemma fold_opt_append:
  "fold_opt f (xs @ ys) s = Option.bind (fold_opt f xs s) (fold_opt f ys)"
proof (induction xs arbitrary: s)
  case (Cons x xs)
  then show ?case by (cases "f x s") auto
qed simp

lemma repeat_opt_add:
  "repeat_opt (m + k) f s =
     do { (rs, s') \<leftarrow> repeat_opt m f s; (rs', s'') \<leftarrow> repeat_opt k f s'; Some (rs @ rs', s'') }"
proof (induction m arbitrary: s)
  case 0
  show ?case by (cases "repeat_opt k f s") auto
next
  case (Suc m)
  show ?case
  proof (cases "f s")
    case (Some p)
    obtain r t where "p = (r, t)" by fastforce
    with Some Suc [of t] show ?thesis by (cases "repeat_opt m f t") (auto split: Option.bind_splits)
  qed simp
qed

section \<open>Chains\<close>

text \<open>
  \<open>chain enc stop nxt p is\<close>: starting from the link \<open>p\<close> and following \<open>nxt\<close>, the
  cells visited are exactly \<open>is\<close>, and the last link is \<open>stop\<close>. A link to cell \<open>i\<close>
  is the value \<open>enc i\<close>.
\<close>

fun chain :: "(nat \<Rightarrow> 'p) \<Rightarrow> 'p \<Rightarrow> (nat \<Rightarrow> 'p) \<Rightarrow> 'p \<Rightarrow> nat list \<Rightarrow> bool" where
  "chain enc stop nxt p [] \<longleftrightarrow> p = stop"
| "chain enc stop nxt p (i # is) \<longleftrightarrow> p = enc i \<and> chain enc stop nxt (nxt i) is"

lemma chain_append [chain_simps]:
  "chain enc stop nxt p (xs @ y # ys) \<longleftrightarrow>
     chain enc (enc y) nxt p xs \<and> chain enc stop nxt (nxt y) ys"
  by (induction xs arbitrary: p) auto

lemma chain_cong:
  "(\<And>i. i \<in> set is \<Longrightarrow> nxt i = nxt' i) \<Longrightarrow>
   chain enc stop nxt p is = chain enc stop nxt' p is"
  by (induction "is" arbitrary: p) auto

lemma chain_upd [chain_simps]:
  "i \<notin> set is \<Longrightarrow> chain enc stop (nxt(i := q)) p is = chain enc stop nxt p is"
  by (rule chain_cong) auto

lemma chain_list_update [chain_simps]:
  assumes "j \<notin> set is" and "set is \<subseteq> {..<length xs}"
  shows "chain enc stop (\<lambda>i. f (xs[j := v] ! i)) p is = chain enc stop (\<lambda>i. f (xs ! i)) p is"
proof (rule chain_cong)
  fix i assume "i \<in> set is"
  with assms have "i \<noteq> j" by auto
  then show "f (xs[j := v] ! i) = f (xs ! i)" by simp
qed

lemma chain_snoc_list [chain_simps]:
  assumes "set is \<subseteq> {..<length xs}"
  shows "chain enc stop (\<lambda>i. f ((xs @ ys) ! i)) p is = chain enc stop (\<lambda>i. f (xs ! i)) p is"
  using assms by (intro chain_cong) (auto simp: nth_append)

text \<open>Unlinking a cell, and linking a new last cell.\<close>

lemma chain_remove:
  assumes "chain enc stop nxt p (as @ x # bs)" and "distinct (as @ x # bs)"
    and "\<And>j. j \<in> set (as @ bs) \<Longrightarrow> as = [] \<or> j \<noteq> last as \<Longrightarrow> nxt' j = nxt j"
    and "as \<noteq> [] \<Longrightarrow> nxt' (last as) = nxt x"
    and "p' = (if as = [] then nxt x else p)"
  shows "chain enc stop nxt' p' (as @ bs)"
proof (cases as rule: rev_cases)
  case Nil
  with assms show ?thesis using chain_cong [of bs nxt nxt'] by auto
next
  case (snoc cs c)
  with assms(1) have "chain enc (enc c) nxt p cs" "chain enc stop nxt (nxt x) bs"
    by (simp_all add: chain_append)
  moreover have "chain enc (enc c) nxt' p cs = chain enc (enc c) nxt p cs"
    using assms(2,3) snoc by (intro chain_cong) auto
  moreover have "chain enc stop nxt' (nxt x) bs = chain enc stop nxt (nxt x) bs"
    using assms(2,3) snoc by (intro chain_cong) auto
  ultimately show ?thesis using snoc assms(4,5) by (simp add: chain_append)
qed

lemma chain_snoc:
  assumes "chain enc stop nxt p xs" and "distinct xs"
    and "\<And>j. j \<in> set xs \<Longrightarrow> j \<noteq> last xs \<Longrightarrow> nxt' j = nxt j"
    and "xs \<noteq> [] \<Longrightarrow> nxt' (last xs) = enc i" and "nxt' i = stop"
    and "p' = (if xs = [] then enc i else p)"
  shows "chain enc stop nxt' p' (xs @ [i])"
proof (cases xs rule: rev_cases)
  case Nil
  with assms show ?thesis by simp
next
  case (snoc cs c)
  with assms(1) have "chain enc (enc c) nxt p cs" by (simp add: chain_append)
  moreover have "chain enc (enc c) nxt' p cs = chain enc (enc c) nxt p cs"
    using assms(2,3) snoc by (intro chain_cong) auto
  ultimately show ?thesis using snoc assms(4-) by (simp add: chain_append)
qed

lemma chain_next:
  assumes "chain enc stop nxt p (as @ x # bs)"
  shows "nxt x = (if bs = [] then stop else enc (hd bs))"
  using assms by (cases bs) (auto simp: chain_append)

lemma chain_start:
  "chain enc stop nxt p xs \<Longrightarrow> p = (if xs = [] then stop else enc (hd xs))"
  by (cases xs) auto

lemma chain_start_stop:
  assumes "chain enc stop nxt p is" and "\<And>i. i \<in> set is \<Longrightarrow> enc i \<noteq> stop"
  shows "p = stop \<longleftrightarrow> is = []"
  using assms by (cases "is") auto

lemma chain_unique:
  assumes "chain enc stop nxt p is" and "chain enc stop nxt p js"
    and "inj enc" and "\<And>i. i \<in> set is \<union> set js \<Longrightarrow> enc i \<noteq> stop"
  shows "is = js"
  using assms
proof (induction "is" arbitrary: p js)
  case Nil
  then show ?case by (cases js) auto
next
  case (Cons i "is")
  from Cons.prems have "p \<noteq> stop" by auto
  with Cons.prems obtain j js' where js: "js = j # js'" by (cases js) auto
  with Cons.prems have "i = j" by (auto dest: injD)
  moreover have "is = js'"
    by (rule Cons.IH [of "nxt i"]) (use Cons.prems js \<open>i = j\<close> in auto)
  ultimately show ?case using js by simp
qed

section \<open>Lists\<close>

lemma distinct_split_middle:
  assumes "distinct xs" and "x \<in> set xs"
  obtains ys zs where "xs = ys @ x # zs" and "x \<notin> set ys" and "x \<notin> set zs"
    and "remove1 x xs = ys @ zs" and "distinct (ys @ zs)"
proof -
  from assms(2) obtain ys zs where xs: "xs = ys @ x # zs" and ys: "x \<notin> set ys"
    by (meson split_list_first)
  with assms(1) have "x \<notin> set zs" and "distinct (ys @ zs)" by auto
  moreover have "remove1 x xs = ys @ zs" using xs ys by (simp add: remove1_append)
  ultimately show thesis using that xs ys by blast
qed

lemma last_notin: "xs \<noteq> [] \<Longrightarrow> set xs \<inter> A = {} \<Longrightarrow> last xs \<notin> A"
  by (meson disjoint_iff last_in_set)

lemma hd_notin: "xs \<noteq> [] \<Longrightarrow> set xs \<inter> A = {} \<Longrightarrow> hd xs \<notin> A"
  by (meson disjoint_iff hd_in_set)

lemma last_neq_hd: "xs \<noteq> [] \<Longrightarrow> ys \<noteq> [] \<Longrightarrow> set xs \<inter> set ys = {} \<Longrightarrow> last xs \<noteq> hd ys"
  by (metis disjoint_iff hd_in_set last_in_set)

lemma tl_eq_remove1_hd: "xs \<noteq> [] \<Longrightarrow> tl xs = remove1 (hd xs) xs"
  by (cases xs) auto

end
