(* ===== verification/Slot_Allocator.thy ===== *)
theory Slot_Allocator
  imports Prelude
begin

text \<open>
  The contract of an allocator of numbered cells: a vector of \<open>n\<close> cells threaded by a
  chain \<open>fs\<close> of free ones. Allocation takes the head of the chain and grows the vector
  when the chain is empty; releasing a cell puts it in front of the chain. The clients of
  such an allocator rely on the facts proved here once: a fresh index is never live, the
  order of allocations out of a virgin vector, and the last-in first-out reuse of cells.
\<close>

section \<open>Live cells\<close>

definition live_cells :: "nat \<Rightarrow> nat list \<Rightarrow> nat set" where
  "live_cells n fs = {..<n} - set fs"

lemma live_cells_Nil [simp]: "live_cells n [] = {..<n}"
  by (simp add: live_cells_def)

lemma live_cells_Suc: "set fs \<subseteq> {..<n} \<Longrightarrow> live_cells (Suc n) fs = insert n (live_cells n fs)"
  by (auto simp: live_cells_def)

lemma live_cells_Cons: "i < n \<Longrightarrow> i \<notin> set fs \<Longrightarrow> live_cells n fs = insert i (live_cells n (i # fs))"
  by (auto simp: live_cells_def)

lemma live_cells_iff [simp]: "i \<in> live_cells n fs \<longleftrightarrow> i < n \<and> i \<notin> set fs"
  by (auto simp: live_cells_def)

lemma chain_upt_succ:
  assumes "m < n" and "\<And>i. m \<le> i \<Longrightarrow> i < n - 1 \<Longrightarrow> nxt i = int i + 1" and "nxt (n - 1) = -1"
  shows "chain int (-1) nxt (int m) [m..<n]"
  using assms
proof (induction "n - m" arbitrary: m)
  case (Suc k)
  show ?case
  proof (cases "Suc m < n")
    case True
    then have "chain int (-1) nxt (int (Suc m)) [Suc m..<n]"
      using Suc.hyps Suc.prems by (intro Suc.hyps(1)) auto
    moreover have "nxt m = int (Suc m)" using True Suc.prems(2) [of m] by simp
    ultimately show ?thesis using True by (simp add: upt_conv_Cons)
  next
    case False
    with Suc.prems have "n = Suc m" by simp
    with Suc.prems show ?thesis by simp
  qed
qed simp

section \<open>The contract\<close>

locale slot_allocator =
  fixes alloc :: "'s \<Rightarrow> (nat \<times> 's) option"
    and release :: "nat \<Rightarrow> 's \<Rightarrow> 's option"
    and rep :: "'s \<Rightarrow> nat \<Rightarrow> nat list \<Rightarrow> bool"
    and limit :: nat
  assumes alloc_grow: "rep s n [] \<Longrightarrow> n < limit \<Longrightarrow> \<exists>s'. alloc s = Some (n, s') \<and> rep s' (Suc n) []"
    and alloc_reuse: "rep s n (i # fs) \<Longrightarrow> \<exists>s'. alloc s = Some (i, s') \<and> rep s' n fs"
    and release_live: "rep s n fs \<Longrightarrow> i \<in> live_cells n fs \<Longrightarrow>
      \<exists>s'. release i s = Some s' \<and> rep s' n (i # fs)"
    and rep_free: "rep s n fs \<Longrightarrow> distinct fs \<and> set fs \<subseteq> {..<n}"
begin

lemma alloc_fresh:
  assumes "rep s n fs" and "n < limit"
  shows "\<exists>i s' n' fs'. alloc s = Some (i, s') \<and> rep s' n' fs' \<and> i \<notin> live_cells n fs \<and>
    live_cells n' fs' = insert i (live_cells n fs)"
proof (cases fs)
  case Nil
  with assms obtain s' where "alloc s = Some (n, s')" "rep s' (Suc n) []"
    using alloc_grow by blast
  with Nil show ?thesis
    by (intro exI [of _ n] exI [of _ s'] exI [of _ "Suc n"] exI [of _ "[]"]) auto
next
  case (Cons i gs)
  with assms obtain s' where s': "alloc s = Some (i, s')" "rep s' n gs"
    using alloc_reuse by blast
  moreover have "i < n" "i \<notin> set gs"
    using rep_free assms(1) Cons by fastforce+
  ultimately show ?thesis
    by (intro exI [of _ i] exI [of _ s'] exI [of _ n] exI [of _ gs])
      (auto simp: Cons live_cells_def)
qed

lemma alloc_grow_many:
  assumes "rep s n []" and "n + k \<le> limit"
  shows "\<exists>s'. repeat_opt k alloc s = Some ([n..<n + k], s') \<and> rep s' (n + k) []"
  using assms
proof (induction k arbitrary: s n)
  case (Suc k)
  then obtain s1 where s1: "alloc s = Some (n, s1)" "rep s1 (Suc n) []"
    using alloc_grow [of s n] by auto
  with Suc.IH [of s1 "Suc n"] Suc.prems obtain s2
    where "repeat_opt k alloc s1 = Some ([Suc n..<Suc n + k], s2)" "rep s2 (Suc n + k) []"
    by auto
  with s1 show ?case by (simp add: upt_conv_Cons)
qed simp

lemma alloc_reuse_many:
  assumes "rep s n (is @ fs)"
  shows "\<exists>s'. repeat_opt (length is) alloc s = Some (is, s') \<and> rep s' n fs"
  using assms
proof (induction "is" arbitrary: s)
  case (Cons i "is")
  then obtain s1 where s1: "alloc s = Some (i, s1)" "rep s1 n (is @ fs)"
    using alloc_reuse [of s n i "is @ fs"] by auto
  with Cons.IH obtain s2 where "repeat_opt (length is) alloc s1 = Some (is, s2)" "rep s2 n fs"
    by blast
  with s1 show ?case by simp
qed simp

lemma release_many:
  assumes "rep s n fs" and "distinct is" and "set is \<subseteq> live_cells n fs"
  shows "\<exists>s'. fold_opt release is s = Some s' \<and> rep s' n (rev is @ fs)"
  using assms
proof (induction "is" arbitrary: s fs)
  case (Cons i "is")
  then obtain s1 where s1: "release i s = Some s1" "rep s1 n (i # fs)"
    using release_live [of s n fs i] by auto
  moreover have "set is \<subseteq> live_cells n (i # fs)" using Cons.prems by auto
  ultimately obtain s2 where "fold_opt release is s1 = Some s2" "rep s2 n (rev is @ i # fs)"
    using Cons.IH [of s1 "i # fs"] Cons.prems by auto
  with s1 show ?case by simp
qed simp

text \<open>Releasing cells in some order and allocating as many again hands them out in reverse.\<close>

lemma release_alloc_reverse:
  assumes "rep s n fs" and "distinct is" and "set is \<subseteq> live_cells n fs"
  shows "\<exists>s1 s2. fold_opt release is s = Some s1 \<and>
    repeat_opt (length is) alloc s1 = Some (rev is, s2) \<and> rep s2 n fs"
proof -
  from release_many [OF assms] obtain s1
    where s1: "fold_opt release is s = Some s1" "rep s1 n (rev is @ fs)" by blast
  from alloc_reuse_many [OF s1(2)] obtain s2
    where "repeat_opt (length (rev is)) alloc s1 = Some (rev is, s2)" "rep s2 n fs" by blast
  with s1 show ?thesis by auto
qed

text \<open>Out of a vector of \<open>m\<close> free cells in order, cells come in order, then in reverse.\<close>

lemma virgin_allocation_order:
  assumes "rep s m [0..<m]" and "m + k \<le> limit"
  shows "\<exists>t. repeat_opt (m + k) alloc s = Some ([0..<m + k], t) \<and>
    (distinct is \<longrightarrow> set is \<subseteq> {..<m + k} \<longrightarrow>
      (\<exists>s1 s2. fold_opt release is t = Some s1 \<and>
        repeat_opt (length is) alloc s1 = Some (rev is, s2)))"
proof -
  from assms alloc_reuse_many [of s m "[0..<m]" "[]"] obtain s0
    where s0: "repeat_opt m alloc s = Some ([0..<m], s0)" "rep s0 m []" by auto
  from alloc_grow_many [OF s0(2) assms(2)] obtain t
    where t: "repeat_opt k alloc s0 = Some ([m..<m + k], t)" "rep t (m + k) []" by blast
  have "repeat_opt (m + k) alloc s = Some ([0..<m + k], t)"
    unfolding repeat_opt_add s0(1) by (simp add: t(1) upt_add_eq_append [of 0 m k])
  moreover have "distinct is \<longrightarrow> set is \<subseteq> {..<m + k} \<longrightarrow>
      (\<exists>s1 s2. fold_opt release is t = Some s1 \<and>
        repeat_opt (length is) alloc s1 = Some (rev is, s2))"
    using release_alloc_reverse [OF t(2), of "is"] by auto
  ultimately show ?thesis by blast
qed

end

end
