(* ===== verification/Sparse_Vector.thy ===== *)
theory Sparse_Vector
  imports Slot_Allocator
begin

text \<open>
  \<^verbatim>\<open>memory::sparse_vector\<close> (\<^verbatim>\<open>src/boson/boson/memory/sparse_vector.h\<close>): a vector
  whose freed cells are chained and handed out again. The thread keeps the slots of its
  suspended routines in one. The representation predicate names the chain of free cells;
  the theory shows that allocation returns fresh cells, that \<^verbatim>\<open>has\<close> decides which
  cells are allocated, and that freeing and allocating are inverse.
\<close>

section \<open>The data structure\<close>

record 'a sparse_vector =
  sv_data :: "'a list"
  sv_free_cells :: "int list"
  sv_first_free_cell :: int
  sv_last_free_cell :: int

definition sparse_vector_empty :: "'a sparse_vector" where
  "sparse_vector_empty =
     \<lparr>sv_data = [], sv_free_cells = [], sv_first_free_cell = -1, sv_last_free_cell = -1\<rparr>"

text \<open>The sized constructor; \<open>d\<close> is the value-initialised element \<^verbatim>\<open>ValueType{}\<close>.\<close>

definition sparse_vector_sized :: "'a \<Rightarrow> nat \<Rightarrow> 'a sparse_vector" where
  "sparse_vector_sized d initial_size =
     (if initial_size = 0
      then \<lparr>sv_data = [], sv_free_cells = [], sv_first_free_cell = -1, sv_last_free_cell = -1\<rparr>
      else \<lparr>sv_data = replicate initial_size d,
            sv_free_cells = map (\<lambda>index. int index + 1) [0..<initial_size - 1] @ [-1],
            sv_first_free_cell = 0, sv_last_free_cell = -1\<rparr>)"

definition sparse_vector_has :: "nat \<Rightarrow> 'a sparse_vector \<Rightarrow> bool" where
  "sparse_vector_has index v \<longleftrightarrow>
     index < length (sv_data v) \<and> sv_last_free_cell v \<noteq> to_int32 (int index) \<and>
     sv_free_cells v ! index = -1"

text \<open>Reading and assigning through \<^verbatim>\<open>operator[]\<close>, which asserts \<^verbatim>\<open>has(index)\<close>.\<close>

definition sparse_vector_get :: "nat \<Rightarrow> 'a sparse_vector \<Rightarrow> 'a option" where
  "sparse_vector_get index v =
     (if sparse_vector_has index v then vec_get (sv_data v) index else None)"

definition sparse_vector_set :: "nat \<Rightarrow> 'a \<Rightarrow> 'a sparse_vector \<Rightarrow> 'a sparse_vector option" where
  "sparse_vector_set index x v =
     (if sparse_vector_has index v
      then do { ds \<leftarrow> vec_set (sv_data v) index x; Some (v\<lparr>sv_data := ds\<rparr>) }
      else None)"

definition sparse_vector_allocate :: "'a \<Rightarrow> 'a sparse_vector \<Rightarrow> (nat \<times> 'a sparse_vector) option" where
  "sparse_vector_allocate d v =
     (if sv_first_free_cell v = -1
      then Some (length (sv_data v),
                 v\<lparr>sv_data := sv_data v @ [d], sv_free_cells := sv_free_cells v @ [-1]\<rparr>)
      else
        let cell_index = to_int32 (sv_first_free_cell v);
            last = (if cell_index = sv_last_free_cell v then -1 else sv_last_free_cell v)
        in if cell_index < 0 then None
           else do {
             next \<leftarrow> vec_get (sv_free_cells v) (nat cell_index);
             cells \<leftarrow> vec_set (sv_free_cells v) (nat cell_index) (-1);
             Some (nat cell_index,
                   v\<lparr>sv_free_cells := cells, sv_first_free_cell := next, sv_last_free_cell := last\<rparr>)
           })"

definition sparse_vector_free :: "nat \<Rightarrow> 'a sparse_vector \<Rightarrow> 'a sparse_vector option" where
  "sparse_vector_free index v =
     do {
       let last = (if sv_last_free_cell v = -1 then int index else sv_last_free_cell v);
       cells \<leftarrow> vec_set (sv_free_cells v) index (sv_first_free_cell v);
       Some (v\<lparr>sv_free_cells := cells, sv_first_free_cell := int index, sv_last_free_cell := last\<rparr>)
     }"

section \<open>Representation\<close>

text \<open>Indices stay below \<open>2 ^ 31\<close>, since the code converts them to \<^verbatim>\<open>int\<close>.\<close>

definition sparse_vector_limit :: nat where
  "sparse_vector_limit = 2 ^ 31"

text \<open>
  \<open>sparse_vector_links v n fs\<close>: the vector has \<open>n\<close> cells and \<open>fs\<close> is the chain of the
  free ones.
\<close>

definition sparse_vector_links :: "'a sparse_vector \<Rightarrow> nat \<Rightarrow> nat list \<Rightarrow> bool" where
  "sparse_vector_links v n fs \<longleftrightarrow>
     length (sv_data v) = n \<and> length (sv_free_cells v) = n \<and> n \<le> sparse_vector_limit \<and>
     distinct fs \<and> set fs \<subseteq> {..<n} \<and>
     chain int (-1) (\<lambda>i. sv_free_cells v ! i) (sv_first_free_cell v) fs \<and>
     (\<forall>i\<in>live_cells n fs. sv_free_cells v ! i = -1)"

text \<open>
  \<open>sparse_vector_rep\<close> adds that \<^verbatim>\<open>last_free_cell_\<close> names the end of the chain, which
  \<^verbatim>\<open>has\<close> relies on: the last free cell holds \<open>-1\<close>, like an allocated one.
\<close>

definition sparse_vector_rep :: "'a sparse_vector \<Rightarrow> nat \<Rightarrow> nat list \<Rightarrow> bool" where
  "sparse_vector_rep v n fs \<longleftrightarrow>
     sparse_vector_links v n fs \<and>
     sv_last_free_cell v = (if fs = [] then -1 else int (last fs))"

lemma sparse_vector_repD:
  "sparse_vector_rep v n fs \<Longrightarrow> sparse_vector_links v n fs"
  by (simp add: sparse_vector_rep_def)

lemma sparse_vector_rep_empty [rep_intros]: "sparse_vector_rep sparse_vector_empty 0 []"
  by (simp add: sparse_vector_rep_def sparse_vector_links_def sparse_vector_empty_def)

lemma sparse_vector_links_sized [rep_intros]:
  "n \<le> sparse_vector_limit \<Longrightarrow> sparse_vector_links (sparse_vector_sized d n) n [0..<n]"
proof (cases "n = 0")
  case False
  assume n: "n \<le> sparse_vector_limit"
  from False have "chain int (-1) (\<lambda>i. sv_free_cells (sparse_vector_sized d n) ! i) (int 0) [0..<n]"
    by (intro chain_upt_succ) (auto simp: sparse_vector_sized_def nth_append)
  with False n show ?thesis
    by (auto simp: sparse_vector_links_def sparse_vector_sized_def)
qed (auto simp: sparse_vector_links_def sparse_vector_sized_def)

section \<open>The operations\<close>

lemma sparse_vector_links_index:
  "sparse_vector_links v n fs \<Longrightarrow> i < n \<Longrightarrow> to_int32 (int i) = int i"
  by (auto simp: sparse_vector_links_def sparse_vector_limit_def)

lemma sparse_vector_first_free:
  assumes "sparse_vector_links v n fs"
  shows "sv_first_free_cell v = (if fs = [] then -1 else int (hd fs))"
  using assms by (cases fs) (auto simp: sparse_vector_links_def)

lemma sparse_vector_allocate_grow:
  assumes "sparse_vector_links v n []" and "n < sparse_vector_limit"
  shows "\<exists>v'. sparse_vector_allocate d v = Some (n, v') \<and> sparse_vector_links v' (Suc n) [] \<and>
    sv_data v' = sv_data v @ [d] \<and> sv_last_free_cell v' = sv_last_free_cell v"
  using assms
  by (auto simp: sparse_vector_allocate_def sparse_vector_links_def nth_append less_Suc_eq)

lemma sparse_vector_allocate_reuse:
  assumes "sparse_vector_links v n (i # fs)"
  shows "\<exists>v'. sparse_vector_allocate d v = Some (i, v') \<and> sparse_vector_links v' n fs \<and>
    sv_data v' = sv_data v \<and>
    sv_last_free_cell v' = (if int i = sv_last_free_cell v then -1 else sv_last_free_cell v)"
proof -
  have i: "i < n" "i \<notin> set fs" "set fs \<subseteq> {..<n}" "distinct fs"
    and first: "sv_first_free_cell v = int i"
    and len: "length (sv_free_cells v) = n" "length (sv_data v) = n" "n \<le> sparse_vector_limit"
    and ch: "chain int (-1) (\<lambda>i. sv_free_cells v ! i) (sv_free_cells v ! i) fs"
    and live: "\<forall>j\<in>live_cells n (i # fs). sv_free_cells v ! j = -1"
    using assms by (auto simp: sparse_vector_links_def)
  let ?v' = "v\<lparr>sv_free_cells := (sv_free_cells v)[i := -1],
    sv_first_free_cell := sv_free_cells v ! i,
    sv_last_free_cell := if int i = sv_last_free_cell v then -1 else sv_last_free_cell v\<rparr>"
  have "sparse_vector_allocate d v = Some (i, ?v')"
    using i len first sparse_vector_links_index [OF assms]
    by (simp add: sparse_vector_allocate_def)
  moreover have "sparse_vector_links ?v' n fs"
    using i len ch live chain_list_update [of i fs "sv_free_cells v" int "-1" "\<lambda>x. x"]
    by (auto simp: sparse_vector_links_def nth_list_update)
  ultimately show ?thesis by simp
qed

lemma sparse_vector_free_live:
  assumes "sparse_vector_links v n fs" and "i \<in> live_cells n fs"
  shows "\<exists>v'. sparse_vector_free i v = Some v' \<and> sparse_vector_links v' n (i # fs) \<and>
    sv_data v' = sv_data v \<and>
    sv_last_free_cell v' = (if sv_last_free_cell v = -1 then int i else sv_last_free_cell v)"
  using assms chain_list_update [of i fs "sv_free_cells v" int "-1" "\<lambda>x. x"]
  by (auto simp: sparse_vector_free_def sparse_vector_links_def)

lemma sparse_vector_rep_grow:
  assumes "sparse_vector_rep v n []" and "n < sparse_vector_limit"
  shows "\<exists>v'. sparse_vector_allocate d v = Some (n, v') \<and> sparse_vector_rep v' (Suc n) []"
  using sparse_vector_allocate_grow [of v n d] assms by (auto simp: sparse_vector_rep_def)

lemma sparse_vector_rep_reuse:
  assumes rep: "sparse_vector_rep v n (i # fs)"
  shows "\<exists>v'. sparse_vector_allocate d v = Some (i, v') \<and> sparse_vector_rep v' n fs"
proof -
  from sparse_vector_allocate_reuse [OF sparse_vector_repD [OF rep]] obtain v'
    where v': "sparse_vector_allocate d v = Some (i, v')" "sparse_vector_links v' n fs"
      "sv_last_free_cell v' = (if int i = sv_last_free_cell v then -1 else sv_last_free_cell v)"
    by blast
  moreover from rep have "i \<notin> set fs" "sv_last_free_cell v = int (last (i # fs))"
    by (auto simp: sparse_vector_rep_def sparse_vector_links_def)
  ultimately show ?thesis
    by (auto simp: sparse_vector_rep_def split: if_splits)
qed

lemma sparse_vector_rep_release:
  assumes "sparse_vector_rep v n fs" and "i \<in> live_cells n fs"
  shows "\<exists>v'. sparse_vector_free i v = Some v' \<and> sparse_vector_rep v' n (i # fs)"
  using sparse_vector_free_live [of v n fs i] assms by (auto simp: sparse_vector_rep_def)

interpretation svl: slot_allocator "sparse_vector_allocate d" sparse_vector_free
  sparse_vector_links sparse_vector_limit
proof (unfold_locales, goal_cases)
  case (1 s n)
  then show ?case using sparse_vector_allocate_grow [of s n d] by auto
next
  case (2 s n i fs)
  then show ?case using sparse_vector_allocate_reuse [of s n i fs d] by auto
next
  case (3 s n fs i)
  then show ?case using sparse_vector_free_live [of s n fs i] by auto
next
  case (4 s n fs)
  then show ?case by (simp add: sparse_vector_links_def)
qed

interpretation svr: slot_allocator "sparse_vector_allocate d" sparse_vector_free
  sparse_vector_rep sparse_vector_limit
  by unfold_locales
    (simp_all add: sparse_vector_rep_grow sparse_vector_rep_reuse sparse_vector_rep_release,
     simp_all add: sparse_vector_rep_def sparse_vector_links_def)

lemma chain_end:
  assumes "chain int (-1) nxt p fs" and "fs \<noteq> []"
  shows "nxt (last fs) = -1"
  using assms by (induction fs arbitrary: p) (auto split: if_splits)

lemma chain_inner:
  assumes "chain int (-1) nxt p fs" and "i \<in> set fs" and "i \<noteq> last fs"
  shows "nxt i \<noteq> -1"
  using assms
proof (induction fs arbitrary: p)
  case (Cons j fs)
  then show ?case by (cases fs) (auto split: if_splits)
qed simp

text \<open>\<^verbatim>\<open>has\<close> holds exactly of the allocated cells.\<close>

lemma sparse_vector_has_live:
  assumes "sparse_vector_rep v n fs"
  shows "sparse_vector_has i v \<longleftrightarrow> i \<in> live_cells n fs"
proof (cases "i < n")
  case True
  from assms have links: "sparse_vector_links v n fs" by (rule sparse_vector_repD)
  then have ch: "chain int (-1) (\<lambda>i. sv_free_cells v ! i) (sv_first_free_cell v) fs"
    and len: "length (sv_data v) = n" by (auto simp: sparse_vector_links_def)
  have conv: "to_int32 (int i) = int i" using links True by (rule sparse_vector_links_index)
  show ?thesis
  proof (cases "i \<in> set fs")
    case True
    then have "\<not> sparse_vector_has i v"
      using assms conv chain_inner [OF ch]
      by (cases "i = last fs") (auto simp: sparse_vector_has_def sparse_vector_rep_def)
    with True show ?thesis by simp
  next
    case False
    have "sv_last_free_cell v \<noteq> int i"
      using assms False by (auto simp: sparse_vector_rep_def)
    with False \<open>i < n\<close> links conv len show ?thesis
      by (auto simp: sparse_vector_has_def sparse_vector_links_def)
  qed
next
  case False
  with assms show ?thesis
    by (auto simp: sparse_vector_has_def sparse_vector_rep_def sparse_vector_links_def)
qed

section \<open>Properties\<close>


definition sparse_vector_example :: "nat sparse_vector" where
  "sparse_vector_example =
     \<lparr>sv_data = [10, 20, 30], sv_free_cells = [2, -1, -1],
      sv_first_free_cell = 0, sv_last_free_cell = 2\<rparr>"

lemma sparse_vector_example_rep: "sparse_vector_rep sparse_vector_example 3 [0, 2]"
  by (auto simp: sparse_vector_example_def sparse_vector_rep_def sparse_vector_links_def
      sparse_vector_limit_def numeral_3_eq_3 less_Suc_eq)


text \<open>
  An allocation never fails and never hands out a cell that is in use; every other
  allocated cell keeps its element.
\<close>

theorem sparse_vector_allocate_fresh:
  assumes "sparse_vector_rep v n fs" and "n < sparse_vector_limit"
  shows "\<exists>i v' n' fs'. sparse_vector_allocate d v = Some (i, v') \<and> sparse_vector_rep v' n' fs' \<and>
    \<not> sparse_vector_has i v \<and> live_cells n' fs' = insert i (live_cells n fs) \<and>
    (\<forall>j\<in>live_cells n fs. sparse_vector_get j v' = sparse_vector_get j v)"
proof -
  from svr.alloc_fresh [where d = d, OF assms] obtain i v' n' fs'
    where a: "sparse_vector_allocate d v = Some (i, v')" "sparse_vector_rep v' n' fs'"
      "i \<notin> live_cells n fs" "live_cells n' fs' = insert i (live_cells n fs)"
    by blast
  have "sv_data v' = sv_data v \<or> sv_data v' = sv_data v @ [d]"
    using a(1) by (auto simp: sparse_vector_allocate_def Let_def bind_eq_Some_conv split: if_splits)
  moreover have "length (sv_data v) = n"
    using assms by (simp add: sparse_vector_rep_def sparse_vector_links_def)
  ultimately have "\<forall>j\<in>live_cells n fs. sparse_vector_get j v' = sparse_vector_get j v"
    using a sparse_vector_has_live [OF assms(1)] sparse_vector_has_live [OF a(2)]
    by (auto simp: sparse_vector_get_def nth_append vec_get_def)
  with a show ?thesis using sparse_vector_has_live [OF assms(1)] by blast
qed

theorem sparse_vector_allocate_fresh_witness:
  "\<exists>i v'. sparse_vector_allocate 0 sparse_vector_example = Some (i, v') \<and>
     \<not> sparse_vector_has i sparse_vector_example"
  using sparse_vector_allocate_fresh [OF sparse_vector_example_rep, of 0]
  by (auto simp: sparse_vector_limit_def)

text \<open>
  Freeing an allocated cell and allocating again returns the same cell and gives back
  the very same vector. \<^verbatim>\<open>routine::event_happened\<close> relies on it: on a failed
  candidacy it frees the slot of the event and registers a new one, without updating the
  \<^verbatim>\<open>slot_index\<close> the event holds.
\<close>

theorem sparse_vector_free_allocate:
  assumes "sparse_vector_rep v n fs" and "i \<in> live_cells n fs"
  shows "Option.bind (sparse_vector_free i v) (sparse_vector_allocate d) = Some (i, v)"
proof -
  from assms have links: "sparse_vector_links v n fs" and i: "i < n" "i \<notin> set fs"
    by (auto dest: sparse_vector_repD)
  then have "sv_free_cells v ! i = -1" and "length (sv_free_cells v) = n"
    by (auto simp: sparse_vector_links_def)
  moreover have "sv_last_free_cell v \<noteq> int i"
    using assms(1) i by (auto simp: sparse_vector_rep_def)
  ultimately show ?thesis
    using i sparse_vector_links_index [OF links i(1)]
    by (cases "sv_last_free_cell v = -1")
      (auto simp: sparse_vector_free_def sparse_vector_allocate_def list_update_same_conv Let_def)
qed

theorem sparse_vector_free_allocate_witness:
  "Option.bind (sparse_vector_free 1 sparse_vector_example) (sparse_vector_allocate 5) =
     Some (1, sparse_vector_example)"
  by (rule sparse_vector_free_allocate [OF sparse_vector_example_rep]) simp

text \<open>
  The allocation order the unit test of the vector checks, for every size and every
  permutation: a vector constructed with \<open>m\<close> cells hands out \<open>0, \<dots>, m + k - 1\<close> in
  this order, and after freeing any of them in any order, allocating again returns them
  in the reverse order.
\<close>

theorem sparse_vector_allocation_order:
  assumes "m + k \<le> sparse_vector_limit"
  shows "\<exists>v. repeat_opt (m + k) (sparse_vector_allocate d) (sparse_vector_sized d m) =
      Some ([0..<m + k], v) \<and>
    (distinct is \<longrightarrow> set is \<subseteq> {..<m + k} \<longrightarrow>
      (\<exists>v1 v2. fold_opt sparse_vector_free is v = Some v1 \<and>
        repeat_opt (length is) (sparse_vector_allocate d) v1 = Some (rev is, v2)))"
  by (rule svl.virgin_allocation_order [where d = d, OF _ assms])
    (use assms sparse_vector_links_sized [of m d] in simp)

theorem sparse_vector_allocation_order_witness:
  "\<exists>v v1 v2. repeat_opt 5 (sparse_vector_allocate False) (sparse_vector_sized False 3) =
       Some ([0, 1, 2, 3, 4], v) \<and>
     fold_opt sparse_vector_free [3, 0, 4] v = Some v1 \<and>
     repeat_opt 3 (sparse_vector_allocate False) v1 = Some ([4, 0, 3], v2)"
proof -
  have "3 + 2 \<le> sparse_vector_limit" by (simp add: sparse_vector_limit_def)
  moreover have "[0..<3 + 2] = [0, 1, 2, 3, 4::nat]" by (simp add: upt_rec)
  ultimately show ?thesis
    using sparse_vector_allocation_order [of 3 2 False "[3, 0, 4]"]
    by (auto simp: eval_nat_numeral simp del: repeat_opt.simps fold_opt.simps)
qed

text \<open>
  The sized constructor leaves \<^verbatim>\<open>last_free_cell_\<close> at \<open>-1\<close>, so on a freshly
  constructed vector with \<open>n > 0\<close> cells, all of them free, \<^verbatim>\<open>has\<close> wrongly reports the
  last one as allocated (and only that one).
\<close>

theorem sparse_vector_sized_has_last:
  assumes "0 < n" and "n \<le> sparse_vector_limit"
  shows "sparse_vector_has i (sparse_vector_sized d n) \<longleftrightarrow> i = n - 1"
  using assms
  by (auto simp: sparse_vector_has_def sparse_vector_sized_def sparse_vector_limit_def nth_append)

theorem sparse_vector_sized_has_last_witness:
  "sparse_vector_has 2 (sparse_vector_sized (0::nat) 3) \<and>
   \<not> sparse_vector_has 1 (sparse_vector_sized (0::nat) 3)"
  using sparse_vector_sized_has_last [of 3 2 "0::nat"] sparse_vector_sized_has_last [of 3 1 "0::nat"]
  by (simp add: sparse_vector_limit_def)

end
