(* ===== verification/Linear_Allocator.thy ===== *)
theory Linear_Allocator
  imports Slot_Allocator
begin

text \<open>
  \<^verbatim>\<open>memory::linear_allocator\<close>
  (\<^verbatim>\<open>src/boson/boson/memory/linear_allocator.h\<close>): the same chain of free cells as the
  sparse vector, for single objects. \<^verbatim>\<open>allocate\<close> returns a pointer into the vector;
  the model returns the offset of the pointed cell. Growing the vector may move it, so a
  pointer is valid until the next growing allocation only, the offset stays valid.
\<close>

section \<open>The data structure\<close>

record 'a linear_allocator =
  la_data :: "'a list"
  la_free_cells :: "int list"
  la_first_free_cell :: int

text \<open>The constructor, for the template parameter \<^verbatim>\<open>InitialSize\<close>.\<close>

definition linear_allocator_new :: "'a \<Rightarrow> nat \<Rightarrow> 'a linear_allocator" where
  "linear_allocator_new d initial_size =
     (if initial_size = 0
      then \<lparr>la_data = [], la_free_cells = [], la_first_free_cell = -1\<rparr>
      else \<lparr>la_data = replicate initial_size d,
            la_free_cells = map (\<lambda>index. int index + 1) [0..<initial_size - 1] @ [-1],
            la_first_free_cell = 0\<rparr>)"

definition linear_allocator_allocate ::
  "'a \<Rightarrow> 'a linear_allocator \<Rightarrow> (nat \<times> 'a linear_allocator) option" where
  "linear_allocator_allocate d a =
     (if la_first_free_cell a = -1
      then Some (length (la_data a),
                 a\<lparr>la_data := la_data a @ [d], la_free_cells := la_free_cells a @ [-1]\<rparr>)
      else
        let cell_index = nat (la_first_free_cell a) in
        do {
          next \<leftarrow> vec_get (la_free_cells a) cell_index;
          cells \<leftarrow> vec_set (la_free_cells a) cell_index (-1);
          cell \<leftarrow> vec_get (la_data a) cell_index;
          Some (cell_index, a\<lparr>la_free_cells := cells, la_first_free_cell := next\<rparr>)
        })"

definition linear_allocator_free :: "nat \<Rightarrow> 'a linear_allocator \<Rightarrow> 'a linear_allocator option" where
  "linear_allocator_free index a =
     do {
       cells \<leftarrow> vec_set (la_free_cells a) index (la_first_free_cell a);
       Some (a\<lparr>la_free_cells := cells, la_first_free_cell := int index\<rparr>)
     }"

section \<open>Representation\<close>

text \<open>The links are 64-bit signed integers.\<close>

definition linear_allocator_limit :: nat where
  "linear_allocator_limit = 2 ^ 63"

definition linear_allocator_rep :: "'a linear_allocator \<Rightarrow> nat \<Rightarrow> nat list \<Rightarrow> bool" where
  "linear_allocator_rep a n fs \<longleftrightarrow>
     length (la_data a) = n \<and> length (la_free_cells a) = n \<and> n \<le> linear_allocator_limit \<and>
     distinct fs \<and> set fs \<subseteq> {..<n} \<and>
     chain int (-1) (\<lambda>i. la_free_cells a ! i) (la_first_free_cell a) fs"

lemma linear_allocator_rep_new:
  assumes "n \<le> linear_allocator_limit"
  shows "linear_allocator_rep (linear_allocator_new d n) n [0..<n]"
proof (cases "n = 0")
  case False
  then have "chain int (-1) (\<lambda>i. la_free_cells (linear_allocator_new d n) ! i) (int 0) [0..<n]"
    by (intro chain_upt_succ) (auto simp: linear_allocator_new_def nth_append)
  with False assms show ?thesis
    by (auto simp: linear_allocator_rep_def linear_allocator_new_def)
qed (auto simp: linear_allocator_rep_def linear_allocator_new_def)

lemma linear_allocator_grow:
  assumes "linear_allocator_rep a n []" and "n < linear_allocator_limit"
  shows "\<exists>a'. linear_allocator_allocate d a = Some (n, a') \<and> linear_allocator_rep a' (Suc n) []"
  using assms by (auto simp: linear_allocator_allocate_def linear_allocator_rep_def)

lemma linear_allocator_reuse:
  assumes "linear_allocator_rep a n (i # fs)"
  shows "\<exists>a'. linear_allocator_allocate d a = Some (i, a') \<and> linear_allocator_rep a' n fs"
  using assms chain_list_update [of i fs "la_free_cells a" int "-1" "\<lambda>x. x"]
  by (auto simp: linear_allocator_allocate_def linear_allocator_rep_def)

lemma linear_allocator_release:
  assumes "linear_allocator_rep a n fs" and "i \<in> live_cells n fs"
  shows "\<exists>a'. linear_allocator_free i a = Some a' \<and> linear_allocator_rep a' n (i # fs)"
  using assms chain_list_update [of i fs "la_free_cells a" int "-1" "\<lambda>x. x"]
  by (auto simp: linear_allocator_free_def linear_allocator_rep_def)

interpretation la: slot_allocator "linear_allocator_allocate d" linear_allocator_free
  linear_allocator_rep linear_allocator_limit
  by unfold_locales
    (simp_all add: linear_allocator_grow linear_allocator_reuse linear_allocator_release,
     simp_all add: linear_allocator_rep_def)

section \<open>Properties\<close>

text \<open>
  An allocator constructed with \<open>m\<close> cells hands out \<open>m + k\<close> distinct cells in
  increasing order, never failing, and the cells freed in any order come back in the
  reverse order.
\<close>

theorem linear_allocator_allocation_order:
  assumes "m + k \<le> linear_allocator_limit"
  shows "\<exists>a. repeat_opt (m + k) (linear_allocator_allocate d) (linear_allocator_new d m) =
      Some ([0..<m + k], a) \<and>
    (distinct is \<longrightarrow> set is \<subseteq> {..<m + k} \<longrightarrow>
      (\<exists>a1 a2. fold_opt linear_allocator_free is a = Some a1 \<and>
        repeat_opt (length is) (linear_allocator_allocate d) a1 = Some (rev is, a2)))"
  by (rule la.virgin_allocation_order [where d = d, OF _ assms])
    (use assms linear_allocator_rep_new [of m d] in simp)

theorem linear_allocator_allocation_order_witness:
  "\<exists>a a1 a2. repeat_opt 3 (linear_allocator_allocate ''x'') (linear_allocator_new ''x'' 2) =
       Some ([0, 1, 2], a) \<and>
     fold_opt linear_allocator_free [2, 0] a = Some a1 \<and>
     repeat_opt 2 (linear_allocator_allocate ''x'') a1 = Some ([0, 2], a2)"
proof -
  have "2 + 1 \<le> linear_allocator_limit" by (simp add: linear_allocator_limit_def)
  moreover have "[0..<2 + 1] = [0, 1, 2::nat]" by (simp add: upt_rec)
  ultimately show ?thesis
    using linear_allocator_allocation_order [of 2 1 "''x''" "[2, 0]"]
    by (auto simp: numeral_2_eq_2 numeral_3_eq_3 simp del: repeat_opt.simps fold_opt.simps)
qed

end
