(* ===== verification/Fifo_Queue.thy ===== *)
theory Fifo_Queue
  imports Prelude
begin

text \<open>
  The contract shared by the unbounded queues of \<^verbatim>\<open>src/boson/boson/queues\<close>: a write
  appends, a read removes the oldest element or reports that there is none. The locale
  fixes the two operations and the relation to the list of queued elements; every queue
  of the development interprets it, and the facts about whole sequences of writes and
  reads are proved here once.

  \<open>rep q n xs\<close> reads: \<open>q\<close> holds \<open>xs\<close> after at most \<open>n\<close> writes; \<open>within n\<close> says
  that one more write is still in the index range of the implementation.
\<close>

locale fifo_queue =
  fixes put :: "'a \<Rightarrow> 'q \<Rightarrow> 'q option"
    and get :: "'q \<Rightarrow> ('a option \<times> 'q) option"
    and rep :: "'q \<Rightarrow> nat \<Rightarrow> 'a list \<Rightarrow> bool"
    and within :: "nat \<Rightarrow> bool"
  assumes write_rep: "rep q n xs \<Longrightarrow> within n \<Longrightarrow>
      \<exists>q'. put x q = Some q' \<and> rep q' (Suc n) (xs @ [x])"
    and read_rep: "rep q n (x # xs) \<Longrightarrow> \<exists>q'. get q = Some (Some x, q') \<and> rep q' n xs"
    and read_empty: "rep q n [] \<Longrightarrow> \<exists>q'. get q = Some (None, q') \<and> rep q' n []"
begin

lemma write_all:
  assumes "rep q n xs" and "\<And>k. k < length ys \<Longrightarrow> within (n + k)"
  shows "\<exists>q'. fold_opt put ys q = Some q' \<and> rep q' (n + length ys) (xs @ ys)"
  using assms
proof (induction ys arbitrary: q n xs)
  case (Cons y ys)
  from Cons.prems(2) [of 0] write_rep [OF Cons.prems(1)] obtain q1
    where q1: "put y q = Some q1" "rep q1 (Suc n) (xs @ [y])" by auto
  have "within (Suc n + k)" if "k < length ys" for k
    using Cons.prems(2) [of "Suc k"] that by simp
  with Cons.IH [OF q1(2)] obtain q2
    where "fold_opt put ys q1 = Some q2" "rep q2 (Suc n + length ys) ((xs @ [y]) @ ys)" by blast
  with q1 show ?case by simp
qed auto

lemma read_all:
  assumes "rep q n xs"
  shows "\<exists>q'. repeat_opt (length xs) get q = Some (map Some xs, q') \<and> rep q' n []"
  using assms
proof (induction xs arbitrary: q)
  case (Cons x xs)
  from read_rep [OF Cons.prems] obtain q1 where q1: "get q = Some (Some x, q1)" "rep q1 n xs"
    by blast
  from Cons.IH [OF q1(2)] obtain q2
    where "repeat_opt (length xs) get q1 = Some (map Some xs, q2)" "rep q2 n []" by blast
  with q1 show ?case by simp
qed simp

text \<open>Everything written comes out once, in order, and then the queue reports empty.\<close>

lemma write_read_all:
  assumes "rep q n []" and "\<And>k. k < length ys \<Longrightarrow> within (n + k)"
  shows "\<exists>q1 q2. fold_opt put ys q = Some q1 \<and>
    repeat_opt (Suc (length ys)) get q1 = Some (map Some ys @ [None], q2)"
proof -
  from write_all [OF assms] obtain q1
    where q1: "fold_opt put ys q = Some q1" "rep q1 (n + length ys) ys" by auto
  from read_all [OF q1(2)] obtain q2
    where q2: "repeat_opt (length ys) get q1 = Some (map Some ys, q2)" "rep q2 (n + length ys) []"
    by blast
  from read_empty [OF q2(2)] obtain q3 where "get q2 = Some (None, q3)" by blast
  then have "repeat_opt (length ys + 1) get q1 = Some (map Some ys @ [None], q3)"
    unfolding repeat_opt_add q2(1) by simp
  with q1(1) show ?thesis by auto
qed

end

section \<open>Queues shared by several users\<close>

text \<open>
  An operation on a queue that several users share, each with a number of its own, and the
  run of a sequence of them; \<open>spec_run\<close> is the same run on the list of queued elements.
\<close>

datatype ('i, 'a) queue_op = Put 'i 'a | Get 'i

fun run_queue :: "('i \<Rightarrow> 'a \<Rightarrow> 'q \<Rightarrow> 'q option) \<Rightarrow> ('i \<Rightarrow> 'q \<Rightarrow> ('a option \<times> 'q) option) \<Rightarrow>
    ('i, 'a) queue_op list \<Rightarrow> 'q \<Rightarrow> ('a option list \<times> 'q) option" where
  "run_queue put get [] q = Some ([], q)"
| "run_queue put get (Put i x # ops) q = do { q \<leftarrow> put i x q; run_queue put get ops q }"
| "run_queue put get (Get i # ops) q =
     do { (r, q) \<leftarrow> get i q; (rs, q) \<leftarrow> run_queue put get ops q; Some (r # rs, q) }"

fun spec_run :: "('i, 'a) queue_op list \<Rightarrow> 'a list \<Rightarrow> 'a option list \<times> 'a list" where
  "spec_run [] xs = ([], xs)"
| "spec_run (Put i x # ops) xs = spec_run ops (xs @ [x])"
| "spec_run (Get i # ops) [] = (let (rs, ys) = spec_run ops [] in (None # rs, ys))"
| "spec_run (Get i # ops) (x # xs) = (let (rs, ys) = spec_run ops xs in (Some x # rs, ys))"

fun op_ok :: "('i \<Rightarrow> bool) \<Rightarrow> ('a \<Rightarrow> bool) \<Rightarrow> ('i, 'a) queue_op \<Rightarrow> bool" where
  "op_ok user storable (Put i x) \<longleftrightarrow> user i \<and> storable x"
| "op_ok user storable (Get i) \<longleftrightarrow> user i"

lemma run_queue_invariant:
  assumes "run_queue put get ops q = Some (rs, q')" and "I q"
    and "\<And>i x q q'. put i x q = Some q' \<Longrightarrow> I q \<Longrightarrow> I q'" and "\<And>i q r q'. get i q = Some (r, q') \<Longrightarrow> I q \<Longrightarrow> I q'"
  shows "I q'"
  using assms(1,2)
proof (induction ops arbitrary: q rs)
  case (Cons op ops)
  then show ?case using assms(3,4) by (cases op) (auto split: Option.bind_splits)
qed simp

text \<open>
  The contract of such a queue. Only some values can be stored, and \<open>rep q n xs\<close> counts in \<open>n\<close>
  all the operations, because a read of an empty queue may use up a position too.
\<close>

locale shared_queue =
  fixes put :: "'i \<Rightarrow> 'a \<Rightarrow> 'q \<Rightarrow> 'q option"
    and get :: "'i \<Rightarrow> 'q \<Rightarrow> ('a option \<times> 'q) option"
    and rep :: "'q \<Rightarrow> nat \<Rightarrow> 'a list \<Rightarrow> bool"
    and within :: "nat \<Rightarrow> bool" and user :: "'i \<Rightarrow> bool" and storable :: "'a \<Rightarrow> bool"
  assumes put_rep: "rep q n xs \<Longrightarrow> within n \<Longrightarrow> user i \<Longrightarrow> storable x \<Longrightarrow>
      \<exists>q'. put i x q = Some q' \<and> rep q' (Suc n) (xs @ [x])"
    and get_rep: "rep q n (x # xs) \<Longrightarrow> within n \<Longrightarrow> user i \<Longrightarrow>
      \<exists>q'. get i q = Some (Some x, q') \<and> rep q' (Suc n) xs"
    and get_empty: "rep q n [] \<Longrightarrow> within n \<Longrightarrow> user i \<Longrightarrow>
      \<exists>q'. get i q = Some (None, q') \<and> rep q' (Suc n) []"
begin

lemma run_refines:
  assumes "rep q n xs" and "list_all (op_ok user storable) ops" and "\<And>k. k < length ops \<Longrightarrow> within (n + k)"
  shows "\<exists>q'. run_queue put get ops q = Some (fst (spec_run ops xs), q') \<and>
    rep q' (n + length ops) (snd (spec_run ops xs))"
  using assms
proof (induction ops arbitrary: q n xs)
  case (Cons op ops)
  have w1: "within n" using Cons.prems(3) [of 0] by simp
  have w2: "within (Suc n + k)" if "k < length ops" for k
    using Cons.prems(3) [of "Suc k"] that by simp
  show ?case
  proof (cases op)
    case (Put i x)
    with put_rep [OF Cons.prems(1) w1, of i x] Cons.prems(2) obtain q1
      where q1: "put i x q = Some q1" "rep q1 (Suc n) (xs @ [x])" by auto
    from Cons.IH [OF q1(2)] Cons.prems(2) w2 obtain q2
      where "run_queue put get ops q1 = Some (fst (spec_run ops (xs @ [x])), q2)"
        "rep q2 (Suc n + length ops) (snd (spec_run ops (xs @ [x])))" by auto
    with Put q1 show ?thesis by simp
  next
    case (Get i)
    have "\<exists>q1. get i q = Some (if xs = [] then None else Some (hd xs), q1) \<and> rep q1 (Suc n) (tl xs)"
      using get_rep [of q n "hd xs" "tl xs" i] get_empty [of q n i] Cons.prems w1 Get by (cases xs) auto
    then obtain q1 where q1: "get i q = Some (if xs = [] then None else Some (hd xs), q1)" "rep q1 (Suc n) (tl xs)"
      by blast
    from Cons.IH [OF q1(2)] Cons.prems(2) w2 obtain q2
      where "run_queue put get ops q1 = Some (fst (spec_run ops (tl xs)), q2)"
        "rep q2 (Suc n + length ops) (snd (spec_run ops (tl xs)))" by auto
    with Get q1 show ?thesis by (cases xs) (auto split: prod.splits)
  qed
qed simp

end

end
