(* ===== verification/Vectorized_Queue.thy ===== *)
theory Vectorized_Queue
  imports Fifo_Queue
begin

text \<open>
  \<^verbatim>\<open>queues::vectorized_queue\<close>
  (\<^verbatim>\<open>src/boson/boson/queues/vectorized_queue.h\<close>): a queue kept as a doubly linked
  list inside a vector, from which any queued element can be removed through the index its
  write returned. A semaphore keeps its waiters in one. The theory relates the links to
  the list of queued entries and shows that write, read, \<^verbatim>\<open>free\<close> and
  \<^verbatim>\<open>lazy_free\<close> implement the operations on that list.
\<close>

section \<open>The data structure\<close>

text \<open>\<^verbatim>\<open>empty\<close>, the largest \<^verbatim>\<open>size_t\<close>, stands for the absent link.\<close>

definition vq_none :: nat where
  "vq_none = 2 ^ 64 - 1"

text \<open>The value of a cell is raw storage; \<open>None\<close> is storage that holds no element.\<close>

record 'a vq_cell =
  vc_value :: "'a option"
  vc_previous :: nat
  vc_next :: nat

record 'a vectorized_queue =
  vq_data :: "'a vq_cell list"
  vq_first_free_cell :: nat
  vq_head :: nat
  vq_tail :: nat

definition vectorized_queue_empty :: "'a vectorized_queue" where
  "vectorized_queue_empty =
     \<lparr>vq_data = [], vq_first_free_cell = vq_none, vq_head = vq_none, vq_tail = vq_none\<rparr>"

text \<open>
  The sized constructor pushes \<open>initial_size - 1\<close> cells and then writes to
  \<^verbatim>\<open>data_.back()\<close>, which is undefined when no cell was pushed.
\<close>

definition vectorized_queue_sized :: "nat \<Rightarrow> 'a vectorized_queue option" where
  "vectorized_queue_sized initial_size =
     (if initial_size = 0 then Some vectorized_queue_empty
      else
        let cells = map (\<lambda>index. \<lparr>vc_value = None, vc_previous = index, vc_next = index + 1\<rparr>)
                      [0..<initial_size - 1]
        in if cells = [] then None
           else Some \<lparr>vq_data = cells[length cells - 1 :=
                        (last cells)\<lparr>vc_previous := vq_none, vc_next := vq_none\<rparr>],
                      vq_first_free_cell = 0, vq_head = vq_none, vq_tail = vq_none\<rparr>)"

definition vectorized_queue_has :: "nat \<Rightarrow> 'a vectorized_queue \<Rightarrow> bool" where
  "vectorized_queue_has index q \<longleftrightarrow>
     (if index < length (vq_data q) then vc_previous (vq_data q ! index) \<noteq> index else False)"

text \<open>A write to one member of a cell.\<close>

definition vq_upd :: "nat \<Rightarrow> ('a vq_cell \<Rightarrow> 'a vq_cell) \<Rightarrow> 'a vectorized_queue \<Rightarrow> 'a vectorized_queue" where
  "vq_upd i f q = q\<lparr>vq_data := (vq_data q)[i := f (vq_data q ! i)]\<rparr>"

definition vectorized_queue_write ::
  "'a \<Rightarrow> 'a vectorized_queue \<Rightarrow> (nat \<times> 'a vectorized_queue) option" where
  "vectorized_queue_write value q =
     (let (index, q1) =
        (if vq_first_free_cell q = vq_none
         then (length (vq_data q),
               q\<lparr>vq_data := vq_data q @
                  [\<lparr>vc_value = None, vc_previous = length (vq_data q), vc_next = vq_none\<rparr>]\<rparr>)
         else (vq_first_free_cell q, q))
      in if index < length (vq_data q1)
         then
           let q2 = q1\<lparr>vq_first_free_cell := vc_next (vq_data q1 ! index)\<rparr>;
               q3 = vq_upd index (\<lambda>node. node\<lparr>vc_value := Some value, vc_previous := vq_tail q2,
                                              vc_next := vq_none\<rparr>) q2;
               q4 = (if vq_head q3 = vq_none then q3\<lparr>vq_head := index\<rparr> else q3)
           in if vq_tail q4 \<noteq> vq_none
              then if vq_tail q4 < length (vq_data q4)
                   then Some (index, (vq_upd (vq_tail q4) (\<lambda>node. node\<lparr>vc_next := index\<rparr>) q4)
                                       \<lparr>vq_tail := index\<rparr>)
                   else None
              else Some (index, q4\<lparr>vq_tail := index\<rparr>)
         else None)"

text \<open>The three ways of \<^verbatim>\<open>free\<close> to unlink a node: at the head, at the tail, in between.\<close>

definition vq_unlink :: "nat \<Rightarrow> 'a vectorized_queue \<Rightarrow> 'a vectorized_queue option" where
  "vq_unlink index q =
     (let node = vq_data q ! index in
      if index = vq_head q then
        let q1 = q\<lparr>vq_head := vc_next node\<rparr> in
        do {
          q2 \<leftarrow> (if vq_head q1 \<noteq> vq_none
                then if vectorized_queue_has (vq_head q1) q1
                     then Some (vq_upd (vq_head q1) (\<lambda>c. c\<lparr>vc_previous := vq_none\<rparr>) q1)
                     else None
                else Some q1);
          Some (if index = vq_tail q2 then q2\<lparr>vq_tail := vq_none\<rparr> else q2)
        }
      else if index = vq_tail q then
        let q1 = q\<lparr>vq_tail := vc_previous node\<rparr> in
        if vq_tail q1 \<noteq> vq_none
        then if vectorized_queue_has (vq_tail q1) q1
             then Some (vq_upd (vq_tail q1) (\<lambda>c. c\<lparr>vc_next := vq_none\<rparr>) q1)
             else None
        else Some q1
      else
        if vectorized_queue_has (vc_previous node) q \<and> vectorized_queue_has (vc_next node) q
        then let q1 = vq_upd (vc_previous node) (\<lambda>c. c\<lparr>vc_next := vc_next node\<rparr>) q
             in Some (vq_upd (vc_next (vq_data q1 ! index))
                        (\<lambda>c. c\<lparr>vc_previous := vc_previous (vq_data q1 ! index)\<rparr>) q1)
        else None)"

definition vectorized_queue_free :: "nat \<Rightarrow> 'a vectorized_queue \<Rightarrow> 'a vectorized_queue option" where
  "vectorized_queue_free index q =
     (if vectorized_queue_has index q
      then do {
        q1 \<leftarrow> vq_unlink index q;
        let q2 = vq_upd index (\<lambda>node. node\<lparr>vc_value := None, vc_previous := index,
                                            vc_next := vq_first_free_cell q1\<rparr>) q1;
        Some (q2\<lparr>vq_first_free_cell := index\<rparr>)
      }
      else None)"

definition vectorized_queue_lazy_free ::
  "nat \<Rightarrow> 'a vectorized_queue \<Rightarrow> (bool \<times> 'a vectorized_queue) option" where
  "vectorized_queue_lazy_free index q =
     (if index < length (vq_data q) \<and> vc_previous (vq_data q ! index) \<noteq> index
      then do { q1 \<leftarrow> vectorized_queue_free index q; Some (True, q1) }
      else Some (False, q))"

text \<open>\<^verbatim>\<open>read(ValueType\&)\<close> returns a flag and an element: \<open>None\<close> is the flag \<^verbatim>\<open>false\<close>.\<close>

definition vectorized_queue_read ::
  "'a vectorized_queue \<Rightarrow> ('a option \<times> 'a vectorized_queue) option" where
  "vectorized_queue_read q =
     (if vq_head q = vq_none then Some (None, q)
      else if vectorized_queue_has (vq_head q) q
      then do {
        value \<leftarrow> vc_value (vq_data q ! vq_head q);
        q1 \<leftarrow> vectorized_queue_free (vq_head q) q;
        Some (Some value, q1)
      }
      else None)"

section \<open>Representation\<close>

abbreviation vq_next_of :: "'a vectorized_queue \<Rightarrow> nat \<Rightarrow> nat" where
  "vq_next_of q \<equiv> \<lambda>i. vc_next (vq_data q ! i)"

abbreviation vq_prev_of :: "'a vectorized_queue \<Rightarrow> nat \<Rightarrow> nat" where
  "vq_prev_of q \<equiv> \<lambda>i. vc_previous (vq_data q ! i)"

text \<open>
  \<open>vq_links q es fs\<close>: \<open>es\<close> are the queued entries, index and element, oldest first; they
  are linked in both directions. \<open>fs\<close> is the chain of the free cells.
\<close>

definition vq_links :: "'a vectorized_queue \<Rightarrow> (nat \<times> 'a) list \<Rightarrow> nat list \<Rightarrow> bool" where
  "vq_links q es fs \<longleftrightarrow>
     length (vq_data q) \<le> vq_none \<and>
     distinct (map fst es @ fs) \<and> set (map fst es @ fs) = {..<length (vq_data q)} \<and>
     chain (\<lambda>i. i) vq_none (vq_next_of q) (vq_head q) (map fst es) \<and>
     chain (\<lambda>i. i) vq_none (vq_prev_of q) (vq_tail q) (rev (map fst es)) \<and>
     chain (\<lambda>i. i) vq_none (vq_next_of q) (vq_first_free_cell q) fs \<and>
     (\<forall>(i, v)\<in>set es. vc_value (vq_data q ! i) = Some v)"

text \<open>\<open>vq_rep\<close> adds the convention on free cells: \<^verbatim>\<open>previous\<close> is the cell itself.\<close>

definition vq_rep :: "'a vectorized_queue \<Rightarrow> (nat \<times> 'a) list \<Rightarrow> nat list \<Rightarrow> bool" where
  "vq_rep q es fs \<longleftrightarrow> vq_links q es fs \<and> (\<forall>i\<in>set fs. vc_previous (vq_data q ! i) = i)"

lemma vq_repD: "vq_rep q es fs \<Longrightarrow> vq_links q es fs"
  by (simp add: vq_rep_def)

lemma vq_rep_empty [rep_intros]: "vq_rep vectorized_queue_empty [] []"
  by (simp add: vq_rep_def vq_links_def vectorized_queue_empty_def)

lemma vq_upd_simps [simp]:
  "vq_head (vq_upd i f q) = vq_head q"
  "vq_tail (vq_upd i f q) = vq_tail q"
  "vq_first_free_cell (vq_upd i f q) = vq_first_free_cell q"
  "length (vq_data (vq_upd i f q)) = length (vq_data q)"
  by (simp_all add: vq_upd_def)

lemma vq_upd_nth:
  "i < length (vq_data q) \<Longrightarrow>
   vq_data (vq_upd i f q) ! j = (if j = i then f (vq_data q ! i) else vq_data q ! j)"
  by (simp add: vq_upd_def nth_list_update)

lemma vq_links_index:
  assumes "vq_links q es fs" and "i \<in> set (map fst es) \<union> set fs"
  shows "i < length (vq_data q)" and "i \<noteq> vq_none"
  using assms unfolding vq_links_def by auto

lemma vq_links_has:
  assumes "vq_links q es fs" and "i \<in> set (map fst es)"
  shows "vectorized_queue_has i q"
proof -
  from assms(2) obtain ys zs where split: "rev (map fst es) = ys @ i # zs"
    using split_list [of i "rev (map fst es)"] by auto
  from assms have ch: "chain (\<lambda>i. i) vq_none (vq_prev_of q) (vq_tail q) (rev (map fst es))"
    and dist: "distinct (rev (map fst es))" by (auto simp: vq_links_def)
  have "vq_prev_of q i = (if zs = [] then vq_none else hd zs)"
    using chain_next [OF ch [unfolded split]] by simp
  moreover have "i \<notin> set zs" using dist split by simp
  ultimately have "vq_prev_of q i \<noteq> i"
    using vq_links_index [OF assms(1), of i] assms(2) by (cases zs) auto
  then show ?thesis
    using vq_links_index [OF assms(1), of i] assms(2) by (simp add: vectorized_queue_has_def)
qed

text \<open>The ends of the queue and the end of the free chain.\<close>

lemma vq_links_ends:
  assumes "vq_links q es fs"
  shows "vq_head q = (if es = [] then vq_none else hd (map fst es))"
    and "vq_tail q = (if es = [] then vq_none else last (map fst es))"
    and "vq_first_free_cell q = (if fs = [] then vq_none else hd fs)"
    and "vq_head q = vq_none \<longleftrightarrow> es = []"
    and "vq_tail q = vq_none \<longleftrightarrow> es = []"
    and "vq_first_free_cell q = vq_none \<longleftrightarrow> fs = []"
proof -
  show head: "vq_head q = (if es = [] then vq_none else hd (map fst es))"
    and tail: "vq_tail q = (if es = [] then vq_none else last (map fst es))"
    and free: "vq_first_free_cell q = (if fs = [] then vq_none else hd fs)"
    using assms by (auto simp: vq_links_def hd_rev dest!: chain_start)
  have "hd (map fst es) \<noteq> vq_none" "last (map fst es) \<noteq> vq_none" if "es \<noteq> []"
    using that by (auto intro!: vq_links_index(2) [OF assms] simp: hd_map last_map)
  moreover have "hd fs \<noteq> vq_none" if "fs \<noteq> []"
    using that by (auto intro!: vq_links_index(2) [OF assms])
  ultimately show "vq_head q = vq_none \<longleftrightarrow> es = []" "vq_tail q = vq_none \<longleftrightarrow> es = []"
    "vq_first_free_cell q = vq_none \<longleftrightarrow> fs = []"
    using head tail free by (auto split: if_splits)
qed

section \<open>Writing\<close>

text \<open>
  The cell a write uses, and the queue with that cell in front of the free chain: a write
  on a full vector first appends a free cell.
\<close>

definition vq_fresh :: "'a vectorized_queue \<Rightarrow> nat list \<Rightarrow> nat \<times> 'a vectorized_queue" where
  "vq_fresh q fs =
     (if fs = []
      then (length (vq_data q),
            q\<lparr>vq_data := vq_data q @
                 [\<lparr>vc_value = None, vc_previous = length (vq_data q), vc_next = vq_none\<rparr>],
               vq_first_free_cell := length (vq_data q)\<rparr>)
      else (hd fs, q))"

lemma vq_fresh_links:
  assumes "vq_links q es fs" and "fs = [] \<Longrightarrow> length (vq_data q) < vq_none"
    and "vq_fresh q fs = (i, q1)"
  shows "vq_links q1 es (i # tl fs)"
proof (cases fs)
  case (Cons j gs)
  with assms show ?thesis by (auto simp: vq_fresh_def)
next
  case Nil
  let ?c = "\<lparr>vc_value = None, vc_previous = length (vq_data q), vc_next = vq_none\<rparr> :: 'a vq_cell"
  have i: "i = length (vq_data q)" and q1: "q1 = q\<lparr>vq_data := vq_data q @ [?c], vq_first_free_cell := i\<rparr>"
    using assms(3) Nil by (auto simp: vq_fresh_def)
  have D: "distinct (map fst es)" "set (map fst es) = {..<length (vq_data q)}"
    using assms(1) Nil by (auto simp: vq_links_def)
  have "chain (\<lambda>i. i) vq_none (vq_next_of q1) p xs = chain (\<lambda>i. i) vq_none (vq_next_of q) p xs"
    "chain (\<lambda>i. i) vq_none (vq_prev_of q1) p xs = chain (\<lambda>i. i) vq_none (vq_prev_of q) p xs"
    if "set xs \<subseteq> {..<length (vq_data q)}" for p xs
    using that by (auto simp: q1 chain_snoc_list)
  moreover have "vc_value (vq_data q1 ! j) = vc_value (vq_data q ! j)" if "(j, v) \<in> set es" for j v
    using that D(2) by (force simp: q1 nth_append)
  ultimately show ?thesis
    using assms(1,2) Nil D by (auto simp: vq_links_def i q1 lessThan_Suc)
qed

text \<open>Linking the first free cell behind the tail.\<close>

definition vq_link :: "'a \<Rightarrow> nat \<Rightarrow> 'a vectorized_queue \<Rightarrow> 'a vectorized_queue" where
  "vq_link x i q =
     (let q1 = vq_upd i (\<lambda>node. node\<lparr>vc_value := Some x, vc_previous := vq_tail q, vc_next := vq_none\<rparr>)
                 (q\<lparr>vq_first_free_cell := vq_next_of q i\<rparr>)
      in (if vq_tail q = vq_none then q1\<lparr>vq_head := i\<rparr>
          else vq_upd (vq_tail q) (\<lambda>c. c\<lparr>vc_next := i\<rparr>) q1)\<lparr>vq_tail := i\<rparr>)"

lemma vq_write_eq:
  assumes "vq_links q es fs" and "fs = [] \<Longrightarrow> length (vq_data q) < vq_none"
    and "vq_fresh q fs = (i, q1)"
  shows "vectorized_queue_write x q = Some (i, vq_link x i q1)"
proof -
  note links1 = vq_fresh_links [OF assms]
  from vq_links_index [OF links1, of i] have i: "i < length (vq_data q1)" "i \<noteq> vq_none" by auto
  have ends: "vq_head q1 = vq_none \<longleftrightarrow> vq_tail q1 = vq_none"
    using vq_links_ends [OF links1] by simp
  have tail: "vq_tail q1 \<noteq> vq_none \<Longrightarrow> vq_tail q1 < length (vq_data q1)"
    using vq_links_ends(2) [OF links1] vq_links_index(1) [OF links1, of "vq_tail q1"]
    by (auto simp: last_map split: if_splits)
  have fresh: "(if vq_first_free_cell q = vq_none
       then (length (vq_data q),
             q\<lparr>vq_data := vq_data q @
                [\<lparr>vc_value = None, vc_previous = length (vq_data q), vc_next = vq_none\<rparr>]\<rparr>)
       else (vq_first_free_cell q, q)) = (i, q1\<lparr>vq_first_free_cell := vq_first_free_cell q\<rparr>)"
    using assms(3) vq_links_ends(3,6) [OF assms(1)] by (auto simp: vq_fresh_def)
  show ?thesis
    using i ends tail
    by (simp add: vectorized_queue_write_def fresh Let_def vq_link_def)
qed

lemma vq_link_fields:
  assumes "i < length (vq_data q)" and "vq_tail q \<noteq> vq_none \<Longrightarrow> vq_tail q < length (vq_data q)"
    and "vq_tail q \<noteq> i"
  shows "vq_data (vq_link x i q) ! j =
      (if j = i then (vq_data q ! i)\<lparr>vc_value := Some x, vc_previous := vq_tail q, vc_next := vq_none\<rparr>
       else if vq_tail q \<noteq> vq_none \<and> j = vq_tail q then (vq_data q ! j)\<lparr>vc_next := i\<rparr>
       else vq_data q ! j)"
    and "vq_head (vq_link x i q) = (if vq_tail q = vq_none then i else vq_head q)"
    and "vq_tail (vq_link x i q) = i"
    and "vq_first_free_cell (vq_link x i q) = vq_next_of q i"
    and "length (vq_data (vq_link x i q)) = length (vq_data q)"
  using assms by (auto simp: vq_link_def Let_def vq_upd_nth)

lemma vq_link_links:
  assumes "vq_links q es (i # gs)"
  shows "vq_links (vq_link x i q) (es @ [(i, x)]) gs"
proof -
  define xs where "xs = map fst es"
  have D: "distinct (xs @ i # gs)" "set (xs @ i # gs) = {..<length (vq_data q)}"
      "length (vq_data q) \<le> vq_none"
    and Cn: "chain (\<lambda>i. i) vq_none (vq_next_of q) (vq_head q) xs"
    and Cp: "chain (\<lambda>i. i) vq_none (vq_prev_of q) (vq_tail q) (rev xs)"
    and Cf: "chain (\<lambda>i. i) vq_none (vq_next_of q) (vq_next_of q i) gs"
    and V: "\<forall>(i, v)\<in>set es. vc_value (vq_data q ! i) = Some v"
    using assms by (auto simp: vq_links_def xs_def)
  have i: "i < length (vq_data q)" "i \<notin> set xs" "i \<notin> set gs" using D by auto
  have tail: "vq_tail q = (if xs = [] then vq_none else last xs)" "vq_tail q = vq_none \<longleftrightarrow> xs = []"
    using vq_links_ends(2,5) [OF assms] by (simp_all add: xs_def)
  have last: "xs \<noteq> [] \<Longrightarrow> last xs \<in> set xs" by simp
  have lt: "vq_tail q \<noteq> vq_none \<Longrightarrow> vq_tail q < length (vq_data q)" "vq_tail q \<noteq> i"
    using tail last D i by (auto split: if_splits)
  note F = vq_link_fields [OF i(1) lt, of x]
  let ?q' = "vq_link x i q"
  have "chain (\<lambda>i. i) vq_none (vq_next_of ?q') (vq_head ?q') (xs @ [i])"
    by (rule chain_snoc [OF Cn]) (use D i tail in \<open>auto simp: F\<close>)
  moreover have "chain (\<lambda>i. i) vq_none (vq_prev_of ?q') (vq_tail ?q') (rev (xs @ [i]))"
  proof -
    have "chain (\<lambda>i. i) vq_none (vq_prev_of ?q') p (rev xs) =
        chain (\<lambda>i. i) vq_none (vq_prev_of q) p (rev xs)" for p
      by (rule chain_cong) (use i(2) in \<open>auto simp: F\<close>)
    with Cp show ?thesis by (simp add: F)
  qed
  moreover have "chain (\<lambda>i. i) vq_none (vq_next_of ?q') (vq_first_free_cell ?q') gs"
  proof -
    have "j \<noteq> last xs" if "j \<in> set gs" "xs \<noteq> []" for j
      using that D(1) last_notin [of xs "set gs"] by auto
    then have "chain (\<lambda>i. i) vq_none (vq_next_of ?q') p gs =
        chain (\<lambda>i. i) vq_none (vq_next_of q) p gs"
      for p by (intro chain_cong) (use i tail in \<open>auto simp: F\<close>)
    with Cf show ?thesis by (simp add: F)
  qed
  moreover have "\<forall>(j, v)\<in>set (es @ [(i, x)]). vc_value (vq_data ?q' ! j) = Some v"
  proof (clarify)
    fix j v assume jv: "(j, v) \<in> set (es @ [(i, x)])"
    show "vc_value (vq_data ?q' ! j) = Some v"
    proof (cases "(j, v) \<in> set es")
      case True
      then have "j \<in> set xs" by (force simp: xs_def)
      with True V i(2) show ?thesis by (auto simp: F)
    next
      case False
      with jv show ?thesis by (simp add: F)
    qed
  qed
  ultimately show ?thesis using D by (auto simp: vq_links_def F(5) xs_def)
qed

section \<open>Freeing\<close>

text \<open>The links of an entry, from its place in the queue.\<close>

lemma vq_links_neighbours:
  assumes "vq_links q es fs" and "map fst es = as @ i # bs"
  shows "vq_next_of q i = (if bs = [] then vq_none else hd bs)"
    and "vq_prev_of q i = (if as = [] then vq_none else last as)"
    and "i = vq_head q \<longleftrightarrow> as = []" and "i = vq_tail q \<longleftrightarrow> bs = []"
proof -
  have D: "distinct (as @ i # bs)"
    and Cn: "chain (\<lambda>i. i) vq_none (vq_next_of q) (vq_head q) (as @ i # bs)"
    and Cp: "chain (\<lambda>i. i) vq_none (vq_prev_of q) (vq_tail q) (rev bs @ i # rev as)"
    using assms by (auto simp: vq_links_def)
  show "vq_next_of q i = (if bs = [] then vq_none else hd bs)"
    using chain_next [OF Cn] by simp
  show "vq_prev_of q i = (if as = [] then vq_none else last as)"
    using chain_next [OF Cp] by (simp add: hd_rev)
  show "i = vq_head q \<longleftrightarrow> as = []"
    using chain_start [OF Cn] D by (cases as) auto
  show "i = vq_tail q \<longleftrightarrow> bs = []"
    using chain_start [OF Cp] D by (cases bs rule: rev_cases) auto
qed

text \<open>What unlinking an entry leaves behind.\<close>

lemma vq_unlink_fields:
  assumes links: "vq_links q es fs" and split: "map fst es = as @ i # bs"
  shows "\<exists>q1. vq_unlink i q = Some q1 \<and>
    vq_head q1 = (if as = [] then vq_next_of q i else vq_head q) \<and>
    vq_tail q1 = (if bs = [] then vq_prev_of q i else vq_tail q) \<and>
    vq_first_free_cell q1 = vq_first_free_cell q \<and> length (vq_data q1) = length (vq_data q) \<and>
    (\<forall>j. vq_next_of q1 j = (if as \<noteq> [] \<and> j = last as then vq_next_of q i else vq_next_of q j) \<and>
         vq_prev_of q1 j = (if bs \<noteq> [] \<and> j = hd bs then vq_prev_of q i else vq_prev_of q j) \<and>
         vc_value (vq_data q1 ! j) = vc_value (vq_data q ! j))"
proof -
  note N = vq_links_neighbours [OF links split]
  have D: "distinct (as @ i # bs)" using links split by (auto simp: vq_links_def)
  have in_range: "j < length (vq_data q)" "j \<noteq> vq_none" "vectorized_queue_has j q"
    if "j \<in> set (as @ i # bs)" for j
    using that vq_links_index [OF links, of j] vq_links_has [OF links, of j] by (auto simp: split)
  have has_upd: "vectorized_queue_has j (q\<lparr>vq_head := h\<rparr>) = vectorized_queue_has j q"
    "vectorized_queue_has j (q\<lparr>vq_tail := h\<rparr>) = vectorized_queue_has j q" for j h
    by (simp_all add: vectorized_queue_has_def)
  have la: "as \<noteq> [] \<Longrightarrow> last as \<in> set (as @ i # bs)" "as \<noteq> [] \<Longrightarrow> last as \<noteq> i"
    and hb: "bs \<noteq> [] \<Longrightarrow> hd bs \<in> set (as @ i # bs)" "bs \<noteq> [] \<Longrightarrow> hd bs \<noteq> i"
    using D last_in_set [of as] hd_in_set [of bs] by auto
  have ab: "as \<noteq> [] \<Longrightarrow> bs \<noteq> [] \<Longrightarrow> last as \<noteq> hd bs"
    using D last_neq_hd [of as bs] by auto
  consider (only) "as = []" "bs = []" | (first) "as = []" "bs \<noteq> []"
    | (final) "as \<noteq> []" "bs = []" | (inner) "as \<noteq> []" "bs \<noteq> []" by blast
  then show ?thesis
  proof cases
    case only
    with N show ?thesis by (simp add: vq_unlink_def Let_def)
  next
    case first
    with N in_range hb show ?thesis
      by (auto simp: vq_unlink_def Let_def has_upd vq_upd_nth)
  next
    case final
    with N in_range la show ?thesis
      by (auto simp: vq_unlink_def Let_def has_upd vq_upd_nth)
  next
    case inner
    with N in_range la hb ab show ?thesis
      by (auto simp: vq_unlink_def Let_def vq_upd_nth)
  qed
qed

lemma filter_entries:
  assumes "distinct (map fst es)" and "map fst es = as @ i # bs"
  shows "map fst (filter (\<lambda>e. fst e \<noteq> i) es) = as @ bs"
proof -
  have "map fst (filter (\<lambda>e. fst e \<noteq> i) es) = filter (\<lambda>k. k \<noteq> i) (map fst es)"
    by (simp add: filter_map comp_def)
  also have "\<dots> = as @ bs"
  proof -
    have "filter (\<lambda>k. k \<noteq> i) as = as" "filter (\<lambda>k. k \<noteq> i) bs = bs"
      using assms by (auto intro!: filter_True)
    then show ?thesis by (simp add: assms(2))
  qed
  finally show ?thesis .
qed

lemma vq_free_links:
  assumes links: "vq_links q es fs" and i: "i \<in> set (map fst es)"
  shows "\<exists>q'. vectorized_queue_free i q = Some q' \<and>
    vq_links q' (filter (\<lambda>e. fst e \<noteq> i) es) (i # fs) \<and>
    length (vq_data q') = length (vq_data q) \<and> vq_prev_of q' i = i \<and>
    (\<forall>j\<in>set fs. vq_prev_of q' j = vq_prev_of q j)"
proof -
  define xs where "xs = map fst es"
  from i obtain as bs where split: "xs = as @ i # bs" by (metis split_list xs_def)
  have D: "distinct (xs @ fs)" "set (xs @ fs) = {..<length (vq_data q)}"
      "length (vq_data q) \<le> vq_none"
    and Cn: "chain (\<lambda>i. i) vq_none (vq_next_of q) (vq_head q) (as @ i # bs)"
    and Cp: "chain (\<lambda>i. i) vq_none (vq_prev_of q) (vq_tail q) (rev bs @ i # rev as)"
    and Cf: "chain (\<lambda>i. i) vq_none (vq_next_of q) (vq_first_free_cell q) fs"
    and V: "\<forall>(i, v)\<in>set es. vc_value (vq_data q ! i) = Some v"
    using links [unfolded vq_links_def, folded xs_def] by (simp_all add: split)
  from vq_unlink_fields [OF links, of as i bs] split obtain q1
    where q1: "vq_unlink i q = Some q1" "length (vq_data q1) = length (vq_data q)"
      "vq_first_free_cell q1 = vq_first_free_cell q"
      "vq_head q1 = (if as = [] then vq_next_of q i else vq_head q)"
      "vq_tail q1 = (if bs = [] then vq_prev_of q i else vq_tail q)"
    and nx: "\<And>j. vq_next_of q1 j = (if as \<noteq> [] \<and> j = last as then vq_next_of q i else vq_next_of q j)"
    and pv: "\<And>j. vq_prev_of q1 j = (if bs \<noteq> [] \<and> j = hd bs then vq_prev_of q i else vq_prev_of q j)"
    and vl: "\<And>j. vc_value (vq_data q1 ! j) = vc_value (vq_data q ! j)"
    by (auto simp: xs_def)
  have il: "i < length (vq_data q1)" using D(2) split q1(2) by auto
  define q' where "q' = (vq_upd i (\<lambda>node. node\<lparr>vc_value := None, vc_previous := i,
      vc_next := vq_first_free_cell q1\<rparr>) q1)\<lparr>vq_first_free_cell := i\<rparr>"
  have free: "vectorized_queue_free i q = Some q'"
    using vq_links_has [OF links i] q1(1) by (simp add: vectorized_queue_free_def q'_def)
  have F: "vq_head q' = vq_head q1" "vq_tail q' = vq_tail q1" "vq_first_free_cell q' = i"
    "length (vq_data q') = length (vq_data q)"
    "vq_data q' ! j = (if j = i then (vq_data q1 ! i)\<lparr>vc_value := None, vc_previous := i,
      vc_next := vq_first_free_cell q1\<rparr> else vq_data q1 ! j)" for j
    using il q1(2) by (simp_all add: q'_def vq_upd_nth)
  have notin: "j \<noteq> i" if "j \<in> set (as @ bs) \<union> set fs" for j
    using that D(1) split by auto
  have keys: "map fst (filter (\<lambda>e. fst e \<noteq> i) es) = as @ bs"
    using filter_entries [of es as i bs] D(1) split by (simp add: xs_def)
  have "chain (\<lambda>i. i) vq_none (vq_next_of q') (vq_head q') (as @ bs)"
    by (rule chain_remove [OF Cn]) (use D(1) split notin in \<open>auto simp: F nx q1\<close>)
  moreover have "chain (\<lambda>i. i) vq_none (vq_prev_of q') (vq_tail q') (rev bs @ rev as)"
    by (rule chain_remove [OF Cp]) (use D(1) split notin in \<open>auto simp: F pv q1 last_rev\<close>)
  moreover have "chain (\<lambda>i. i) vq_none (vq_next_of q') (vq_first_free_cell q') (i # fs)"
  proof -
    have "j \<noteq> last as" if "j \<in> set fs" "as \<noteq> []" for j
      using that D(1) split last_notin [of as "set fs"] by auto
    then have "chain (\<lambda>i. i) vq_none (vq_next_of q') p fs = chain (\<lambda>i. i) vq_none (vq_next_of q) p fs"
      for p by (intro chain_cong) (use notin in \<open>auto simp: F nx\<close>)
    with Cf show ?thesis by (simp add: F q1)
  qed
  moreover have "\<forall>(j, v)\<in>set (filter (\<lambda>e. fst e \<noteq> i) es). vc_value (vq_data q' ! j) = Some v"
    using V by (auto simp: F vl)
  ultimately have "vq_links q' (filter (\<lambda>e. fst e \<noteq> i) es) (i # fs)"
    using D split by (auto simp: vq_links_def keys F(4))
  moreover have "vq_prev_of q' j = vq_prev_of q j" if "j \<in> set fs" for j
  proof -
    have "\<not> (bs \<noteq> [] \<and> j = hd bs)"
      using that D(1) split hd_notin [of bs "set fs"] by auto
    with that notin show ?thesis by (auto simp: F pv)
  qed
  ultimately show ?thesis using free F(4) by (auto simp: F)
qed

section \<open>The operations on entries\<close>

lemma vq_write_rep:
  assumes "vq_links q es fs" and "fs = [] \<Longrightarrow> length (vq_data q) < vq_none"
  shows "\<exists>i q'. vectorized_queue_write x q = Some (i, q') \<and> vq_links q' (es @ [(i, x)]) (tl fs) \<and>
    i \<notin> set (map fst es) \<and> length (vq_data q') \<le> Suc (length (vq_data q)) \<and>
    (vq_rep q es fs \<longrightarrow> vq_rep q' (es @ [(i, x)]) (tl fs))"
proof -
  obtain i q1 where fresh: "vq_fresh q fs = (i, q1)" by fastforce
  note links1 = vq_fresh_links [OF assms fresh]
  have i: "i < length (vq_data q1)" using vq_links_index(1) [OF links1, of i] by simp
  have notin: "i \<notin> set (map fst es)" "i \<notin> set (tl fs)"
    using links1 by (auto simp: vq_links_def)
  have tail: "vq_tail q1 \<noteq> vq_none \<Longrightarrow> vq_tail q1 \<in> set (map fst es)"
    using vq_links_ends(2) [OF links1] by (auto simp: last_map split: if_splits)
  have lt: "vq_tail q1 < length (vq_data q1)" if "vq_tail q1 \<noteq> vq_none"
    using tail [OF that] by (intro vq_links_index(1) [OF links1] UnI1)
  have ne: "vq_tail q1 \<noteq> i"
  proof (cases "vq_tail q1 = vq_none")
    case True
    then show ?thesis using vq_links_index(2) [OF links1, of i] by simp
  next
    case False
    then show ?thesis using tail notin by blast
  qed
  note F = vq_link_fields [OF i lt ne, of x]
  have len: "length (vq_data q1) \<le> Suc (length (vq_data q))"
    using fresh by (auto simp: vq_fresh_def split: if_splits)
  have "vq_prev_of (vq_link x i q1) j = vq_prev_of q j" if "j \<in> set (tl fs)" for j
  proof -
    have "j \<noteq> i" using that notin by auto
    moreover have "vq_data q1 = vq_data q" using fresh that by (auto simp: vq_fresh_def split: if_splits)
    ultimately show ?thesis by (auto simp: F)
  qed
  moreover have "set (tl fs) \<subseteq> set fs" by (cases fs) auto
  ultimately have "vq_rep q es fs \<longrightarrow> vq_rep (vq_link x i q1) (es @ [(i, x)]) (tl fs)"
    using vq_link_links [OF links1, of x] by (auto simp: vq_rep_def)
  moreover have "length (vq_data (vq_link x i q1)) \<le> Suc (length (vq_data q))"
    using len F(5) by simp
  ultimately show ?thesis
    using vq_write_eq [OF assms fresh, of x] vq_link_links [OF links1, of x] notin(1) by blast
qed

lemma vq_free_rep:
  assumes "vq_rep q es fs" and "i \<in> set (map fst es)"
  shows "\<exists>q'. vectorized_queue_free i q = Some q' \<and>
    vq_rep q' (filter (\<lambda>e. fst e \<noteq> i) es) (i # fs) \<and> length (vq_data q') = length (vq_data q)"
  using vq_free_links [OF vq_repD [OF assms(1)] assms(2)] assms(1)
  by (auto simp: vq_rep_def)

lemma vq_has_iff:
  assumes "vq_rep q es fs"
  shows "vectorized_queue_has i q \<longleftrightarrow> i \<in> set (map fst es)"
proof (cases "i \<in> set fs")
  case True
  with assms have "\<not> vectorized_queue_has i q" and "i \<notin> set (map fst es)"
    by (auto simp: vq_rep_def vq_links_def vectorized_queue_has_def)
  then show ?thesis by simp
next
  case False
  from assms have "set (map fst es @ fs) = {..<length (vq_data q)}"
    by (simp add: vq_rep_def vq_links_def)
  with False have "i < length (vq_data q) \<longleftrightarrow> i \<in> set (map fst es)" by auto
  then show ?thesis
    using vq_links_has [OF vq_repD [OF assms], of i] by (auto simp: vectorized_queue_has_def)
qed

lemma vq_read_links:
  assumes "vq_links q ((i, v) # es) fs"
  shows "\<exists>q'. vectorized_queue_read q = Some (Some v, q') \<and> vq_links q' es (i # fs) \<and>
    length (vq_data q') = length (vq_data q) \<and>
    (vq_rep q ((i, v) # es) fs \<longrightarrow> vq_rep q' es (i # fs))"
proof -
  have head: "vq_head q = i" "i \<noteq> vq_none"
    using vq_links_ends(1,4) [OF assms] by auto
  have "\<forall>e\<in>set es. fst e \<noteq> i" using assms by (auto simp: vq_links_def image_iff)
  then have keep: "filter (\<lambda>e. fst e \<noteq> i) ((i, v) # es) = es" by simp
  have val: "vc_value (vq_data q ! i) = Some v" using assms by (simp add: vq_links_def)
  from vq_free_links [OF assms, of i] obtain q'
    where q': "vectorized_queue_free i q = Some q'" "vq_links q' es (i # fs)"
      "length (vq_data q') = length (vq_data q)" "vq_prev_of q' i = i"
      "\<forall>j\<in>set fs. vq_prev_of q' j = vq_prev_of q j"
    unfolding keep by auto
  have "vectorized_queue_read q = Some (Some v, q')"
    using head val q'(1) vq_links_has [OF assms, of i] by (simp add: vectorized_queue_read_def)
  with q' show ?thesis by (auto simp: vq_rep_def)
qed

lemma vq_read_empty:
  "vq_links q [] fs \<Longrightarrow> vectorized_queue_read q = Some (None, q)"
  using vq_links_ends(1) by (fastforce simp: vectorized_queue_read_def)

text \<open>The queue as a FIFO, forgetting the indices.\<close>

definition vq_holds :: "'a vectorized_queue \<Rightarrow> nat \<Rightarrow> 'a list \<Rightarrow> bool" where
  "vq_holds q n xs \<longleftrightarrow> (\<exists>es fs. vq_links q es fs \<and> map snd es = xs \<and> length (vq_data q) \<le> n)"

lemma vq_holds_write:
  assumes "vq_holds q n xs" and "n < vq_none"
  shows "\<exists>q'. map_option snd (vectorized_queue_write x q) = Some q' \<and> vq_holds q' (Suc n) (xs @ [x])"
proof -
  from assms(1) obtain es fs where "vq_links q es fs" "map snd es = xs" "length (vq_data q) \<le> n"
    by (auto simp: vq_holds_def)
  with vq_write_rep [of q es fs x] assms(2) obtain i q' where
    "vectorized_queue_write x q = Some (i, q')" "vq_links q' (es @ [(i, x)]) (tl fs)"
    "length (vq_data q') \<le> Suc n" "map snd (es @ [(i, x)]) = xs @ [x]"
    by auto
  then show ?thesis unfolding vq_holds_def by fastforce
qed

lemma vq_holds_read:
  assumes "vq_holds q n (x # xs)"
  shows "\<exists>q'. vectorized_queue_read q = Some (Some x, q') \<and> vq_holds q' n xs"
proof -
  from assms obtain i es fs where "vq_links q ((i, x) # es) fs" "map snd es = xs"
    "length (vq_data q) \<le> n" by (fastforce simp: vq_holds_def)
  with vq_read_links [of q i x es fs] show ?thesis unfolding vq_holds_def by fastforce
qed

interpretation vq: fifo_queue "\<lambda>x q. map_option snd (vectorized_queue_write x q)"
  vectorized_queue_read vq_holds "\<lambda>n. n < vq_none"
proof (unfold_locales, goal_cases)
  case (1 q n xs x)
  then show ?case by (rule vq_holds_write)
next
  case (2 q n x xs)
  then show ?case by (rule vq_holds_read)
next
  case (3 q n)
  then show ?case by (auto simp: vq_holds_def vq_read_empty)
qed

section \<open>Refinement of a queue of entries\<close>

text \<open>
  The abstract queue is the list of entries. Its operations: a write appends an entry under
  an index that no queued entry has; \<^verbatim>\<open>lazy_free\<close> removes the entry of an index and
  tells whether there was one; a read takes the oldest entry.
\<close>

datatype 'a vq_op = VqWrite 'a | VqLazyFree nat | VqRead

datatype 'a vq_result = VqIndex nat | VqFreed bool | VqElement "'a option"

inductive vq_spec :: "(nat \<times> 'a) list \<Rightarrow> 'a vq_op list \<Rightarrow> 'a vq_result list \<Rightarrow> (nat \<times> 'a) list \<Rightarrow> bool"
where
  vq_spec_done: "vq_spec es [] [] es"
| vq_spec_write: "i \<notin> set (map fst es) \<Longrightarrow> vq_spec (es @ [(i, x)]) ops rs es' \<Longrightarrow>
    vq_spec es (VqWrite x # ops) (VqIndex i # rs) es'"
| vq_spec_lazy_free: "vq_spec (filter (\<lambda>e. fst e \<noteq> i) es) ops rs es' \<Longrightarrow>
    vq_spec es (VqLazyFree i # ops) (VqFreed (i \<in> set (map fst es)) # rs) es'"
| vq_spec_read: "vq_spec es ops rs es' \<Longrightarrow>
    vq_spec ((i, x) # es) (VqRead # ops) (VqElement (Some x) # rs) es'"
| vq_spec_read_empty: "vq_spec [] ops rs es' \<Longrightarrow>
    vq_spec [] (VqRead # ops) (VqElement None # rs) es'"

fun vq_exec :: "'a vq_op \<Rightarrow> 'a vectorized_queue \<Rightarrow> ('a vq_result \<times> 'a vectorized_queue) option" where
  "vq_exec (VqWrite x) q = map_option (\<lambda>(i, q'). (VqIndex i, q')) (vectorized_queue_write x q)"
| "vq_exec (VqLazyFree i) q = map_option (\<lambda>(b, q'). (VqFreed b, q')) (vectorized_queue_lazy_free i q)"
| "vq_exec VqRead q = map_option (\<lambda>(r, q'). (VqElement r, q')) (vectorized_queue_read q)"

fun vq_run :: "'a vq_op list \<Rightarrow> 'a vectorized_queue \<Rightarrow> ('a vq_result list \<times> 'a vectorized_queue) option" where
  "vq_run [] q = Some ([], q)"
| "vq_run (a # as) q = do { (r, q1) \<leftarrow> vq_exec a q; (rs, q2) \<leftarrow> vq_run as q1; Some (r # rs, q2) }"

lemma vq_lazy_free_rep:
  assumes "vq_rep q es fs"
  shows "\<exists>q' fs'. vectorized_queue_lazy_free i q = Some (i \<in> set (map fst es), q') \<and>
    vq_rep q' (filter (\<lambda>e. fst e \<noteq> i) es) fs' \<and> length (vq_data q') = length (vq_data q)"
proof (cases "i \<in> set (map fst es)")
  case True
  from vq_free_rep [OF assms True] vq_has_iff [OF assms, of i] True show ?thesis
    by (auto simp: vectorized_queue_lazy_free_def vectorized_queue_has_def split: if_splits)
next
  case False
  then have "filter (\<lambda>e. fst e \<noteq> i) es = es" by (auto intro!: filter_True)
  moreover have "\<not> vectorized_queue_has i q" using vq_has_iff [OF assms] False by simp
  ultimately show ?thesis
    using assms False
    by (auto simp: vectorized_queue_lazy_free_def vectorized_queue_has_def split: if_splits)
qed

lemma vq_exec_rep:
  assumes "vq_rep q es fs" and "length (vq_data q) < vq_none"
  shows "\<exists>r q' es' fs'. vq_exec a q = Some (r, q') \<and> vq_rep q' es' fs' \<and>
    length (vq_data q') \<le> Suc (length (vq_data q)) \<and>
    (\<forall>ops rs es''. vq_spec es' ops rs es'' \<longrightarrow> vq_spec es (a # ops) (r # rs) es'')"
proof (cases a)
  case (VqWrite x)
  from vq_write_rep [OF vq_repD [OF assms(1)], of x] assms obtain i q' where
    "vectorized_queue_write x q = Some (i, q')" "i \<notin> set (map fst es)"
    "length (vq_data q') \<le> Suc (length (vq_data q))" "vq_rep q' (es @ [(i, x)]) (tl fs)"
    by blast
  with VqWrite show ?thesis
    by (intro exI [of _ "VqIndex i"] exI [of _ q'] exI [of _ "es @ [(i, x)]"] exI [of _ "tl fs"])
      (simp add: vq_spec_write)
next
  case (VqLazyFree i)
  from vq_lazy_free_rep [OF assms(1), of i] obtain q' fs' where
    "vectorized_queue_lazy_free i q = Some (i \<in> set (map fst es), q')"
    "vq_rep q' (filter (\<lambda>e. fst e \<noteq> i) es) fs'" "length (vq_data q') = length (vq_data q)"
    by blast
  with VqLazyFree show ?thesis
    by (intro exI [of _ "VqFreed (i \<in> set (map fst es))"] exI [of _ q']
        exI [of _ "filter (\<lambda>e. fst e \<noteq> i) es"] exI [of _ fs'])
      (auto intro: vq_spec_lazy_free simp del: set_map)
next
  case VqRead
  show ?thesis
  proof (cases es)
    case Nil
    with assms VqRead vq_read_empty [of q fs] show ?thesis
      by (intro exI [of _ "VqElement None"] exI [of _ q] exI [of _ "[]"] exI [of _ fs])
        (simp add: vq_repD vq_spec_read_empty)
  next
    case (Cons e es1)
    obtain i x where "e = (i, x)" by fastforce
    with Cons assms vq_read_links [of q i x es1 fs] obtain q' where
      "vectorized_queue_read q = Some (Some x, q')" "vq_rep q' es1 (i # fs)"
      "length (vq_data q') = length (vq_data q)" by (auto simp: vq_rep_def)
    with VqRead Cons \<open>e = (i, x)\<close> show ?thesis
      by (intro exI [of _ "VqElement (Some x)"] exI [of _ q'] exI [of _ es1] exI [of _ "i # fs"])
        (simp add: vq_spec_read)
  qed
qed

text \<open>
  C16: the vectorized queue refines the queue of entries. Run any sequence of writes, lazy
  frees and reads on a well-formed queue: no assertion fails and no access is out of
  range, and the results are results the abstract queue of entries gives for the same
  operations, in the same order.
\<close>

theorem vectorized_queue_refines:
  assumes "vq_rep q es fs" and "length (vq_data q) + length ops \<le> vq_none"
  shows "\<exists>rs q' es' fs'. vq_run ops q = Some (rs, q') \<and> vq_rep q' es' fs' \<and> vq_spec es ops rs es'"
  using assms
proof (induction ops arbitrary: q es fs)
  case Nil
  then show ?case by (auto intro: vq_spec_done)
next
  case (Cons a ops)
  then have "length (vq_data q) < vq_none" by simp
  from vq_exec_rep [OF Cons.prems(1) this, of a] obtain r q1 es1 fs1 where
    1: "vq_exec a q = Some (r, q1)" "vq_rep q1 es1 fs1" "length (vq_data q1) \<le> Suc (length (vq_data q))"
    "\<And>ops rs es''. vq_spec es1 ops rs es'' \<Longrightarrow> vq_spec es (a # ops) (r # rs) es''"
    by blast
  from Cons.IH [OF 1(2)] 1(3) Cons.prems(2) obtain rs q' es' fs' where
    "vq_run ops q1 = Some (rs, q')" "vq_rep q' es' fs'" "vq_spec es1 ops rs es'" by auto
  with 1 show ?case by fastforce
qed

theorem vectorized_queue_refines_witness:
  "\<exists>rs q' es'. vq_run [VqWrite ''a'', VqWrite ''b'', VqLazyFree 0, VqRead, VqRead]
       vectorized_queue_empty = Some (rs, q') \<and>
     vq_spec [] [VqWrite ''a'', VqWrite ''b'', VqLazyFree 0, VqRead, VqRead] rs es'"
  using vectorized_queue_refines [OF vq_rep_empty,
      of "[VqWrite ''a'', VqWrite ''b'', VqLazyFree 0, VqRead, VqRead]"]
  by (auto simp: vectorized_queue_empty_def vq_none_def simp del: vq_run.simps)

section \<open>Properties of single operations\<close>

text \<open>
  Cancelling a queued element. \<^verbatim>\<open>lazy_free\<close> returns true exactly when the index
  denotes a queued entry; it removes that entry from whatever place it has and leaves the
  order of all others, and on a free or unknown index it changes nothing.
\<close>

theorem vectorized_queue_lazy_free_correct:
  assumes "vq_rep q es fs"
  shows "\<exists>q' fs'. vectorized_queue_lazy_free i q = Some (i \<in> set (map fst es), q') \<and>
    vq_rep q' (filter (\<lambda>e. fst e \<noteq> i) es) fs' \<and> (i \<notin> set (map fst es) \<longrightarrow> q' = q)"
proof -
  have "q' = q" if "vectorized_queue_lazy_free i q = Some (False, q')" for q'
    using that by (auto simp: vectorized_queue_lazy_free_def bind_eq_Some_conv split: if_splits)
  with vq_lazy_free_rep [OF assms, of i] show ?thesis by fastforce
qed

theorem vectorized_queue_lazy_free_correct_witness:
  "\<exists>q'. vectorized_queue_lazy_free 4 (vectorized_queue_empty :: nat vectorized_queue) = Some (False, q') \<and>
     q' = vectorized_queue_empty"
  using vectorized_queue_lazy_free_correct [OF vq_rep_empty, of 4] by auto

text \<open>
  First in, first out. Starting from the empty queue, any elements written are read
  back once each in the order of the writes, after which a read reports an empty queue.
\<close>

theorem vectorized_queue_fifo:
  assumes "length xs \<le> vq_none"
  shows "\<exists>q1 q2.
    fold_opt (\<lambda>x q. map_option snd (vectorized_queue_write x q)) xs vectorized_queue_empty = Some q1 \<and>
    repeat_opt (Suc (length xs)) vectorized_queue_read q1 = Some (map Some xs @ [None], q2)"
proof -
  have "vq_holds vectorized_queue_empty 0 []"
    using vq_repD [OF vq_rep_empty] by (auto simp: vq_holds_def vectorized_queue_empty_def)
  then show ?thesis by (rule vq.write_read_all) (use assms in auto)
qed

theorem vectorized_queue_fifo_witness:
  "\<exists>q1 q2. fold_opt (\<lambda>x q. map_option snd (vectorized_queue_write x q)) [7, 8 :: nat]
        vectorized_queue_empty = Some q1 \<and>
     repeat_opt 3 vectorized_queue_read q1 = Some ([Some 7, Some 8, None], q2)"
proof -
  have "length [7, 8 :: nat] \<le> vq_none" by (simp add: vq_none_def)
  from vectorized_queue_fifo [OF this] show ?thesis
    by (simp add: eval_nat_numeral del: fold_opt.simps repeat_opt.simps)
qed

text \<open>
  The sized constructor breaks the convention on free cells: it marks its last free
  cell as occupied. With an initial size of one it writes to the back of an empty vector;
  with a size of \<open>n + 2\<close> the queue is empty, yet \<^verbatim>\<open>has(n)\<close> is true and
  \<^verbatim>\<open>lazy_free(n)\<close>, documented to do nothing on a cell that does not exist, tries to
  unlink it and accesses cells out of range.
\<close>

theorem vectorized_queue_sized_defect:
  assumes "n < vq_none"
  shows "vectorized_queue_sized 1 = None \<and>
    (\<exists>q. vectorized_queue_sized (n + 2) = Some q \<and> vq_head q = vq_none \<and>
      vectorized_queue_has n q \<and> vectorized_queue_lazy_free n q = None)"
  using assms
  by (auto simp: vectorized_queue_sized_def vectorized_queue_has_def vectorized_queue_lazy_free_def
      vectorized_queue_free_def vq_unlink_def Let_def)

theorem vectorized_queue_sized_defect_witness:
  "(vectorized_queue_sized 1 :: nat vectorized_queue option) = None \<and>
   (\<exists>q :: nat vectorized_queue. vectorized_queue_sized 5 = Some q \<and>
      vectorized_queue_has 3 q \<and> vectorized_queue_lazy_free 3 q = None)"
  using vectorized_queue_sized_defect [of 3, where 'a = nat] by (auto simp: vq_none_def)

end
