(* ===== verification/Simple_Queue.thy ===== *)
theory Simple_Queue
  imports Fifo_Queue
begin

text \<open>
  The mutex-protected queues: \<^verbatim>\<open>queues::simple_queue\<close> and
  \<^verbatim>\<open>queues::simple_void_queue\<close> (\<^verbatim>\<open>src/boson/boson/queues/simple.h\<close>,
  \<^verbatim>\<open>src/boson/src/queues/simple.cc\<close>), and the variant of \<^verbatim>\<open>queues::lcrq\<close> that
  \<^verbatim>\<open>BOSON_DISABLE_LOCKFREE\<close> selects (\<^verbatim>\<open>src/boson/src/queues/lcrq.cc\<close>). Each
  operation holds the mutex for its whole body, so it is one atomic step on the deque. The
  queues of \<^verbatim>\<open>void*\<close> report an empty queue by \<^verbatim>\<open>nullptr\<close>; a pointer is an
  \<open>option\<close>, with \<open>None\<close> for \<^verbatim>\<open>nullptr\<close>.
\<close>

section \<open>The queues\<close>

record 'a simple_queue =
  sq_queue :: "'a list"

definition simple_queue_new :: "'a simple_queue" where
  "simple_queue_new = \<lparr>sq_queue = []\<rparr>"

definition simple_queue_write :: "'a \<Rightarrow> 'a simple_queue \<Rightarrow> 'a simple_queue" where
  "simple_queue_write value q = q\<lparr>sq_queue := sq_queue q @ [value]\<rparr>"

definition simple_queue_read :: "'a simple_queue \<Rightarrow> 'a option \<times> 'a simple_queue" where
  "simple_queue_read q =
     (case sq_queue q of
        [] \<Rightarrow> (None, q)
      | value # rest \<Rightarrow> (Some value, q\<lparr>sq_queue := rest\<rparr>))"

record 'p simple_void_queue =
  svq_queue :: "'p option list"

definition simple_void_queue_new :: "nat \<Rightarrow> 'p simple_void_queue" where
  "simple_void_queue_new nprocs = \<lparr>svq_queue = []\<rparr>"

definition simple_void_queue_write ::
  "nat \<Rightarrow> 'p option \<Rightarrow> 'p simple_void_queue \<Rightarrow> 'p simple_void_queue" where
  "simple_void_queue_write proc_id data q = q\<lparr>svq_queue := svq_queue q @ [data]\<rparr>"

definition simple_void_queue_read ::
  "nat \<Rightarrow> 'p simple_void_queue \<Rightarrow> 'p option \<times> 'p simple_void_queue" where
  "simple_void_queue_read proc_id q =
     (case svq_queue q of
        [] \<Rightarrow> (None, q)
      | data # rest \<Rightarrow> (data, q\<lparr>svq_queue := rest\<rparr>))"

record 'p locked_lcrq =
  ll_queue :: "'p option list"

definition locked_lcrq_new :: "nat \<Rightarrow> 'p locked_lcrq" where
  "locked_lcrq_new nprocs = \<lparr>ll_queue = []\<rparr>"

definition locked_lcrq_write :: "nat \<Rightarrow> 'p option \<Rightarrow> 'p locked_lcrq \<Rightarrow> 'p locked_lcrq" where
  "locked_lcrq_write proc_id data q = q\<lparr>ll_queue := ll_queue q @ [data]\<rparr>"

definition locked_lcrq_read :: "nat \<Rightarrow> 'p locked_lcrq \<Rightarrow> 'p option \<times> 'p locked_lcrq" where
  "locked_lcrq_read proc_id q =
     (if ll_queue q \<noteq> [] then (hd (ll_queue q), q\<lparr>ll_queue := tl (ll_queue q)\<rparr>) else (None, q))"

section \<open>They are queues\<close>

interpretation sq: fifo_queue "\<lambda>x q. Some (simple_queue_write x q)" "\<lambda>q. Some (simple_queue_read q)"
  "\<lambda>q n xs. sq_queue q = xs" "\<lambda>n. True"
  by unfold_locales (auto simp: simple_queue_write_def simple_queue_read_def)

text \<open>The queues of pointers are queues of the non-null pointers, for any processor ids.\<close>

interpretation svq: fifo_queue "\<lambda>x q. Some (simple_void_queue_write i (Some x) q)"
  "\<lambda>q. Some (simple_void_queue_read j q)" "\<lambda>q n xs. svq_queue q = map Some xs" "\<lambda>n. True"
  by unfold_locales (auto simp: simple_void_queue_write_def simple_void_queue_read_def)

interpretation llq: fifo_queue "\<lambda>x q. Some (locked_lcrq_write i (Some x) q)"
  "\<lambda>q. Some (locked_lcrq_read j q)" "\<lambda>q n xs. ll_queue q = map Some xs" "\<lambda>n. True"
  by unfold_locales (auto simp: locked_lcrq_write_def locked_lcrq_read_def)

text \<open>
  The three mutex-protected queues return what was written to them once each and in
  order and then report an empty queue; the two queues of pointers do so for non-null
  pointers, whichever processor ids the writer \<open>i\<close> and the reader \<open>j\<close> pass.
\<close>

theorem simple_queues_fifo:
  "(\<exists>q1 q2. fold_opt (\<lambda>x q. Some (simple_queue_write x q)) xs simple_queue_new = Some q1 \<and>
      repeat_opt (Suc (length xs)) (\<lambda>q. Some (simple_queue_read q)) q1 =
        Some (map Some xs @ [None], q2)) \<and>
   (\<exists>q1 q2. fold_opt (\<lambda>x q. Some (simple_void_queue_write i (Some x) q)) xs
        (simple_void_queue_new n) = Some q1 \<and>
      repeat_opt (Suc (length xs)) (\<lambda>q. Some (simple_void_queue_read j q)) q1 =
        Some (map Some xs @ [None], q2)) \<and>
   (\<exists>q1 q2. fold_opt (\<lambda>x q. Some (locked_lcrq_write i (Some x) q)) xs (locked_lcrq_new n) = Some q1 \<and>
      repeat_opt (Suc (length xs)) (\<lambda>q. Some (locked_lcrq_read j q)) q1 =
        Some (map Some xs @ [None], q2))"
  using sq.write_read_all [of simple_queue_new xs]
    svq.write_read_all [where i = i and j = j and q = "simple_void_queue_new n" and ys = xs]
    llq.write_read_all [where i = i and j = j and q = "locked_lcrq_new n" and ys = xs]
  by (simp add: simple_queue_new_def simple_void_queue_new_def locked_lcrq_new_def
      del: repeat_opt.simps)

end
