(* ===== verification/Flat_Unordered_Set.thy ===== *)
theory Flat_Unordered_Set
  imports Prelude
begin

text \<open>
  \<^verbatim>\<open>memory::flat_unordered_set\<close>
  (\<^verbatim>\<open>src/boson/boson/memory/flat_unordered_set.h\<close>): a set kept as a vector and searched
  linearly. An iterator is modelled by its offset, which stays meaningful when the vector
  reallocates (a C++ iterator does not); the offset of \<^verbatim>\<open>end()\<close> is the length. The theory shows that sequences of insertions and erasures implement the
  operations on finite sets.
\<close>

section \<open>The data structure\<close>

record 'a flat_unordered_set =
  fs_values :: "'a list"

text \<open>\<^verbatim>\<open>std::find\<close> over the whole vector.\<close>

fun find_offset :: "'a \<Rightarrow> 'a list \<Rightarrow> nat" where
  "find_offset x [] = 0"
| "find_offset x (y # ys) = (if y = x then 0 else Suc (find_offset x ys))"

definition flat_unordered_set_new :: "nat \<Rightarrow> 'a \<Rightarrow> 'a flat_unordered_set" where
  "flat_unordered_set_new size0 default_value = \<lparr>fs_values = replicate size0 default_value\<rparr>"

definition flat_unordered_set_insert ::
  "'a \<Rightarrow> 'a flat_unordered_set \<Rightarrow> (nat \<times> bool) \<times> 'a flat_unordered_set" where
  "flat_unordered_set_insert value s =
     (let position = find_offset value (fs_values s) in
      if position = length (fs_values s)
      then ((position, True), s\<lparr>fs_values := fs_values s @ [value]\<rparr>)
      else ((position, False), s))"

definition flat_unordered_set_erase ::
  "'a \<Rightarrow> 'a flat_unordered_set \<Rightarrow> nat \<times> 'a flat_unordered_set" where
  "flat_unordered_set_erase value s =
     (let pos = find_offset value (fs_values s) in
      if pos = length (fs_values s) then (0, s)
      else (1, s\<lparr>fs_values := take pos (fs_values s) @ drop (Suc pos) (fs_values s)\<rparr>))"

definition flat_unordered_set_size :: "'a flat_unordered_set \<Rightarrow> nat" where
  "flat_unordered_set_size s = length (fs_values s)"

section \<open>It is a set\<close>

definition flat_set_rep :: "'a flat_unordered_set \<Rightarrow> 'a set \<Rightarrow> bool" where
  "flat_set_rep s A \<longleftrightarrow> distinct (fs_values s) \<and> set (fs_values s) = A"

lemma find_offset_notin: "find_offset x ys = length ys \<longleftrightarrow> x \<notin> set ys"
  by (induction ys) auto

lemma find_offset_end: "x \<notin> set ys \<Longrightarrow> find_offset x ys = length ys"
  by (simp add: find_offset_notin)

lemma find_offset_in:
  "x \<in> set ys \<Longrightarrow> find_offset x ys < length ys \<and> ys ! find_offset x ys = x"
  by (induction ys) auto

lemma find_offset_erase:
  "x \<in> set ys \<Longrightarrow> take (find_offset x ys) ys @ drop (Suc (find_offset x ys)) ys = remove1 x ys"
  by (induction ys) auto

lemma flat_set_insert_rep:
  assumes "flat_set_rep s A"
  shows "\<exists>i s'. flat_unordered_set_insert x s = ((i, x \<notin> A), s') \<and> flat_set_rep s' (insert x A) \<and>
    i < length (fs_values s') \<and> fs_values s' ! i = x"
  using assms find_offset_in [of x "fs_values s"]
  by (auto simp: flat_set_rep_def flat_unordered_set_insert_def find_offset_notin find_offset_end
      Let_def)

lemma flat_set_erase_rep:
  assumes "flat_set_rep s A"
  shows "\<exists>s'. flat_unordered_set_erase x s = (if x \<in> A then 1 else 0, s') \<and> flat_set_rep s' (A - {x})"
  using assms
  by (auto simp: flat_set_rep_def flat_unordered_set_erase_def find_offset_notin find_offset_erase
      Let_def)

section \<open>Runs of operations\<close>

datatype 'a flat_op = FlatInsert 'a | FlatErase 'a

fun flat_exec :: "'a flat_op \<Rightarrow> 'a flat_unordered_set \<Rightarrow> bool \<times> 'a flat_unordered_set" where
  "flat_exec (FlatInsert x) s = (let ((_, b), s') = flat_unordered_set_insert x s in (b, s'))"
| "flat_exec (FlatErase x) s = (let (n, s') = flat_unordered_set_erase x s in (n = 1, s'))"

fun flat_run :: "'a flat_op list \<Rightarrow> 'a flat_unordered_set \<Rightarrow> bool list \<times> 'a flat_unordered_set" where
  "flat_run [] s = ([], s)"
| "flat_run (a # as) s = (let (b, s1) = flat_exec a s; (bs, s2) = flat_run as s1 in (b # bs, s2))"

fun set_run :: "'a flat_op list \<Rightarrow> 'a set \<Rightarrow> bool list \<times> 'a set" where
  "set_run [] A = ([], A)"
| "set_run (FlatInsert x # as) A = (let (bs, B) = set_run as (insert x A) in ((x \<notin> A) # bs, B))"
| "set_run (FlatErase x # as) A = (let (bs, B) = set_run as (A - {x}) in ((x \<in> A) # bs, B))"

lemma flat_run_rep:
  assumes "flat_set_rep s A"
  shows "\<exists>s'. flat_run as s = (fst (set_run as A), s') \<and> flat_set_rep s' (snd (set_run as A))"
  using assms
proof (induction as arbitrary: s A)
  case (Cons a as)
  show ?case
  proof (cases a)
    case (FlatInsert x)
    from flat_set_insert_rep [OF Cons.prems, of x] obtain i s1
      where s1: "flat_unordered_set_insert x s = ((i, x \<notin> A), s1)" "flat_set_rep s1 (insert x A)" by blast
    from Cons.IH [OF s1(2)] FlatInsert s1(1) show ?thesis
      by (auto simp: Let_def split: prod.splits)
  next
    case (FlatErase x)
    from flat_set_erase_rep [OF Cons.prems, of x] obtain s1
      where s1: "flat_unordered_set_erase x s = (if x \<in> A then 1 else 0, s1)" "flat_set_rep s1 (A - {x})"
      by blast
    from Cons.IH [OF s1(2)] FlatErase s1(1) show ?thesis
      by (auto simp: Let_def split: prod.splits if_splits)
  qed
qed simp

text \<open>
  From an empty set, any sequence of insertions and erasures returns the flags a
  mathematical set returns (inserted iff absent, erased iff present), leaves exactly its
  elements without duplicates, and \<^verbatim>\<open>size()\<close> is its cardinality.
\<close>

theorem flat_unordered_set_refines:
  "fst (flat_run as (flat_unordered_set_new 0 d)) = fst (set_run as {}) \<and>
   set (fs_values (snd (flat_run as (flat_unordered_set_new 0 d)))) = snd (set_run as {}) \<and>
   flat_unordered_set_size (snd (flat_run as (flat_unordered_set_new 0 d))) = card (snd (set_run as {}))"
proof -
  have "flat_set_rep (flat_unordered_set_new 0 d) {}"
    by (simp add: flat_set_rep_def flat_unordered_set_new_def)
  from flat_run_rep [OF this, of as] obtain s'
    where "flat_run as (flat_unordered_set_new 0 d) = (fst (set_run as {}), s')"
      and "distinct (fs_values s')" and "set (fs_values s') = snd (set_run as {})"
    unfolding flat_set_rep_def by blast
  then show ?thesis using distinct_card [of "fs_values s'"] by (simp add: flat_unordered_set_size_def)
qed

end
