(* ===== verification/Local_Ptr.thy ===== *)
theory Local_Ptr
  imports Prelude
begin

text \<open>
  \<^verbatim>\<open>memory::local_ptr\<close> (\<^verbatim>\<open>src/boson/boson/memory/local_ptr.h\<close>): a reference
  counted pointer whose value can be invalidated for all its copies at once. The runtime
  keeps the waiting slot of a routine behind such pointers: timers, event loop and
  semaphores hold copies, and the routine invalidates them when it wakes up.

  The aliasing is the point of the class, so the model has an explicit store: the live
  \<^verbatim>\<open>references\<close> blocks, the live objects of type \<open>T\<close>, and the live
  \<^verbatim>\<open>local_ptr\<close> variables with their \<^verbatim>\<open>ref_\<close>. Addresses returned by
  \<^verbatim>\<open>new\<close> and names of constructed variables are arguments. A dangling access, a double
  \<^verbatim>\<open>delete\<close> or a failed assertion is \<open>None\<close>.
\<close>

section \<open>The store\<close>

record references =
  shared_refs :: nat
  ref_value :: "nat option"

record 'a lp_store =
  lp_refs :: "nat \<rightharpoonup> references"
  lp_objs :: "nat \<rightharpoonup> 'a"
  lp_ptrs :: "nat \<rightharpoonup> nat option"

text \<open>\<^verbatim>\<open>delete\<close> of a possibly null object pointer.\<close>

fun delete_value :: "nat option \<Rightarrow> 'a lp_store \<Rightarrow> 'a lp_store option" where
  "delete_value None s = Some s"
| "delete_value (Some ob) s =
     (if ob \<in> dom (lp_objs s) then Some (s\<lparr>lp_objs := (lp_objs s)(ob := None)\<rparr>) else None)"

definition set_ref :: "nat \<Rightarrow> nat option \<Rightarrow> 'a lp_store \<Rightarrow> 'a lp_store" where
  "set_ref h p s = s\<lparr>lp_ptrs := (lp_ptrs s)(h \<mapsto> p)\<rparr>"

section \<open>The operations\<close>

definition local_ptr_decrement :: "nat \<Rightarrow> 'a lp_store \<Rightarrow> 'a lp_store option" where
  "local_ptr_decrement h s =
     do { ref \<leftarrow> lp_ptrs s h;
          case ref of
            None \<Rightarrow> Some s
          | Some r \<Rightarrow>
              do { b \<leftarrow> lp_refs s r;
                   if shared_refs b = 0 then None
                   else if shared_refs b - 1 = 0 then
                     do { s1 \<leftarrow> delete_value (ref_value b) s;
                          Some (set_ref h None (s1\<lparr>lp_refs := (lp_refs s1)(r := None)\<rparr>)) }
                   else Some (s\<lparr>lp_refs := (lp_refs s)(r \<mapsto> b\<lparr>shared_refs := shared_refs b - 1\<rparr>)\<rparr>) } }"

text \<open>The shared tail of the copy operations: take over the other pointer and count it.\<close>

definition local_ptr_retain :: "nat \<Rightarrow> nat option \<Rightarrow> 'a lp_store \<Rightarrow> 'a lp_store option" where
  "local_ptr_retain h ref s =
     (case ref of
        None \<Rightarrow> Some (set_ref h None s)
      | Some r \<Rightarrow>
          do { b \<leftarrow> lp_refs s r;
               Some (set_ref h (Some r)
                 (s\<lparr>lp_refs := (lp_refs s)(r \<mapsto> b\<lparr>shared_refs := shared_refs b + 1\<rparr>)\<rparr>)) })"

definition local_ptr_default :: "nat \<Rightarrow> 'a lp_store \<Rightarrow> 'a lp_store option" where
  "local_ptr_default h s = Some (set_ref h None s)"

definition local_ptr_from :: "nat \<Rightarrow> nat \<Rightarrow> nat option \<Rightarrow> 'a lp_store \<Rightarrow> 'a lp_store option" where
  "local_ptr_from h r in_value s =
     Some (set_ref h (Some r)
       (s\<lparr>lp_refs := (lp_refs s)(r \<mapsto> \<lparr>shared_refs = 1, ref_value = in_value\<rparr>)\<rparr>))"

definition local_ptr_from_value :: "nat \<Rightarrow> nat \<Rightarrow> nat \<Rightarrow> 'a \<Rightarrow> 'a lp_store \<Rightarrow> 'a lp_store option" where
  "local_ptr_from_value h r ob v s =
     local_ptr_from h r (Some ob) (s\<lparr>lp_objs := (lp_objs s)(ob \<mapsto> v)\<rparr>)"

definition local_ptr_copy :: "nat \<Rightarrow> nat \<Rightarrow> 'a lp_store \<Rightarrow> 'a lp_store option" where
  "local_ptr_copy h other s = do { ref \<leftarrow> lp_ptrs s other; local_ptr_retain h ref s }"

definition local_ptr_move :: "nat \<Rightarrow> nat \<Rightarrow> 'a lp_store \<Rightarrow> 'a lp_store option" where
  "local_ptr_move h other s =
     do { ref \<leftarrow> lp_ptrs s other; Some (set_ref other None (set_ref h ref s)) }"

definition local_ptr_assign_copy :: "nat \<Rightarrow> nat \<Rightarrow> 'a lp_store \<Rightarrow> 'a lp_store option" where
  "local_ptr_assign_copy h other s =
     do { s1 \<leftarrow> local_ptr_decrement h s;
          ref \<leftarrow> lp_ptrs s1 other;
          local_ptr_retain h ref s1 }"

definition local_ptr_assign_move :: "nat \<Rightarrow> nat \<Rightarrow> 'a lp_store \<Rightarrow> 'a lp_store option" where
  "local_ptr_assign_move h other s =
     do { s1 \<leftarrow> local_ptr_decrement h s;
          ref \<leftarrow> lp_ptrs s1 other;
          Some (set_ref other None (set_ref h ref s1)) }"

definition local_ptr_assign_null :: "nat \<Rightarrow> 'a lp_store \<Rightarrow> 'a lp_store option" where
  "local_ptr_assign_null h s = do { s1 \<leftarrow> local_ptr_decrement h s; Some (set_ref h None s1) }"

text \<open>The destructor; the variable ceases to exist.\<close>

definition local_ptr_destroy :: "nat \<Rightarrow> 'a lp_store \<Rightarrow> 'a lp_store option" where
  "local_ptr_destroy h s =
     do { s1 \<leftarrow> local_ptr_decrement h s; Some (s1\<lparr>lp_ptrs := (lp_ptrs s1)(h := None)\<rparr>) }"

definition local_ptr_reset :: "nat \<Rightarrow> nat option \<Rightarrow> 'a lp_store \<Rightarrow> 'a lp_store option" where
  "local_ptr_reset h new_value s =
     do { ref \<leftarrow> lp_ptrs s h;
          case ref of
            None \<Rightarrow> Some s
          | Some r \<Rightarrow>
              do { b \<leftarrow> lp_refs s r;
                   s1 \<leftarrow> delete_value (ref_value b) s;
                   Some (s1\<lparr>lp_refs := (lp_refs s1)(r \<mapsto> b\<lparr>ref_value := new_value\<rparr>)\<rparr>) } }"

definition local_ptr_invalidate_all :: "nat \<Rightarrow> 'a lp_store \<Rightarrow> 'a lp_store option" where
  "local_ptr_invalidate_all h s = local_ptr_reset h None s"

text \<open>\<^verbatim>\<open>operator bool\<close> and \<^verbatim>\<open>operator*\<close>.\<close>

definition local_ptr_bool :: "nat \<Rightarrow> 'a lp_store \<Rightarrow> bool option" where
  "local_ptr_bool h s =
     do { ref \<leftarrow> lp_ptrs s h;
          case ref of
            None \<Rightarrow> Some False
          | Some r \<Rightarrow> do { b \<leftarrow> lp_refs s r; Some (ref_value b \<noteq> None) } }"

definition local_ptr_deref :: "nat \<Rightarrow> 'a lp_store \<Rightarrow> 'a option" where
  "local_ptr_deref h s =
     do { ref \<leftarrow> lp_ptrs s h; r \<leftarrow> ref; b \<leftarrow> lp_refs s r; ob \<leftarrow> ref_value b; lp_objs s ob }"

section \<open>The invariant\<close>

text \<open>
  The count of a block is the number of variables that point to it and is positive, every
  variable points to a live block, and every block owns a live object of its own or none.
\<close>

definition holders :: "(nat \<rightharpoonup> nat option) \<Rightarrow> nat \<Rightarrow> nat set" where
  "holders p r = {h. p h = Some (Some r)}"

definition owned_once :: "(nat \<rightharpoonup> references) \<Rightarrow> bool" where
  "owned_once m \<longleftrightarrow> (\<forall>r r' b b' ob. m r = Some b \<and> m r' = Some b' \<and>
     ref_value b = Some ob \<and> ref_value b' = Some ob \<longrightarrow> r = r')"

definition lp_inv :: "'a lp_store \<Rightarrow> bool" where
  "lp_inv s \<longleftrightarrow> finite (dom (lp_ptrs s)) \<and>
     (\<forall>r b. lp_refs s r = Some b \<longrightarrow> shared_refs b = card (holders (lp_ptrs s) r) \<and> 0 < shared_refs b \<and>
        (\<forall>ob. ref_value b = Some ob \<longrightarrow> ob \<in> dom (lp_objs s))) \<and>
     (\<forall>h r. lp_ptrs s h = Some (Some r) \<longrightarrow> r \<in> dom (lp_refs s)) \<and>
     owned_once (lp_refs s)"

definition lp_empty :: "'a lp_store" where
  "lp_empty = \<lparr>lp_refs = Map.empty, lp_objs = Map.empty, lp_ptrs = Map.empty\<rparr>"

lemma lp_inv_empty: "lp_inv lp_empty"
  by (simp add: lp_inv_def lp_empty_def owned_once_def)

lemma lp_invD:
  assumes "lp_inv s"
  shows "finite (holders (lp_ptrs s) r)"
    and "lp_ptrs s h = Some (Some r) \<Longrightarrow> \<exists>b. lp_refs s r = Some b"
    and "lp_refs s r = Some b \<Longrightarrow> shared_refs b = card (holders (lp_ptrs s) r)"
    and "lp_refs s r = Some b \<Longrightarrow> 0 < shared_refs b"
    and "lp_refs s r = Some b \<Longrightarrow> ref_value b = Some ob \<Longrightarrow> \<exists>x. lp_objs s ob = Some x"
    and "lp_refs s r = Some b \<Longrightarrow> lp_refs s r' = Some b' \<Longrightarrow>
      ref_value b = Some ob \<Longrightarrow> ref_value b' = Some ob \<Longrightarrow> r = r'"
proof -
  from assms have "finite (dom (lp_ptrs s))" by (simp add: lp_inv_def)
  then show "finite (holders (lp_ptrs s) r)"
    by (rule rev_finite_subset) (auto simp: holders_def)
qed (use assms in \<open>fastforce simp: lp_inv_def owned_once_def\<close>)+

lemma holders_upd [simp]:
  "holders (p(h \<mapsto> v)) r = (if v = Some r then insert h (holders p r) else holders p r - {h})"
  "holders (p(h := None)) r = holders p r - {h}"
  by (auto simp: holders_def)

lemma holders_iff: "h \<in> holders p r \<longleftrightarrow> p h = Some (Some r)"
  by (simp add: holders_def)

text \<open>Giving up a pointer: what \<^verbatim>\<open>decrement\<close> followed by a new \<^verbatim>\<open>ref_\<close> relies on.\<close>

lemma delete_value_inv:
  assumes inv: "lp_inv s" and b: "lp_refs s r = Some b"
  shows "\<exists>s1. delete_value (ref_value b) s = Some s1 \<and> lp_refs s1 = lp_refs s \<and> lp_ptrs s1 = lp_ptrs s \<and>
    (\<forall>r' b' ob. lp_refs s r' = Some b' \<and> r' \<noteq> r \<and> ref_value b' = Some ob \<longrightarrow>
       lp_objs s1 ob = lp_objs s ob) \<and>
    (\<forall>ob. ref_value b = Some ob \<longrightarrow> lp_objs s1 ob = None) \<and>
    (\<forall>ob. lp_objs s ob = None \<longrightarrow> lp_objs s1 ob = None)"
proof (cases "ref_value b")
  case (Some ob)
  with lp_invD(5) [OF inv b] lp_invD(6) [OF inv _ b] show ?thesis by fastforce
qed simp

lemma lp_invI:
  assumes "finite (dom (lp_ptrs s))"
    and "\<And>r b. lp_refs s r = Some b \<Longrightarrow> shared_refs b = card (holders (lp_ptrs s) r) \<and> 0 < shared_refs b"
    and "\<And>r b ob. lp_refs s r = Some b \<Longrightarrow> ref_value b = Some ob \<Longrightarrow> lp_objs s ob \<noteq> None"
    and "\<And>h r. lp_ptrs s h = Some (Some r) \<Longrightarrow> lp_refs s r \<noteq> None"
    and "\<And>r r' b b' ob. lp_refs s r = Some b \<Longrightarrow> lp_refs s r' = Some b' \<Longrightarrow>
      ref_value b = Some ob \<Longrightarrow> ref_value b' = Some ob \<Longrightarrow> r = r'"
  shows "lp_inv s"
  using assms unfolding lp_inv_def owned_once_def by blast

lemma lp_finite: "lp_inv s \<Longrightarrow> finite (dom (lp_ptrs s))"
  by (simp add: lp_inv_def)

lemma free_block_inv:
  assumes inv: "lp_inv s" and r: "lp_refs s r = Some b" and only: "holders (lp_ptrs s) r = {h}"
    and s1: "lp_refs s1 = lp_refs s" "lp_ptrs s1 = lp_ptrs s"
    and objs: "\<And>r' b' ob. lp_refs s r' = Some b' \<Longrightarrow> r' \<noteq> r \<Longrightarrow> ref_value b' = Some ob \<Longrightarrow>
      lp_objs s1 ob = lp_objs s ob"
  shows "lp_inv (set_ref h None (s1\<lparr>lp_refs := (lp_refs s1)(r := None)\<rparr>))"
proof (rule lp_invI, goal_cases)
  case 1
  show ?case using lp_finite [OF inv] s1 by (simp add: set_ref_def)
next
  case (2 r' b')
  then have b': "lp_refs s r' = Some b'" and "r' \<noteq> r"
    using s1 by (auto simp: set_ref_def split: if_splits)
  moreover have "lp_ptrs s h = Some (Some r)" using only by (auto simp flip: holders_iff)
  ultimately have "h \<notin> holders (lp_ptrs s) r'" by (simp add: holders_iff)
  then show ?case using lp_invD(3,4) [OF inv b'] s1 by (simp add: set_ref_def)
next
  case (3 r' b' ob)
  then show ?case using lp_invD(5) [OF inv, of r' b' ob] objs [of r' b' ob] s1
    by (auto simp: set_ref_def split: if_splits)
next
  case (4 g r')
  then have "g \<noteq> h" and g: "lp_ptrs s g = Some (Some r')" using s1 by (auto simp: set_ref_def split: if_splits)
  then have "r' \<noteq> r" using only by (auto simp: holders_def)
  with lp_invD(2) [OF inv g] s1 show ?case by (auto simp: set_ref_def)
next
  case (5 r1 r2 b1 b2 ob)
  then show ?case using lp_invD(6) [OF inv, of r1 b1 r2 b2 ob] s1 by (auto simp: set_ref_def split: if_splits)
qed

lemma update_block_inv:
  assumes inv: "lp_inv s" and r: "lp_refs s r = Some b" and v: "ref_value b' = ref_value b"
    and cnt: "shared_refs b' = card (holders (lp_ptrs (set_ref h p s)) r)" "0 < shared_refs b'"
    and p: "\<And>q. p = Some q \<Longrightarrow> q = r"
    and h: "\<And>q. lp_ptrs s h = Some (Some q) \<Longrightarrow> q = r"
  shows "lp_inv (set_ref h p (s\<lparr>lp_refs := (lp_refs s)(r \<mapsto> b')\<rparr>))" (is "lp_inv ?s'")
proof -
  have before: "\<exists>b0. lp_refs s q = Some b0 \<and> ref_value b0 = ref_value b1"
    if "lp_refs ?s' q = Some b1" for q b1
    using that r v by (auto simp: set_ref_def split: if_splits)
  show ?thesis
  proof (rule lp_invI, goal_cases)
    case 1
    show ?case using lp_finite [OF inv] by (simp add: set_ref_def)
  next
    case (2 r1 b1)
    show ?case
    proof (cases "r1 = r")
      case False
      with 2 have "lp_refs s r1 = Some b1" by (simp add: set_ref_def)
      moreover from False h have "h \<notin> holders (lp_ptrs s) r1" by (auto simp: holders_def)
      ultimately show ?thesis using lp_invD(3,4) [OF inv, of r1 b1] False p by (auto simp: set_ref_def)
    qed (use 2 cnt in \<open>simp add: set_ref_def\<close>)
  next
    case (3 r1 b1 ob)
    from before [OF 3(1)] lp_invD(5) [OF inv, of r1 _ ob] 3(2) show ?case
      by (fastforce simp: set_ref_def)
  next
    case (4 g r1)
    then show ?case using lp_invD(2) [OF inv, of g r1] p r
      by (auto simp: set_ref_def split: if_splits)
  next
    case (5 r1 r2 b1 b2 ob)
    from before [OF 5(1)] before [OF 5(2)] 5(3,4) lp_invD(6) [OF inv, of r1 _ r2 _ ob] show ?case
      by fastforce
  qed
qed

lemma decrement_inv:
  assumes inv: "lp_inv s" and h: "lp_ptrs s h = Some ref"
  shows "\<exists>s1. local_ptr_decrement h s = Some s1 \<and> lp_inv (set_ref h None s1) \<and>
    (\<forall>g. g \<noteq> h \<longrightarrow> lp_ptrs s1 g = lp_ptrs s g) \<and> lp_ptrs s1 h \<in> {Some None, Some ref} \<and>
    (\<forall>r. lp_ptrs s1 h = Some (Some r) \<longrightarrow> lp_refs s1 r \<noteq> None) \<and>
    (\<forall>r b. lp_refs s r = Some b \<and> (ref \<noteq> Some r \<or> 1 < shared_refs b) \<longrightarrow>
       map_option ref_value (lp_refs s1 r) = Some (ref_value b) \<and>
       (\<forall>ob. ref_value b = Some ob \<longrightarrow> lp_objs s1 ob = lp_objs s ob))"
proof (cases ref)
  case None
  with inv h show ?thesis by (auto simp: local_ptr_decrement_def set_ref_def fun_upd_idem)
next
  case (Some r)
  with lp_invD(2) [OF inv] h obtain b where b: "lp_refs s r = Some b" by blast
  note pos = lp_invD(4) [OF inv b] and cnt = lp_invD(3) [OF inv b]
  have mem: "h \<in> holders (lp_ptrs s) r" using h Some by (simp add: holders_iff)
  show ?thesis
  proof (cases "shared_refs b = 1")
    case True
    with cnt mem lp_invD(1) [OF inv] have only: "holders (lp_ptrs s) r = {h}"
      by (metis card_1_singletonE singletonD)
    obtain s1 where s1: "delete_value (ref_value b) s = Some s1" "lp_refs s1 = lp_refs s"
      "lp_ptrs s1 = lp_ptrs s"
      and objs: "\<And>r' b' ob. lp_refs s r' = Some b' \<Longrightarrow> r' \<noteq> r \<Longrightarrow> ref_value b' = Some ob \<Longrightarrow>
         lp_objs s1 ob = lp_objs s ob"
      using delete_value_inv [OF inv b] by blast
    from free_block_inv [OF inv b only s1(2,3)] objs
    have "lp_inv (set_ref h None (s1\<lparr>lp_refs := (lp_refs s1)(r := None)\<rparr>))" by blast
    with True b h Some s1 objs show ?thesis
      by (auto simp: local_ptr_decrement_def set_ref_def)
  next
    case False
    let ?s1 = "s\<lparr>lp_refs := (lp_refs s)(r \<mapsto> b\<lparr>shared_refs := shared_refs b - 1\<rparr>)\<rparr>"
    have "lp_inv (set_ref h None ?s1)"
      using mem lp_invD(1) [OF inv] cnt pos False h Some
      by (intro update_block_inv [OF inv b]) (auto simp: set_ref_def)
    with False pos b h Some show ?thesis by (auto simp: local_ptr_decrement_def set_ref_def)
  qed
qed

lemma retain_set_ref: "local_ptr_retain h ref (set_ref h p s) = local_ptr_retain h ref s"
  by (cases ref) (simp_all add: local_ptr_retain_def set_ref_def)

lemma retain_inv:
  assumes inv: "lp_inv s" and h: "lp_ptrs s h \<in> {None, Some None}"
    and ref: "\<And>r. ref = Some r \<Longrightarrow> lp_refs s r \<noteq> None"
  shows "\<exists>s'. local_ptr_retain h ref s = Some s' \<and> lp_inv s'"
proof (cases ref)
  case None
  have "lp_inv (set_ref h None s)"
  proof (rule lp_invI, goal_cases)
    case (2 r b)
    moreover have "h \<notin> holders (lp_ptrs s) r" using h by (auto simp: holders_iff)
    ultimately show ?case using lp_invD(3,4) [OF inv, of r b] by (simp add: set_ref_def)
  qed (use lp_finite [OF inv] lp_invD(2,5,6) [OF inv] in \<open>auto simp: set_ref_def split: if_splits\<close>)
  with None show ?thesis by (simp add: local_ptr_retain_def)
next
  case (Some r)
  with ref obtain b where b: "lp_refs s r = Some b" by blast
  have "h \<notin> holders (lp_ptrs s) r" using h by (auto simp: holders_iff)
  with lp_invD(1,3) [OF inv] b h
  have "lp_inv (set_ref h (Some r) (s\<lparr>lp_refs := (lp_refs s)(r \<mapsto> b\<lparr>shared_refs := shared_refs b + 1\<rparr>)\<rparr>))"
    by (intro update_block_inv [OF inv b]) (auto simp: set_ref_def)
  with Some b show ?thesis by (simp add: local_ptr_retain_def)
qed

lemma move_inv:
  assumes inv: "lp_inv s" and h: "lp_ptrs s h \<in> {None, Some None}" and other: "lp_ptrs s other = Some ref"
    and "h \<noteq> other"
  shows "lp_inv (set_ref other None (set_ref h ref s))"
proof (rule lp_invI, goal_cases)
  case (2 r b)
  then have b: "lp_refs s r = Some b" by (simp add: set_ref_def)
  have "h \<notin> holders (lp_ptrs s) r" using h by (auto simp: holders_iff)
  moreover have "other \<in> holders (lp_ptrs s) r \<longleftrightarrow> ref = Some r" using other by (simp add: holders_iff)
  ultimately show ?case using lp_invD(1,3,4) [OF inv] b \<open>h \<noteq> other\<close>
    by (auto simp: set_ref_def card_Diff_singleton_if)
next
  case (4 g r)
  then show ?case using lp_invD(2) [OF inv, of _ r] other by (auto simp: set_ref_def split: if_splits)
qed (use lp_finite [OF inv] lp_invD(5,6) [OF inv] in \<open>auto simp: set_ref_def\<close>)

lemma drop_var_inv:
  assumes inv: "lp_inv s" and h: "lp_ptrs s h \<in> {None, Some None}"
  shows "lp_inv (s\<lparr>lp_ptrs := (lp_ptrs s)(h := None)\<rparr>)"
proof (rule lp_invI, goal_cases)
  case (2 r b)
  moreover have "h \<notin> holders (lp_ptrs s) r" using h by (auto simp: holders_iff)
  ultimately show ?case using lp_invD(3,4) [OF inv, of r b] by simp
qed (use lp_finite [OF inv] lp_invD(2,5,6) [OF inv] in \<open>auto split: if_splits\<close>)

text \<open>A raw pointer handed to a \<^verbatim>\<open>local_ptr\<close> is null, or live and owned by no block.\<close>

definition unowned :: "nat option \<Rightarrow> 'a lp_store \<Rightarrow> bool" where
  "unowned v s \<longleftrightarrow> (\<forall>ob. v = Some ob \<longrightarrow> lp_objs s ob \<noteq> None \<and>
     (\<forall>r b. lp_refs s r = Some b \<longrightarrow> ref_value b \<noteq> Some ob))"

lemma from_inv:
  assumes inv: "lp_inv s" and h: "lp_ptrs s h = None" and r: "lp_refs s r = None" and v: "unowned v s"
  shows "\<exists>s'. local_ptr_from h r v s = Some s' \<and> lp_inv s'"
proof -
  have none: "holders (lp_ptrs s) r = {}" using lp_invD(2) [OF inv, of _ r] r by (auto simp: holders_def)
  have "lp_inv (set_ref h (Some r) (s\<lparr>lp_refs := (lp_refs s)(r \<mapsto> \<lparr>shared_refs = 1, ref_value = v\<rparr>)\<rparr>))"
  proof (rule lp_invI, goal_cases)
    case (2 q b)
    have "h \<notin> holders (lp_ptrs s) q" using h by (auto simp: holders_iff)
    with 2 none lp_invD(3,4) [OF inv, of q b] show ?case by (auto simp: set_ref_def split: if_splits)
  next
    case (3 q b ob)
    with v lp_invD(5) [OF inv, of q b ob] show ?case
      by (auto simp: set_ref_def unowned_def split: if_splits)
  next
    case (4 g q)
    then show ?case using lp_invD(2) [OF inv, of g q] by (auto simp: set_ref_def split: if_splits)
  next
    case (5 q q' b b' ob)
    with v lp_invD(6) [OF inv, of q b q' b' ob] show ?case
      by (auto simp: set_ref_def unowned_def split: if_splits)
  qed (use lp_finite [OF inv] in \<open>simp add: set_ref_def\<close>)
  then show ?thesis by (simp add: local_ptr_from_def)
qed

lemma reset_inv:
  assumes inv: "lp_inv s" and h: "lp_ptrs s h = Some ref" and v: "unowned v s"
  shows "\<exists>s'. local_ptr_reset h v s = Some s' \<and> lp_inv s'"
proof (cases ref)
  case (Some r)
  with lp_invD(2) [OF inv] h obtain b where b: "lp_refs s r = Some b" by blast
  obtain s1 where s1: "delete_value (ref_value b) s = Some s1" "lp_refs s1 = lp_refs s"
    "lp_ptrs s1 = lp_ptrs s"
    and objs: "\<And>q b' ob. lp_refs s q = Some b' \<Longrightarrow> q \<noteq> r \<Longrightarrow> ref_value b' = Some ob \<Longrightarrow>
       lp_objs s1 ob = lp_objs s ob"
    using delete_value_inv [OF inv b] by blast
  have keep: "lp_objs s1 ob \<noteq> None" if "v = Some ob" for ob
    using that v s1(1) b by (cases "ref_value b") (auto simp: unowned_def split: if_splits)
  have "lp_inv (s1\<lparr>lp_refs := (lp_refs s1)(r \<mapsto> b\<lparr>ref_value := v\<rparr>)\<rparr>)"
  proof (rule lp_invI, goal_cases)
    case (2 q b')
    then show ?case using s1 b lp_invD(3,4) [OF inv, of q] by (auto split: if_splits)
  next
    case (3 q b' ob)
    then show ?case using s1 keep objs [of q b' ob] lp_invD(5) [OF inv, of q b' ob] by (auto split: if_splits)
  next
    case (4 g q)
    then show ?case using s1 lp_invD(2) [OF inv, of g q] by auto
  next
    case (5 q q' b1 b2 ob)
    then show ?case using s1 v lp_invD(6) [OF inv, of q b1 q' b2 ob] by (auto simp: unowned_def split: if_splits)
  qed (use lp_finite [OF inv] s1 in simp)
  with h Some b s1 show ?thesis by (simp add: local_ptr_reset_def)
qed (use inv h in \<open>simp add: local_ptr_reset_def\<close>)

lemma assign_copy_inv:
  assumes inv: "lp_inv s" and h: "lp_ptrs s h = Some ref" and other: "lp_ptrs s other = Some ref'"
  shows "\<exists>s'. local_ptr_assign_copy h other s = Some s' \<and> lp_inv s'"
proof -
  from decrement_inv [OF inv h] obtain s1 where s1: "local_ptr_decrement h s = Some s1"
    "lp_inv (set_ref h None s1)" "\<And>g. g \<noteq> h \<Longrightarrow> lp_ptrs s1 g = lp_ptrs s g"
    "lp_ptrs s1 h \<in> {Some None, Some ref}" "\<And>r. lp_ptrs s1 h = Some (Some r) \<Longrightarrow> lp_refs s1 r \<noteq> None"
    by blast
  obtain ref1 where ref1: "lp_ptrs s1 other = Some ref1"
    using s1(3,4) other by (cases "other = h") auto
  have "lp_refs (set_ref h None s1) r \<noteq> None" if "ref1 = Some r" for r
    using that ref1 s1(5) lp_invD(2) [OF s1(2), of other r] by (cases "other = h") (auto simp: set_ref_def)
  with retain_inv [OF s1(2), of h ref1] show ?thesis
    using s1(1) ref1 by (auto simp: local_ptr_assign_copy_def retain_set_ref) (simp add: set_ref_def)
qed

lemma assign_move_inv:
  assumes inv: "lp_inv s" and h: "lp_ptrs s h = Some ref" and other: "lp_ptrs s other = Some ref'"
  shows "\<exists>s'. local_ptr_assign_move h other s = Some s' \<and> lp_inv s'"
proof -
  from decrement_inv [OF inv h] obtain s1 where s1: "local_ptr_decrement h s = Some s1"
    "lp_inv (set_ref h None s1)" "\<And>g. g \<noteq> h \<Longrightarrow> lp_ptrs s1 g = lp_ptrs s g"
    "lp_ptrs s1 h \<in> {Some None, Some ref}" by blast
  obtain ref1 where ref1: "lp_ptrs s1 other = Some ref1"
    using s1(3,4) other by (cases "other = h") auto
  have "lp_inv (set_ref other None (set_ref h ref1 s1))"
  proof (cases "other = h")
    case False
    with ref1 move_inv [OF s1(2), of h other ref1] show ?thesis by (simp add: set_ref_def)
  qed (use s1(2) in \<open>simp add: set_ref_def\<close>)
  with s1(1) ref1 show ?thesis by (simp add: local_ptr_assign_move_def)
qed

lemma release_inv:
  assumes inv: "lp_inv s" and h: "lp_ptrs s h = Some ref"
  shows "\<exists>s'. local_ptr_assign_null h s = Some s' \<and> lp_inv s'"
    and "\<exists>s'. local_ptr_destroy h s = Some s' \<and> lp_inv s'"
proof -
  from decrement_inv [OF inv h] obtain s1 where s1: "local_ptr_decrement h s = Some s1"
    "lp_inv (set_ref h None s1)" by blast
  then show "\<exists>s'. local_ptr_assign_null h s = Some s' \<and> lp_inv s'"
    by (simp add: local_ptr_assign_null_def)
  from drop_var_inv [OF s1(2), of h] s1(1) show "\<exists>s'. local_ptr_destroy h s = Some s' \<and> lp_inv s'"
    by (simp add: local_ptr_destroy_def set_ref_def)
qed

section \<open>Programs over local pointers\<close>

datatype 'a lp_op =
    LpDefault nat
  | LpFrom nat nat "nat option"
  | LpFromValue nat nat nat 'a
  | LpCopy nat nat
  | LpMove nat nat
  | LpAssignCopy nat nat
  | LpAssignMove nat nat
  | LpAssignNull nat
  | LpDestroy nat
  | LpReset nat "nat option"
  | LpInvalidate nat

fun lp_exec :: "'a lp_op \<Rightarrow> 'a lp_store \<Rightarrow> 'a lp_store option" where
  "lp_exec (LpDefault h) s = local_ptr_default h s"
| "lp_exec (LpFrom h r v) s = local_ptr_from h r v s"
| "lp_exec (LpFromValue h r ob x) s = local_ptr_from_value h r ob x s"
| "lp_exec (LpCopy h g) s = local_ptr_copy h g s"
| "lp_exec (LpMove h g) s = local_ptr_move h g s"
| "lp_exec (LpAssignCopy h g) s = local_ptr_assign_copy h g s"
| "lp_exec (LpAssignMove h g) s = local_ptr_assign_move h g s"
| "lp_exec (LpAssignNull h) s = local_ptr_assign_null h s"
| "lp_exec (LpDestroy h) s = local_ptr_destroy h s"
| "lp_exec (LpReset h v) s = local_ptr_reset h v s"
| "lp_exec (LpInvalidate h) s = local_ptr_invalidate_all h s"

text \<open>
  What C++ and \<^verbatim>\<open>new\<close> guarantee of a statement: a constructed variable is new, a used one
  exists, \<^verbatim>\<open>new\<close> returns unused addresses; and a raw pointer is not owned already.
\<close>

fun lp_legal :: "'a lp_op \<Rightarrow> 'a lp_store \<Rightarrow> bool" where
  "lp_legal (LpDefault h) s \<longleftrightarrow> lp_ptrs s h = None"
| "lp_legal (LpFrom h r v) s \<longleftrightarrow> lp_ptrs s h = None \<and> lp_refs s r = None \<and> unowned v s"
| "lp_legal (LpFromValue h r ob x) s \<longleftrightarrow> lp_ptrs s h = None \<and> lp_refs s r = None \<and> lp_objs s ob = None"
| "lp_legal (LpCopy h g) s \<longleftrightarrow> lp_ptrs s h = None \<and> lp_ptrs s g \<noteq> None"
| "lp_legal (LpMove h g) s \<longleftrightarrow> lp_ptrs s h = None \<and> lp_ptrs s g \<noteq> None"
| "lp_legal (LpAssignCopy h g) s \<longleftrightarrow> lp_ptrs s h \<noteq> None \<and> lp_ptrs s g \<noteq> None"
| "lp_legal (LpAssignMove h g) s \<longleftrightarrow> lp_ptrs s h \<noteq> None \<and> lp_ptrs s g \<noteq> None"
| "lp_legal (LpAssignNull h) s \<longleftrightarrow> lp_ptrs s h \<noteq> None"
| "lp_legal (LpDestroy h) s \<longleftrightarrow> lp_ptrs s h \<noteq> None"
| "lp_legal (LpReset h v) s \<longleftrightarrow> lp_ptrs s h \<noteq> None \<and> unowned v s"
| "lp_legal (LpInvalidate h) s \<longleftrightarrow> lp_ptrs s h \<noteq> None"

inductive lp_reach :: "'a lp_store \<Rightarrow> bool" where
  start: "lp_reach lp_empty"
| alloc: "lp_reach s \<Longrightarrow> lp_objs s ob = None \<Longrightarrow> lp_reach (s\<lparr>lp_objs := (lp_objs s)(ob \<mapsto> x)\<rparr>)"
| exec: "lp_reach s \<Longrightarrow> lp_legal a s \<Longrightarrow> lp_exec a s = Some s' \<Longrightarrow> lp_reach s'"

lemma alloc_inv:
  assumes inv: "lp_inv s" and "lp_objs s ob = None"
  shows "lp_inv (s\<lparr>lp_objs := (lp_objs s)(ob \<mapsto> x)\<rparr>)" and "unowned (Some ob) (s\<lparr>lp_objs := (lp_objs s)(ob \<mapsto> x)\<rparr>)"
proof -
  show "lp_inv (s\<lparr>lp_objs := (lp_objs s)(ob \<mapsto> x)\<rparr>)"
  proof (rule lp_invI, goal_cases)
    case (2 r b)
    then show ?case using lp_invD(3,4) [OF inv, of r b] by simp
  qed (use lp_finite [OF inv] lp_invD(2,5,6) [OF inv] in auto)
  show "unowned (Some ob) (s\<lparr>lp_objs := (lp_objs s)(ob \<mapsto> x)\<rparr>)"
    using assms(2) lp_invD(5) [OF inv, of _ _ ob] by (auto simp: unowned_def)
qed

lemma lp_exec_inv:
  assumes inv: "lp_inv s" and legal: "lp_legal a s"
  shows "\<exists>s'. lp_exec a s = Some s' \<and> lp_inv s'"
proof (cases a)
  case (LpDefault h)
  with legal retain_inv [OF inv, of h None] show ?thesis
    by (simp add: local_ptr_default_def local_ptr_retain_def)
next
  case (LpFromValue h r ob x)
  with legal show ?thesis using from_inv [where h = h and r = r and v = "Some ob", OF alloc_inv(1) [OF inv]]
      alloc_inv(2) [OF inv]
    by (simp add: local_ptr_from_value_def)
next
  case (LpCopy h g)
  with legal obtain ref where ref: "lp_ptrs s g = Some ref" by auto
  with legal LpCopy retain_inv [OF inv, of h ref] lp_invD(2) [OF inv, of g] show ?thesis
    by (auto simp: local_ptr_copy_def)
next
  case (LpMove h g)
  with legal obtain ref where ref: "lp_ptrs s g = Some ref" by auto
  moreover from ref legal LpMove have "h \<noteq> g" by auto
  ultimately show ?thesis using legal LpMove move_inv [OF inv, of h g ref] by (simp add: local_ptr_move_def)
qed (use legal from_inv [OF inv] reset_inv [OF inv] assign_copy_inv [OF inv] assign_move_inv [OF inv]
  release_inv [OF inv] in \<open>auto simp: local_ptr_invalidate_all_def unowned_def\<close>)

lemma lp_reach_inv: "lp_reach s \<Longrightarrow> lp_inv s"
proof (induction rule: lp_reach.induct)
  case (exec s a s')
  then show ?case using lp_exec_inv [OF exec.IH exec.hyps(2)] by auto
qed (simp_all add: lp_inv_empty alloc_inv)

lemma lp_bool_deref:
  assumes inv: "lp_inv s" and h: "lp_ptrs s h = Some ref"
  shows "local_ptr_bool h s = Some (local_ptr_deref h s \<noteq> None)"
proof (cases ref)
  case (Some r)
  with lp_invD(2) [OF inv] h obtain b where b: "lp_refs s r = Some b" by blast
  then show ?thesis using h Some lp_invD(5) [OF inv b]
    by (cases "ref_value b") (auto simp: local_ptr_bool_def local_ptr_deref_def)
qed (use h in \<open>simp add: local_ptr_bool_def local_ptr_deref_def\<close>)

text \<open>
  C9: in every state a program over \<^verbatim>\<open>local_ptr\<close> variables can reach, every further
  legal operation succeeds: no count underflows, nothing is deleted twice and no block or
  object is used after its deletion. The count of every block is the number of variables
  that point to it, and no block outlives its last variable.
\<close>

theorem local_ptr_memory_safe:
  assumes "lp_reach s"
  shows "(lp_legal a s \<longrightarrow> (\<exists>s'. lp_exec a s = Some s' \<and> lp_reach s')) \<and>
    (\<forall>r b. lp_refs s r = Some b \<longrightarrow>
       shared_refs b = card (holders (lp_ptrs s) r) \<and> holders (lp_ptrs s) r \<noteq> {}) \<and>
    (\<forall>h. lp_ptrs s h \<noteq> None \<longrightarrow>
       (\<exists>v. local_ptr_bool h s = Some v \<and> v = (local_ptr_deref h s \<noteq> None)))"
proof -
  have inv: "lp_inv s" by (rule lp_reach_inv [OF assms])
  have "\<exists>v. local_ptr_bool h s = Some v \<and> v = (local_ptr_deref h s \<noteq> None)" if "lp_ptrs s h \<noteq> None" for h
    using that by (auto simp: lp_bool_deref [OF inv])
  moreover have "shared_refs b = card (holders (lp_ptrs s) r) \<and> holders (lp_ptrs s) r \<noteq> {}"
    if "lp_refs s r = Some b" for r b
    using lp_invD(3,4) [OF inv that] by auto
  ultimately show ?thesis using lp_exec_inv [OF inv] lp_reach.exec [OF assms] by meson
qed

theorem local_ptr_memory_safe_witness:
  "\<exists>s'. lp_exec (LpCopy 1 0) (lp_empty\<lparr>lp_ptrs := [0 \<mapsto> None]\<rparr>) = Some (s' :: nat lp_store) \<and> lp_reach s'"
proof -
  have "lp_reach (lp_empty\<lparr>lp_ptrs := [0 \<mapsto> None]\<rparr> :: nat lp_store)"
    by (rule lp_reach.exec [OF lp_reach.start, of "LpDefault 0"])
      (simp_all add: lp_empty_def local_ptr_default_def set_ref_def)
  from local_ptr_memory_safe [OF this, of "LpCopy 1 0"] show ?thesis by simp
qed

text \<open>
  Invalidation reaches every copy. After \<^verbatim>\<open>invalidate_all\<close> on one variable, each
  variable that shares its block tests false, the object is deleted, and a variable with
  another block still reads the value it read before.
\<close>

theorem local_ptr_invalidation:
  assumes "lp_reach s" and "lp_ptrs s h = Some (Some r)"
  shows "\<exists>s'. local_ptr_invalidate_all h s = Some s' \<and> lp_reach s' \<and>
    (\<forall>g. lp_ptrs s g = Some (Some r) \<longrightarrow> local_ptr_bool g s' = Some False) \<and>
    (\<forall>g r'. lp_ptrs s g = Some (Some r') \<and> r' \<noteq> r \<longrightarrow> local_ptr_deref g s' = local_ptr_deref g s)"
proof -
  have inv: "lp_inv s" by (rule lp_reach_inv [OF assms(1)])
  from lp_invD(2) [OF inv assms(2)] obtain b where b: "lp_refs s r = Some b" by blast
  obtain s1 where s1: "delete_value (ref_value b) s = Some s1" "lp_refs s1 = lp_refs s"
    "lp_ptrs s1 = lp_ptrs s"
    and objs: "\<And>q b' ob. lp_refs s q = Some b' \<Longrightarrow> q \<noteq> r \<Longrightarrow> ref_value b' = Some ob \<Longrightarrow>
       lp_objs s1 ob = lp_objs s ob"
    using delete_value_inv [OF inv b] by blast
  let ?s' = "s1\<lparr>lp_refs := (lp_refs s1)(r \<mapsto> b\<lparr>ref_value := None\<rparr>)\<rparr>"
  have ex: "local_ptr_invalidate_all h s = Some ?s'"
    using assms(2) b s1 by (simp add: local_ptr_invalidate_all_def local_ptr_reset_def)
  moreover have "lp_reach ?s'"
    by (rule lp_reach.exec [OF assms(1), of "LpInvalidate h"]) (use assms(2) ex in simp_all)
  moreover have "local_ptr_deref g ?s' = local_ptr_deref g s" if "lp_ptrs s g = Some (Some r')" "r' \<noteq> r" for g r'
    using that s1 objs [of r'] by (cases "lp_refs s r'") (auto simp: local_ptr_deref_def split: Option.bind_splits)
  ultimately show ?thesis using s1 by (auto simp: local_ptr_bool_def)
qed

text \<open>A program that puts a value behind the variable \<open>0\<close> and copies it to the variable \<open>1\<close>.\<close>

definition lp_shared_example :: "nat lp_store" where
  "lp_shared_example = the (fold_opt lp_exec [LpFromValue 0 5 6 42, LpCopy 1 0] lp_empty)"

lemma lp_shared_example_eq:
  "lp_shared_example = \<lparr>lp_refs = [5 \<mapsto> \<lparr>shared_refs = 2, ref_value = Some 6\<rparr>], lp_objs = [6 \<mapsto> 42],
     lp_ptrs = [0 \<mapsto> Some 5, 1 \<mapsto> Some 5]\<rparr>"
  by (simp add: lp_shared_example_def lp_empty_def local_ptr_from_value_def local_ptr_from_def
      local_ptr_copy_def local_ptr_retain_def set_ref_def numeral_2_eq_2)

lemma lp_shared_example_reach: "lp_reach lp_shared_example"
proof -
  let ?s = "\<lparr>lp_refs = [5 \<mapsto> \<lparr>shared_refs = 1, ref_value = Some 6\<rparr>], lp_objs = [6 \<mapsto> 42 :: nat],
     lp_ptrs = [0 \<mapsto> Some (5 :: nat)]\<rparr>"
  have "lp_reach ?s"
    by (rule lp_reach.exec [OF lp_reach.start, of "LpFromValue 0 5 6 42"])
      (simp_all add: lp_empty_def local_ptr_from_value_def local_ptr_from_def set_ref_def)
  then show ?thesis
    by (rule lp_reach.exec [of _ "LpCopy 1 0"])
      (simp_all add: lp_shared_example_eq local_ptr_copy_def local_ptr_retain_def set_ref_def numeral_2_eq_2)
qed

theorem local_ptr_invalidation_witness:
  "\<exists>s'. local_ptr_invalidate_all 0 lp_shared_example = Some s' \<and> local_ptr_bool 1 s' = Some False"
  using local_ptr_invalidation [OF lp_shared_example_reach, of 0 5] by (auto simp: lp_shared_example_eq)

text \<open>
  Copy-assigning a variable to itself when it is the only one that points to its block
  deletes the object and leaves the variable null, where the value should survive.
\<close>

theorem local_ptr_self_assignment_loses_value:
  assumes "lp_reach s" and "lp_ptrs s h = Some (Some r)" and "holders (lp_ptrs s) r = {h}"
    and "local_ptr_deref h s = Some x"
  shows "\<exists>s'. local_ptr_assign_copy h h s = Some s' \<and> lp_ptrs s' h = Some None \<and>
    local_ptr_deref h s' = None \<and> lp_refs s' r = None"
proof -
  have inv: "lp_inv s" by (rule lp_reach_inv [OF assms(1)])
  from lp_invD(2) [OF inv assms(2)] obtain b where b: "lp_refs s r = Some b" by blast
  with lp_invD(3) [OF inv b] assms(3) have "shared_refs b = 1" by simp
  with b assms(2,4) show ?thesis
    by (auto simp: local_ptr_assign_copy_def local_ptr_decrement_def local_ptr_retain_def
        local_ptr_deref_def set_ref_def split: Option.bind_splits)
qed

theorem local_ptr_self_assignment_loses_value_witness:
  "\<exists>s'. local_ptr_assign_copy 0 0 (lp_empty\<lparr>lp_refs := [5 \<mapsto> \<lparr>shared_refs = 1, ref_value = Some 6\<rparr>],
      lp_objs := [6 \<mapsto> 42 :: nat], lp_ptrs := [0 \<mapsto> Some 5]\<rparr>) = Some s' \<and> local_ptr_deref 0 s' = None"
proof -
  have "lp_reach (lp_empty\<lparr>lp_refs := [5 \<mapsto> \<lparr>shared_refs = 1, ref_value = Some 6\<rparr>],
      lp_objs := [6 \<mapsto> 42 :: nat], lp_ptrs := [0 \<mapsto> Some 5]\<rparr>)" (is "lp_reach ?s")
    by (rule lp_reach.exec [OF lp_reach.start, of "LpFromValue 0 5 6 42"])
      (simp_all add: lp_empty_def local_ptr_from_value_def local_ptr_from_def set_ref_def)
  moreover have "holders (lp_ptrs ?s) 5 = {0}" by (auto simp: holders_def split: if_splits)
  ultimately show ?thesis
    using local_ptr_self_assignment_loses_value [of ?s 0 5 42] by (auto simp: local_ptr_deref_def)
qed

end
