(* ===== verification/Io_Event_Loop.thy ===== *)
theory Io_Event_Loop
  imports Prelude
begin

text \<open>
  The platform event loop \<^verbatim>\<open>io_event_loop\<close>
  (\<^verbatim>\<open>src/boson/src/linux/io_event_loop_impl.h\<close>,
  \<^verbatim>\<open>src/boson/src/linux/io_event_loop_impl.cc\<close>).

  The kernel is not part of the program: what \<^verbatim>\<open>epoll_ctl\<close>, \<^verbatim>\<open>eventfd\<close>,
  \<^verbatim>\<open>write\<close> and the successive \<^verbatim>\<open>epoll_wait\<close> calls answer are arguments. An
  \<open>errno\<close> option is \<open>None\<close> for success. A thrown exception is \<open>Inl\<close> of the system
  call it names. The handler is a pair of functions on a state \<open>'s\<close>, which holds
  whatever the handler owns; a failed assertion in it is \<open>None\<close>.
\<close>

section \<open>Kernel constants\<close>

definition EINTR :: int where "EINTR = 4"
definition EBADF :: int where "EBADF = 9"
definition EFAULT :: int where "EFAULT = 14"
definition EINVAL :: int where "EINVAL = 22"
definition EPERM :: int where "EPERM = 1"
definition EAGAIN :: int where "EAGAIN = 11"
definition ETIMEDOUT :: int where "ETIMEDOUT = 110"

definition EPOLLIN :: int32 where "EPOLLIN = 1"
definition EPOLLOUT :: int32 where "EPOLLOUT = 4"
definition EPOLLERR :: int32 where "EPOLLERR = 8"
definition EPOLLRDHUP :: int32 where "EPOLLRDHUP = 0x2000"

unbundle bit_operations_syntax

record epoll_event =
  ee_fd :: int
  ee_events :: int32

datatype epoll_answer = Epoll_ready "epoll_event list" | Epoll_error int

section \<open>The loop\<close>

datatype io_loop_end_reason = max_iter_reached | timed_out | error_occured

text \<open>
  \<open>el_watched\<close> is the interest list of the epoll instance, \<open>el_breaker\<close> the counter of
  the event fd that interrupts the loop, both kept by the kernel; \<open>el_pending\<close> is the
  queue of \<^verbatim>\<open>close_fd\<close> commands.
\<close>

record io_event_loop =
  el_breaker_event :: int
  el_watched :: "int list"
  el_breaker :: nat
  el_pending :: "int list"

record 's io_event_handler =
  h_read :: "int \<Rightarrow> int \<Rightarrow> 's \<Rightarrow> 's option"
  h_write :: "int \<Rightarrow> int \<Rightarrow> 's \<Rightarrow> 's option"
  h_closed :: "int \<Rightarrow> 's \<Rightarrow> 's option"

definition io_event_loop_new :: "int + int \<Rightarrow> int option \<Rightarrow> string + io_event_loop" where
  "io_event_loop_new eventfd_answer ctl =
     (case eventfd_answer of
        Inl errno \<Rightarrow> Inl ''eventfd''
      | Inr breaker_fd \<Rightarrow>
          (case ctl of
             Some errno \<Rightarrow> Inl ''epoll_ctl''
           | None \<Rightarrow> Inr \<lparr>el_breaker_event = breaker_fd, el_watched = [breaker_fd], el_breaker = 0,
               el_pending = []\<rparr>))"

definition io_event_loop_interrupt :: "int option \<Rightarrow> io_event_loop \<Rightarrow> string + io_event_loop" where
  "io_event_loop_interrupt write_answer l =
     (case write_answer of
        Some errno \<Rightarrow> Inl ''write''
      | None \<Rightarrow> Inr (l\<lparr>el_breaker := el_breaker l + 1\<rparr>))"

text \<open>
  Adding an fd may fail with \<^verbatim>\<open>EPERM\<close> (a file on disk); the fd is then not watched, and
  every other error is thrown.
\<close>

definition io_event_loop_register_fd :: "int option \<Rightarrow> int \<Rightarrow> io_event_loop \<Rightarrow> string + io_event_loop" where
  "io_event_loop_register_fd ctl fd l =
     (case ctl of
        None \<Rightarrow> Inr (l\<lparr>el_watched := fd # el_watched l\<rparr>)
      | Some errno \<Rightarrow> if errno \<noteq> EPERM then Inl ''epoll_ctl'' else Inr l)"

definition io_event_loop_unregister :: "int option \<Rightarrow> int \<Rightarrow> io_event_loop \<Rightarrow> string + io_event_loop" where
  "io_event_loop_unregister ctl fd l =
     (case ctl of
        None \<Rightarrow> Inr (l\<lparr>el_watched := removeAll fd (el_watched l), el_pending := el_pending l @ [fd]\<rparr>)
      | Some errno \<Rightarrow>
          if errno \<noteq> EPERM then Inl ''epoll_ctl'' else Inr (l\<lparr>el_pending := el_pending l @ [fd]\<rparr>))"

definition io_event_loop_send_fd_panic ::
  "int option \<Rightarrow> int \<Rightarrow> int \<Rightarrow> io_event_loop \<Rightarrow> string + io_event_loop" where
  "io_event_loop_send_fd_panic write_answer proc_from fd l = io_event_loop_interrupt write_answer l"

text \<open>
  One event of the array \<^verbatim>\<open>epoll_wait\<close> filled. The loop breaker is drained, any other
  fd is dispatched to the handler, the read side first.
\<close>

definition dispatch_epoll_event ::
  "'s io_event_handler \<Rightarrow> epoll_event \<Rightarrow> io_event_loop \<times> 's \<Rightarrow> (io_event_loop \<times> 's) option" where
  "dispatch_epoll_event h ev =
     (\<lambda>(l, s).
       let status = (if ee_events ev AND (EPOLLERR OR EPOLLRDHUP) \<noteq> 0 then - EINTR else 0) in
       if ee_fd ev \<noteq> el_breaker_event l then
         do { s1 \<leftarrow> (if ee_events ev AND EPOLLIN \<noteq> 0 then h_read h (ee_fd ev) status s else Some s);
              s2 \<leftarrow> (if ee_events ev AND EPOLLOUT \<noteq> 0 then h_write h (ee_fd ev) status s1 else Some s1);
              Some (l, s2) }
       else if ee_events ev AND EPOLLIN \<noteq> 0 then Some (l\<lparr>el_breaker := 0\<rparr>, s)
       else None)"

text \<open>The close commands, in the order they were queued.\<close>

definition run_close_commands ::
  "'s io_event_handler \<Rightarrow> io_event_loop \<times> 's \<Rightarrow> (io_event_loop \<times> 's) option" where
  "run_close_commands h =
     (\<lambda>(l, s). do { s1 \<leftarrow> fold_opt (h_closed h) (el_pending l) s; Some (l\<lparr>el_pending := []\<rparr>, s1) })"

text \<open>
  \<^verbatim>\<open>wait\<close>: the answers of the successive \<^verbatim>\<open>epoll_wait\<close> calls are consumed until one
  is not \<^verbatim>\<open>EINTR\<close>. When they run out the call is still blocked in the kernel, \<open>None\<close>.
\<close>

fun io_event_loop_wait ::
  "'s io_event_handler \<Rightarrow> int \<Rightarrow> epoll_answer list \<Rightarrow> io_event_loop \<times> 's \<Rightarrow>
     ((string + io_loop_end_reason) \<times> io_event_loop \<times> 's) option" where
  "io_event_loop_wait h timeout_ms [] s = None"
| "io_event_loop_wait h timeout_ms (Epoll_ready evs # answers) s =
     (if evs = [] \<and> timeout_ms \<noteq> 0 then Some (Inr timed_out, s)
      else do { s1 \<leftarrow> fold_opt (dispatch_epoll_event h) evs s;
                s2 \<leftarrow> run_close_commands h s1;
                Some (Inr max_iter_reached, s2) })"
| "io_event_loop_wait h timeout_ms (Epoll_error errno # answers) s =
     (if errno = EBADF \<or> errno = EFAULT \<or> errno = EINVAL then Some (Inl ''epoll_wait'', s)
      else do { s1 \<leftarrow> run_close_commands h s;
                if errno = EINTR then io_event_loop_wait h timeout_ms answers s1
                else Some (Inr max_iter_reached, s1) })"

end
