(* ===== verification/Netpoller.thy ===== *)
theory Netpoller
  imports Io_Event_Loop
begin

text \<open>
  \<^verbatim>\<open>internal::netpoller\<close> (\<^verbatim>\<open>src/boson/boson/internal/netpoller.h\<close>,
  \<^verbatim>\<open>src/boson/src/internal/netpoller.cc\<close>): boson's policy over the platform loop. Each
  fd has at most one reader and one writer registration, a registration is delivered at
  most once, and closing an fd delivers \<^verbatim>\<open>-EBADF\<close> to what is registered on it.

  The handler of the poller is the boson thread that owns it, so its state contains the
  poller. The dispatch functions are written over such a state \<open>'s\<close>, with the access
  functions \<open>get\<close> and \<open>upd\<close> to the poller inside it. The locks of the source serialise
  the operations; each operation is one step.
\<close>

section \<open>State\<close>

record fd_data =
  fd_registered :: bool
  fd_read_enabled :: bool
  fd_write_enabled :: bool
  fd_read_data :: size_t
  fd_write_data :: size_t

record netpoller =
  np_waiters :: "fd_data list"
  np_force_exit :: bool
  np_loop :: io_event_loop

definition fd_data_new :: fd_data where
  "fd_data_new = \<lparr>fd_registered = False, fd_read_enabled = False, fd_write_enabled = False,
     fd_read_data = 0, fd_write_data = 0\<rparr>"

definition netpoller_new :: "nat \<Rightarrow> io_event_loop \<Rightarrow> netpoller" where
  "netpoller_new max_fds l = \<lparr>np_waiters = replicate max_fds fd_data_new, np_force_exit = False, np_loop = l\<rparr>"

text \<open>Access to the record of an fd; an fd outside the table is undefined behaviour.\<close>

definition np_fd :: "int \<Rightarrow> netpoller \<Rightarrow> fd_data option" where
  "np_fd fd p = (if 0 \<le> fd then vec_get (np_waiters p) (nat fd) else None)"

definition np_set_fd :: "int \<Rightarrow> (fd_data \<Rightarrow> fd_data) \<Rightarrow> netpoller \<Rightarrow> netpoller" where
  "np_set_fd fd f p = p\<lparr>np_waiters := (np_waiters p)[nat fd := f (np_waiters p ! nat fd)]\<rparr>"

section \<open>Registration\<close>

definition netpoller_signal_new_fd :: "int option \<Rightarrow> int \<Rightarrow> netpoller \<Rightarrow> (string + netpoller) option" where
  "netpoller_signal_new_fd ctl fd p =
     do { d \<leftarrow> np_fd fd p;
          Some (case io_event_loop_register_fd ctl fd (np_loop p) of
                  Inl e \<Rightarrow> Inl e
                | Inr l \<Rightarrow> Inr (np_set_fd fd (fd_registered_update (\<lambda>_. True)) (p\<lparr>np_loop := l\<rparr>))) }"

text \<open>The two answers are those of \<^verbatim>\<open>epoll_ctl\<close> and of the write to the event fd.\<close>

definition netpoller_signal_fd_closed ::
  "int option \<Rightarrow> int option \<Rightarrow> int \<Rightarrow> netpoller \<Rightarrow> (string + netpoller) option" where
  "netpoller_signal_fd_closed ctl write_answer fd p =
     do { d \<leftarrow> np_fd fd p;
          Some (if fd_registered d then
                  let p1 = np_set_fd fd (fd_registered_update (\<lambda>_. False)) p in
                  (case io_event_loop_unregister ctl fd (np_loop p1) of
                     Inl e \<Rightarrow> Inl e
                   | Inr l \<Rightarrow>
                       (case io_event_loop_interrupt write_answer l of
                          Inl e \<Rightarrow> Inl e
                        | Inr l' \<Rightarrow> Inr (p1\<lparr>np_loop := l'\<rparr>)))
                else Inr p) }"

definition netpoller_register_read ::
  "int option \<Rightarrow> int \<Rightarrow> size_t \<Rightarrow> netpoller \<Rightarrow> (string + netpoller) option" where
  "netpoller_register_read ctl fd value p =
     do { d \<leftarrow> np_fd fd p;
          r \<leftarrow> (if \<not> fd_registered d then netpoller_signal_new_fd ctl fd p else Some (Inr p));
          Some (case r of
                  Inl e \<Rightarrow> Inl e
                | Inr p1 \<Rightarrow> Inr (np_set_fd fd (\<lambda>d. d\<lparr>fd_read_data := value, fd_read_enabled := True\<rparr>) p1)) }"

definition netpoller_register_write ::
  "int option \<Rightarrow> int \<Rightarrow> size_t \<Rightarrow> netpoller \<Rightarrow> (string + netpoller) option" where
  "netpoller_register_write ctl fd value p =
     do { d \<leftarrow> np_fd fd p;
          r \<leftarrow> (if \<not> fd_registered d then netpoller_signal_new_fd ctl fd p else Some (Inr p));
          Some (case r of
                  Inl e \<Rightarrow> Inl e
                | Inr p1 \<Rightarrow> Inr (np_set_fd fd (\<lambda>d. d\<lparr>fd_write_data := value, fd_write_enabled := True\<rparr>) p1)) }"

definition netpoller_unregister_read :: "int \<Rightarrow> netpoller \<Rightarrow> netpoller option" where
  "netpoller_unregister_read fd p =
     do { d \<leftarrow> np_fd fd p;
          Some (np_set_fd fd (\<lambda>d. d\<lparr>fd_read_enabled := False, fd_read_data := - 1\<rparr>) p) }"

definition netpoller_unregister_write :: "int \<Rightarrow> netpoller \<Rightarrow> netpoller option" where
  "netpoller_unregister_write fd p =
     do { d \<leftarrow> np_fd fd p;
          Some (np_set_fd fd (\<lambda>d. d\<lparr>fd_write_enabled := False, fd_write_data := - 1\<rparr>) p) }"

definition netpoller_get_read_data :: "int \<Rightarrow> netpoller \<Rightarrow> (bool \<times> size_t) option" where
  "netpoller_get_read_data fd p = do { d \<leftarrow> np_fd fd p; Some (fd_read_enabled d, fd_read_data d) }"

definition netpoller_get_write_data :: "int \<Rightarrow> netpoller \<Rightarrow> (bool \<times> size_t) option" where
  "netpoller_get_write_data fd p = do { d \<leftarrow> np_fd fd p; Some (fd_write_enabled d, fd_write_data d) }"

text \<open>
  \<^verbatim>\<open>interrupt\<close>: \<open>looping\<close> says that the loop mutex is held, so that the owner is inside
  \<^verbatim>\<open>wait\<close> and has to be woken through the event fd.
\<close>

definition netpoller_interrupt :: "bool \<Rightarrow> int option \<Rightarrow> netpoller \<Rightarrow> string + netpoller" where
  "netpoller_interrupt looping write_answer p =
     (if \<not> looping then Inr (p\<lparr>np_force_exit := True\<rparr>)
      else (case io_event_loop_interrupt write_answer (np_loop p) of
              Inl e \<Rightarrow> Inl e
            | Inr l \<Rightarrow> Inr (p\<lparr>np_loop := l\<rparr>)))"

section \<open>Dispatch\<close>

text \<open>The handler \<^verbatim>\<open>net_event_handler\<close> gets the fd, the registered data and the status.\<close>

record 's net_event_handler =
  nh_read :: "int \<Rightarrow> size_t \<Rightarrow> int \<Rightarrow> 's \<Rightarrow> 's option"
  nh_write :: "int \<Rightarrow> size_t \<Rightarrow> int \<Rightarrow> 's \<Rightarrow> 's option"

definition dispatchRead ::
  "('s \<Rightarrow> netpoller) \<Rightarrow> ((netpoller \<Rightarrow> netpoller) \<Rightarrow> 's \<Rightarrow> 's) \<Rightarrow> 's net_event_handler \<Rightarrow>
     int \<Rightarrow> int \<Rightarrow> 's \<Rightarrow> 's option" where
  "dispatchRead get upd h fd status s =
     do { d \<leftarrow> np_fd fd (get s);
          if fd_read_enabled d then
            do { s1 \<leftarrow> nh_read h fd (fd_read_data d) status s;
                 Some (upd (np_set_fd fd (fd_read_enabled_update (\<lambda>_. False))) s1) }
          else Some s }"

definition dispatchWrite ::
  "('s \<Rightarrow> netpoller) \<Rightarrow> ((netpoller \<Rightarrow> netpoller) \<Rightarrow> 's \<Rightarrow> 's) \<Rightarrow> 's net_event_handler \<Rightarrow>
     int \<Rightarrow> int \<Rightarrow> 's \<Rightarrow> 's option" where
  "dispatchWrite get upd h fd status s =
     do { d \<leftarrow> np_fd fd (get s);
          if fd_write_enabled d then
            do { s1 \<leftarrow> nh_write h fd (fd_write_data d) status s;
                 Some (upd (np_set_fd fd (fd_write_enabled_update (\<lambda>_. False))) s1) }
          else Some s }"

definition netpoller_closed ::
  "('s \<Rightarrow> netpoller) \<Rightarrow> ((netpoller \<Rightarrow> netpoller) \<Rightarrow> 's \<Rightarrow> 's) \<Rightarrow> 's net_event_handler \<Rightarrow>
     int \<Rightarrow> 's \<Rightarrow> 's option" where
  "netpoller_closed get upd h fd s =
     do { s1 \<leftarrow> dispatchRead get upd h fd (- EBADF) s; dispatchWrite get upd h fd (- EBADF) s1 }"

text \<open>The poller as the handler of the platform loop.\<close>

definition netpoller_handler ::
  "('s \<Rightarrow> netpoller) \<Rightarrow> ((netpoller \<Rightarrow> netpoller) \<Rightarrow> 's \<Rightarrow> 's) \<Rightarrow> 's net_event_handler \<Rightarrow>
     's io_event_handler" where
  "netpoller_handler get upd h =
     \<lparr>h_read = dispatchRead get upd h, h_write = dispatchWrite get upd h, h_closed = netpoller_closed get upd h\<rparr>"

text \<open>
  \<^verbatim>\<open>wait\<close>, with the answers of the kernel. The \<^verbatim>\<open>callback\<close> that follows the loop is empty in
  both handlers of the program.
\<close>

definition netpoller_wait ::
  "('s \<Rightarrow> netpoller) \<Rightarrow> ((netpoller \<Rightarrow> netpoller) \<Rightarrow> 's \<Rightarrow> 's) \<Rightarrow> 's net_event_handler \<Rightarrow>
     int \<Rightarrow> epoll_answer list \<Rightarrow> 's \<Rightarrow> ((string + io_loop_end_reason) \<times> 's) option" where
  "netpoller_wait get upd h timeout_ms answers s =
     (let timeout_ms' = (if np_force_exit (get s) then 0 else timeout_ms);
          s1 = upd (np_force_exit_update (\<lambda>_. False)) s in
      do { (reason, l, s2) \<leftarrow> io_event_loop_wait (netpoller_handler get upd h) timeout_ms' answers (np_loop (get s1), s1);
           Some (reason, upd (np_loop_update (\<lambda>_. l)) s2) })"

section \<open>Specification: one-shot registrations\<close>

text \<open>
  The contract of the poller: a map from fd to registered reader, one to registered
  writer, and the notifications delivered so far, each with its direction (\<open>True\<close> for a
  read), fd, data and status. Delivering consumes the registration.
\<close>

type_synonym np_note = "bool \<times> int \<times> size_t \<times> int"
type_synonym np_spec = "(int \<rightharpoonup> size_t) \<times> (int \<rightharpoonup> size_t) \<times> np_note list"

fun spec_read :: "int \<Rightarrow> int \<Rightarrow> np_spec \<Rightarrow> np_spec" where
  "spec_read fd status (R, W, notes) =
     (case R fd of None \<Rightarrow> (R, W, notes) | Some d \<Rightarrow> (R(fd := None), W, notes @ [(True, fd, d, status)]))"

fun spec_write :: "int \<Rightarrow> int \<Rightarrow> np_spec \<Rightarrow> np_spec" where
  "spec_write fd status (R, W, notes) =
     (case W fd of None \<Rightarrow> (R, W, notes) | Some d \<Rightarrow> (R, W(fd := None), notes @ [(False, fd, d, status)]))"

definition spec_close :: "int \<Rightarrow> np_spec \<Rightarrow> np_spec" where
  "spec_close fd = spec_write fd (- EBADF) \<circ> spec_read fd (- EBADF)"

definition spec_event :: "int \<Rightarrow> epoll_event \<Rightarrow> np_spec \<Rightarrow> np_spec" where
  "spec_event breaker ev t =
     (let status = (if ee_events ev AND (EPOLLERR OR EPOLLRDHUP) \<noteq> 0 then - EINTR else 0);
          t1 = (if ee_fd ev \<noteq> breaker \<and> ee_events ev AND EPOLLIN \<noteq> 0 then spec_read (ee_fd ev) status t else t) in
      if ee_fd ev \<noteq> breaker \<and> ee_events ev AND EPOLLOUT \<noteq> 0 then spec_write (ee_fd ev) status t1 else t1)"

text \<open>An observer of the poller: it records the notifications and touches nothing.\<close>

definition observer :: "(netpoller \<times> np_note list) net_event_handler" where
  "observer = \<lparr>nh_read = (\<lambda>fd d status (p, notes). Some (p, notes @ [(True, fd, d, status)])),
     nh_write = (\<lambda>fd d status (p, notes). Some (p, notes @ [(False, fd, d, status)]))\<rparr>"

definition np_readers :: "netpoller \<Rightarrow> int \<rightharpoonup> size_t" where
  "np_readers p fd = do { d \<leftarrow> np_fd fd p; if fd_read_enabled d then Some (fd_read_data d) else None }"

definition np_writers :: "netpoller \<Rightarrow> int \<rightharpoonup> size_t" where
  "np_writers p fd = do { d \<leftarrow> np_fd fd p; if fd_write_enabled d then Some (fd_write_data d) else None }"

definition np_abs :: "netpoller \<times> np_note list \<Rightarrow> np_spec" where
  "np_abs s = (np_readers (fst s), np_writers (fst s), snd s)"

definition fd_ok :: "netpoller \<Rightarrow> int \<Rightarrow> bool" where
  "fd_ok p fd \<longleftrightarrow> 0 \<le> fd \<and> nat fd < length (np_waiters p)"

lemma np_fd_ok: "np_fd fd p = Some d \<longleftrightarrow> fd_ok p fd \<and> np_waiters p ! nat fd = d"
  by (auto simp: np_fd_def fd_ok_def)

lemma np_fd_ok_ex: "fd_ok p fd \<Longrightarrow> np_fd fd p = Some (np_waiters p ! nat fd)"
  by (simp add: np_fd_ok)

lemma np_set_fd_simps [simp]:
  "np_loop (np_set_fd fd f p) = np_loop p"
  "np_force_exit (np_set_fd fd f p) = np_force_exit p"
  "length (np_waiters (np_set_fd fd f p)) = length (np_waiters p)"
  "fd_ok (np_set_fd fd f p) = fd_ok p"
  by (simp_all add: np_set_fd_def fd_ok_def fun_eq_iff)

lemma np_fd_set_fd:
  "fd_ok p fd \<Longrightarrow> np_fd fd' (np_set_fd fd f p) = (if fd' = fd then Some (f (np_waiters p ! nat fd)) else np_fd fd' p)"
  by (auto simp: np_fd_def np_set_fd_def fd_ok_def vec_get_def nat_eq_iff nth_list_update)

lemma np_fd_loop [simp]:
  "np_fd fd (p\<lparr>np_loop := l\<rparr>) = np_fd fd p" "np_fd fd (p\<lparr>np_force_exit := b\<rparr>) = np_fd fd p"
  "fd_ok (p\<lparr>np_loop := l\<rparr>) = fd_ok p" "fd_ok (p\<lparr>np_force_exit := b\<rparr>) = fd_ok p"
  by (simp_all add: np_fd_def fd_ok_def fun_eq_iff)

lemma np_readers_loop [simp]:
  "np_readers (p\<lparr>np_loop := l\<rparr>) = np_readers p" "np_writers (p\<lparr>np_loop := l\<rparr>) = np_writers p"
  by (simp_all add: np_readers_def np_writers_def fun_eq_iff)

lemma np_readers_set:
  assumes "fd_ok p fd"
  shows "np_readers (np_set_fd fd f p) = (np_readers p)(fd :=
      (if fd_read_enabled (f (np_waiters p ! nat fd)) then Some (fd_read_data (f (np_waiters p ! nat fd))) else None))"
    and "np_writers (np_set_fd fd f p) = (np_writers p)(fd :=
      (if fd_write_enabled (f (np_waiters p ! nat fd)) then Some (fd_write_data (f (np_waiters p ! nat fd))) else None))"
  by (auto simp: np_readers_def np_writers_def np_fd_set_fd [OF assms] fun_eq_iff)

lemma np_readers_at:
  assumes "fd_ok p fd"
  shows "np_readers p fd = (if fd_read_enabled (np_waiters p ! nat fd) then Some (fd_read_data (np_waiters p ! nat fd)) else None)"
    and "np_writers p fd = (if fd_write_enabled (np_waiters p ! nat fd) then Some (fd_write_data (np_waiters p ! nat fd)) else None)"
  by (simp_all add: np_readers_def np_writers_def np_fd_ok_ex [OF assms])

text \<open>What a dispatch keeps: the table, the platform loop and the exit flag.\<close>

definition np_same :: "netpoller \<Rightarrow> netpoller \<Rightarrow> bool" where
  "np_same p q \<longleftrightarrow> np_loop q = np_loop p \<and> np_force_exit q = np_force_exit p \<and> fd_ok q = fd_ok p"

lemma dispatchRead_spec:
  assumes "fd_ok (fst s) fd"
  shows "\<exists>s'. dispatchRead fst apfst observer fd status s = Some s' \<and>
    np_abs s' = spec_read fd status (np_abs s) \<and> np_same (fst s) (fst s')"
  using assms
  by (cases s) (auto simp: dispatchRead_def observer_def np_fd_ok_ex np_abs_def np_same_def
      np_readers_at np_readers_set fun_upd_idem)

lemma dispatchWrite_spec:
  assumes "fd_ok (fst s) fd"
  shows "\<exists>s'. dispatchWrite fst apfst observer fd status s = Some s' \<and>
    np_abs s' = spec_write fd status (np_abs s) \<and> np_same (fst s) (fst s')"
  using assms
  by (cases s) (auto simp: dispatchWrite_def observer_def np_fd_ok_ex np_abs_def np_same_def
      np_readers_at np_readers_set fun_upd_idem)

lemma np_same_trans: "np_same p q \<Longrightarrow> np_same q r \<Longrightarrow> np_same p r"
  by (simp add: np_same_def)

lemma np_same_refl [simp]: "np_same p p"
  by (simp add: np_same_def)

lemma closed_spec:
  assumes "fd_ok (fst s) fd"
  shows "\<exists>s'. netpoller_closed fst apfst observer fd s = Some s' \<and>
    np_abs s' = spec_close fd (np_abs s) \<and> np_same (fst s) (fst s')"
proof -
  from dispatchRead_spec [OF assms] obtain s1
    where s1: "dispatchRead fst apfst observer fd (- EBADF) s = Some s1"
      "np_abs s1 = spec_read fd (- EBADF) (np_abs s)" "np_same (fst s) (fst s1)" by blast
  with assms have "fd_ok (fst s1) fd" by (simp add: np_same_def)
  from dispatchWrite_spec [OF this] s1 np_same_trans show ?thesis
    by (fastforce simp: netpoller_closed_def spec_close_def)
qed

lemma closes_spec:
  assumes "\<forall>fd \<in> set fds. fd_ok (fst s) fd"
  shows "\<exists>s'. fold_opt (netpoller_closed fst apfst observer) fds s = Some s' \<and>
    np_abs s' = fold spec_close fds (np_abs s) \<and> np_same (fst s) (fst s')"
  using assms
proof (induction fds arbitrary: s)
  case (Cons fd fds)
  from closed_spec [of s fd] Cons.prems obtain s1
    where s1: "netpoller_closed fst apfst observer fd s = Some s1"
      "np_abs s1 = spec_close fd (np_abs s)" "np_same (fst s) (fst s1)" by auto
  with Cons.prems have "\<forall>fd \<in> set fds. fd_ok (fst s1) fd" by (simp add: np_same_def)
  from Cons.IH [OF this] s1 np_same_trans show ?case by fastforce
qed simp

abbreviation np_observed :: "(netpoller \<times> np_note list) io_event_handler" where
  "np_observed \<equiv> netpoller_handler fst apfst observer"

text \<open>An event the kernel can report: an fd of the table, or the breaker with \<^verbatim>\<open>EPOLLIN\<close>.\<close>

definition event_ok :: "int \<Rightarrow> netpoller \<Rightarrow> epoll_event \<Rightarrow> bool" where
  "event_ok breaker p ev \<longleftrightarrow>
     (if ee_fd ev = breaker then ee_events ev AND EPOLLIN \<noteq> 0 else fd_ok p (ee_fd ev))"

lemma event_spec:
  assumes "event_ok (el_breaker_event l) (fst s) ev"
  shows "\<exists>l' s'. dispatch_epoll_event np_observed ev (l, s) = Some (l', s') \<and>
    np_abs s' = spec_event (el_breaker_event l) ev (np_abs s) \<and> np_same (fst s) (fst s') \<and>
    el_breaker_event l' = el_breaker_event l \<and> el_pending l' = el_pending l \<and> el_watched l' = el_watched l"
proof (cases "ee_fd ev = el_breaker_event l")
  case True
  with assms show ?thesis by (simp add: dispatch_epoll_event_def event_ok_def spec_event_def Let_def)
next
  case False
  with assms have ok: "fd_ok (fst s) (ee_fd ev)" by (simp add: event_ok_def)
  define st where "st = (if ee_events ev AND (EPOLLERR OR EPOLLRDHUP) \<noteq> 0 then - EINTR else 0)"
  define rd where "rd \<longleftrightarrow> ee_events ev AND EPOLLIN \<noteq> 0"
  define wr where "wr \<longleftrightarrow> ee_events ev AND EPOLLOUT \<noteq> 0"
  obtain s1 where s1: "(if rd then dispatchRead fst apfst observer (ee_fd ev) st s else Some s) = Some s1"
    "np_abs s1 = (if rd then spec_read (ee_fd ev) st (np_abs s) else np_abs s)" "np_same (fst s) (fst s1)"
    using dispatchRead_spec [OF ok, of st] by (cases rd) auto
  with ok have ok1: "fd_ok (fst s1) (ee_fd ev)" by (simp add: np_same_def)
  obtain s2 where s2: "(if wr then dispatchWrite fst apfst observer (ee_fd ev) st s1 else Some s1) = Some s2"
    "np_abs s2 = (if wr then spec_write (ee_fd ev) st (np_abs s1) else np_abs s1)" "np_same (fst s1) (fst s2)"
    using dispatchWrite_spec [OF ok1, of st] by (cases wr) auto
  have "dispatch_epoll_event np_observed ev (l, s) = Some (l, s2)"
    unfolding dispatch_epoll_event_def netpoller_handler_def Let_def st_def [symmetric]
      rd_def [symmetric] wr_def [symmetric] prod.case
    using False s1(1) s2(1) by (cases rd; cases wr) simp_all
  moreover have "np_abs s2 = spec_event (el_breaker_event l) ev (np_abs s)"
    unfolding spec_event_def Let_def st_def [symmetric] rd_def [symmetric] wr_def [symmetric]
    using False s1(2) s2(2) by simp
  ultimately show ?thesis using np_same_trans [OF s1(3) s2(3)] by blast
qed

lemma events_spec:
  assumes "\<forall>ev \<in> set evs. event_ok (el_breaker_event l) (fst s) ev"
  shows "\<exists>l' s'. fold_opt (dispatch_epoll_event np_observed) evs (l, s) = Some (l', s') \<and>
    np_abs s' = fold (spec_event (el_breaker_event l)) evs (np_abs s) \<and> np_same (fst s) (fst s') \<and>
    el_breaker_event l' = el_breaker_event l \<and> el_pending l' = el_pending l \<and> el_watched l' = el_watched l"
  using assms
proof (induction evs arbitrary: l s)
  case (Cons ev evs)
  from event_spec [of l s ev] Cons.prems obtain l1 s1
    where s1: "dispatch_epoll_event np_observed ev (l, s) = Some (l1, s1)"
      "np_abs s1 = spec_event (el_breaker_event l) ev (np_abs s)" "np_same (fst s) (fst s1)"
      "el_breaker_event l1 = el_breaker_event l" "el_pending l1 = el_pending l" "el_watched l1 = el_watched l"
    by auto
  with Cons.prems have "\<forall>ev \<in> set evs. event_ok (el_breaker_event l1) (fst s1) ev"
    by (simp add: np_same_def event_ok_def)
  from Cons.IH [OF this] obtain l2 s2
    where "fold_opt (dispatch_epoll_event np_observed) evs (l1, s1) = Some (l2, s2)"
      "np_abs s2 = fold (spec_event (el_breaker_event l1)) evs (np_abs s1)" "np_same (fst s1) (fst s2)"
      "el_breaker_event l2 = el_breaker_event l1" "el_pending l2 = el_pending l1" "el_watched l2 = el_watched l1"
    by blast
  with s1 np_same_trans [OF s1(3)] show ?case by simp
qed simp

lemma np_wait_spec:
  assumes events: "\<forall>ev \<in> set evs. event_ok (el_breaker_event (np_loop p)) p ev"
    and closes: "\<forall>fd \<in> set (el_pending (np_loop p)). fd_ok p fd"
    and due: "evs \<noteq> [] \<or> timeout_ms = 0 \<or> np_force_exit p"
  shows "\<exists>p' notes'. netpoller_wait fst apfst observer timeout_ms (Epoll_ready evs # answers) (p, notes) =
      Some (Inr max_iter_reached, p', notes') \<and>
    (np_readers p', np_writers p', notes') =
      fold spec_close (el_pending (np_loop p))
        (fold (spec_event (el_breaker_event (np_loop p))) evs (np_readers p, np_writers p, notes)) \<and>
    el_pending (np_loop p') = [] \<and> \<not> np_force_exit p'"
proof -
  let ?p = "p\<lparr>np_force_exit := False\<rparr>"
  have ev: "\<forall>ev \<in> set evs. event_ok (el_breaker_event (np_loop p)) (fst (?p, notes)) ev"
    using events by (simp add: event_ok_def)
  from events_spec [OF ev] obtain l1 s1
    where s1: "fold_opt (dispatch_epoll_event np_observed) evs (np_loop p, ?p, notes) = Some (l1, s1)"
      "np_abs s1 = fold (spec_event (el_breaker_event (np_loop p))) evs (np_abs (?p, notes))"
      "np_same ?p (fst s1)" "el_pending l1 = el_pending (np_loop p)" by auto
  with closes have "\<forall>fd \<in> set (el_pending l1). fd_ok (fst s1) fd" by (simp add: np_same_def)
  from closes_spec [OF this] obtain s2
    where s2: "fold_opt (netpoller_closed fst apfst observer) (el_pending l1) s1 = Some s2"
      "np_abs s2 = fold spec_close (el_pending l1) (np_abs s1)" "np_same (fst s1) (fst s2)" by blast
  have abs_p: "np_abs (?p, notes) = (np_readers p, np_writers p, notes)"
    by (simp add: np_abs_def np_readers_def np_writers_def fun_eq_iff)
  show ?thesis
    using due s1 s2 abs_p np_readers_loop
    by (cases s2)
      (auto simp: netpoller_wait_def run_close_commands_def netpoller_handler_def Let_def np_same_def np_abs_def)
qed

text \<open>
  C5: one turn of the poller delivers exactly what its contract says. When the kernel
  answers with a batch of events, every registration that an event or a queued close
  command concerns is notified once, in the order of the events and then of the commands,
  with the registered data and the status of the source (\<^verbatim>\<open>-EINTR\<close> on an error or
  hang-up, \<^verbatim>\<open>-EBADF\<close> on a close), and is then no longer registered; everything else
  stays registered. The close commands are consumed and the exit flag is reset.
\<close>

theorem netpoller_wait_refines:
  assumes events: "\<forall>ev \<in> set evs. event_ok (el_breaker_event (np_loop p)) p ev"
    and closes: "\<forall>fd \<in> set (el_pending (np_loop p)). fd_ok p fd"
    and due: "evs \<noteq> [] \<or> timeout_ms = 0 \<or> np_force_exit p"
  shows "\<exists>p' notes'. netpoller_wait fst apfst observer timeout_ms (Epoll_ready evs # answers) (p, notes) =
      Some (Inr max_iter_reached, p', notes') \<and>
    (np_readers p', np_writers p', notes') =
      fold spec_close (el_pending (np_loop p))
        (fold (spec_event (el_breaker_event (np_loop p))) evs (np_readers p, np_writers p, notes)) \<and>
    el_pending (np_loop p') = [] \<and> \<not> np_force_exit p'"
  by (rule np_wait_spec [OF assms])

definition np_example_loop :: io_event_loop where
  "np_example_loop = \<lparr>el_breaker_event = 0, el_watched = [0], el_breaker = 0, el_pending = []\<rparr>"

definition np_example :: netpoller where
  "np_example = np_set_fd 1 (\<lambda>d. d\<lparr>fd_registered := True, fd_read_data := 7, fd_read_enabled := True\<rparr>)
     (netpoller_new 2 np_example_loop)"

lemmas np_example_simps = np_example_def np_example_loop_def netpoller_new_def np_set_fd_def
  fd_data_new_def fd_ok_def event_ok_def EPOLLIN_def numeral_2_eq_2

theorem netpoller_wait_refines_witness:
  "\<exists>p' notes'. netpoller_wait fst apfst observer (- 1) [Epoll_ready [\<lparr>ee_fd = 1, ee_events = EPOLLIN\<rparr>]] (np_example, []) =
      Some (Inr max_iter_reached, p', notes') \<and> el_pending (np_loop p') = []"
  using netpoller_wait_refines [of "[\<lparr>ee_fd = 1, ee_events = EPOLLIN\<rparr>]" np_example "- 1" "[]" "[]"]
  by (auto simp: np_example_simps)

section \<open>Interruption and close\<close>

lemma io_event_loop_wait_zero:
  "io_event_loop_wait h 0 answers s = Some (r, s') \<Longrightarrow> r \<noteq> Inr timed_out"
proof (induction h "0 :: int" answers s rule: io_event_loop_wait.induct)
  case (3 h errno answers s)
  then show ?case by (auto split: if_splits Option.bind_splits)
qed (auto split: if_splits Option.bind_splits)



text \<open>
  Closing a registered fd wakes the loop and, at its next turn, notifies the reader and
  the writer registered on the fd of \<^verbatim>\<open>-EBADF\<close> once each, in this order; afterwards the fd
  is unregistered in both directions and unknown to the platform loop, so that the next
  registration on a reused fd number adds it to the epoll instance again.
\<close>

theorem netpoller_close_notifies:
  assumes fd: "fd_ok p fd" "fd_registered (np_waiters p ! nat fd)" and idle: "el_pending (np_loop p) = []"
    and rd: "np_readers p fd = Some d" and wr: "np_writers p fd = Some d'"
  shows "\<exists>p1 p2. netpoller_signal_fd_closed None None fd p = Some (Inr p1) \<and> 0 < el_breaker (np_loop p1) \<and>
    fd \<notin> set (el_watched (np_loop p1)) \<and>
    netpoller_wait fst apfst observer timeout_ms
      (Epoll_ready [\<lparr>ee_fd = el_breaker_event (np_loop p), ee_events = EPOLLIN\<rparr>] # answers) (p1, notes) =
      Some (Inr max_iter_reached, p2, notes @ [(True, fd, d, - EBADF), (False, fd, d', - EBADF)]) \<and>
    np_readers p2 fd = None \<and> np_writers p2 fd = None \<and> \<not> fd_registered (np_waiters p1 ! nat fd)"
proof -
  define p1 where "p1 = (np_set_fd fd (fd_registered_update (\<lambda>_. False)) p)\<lparr>np_loop :=
    (np_loop p)\<lparr>el_watched := removeAll fd (el_watched (np_loop p)), el_pending := [fd],
      el_breaker := el_breaker (np_loop p) + 1\<rparr>\<rparr>"
  have closed: "netpoller_signal_fd_closed None None fd p = Some (Inr p1)"
    using fd idle by (simp add: netpoller_signal_fd_closed_def np_fd_ok_ex io_event_loop_unregister_def
        io_event_loop_interrupt_def p1_def Let_def)
  have loop: "el_breaker_event (np_loop p1) = el_breaker_event (np_loop p)" "el_pending (np_loop p1) = [fd]"
    "fd_ok p1 = fd_ok p" by (simp_all add: p1_def)
  have abs: "np_readers p1 fd = Some d" "np_writers p1 fd = Some d'"
    using fd rd wr np_readers_set [OF fd(1)] np_readers_at [OF fd(1)]
    by (simp_all add: p1_def split: if_splits)
  have breaker: "event_ok (el_breaker_event (np_loop p1)) p1 \<lparr>ee_fd = el_breaker_event (np_loop p), ee_events = EPOLLIN\<rparr>"
    by (simp add: event_ok_def loop EPOLLIN_def)
  obtain p2 notes' where w: "netpoller_wait fst apfst observer timeout_ms
      (Epoll_ready [\<lparr>ee_fd = el_breaker_event (np_loop p), ee_events = EPOLLIN\<rparr>] # answers) (p1, notes) =
      Some (Inr max_iter_reached, p2, notes')"
    and eq: "(np_readers p2, np_writers p2, notes') = fold spec_close [fd]
      (spec_event (el_breaker_event (np_loop p)) \<lparr>ee_fd = el_breaker_event (np_loop p), ee_events = EPOLLIN\<rparr>
        (np_readers p1, np_writers p1, notes))"
    using np_wait_spec
      [of "[\<lparr>ee_fd = el_breaker_event (np_loop p), ee_events = EPOLLIN\<rparr>]" p1 timeout_ms answers "notes"]
      breaker loop fd by auto
  from eq abs have "notes' = notes @ [(True, fd, d, - EBADF), (False, fd, d', - EBADF)]"
    "np_readers p2 fd = None" "np_writers p2 fd = None"
    by (auto simp: spec_event_def spec_close_def Let_def)
  with closed w show ?thesis using fd by (auto simp: p1_def np_set_fd_def fd_ok_def)
qed

definition np_example_both :: netpoller where
  "np_example_both = np_set_fd 1 (\<lambda>d. d\<lparr>fd_write_data := 8, fd_write_enabled := True\<rparr>) np_example"

theorem netpoller_close_notifies_witness:
  "\<exists>p1 p2. netpoller_signal_fd_closed None None 1 np_example_both = Some (Inr p1) \<and>
    netpoller_wait fst apfst observer (- 1) [Epoll_ready [\<lparr>ee_fd = 0, ee_events = EPOLLIN\<rparr>]] (p1, []) =
      Some (Inr max_iter_reached, p2, [(True, 1, 7, - EBADF), (False, 1, 8, - EBADF)])"
  using netpoller_close_notifies [of np_example_both 1 7 8 "- 1" "[]" "[]"]
  by (auto simp: np_example_both_def np_example_simps np_readers_def np_writers_def np_fd_def)

end
