(* ===== verification/Runtime.thy ===== *)
theory Runtime
  imports Sparse_Vector Vectorized_Queue Netpoller
begin

text \<open>
  The state of the runtime and the operations of a thread that the other components call:
  the data of \<^verbatim>\<open>src/boson/boson/internal/routine.h\<close>,
  \<^verbatim>\<open>src/boson/boson/internal/thread.h\<close>, \<^verbatim>\<open>src/boson/boson/semaphore.h\<close> and
  \<^verbatim>\<open>src/boson/boson/engine.h\<close> (the commands), and from
  \<^verbatim>\<open>src/boson/src/internal/thread.cc\<close> the registration of waits, the command queue
  and the scheduling queue.

  Routines, semaphores and threads refer to each other by pointer, so they live in one
  \<open>world\<close>; a pointer is an index into the list of its kind. A
  \<^verbatim>\<open>routine_local_ptr_t\<close> is an index into \<open>w_blocks\<close>, the shared blocks of
  \<^verbatim>\<open>local_ptr\<close>: a block is \<open>Invalidated\<close>, or holds the \<^verbatim>\<open>unique_ptr\<close> to a routine,
  which is null after \<^verbatim>\<open>release()\<close>. Reference counts are the subject of \<open>Local_Ptr\<close>.
  An operation of the runtime is one step; the interleavings of the semaphore protocol
  are the subject of \<open>Semaphore_Protocol\<close>.
\<close>

section \<open>Routines\<close>

datatype routine_status = is_new | running | yielding | wait_events | sema_event_candidate | finished

datatype event_type = ev_none | ev_timer | ev_io_read | ev_io_write | ev_sema_wait | ev_sema_closed

text \<open>
  A waited event with its data: a timer with its date, which is also the key of its
  \<^verbatim>\<open>timed_routines_set\<close>; an fd; a semaphore with the index in its waiters queue and
  the index of the thread's slot.
\<close>

record sema_event_data =
  se_sema :: nat
  se_index :: nat
  se_slot_index :: nat

datatype waited_event = TimerEvent int | ReadEvent int | WriteEvent int | SemaEvent sema_event_data

record routine =
  r_previous_status :: routine_status
  r_status :: routine_status
  r_thread :: nat
  r_events :: "waited_event list"
  r_current_ptr :: "nat option"
  r_happened_type :: event_type
  r_happened_rc :: int
  r_happened_index :: nat

definition routine_new :: routine where
  "routine_new = \<lparr>r_previous_status = is_new, r_status = is_new, r_thread = 0, r_events = [],
     r_current_ptr = None, r_happened_type = ev_none, r_happened_rc = 0, r_happened_index = 0\<rparr>"

datatype block = Invalidated | Owner "nat option"

section \<open>Threads\<close>

datatype thread_status = t_idle | t_busy | t_finishing | t_finished

record routine_slot =
  slot_ptr :: "nat option"
  slot_event_index :: nat

definition routine_slot_empty :: routine_slot where
  "routine_slot_empty = \<lparr>slot_ptr = None, slot_event_index = 0\<rparr>"

text \<open>The commands of a thread; a semaphore is named weakly by its index.\<close>

datatype thread_command =
    add_routine nat
  | schedule_waiting_routine nat nat
  | finish_thread
  | fd_ready nat int int bool

record timed_routines_set =
  ts_nb_active :: size_t
  ts_slots :: "nat list"

text \<open>
  \<open>t_timed\<close> is the ordered map from dates to timers, an association list sorted by
  date. \<open>t_looping\<close> says that the loop mutex of the poller is held.
\<close>

record thread =
  t_scheduled :: "routine_slot list"
  t_status :: thread_status
  t_running :: "nat option"
  t_poller :: netpoller
  t_looping :: bool
  t_engine_queue :: "thread_command list"
  t_nb_pending :: size_t
  t_timed :: "(int \<times> timed_routines_set) list"
  t_nb_suspended :: size_t
  t_slots :: "routine_slot sparse_vector"

definition thread_new :: "netpoller \<Rightarrow> thread" where
  "thread_new p = \<lparr>t_scheduled = [], t_status = t_idle, t_running = None, t_poller = p, t_looping = False,
     t_engine_queue = [], t_nb_pending = 0, t_timed = [], t_nb_suspended = 0, t_slots = sparse_vector_empty\<rparr>"

section \<open>Semaphores, engine commands, and the world\<close>

record semaphore =
  s_waiters :: "(nat \<times> nat) vectorized_queue"
  s_counter :: int32
  s_alive :: bool

definition semaphore_new :: "int32 \<Rightarrow> semaphore" where
  "semaphore_new capacity = \<lparr>s_waiters = vectorized_queue_empty, s_counter = capacity, s_alive = True\<rparr>"

datatype engine_command =
    ec_add_routine nat nat nat
  | ec_notify_idle nat nat
  | ec_notify_end nat

record world =
  w_routines :: "routine list"
  w_blocks :: "block list"
  w_semas :: "semaphore list"
  w_threads :: "thread list"
  w_engine_queue :: "engine_command list"

text \<open>Access by pointer; a pointer to nothing is undefined behaviour.\<close>

definition the_routine :: "nat \<Rightarrow> world \<Rightarrow> routine option" where
  "the_routine r w = vec_get (w_routines w) r"

definition the_thread :: "nat \<Rightarrow> world \<Rightarrow> thread option" where
  "the_thread t w = vec_get (w_threads w) t"

definition the_sema :: "nat \<Rightarrow> world \<Rightarrow> semaphore option" where
  "the_sema s w = vec_get (w_semas w) s"

definition upd_routine :: "nat \<Rightarrow> (routine \<Rightarrow> routine) \<Rightarrow> world \<Rightarrow> world" where
  "upd_routine r f w = w\<lparr>w_routines := (w_routines w)[r := f (w_routines w ! r)]\<rparr>"

definition upd_thread :: "nat \<Rightarrow> (thread \<Rightarrow> thread) \<Rightarrow> world \<Rightarrow> world" where
  "upd_thread t f w = w\<lparr>w_threads := (w_threads w)[t := f (w_threads w ! t)]\<rparr>"

definition upd_sema :: "nat \<Rightarrow> (semaphore \<Rightarrow> semaphore) \<Rightarrow> world \<Rightarrow> world" where
  "upd_sema s f w = w\<lparr>w_semas := (w_semas w)[s := f (w_semas w ! s)]\<rparr>"

section \<open>Local pointers to routines\<close>

text \<open>
  A new pointer \<^verbatim>\<open>routine_local_ptr_t(unique_ptr(r))\<close>, the test \<^verbatim>\<open>operator bool\<close>, the
  routine behind a valid pointer (\<^verbatim>\<open>ptr->get()\<close>), \<^verbatim>\<open>ptr->release()\<close> and
  \<^verbatim>\<open>invalidate_all()\<close>. Copies share the block.
\<close>

definition make_ptr :: "nat \<Rightarrow> world \<Rightarrow> nat \<times> world" where
  "make_ptr r w = (length (w_blocks w), w\<lparr>w_blocks := w_blocks w @ [Owner (Some r)]\<rparr>)"

definition ptr_valid :: "nat option \<Rightarrow> world \<Rightarrow> bool" where
  "ptr_valid ptr w =
     (case ptr of None \<Rightarrow> False
      | Some b \<Rightarrow> b < length (w_blocks w) \<and> w_blocks w ! b \<noteq> Invalidated)"

definition ptr_get :: "nat option \<Rightarrow> world \<Rightarrow> nat option" where
  "ptr_get ptr w =
     (case ptr of None \<Rightarrow> None
      | Some b \<Rightarrow> (case vec_get (w_blocks w) b of Some (Owner r) \<Rightarrow> r | _ \<Rightarrow> None))"

definition ptr_release :: "nat option \<Rightarrow> world \<Rightarrow> (nat option \<times> world) option" where
  "ptr_release ptr w =
     (case ptr of None \<Rightarrow> None
      | Some b \<Rightarrow> (case vec_get (w_blocks w) b of
                     Some (Owner r) \<Rightarrow> Some (r, w\<lparr>w_blocks := (w_blocks w)[b := Owner None]\<rparr>)
                   | _ \<Rightarrow> None))"

definition ptr_invalidate_all :: "nat option \<Rightarrow> world \<Rightarrow> world option" where
  "ptr_invalidate_all ptr w =
     (case ptr of None \<Rightarrow> Some w
      | Some b \<Rightarrow> do { bs \<leftarrow> vec_set (w_blocks w) b Invalidated; Some (w\<lparr>w_blocks := bs\<rparr>) })"

section \<open>Slots and timers of a thread\<close>

definition alloc_slot :: "routine_slot \<Rightarrow> thread \<Rightarrow> (nat \<times> thread) option" where
  "alloc_slot slot th =
     do { (index, v) \<leftarrow> sparse_vector_allocate routine_slot_empty (t_slots th);
          v' \<leftarrow> sparse_vector_set index slot v;
          Some (index, th\<lparr>t_slots := v'\<rparr>) }"

text \<open>\<^verbatim>\<open>timed_routines_[date]\<close> creates the set at its place in the order when it is missing.\<close>

fun timed_add :: "int \<Rightarrow> nat \<Rightarrow> (int \<times> timed_routines_set) list \<Rightarrow> (int \<times> timed_routines_set) list" where
  "timed_add date index [] = [(date, \<lparr>ts_nb_active = 1, ts_slots = [index]\<rparr>)]"
| "timed_add date index ((d, s) # rest) =
     (if date < d then (date, \<lparr>ts_nb_active = 1, ts_slots = [index]\<rparr>) # (d, s) # rest
      else if date = d
      then (d, s\<lparr>ts_nb_active := ts_nb_active s + 1, ts_slots := ts_slots s @ [index]\<rparr>) # rest
      else (d, s) # timed_add date index rest)"

definition thread_register_timer :: "nat \<Rightarrow> int \<Rightarrow> routine_slot \<Rightarrow> world \<Rightarrow> world option" where
  "thread_register_timer t date slot w =
     do { th \<leftarrow> the_thread t w;
          (index, th1) \<leftarrow> alloc_slot slot th;
          Some (upd_thread t (\<lambda>_. th1\<lparr>t_timed := timed_add date index (t_timed th1)\<rparr>) w) }"

definition thread_register_semaphore_wait :: "nat \<Rightarrow> routine_slot \<Rightarrow> world \<Rightarrow> (nat \<times> world) option" where
  "thread_register_semaphore_wait t slot w =
     do { th \<leftarrow> the_thread t w;
          (index, th1) \<leftarrow> alloc_slot slot th;
          Some (index, upd_thread t (\<lambda>_. th1\<lparr>t_nb_suspended := t_nb_suspended th1 + 1\<rparr>) w) }"

text \<open>
  Registration of an fd; \<open>ctl\<close> is the answer of \<^verbatim>\<open>epoll_ctl\<close>, and an exception thrown by
  the poller leaves the runtime (\<open>None\<close>). The returned event id of the source is unused.
\<close>

definition thread_register_read :: "int option \<Rightarrow> nat \<Rightarrow> int \<Rightarrow> routine_slot \<Rightarrow> world \<Rightarrow> world option" where
  "thread_register_read ctl t fd slot w =
     do { th \<leftarrow> the_thread t w;
          (index, th1) \<leftarrow> alloc_slot slot th;
          r \<leftarrow> netpoller_register_read ctl fd (of_nat index) (t_poller th1);
          (case r of
             Inl e \<Rightarrow> None
           | Inr p \<Rightarrow> Some (upd_thread t (\<lambda>_. th1\<lparr>t_poller := p, t_nb_suspended := t_nb_suspended th1 + 1\<rparr>) w)) }"

definition thread_register_write :: "int option \<Rightarrow> nat \<Rightarrow> int \<Rightarrow> routine_slot \<Rightarrow> world \<Rightarrow> world option" where
  "thread_register_write ctl t fd slot w =
     do { th \<leftarrow> the_thread t w;
          (index, th1) \<leftarrow> alloc_slot slot th;
          r \<leftarrow> netpoller_register_write ctl fd (of_nat index) (t_poller th1);
          (case r of
             Inl e \<Rightarrow> None
           | Inr p \<Rightarrow> Some (upd_thread t (\<lambda>_. th1\<lparr>t_poller := p, t_nb_suspended := t_nb_suspended th1 + 1\<rparr>) w)) }"

definition thread_unregister_expired_slot :: "nat \<Rightarrow> nat \<Rightarrow> world \<Rightarrow> world option" where
  "thread_unregister_expired_slot t slot_index w =
     do { th \<leftarrow> the_thread t w;
          v \<leftarrow> sparse_vector_free slot_index (t_slots th);
          Some (upd_thread t (\<lambda>th. th\<lparr>t_slots := v\<rparr>) w) }"

section \<open>Scheduling and commands\<close>

definition thread_schedule_routine :: "nat \<Rightarrow> routine_slot \<Rightarrow> world \<Rightarrow> world option" where
  "thread_schedule_routine t slot w =
     do { th \<leftarrow> the_thread t w;
          r \<leftarrow> ptr_get (slot_ptr slot) w;
          rt \<leftarrow> the_routine r w;
          if r_status rt \<in> {yielding, is_new, sema_event_candidate}
          then Some (upd_thread t (\<lambda>th. th\<lparr>t_scheduled := t_scheduled th @ [slot]\<rparr>) w)
          else None }"

text \<open>\<^verbatim>\<open>wakeUp\<close>; the write to the event fd is taken to succeed.\<close>

definition thread_wakeUp :: "thread \<Rightarrow> thread option" where
  "thread_wakeUp th =
     (case netpoller_interrupt (t_looping th) None (t_poller th) of
        Inl e \<Rightarrow> None
      | Inr p \<Rightarrow> Some (th\<lparr>t_poller := p\<rparr>))"

definition thread_push_command :: "nat \<Rightarrow> thread_command \<Rightarrow> world \<Rightarrow> world option" where
  "thread_push_command t cmd w =
     do { th \<leftarrow> the_thread t w;
          th' \<leftarrow> thread_wakeUp (th\<lparr>t_nb_pending := t_nb_pending th + 1, t_engine_queue := t_engine_queue th @ [cmd]\<rparr>);
          Some (upd_thread t (\<lambda>_. th') w) }"

text \<open>What a command does to the thread that receives it.\<close>

definition thread_queue :: "nat \<Rightarrow> world \<Rightarrow> thread_command list" where
  "thread_queue t w = t_engine_queue (w_threads w ! t)"

lemma thread_wakeUp_Some: "\<exists>p. thread_wakeUp th = Some (th\<lparr>t_poller := p\<rparr>)"
  by (auto simp: thread_wakeUp_def netpoller_interrupt_def io_event_loop_interrupt_def split: sum.splits)

lemma thread_push_command_Some:
  assumes "t < length (w_threads w)"
  shows "\<exists>w'. thread_push_command t cmd w = Some w' \<and> length (w_threads w') = length (w_threads w) \<and>
    w_engine_queue w' = w_engine_queue w \<and>
    (\<forall>u. u < length (w_threads w) \<longrightarrow> thread_queue u w' = thread_queue u w @ (if u = t then [cmd] else []))"
proof -
  let ?th = "(w_threads w ! t)\<lparr>t_nb_pending := t_nb_pending (w_threads w ! t) + 1,
    t_engine_queue := t_engine_queue (w_threads w ! t) @ [cmd]\<rparr>"
  obtain p where "thread_wakeUp ?th = Some (?th\<lparr>t_poller := p\<rparr>)" using thread_wakeUp_Some by blast
  with assms show ?thesis
    by (auto simp: thread_push_command_def the_thread_def upd_thread_def thread_queue_def nth_list_update)
qed

end
