(* ===== verification/Semaphore.thy ===== *)
theory Semaphore
  imports Runtime
begin

text \<open>
  \<^verbatim>\<open>boson::semaphore\<close> (\<^verbatim>\<open>src/boson/boson/semaphore.h\<close>,
  \<^verbatim>\<open>src/boson/src/semaphore.cc\<close>): the counter, the queue of waiters, and the
  operations that do not suspend the caller. \<^verbatim>\<open>wait\<close>, which may, is in \<open>Blocking\<close>.
  The counter is an \<^verbatim>\<open>atomic<int>\<close>: its fetch operations wrap at 32 bits and return the
  old value as a signed number.
\<close>

section \<open>Counter and queue\<close>

definition disabling_threshold :: int where
  "disabling_threshold = 0x40000000"

definition disabled_standpoint :: int32 where
  "disabled_standpoint = 0x60000000"

datatype semaphore_return_value = sema_ok | sema_timedout | sema_disabled

definition sema_fetch_add :: "nat \<Rightarrow> world \<Rightarrow> (int \<times> world) option" where
  "sema_fetch_add s w =
     do { sm \<leftarrow> the_sema s w;
          Some (sint (s_counter sm), upd_sema s (\<lambda>sm. sm\<lparr>s_counter := s_counter sm + 1\<rparr>) w) }"

definition sema_fetch_sub :: "nat \<Rightarrow> world \<Rightarrow> (int \<times> world) option" where
  "sema_fetch_sub s w =
     do { sm \<leftarrow> the_sema s w;
          Some (sint (s_counter sm), upd_sema s (\<lambda>sm. sm\<lparr>s_counter := s_counter sm - 1\<rparr>) w) }"

definition semaphore_write :: "nat \<Rightarrow> nat \<Rightarrow> nat \<Rightarrow> world \<Rightarrow> (nat \<times> world) option" where
  "semaphore_write s target index w =
     do { sm \<leftarrow> the_sema s w;
          (i, q) \<leftarrow> vectorized_queue_write (target, index) (s_waiters sm);
          Some (i, upd_sema s (\<lambda>sm. sm\<lparr>s_waiters := q\<rparr>) w) }"

definition semaphore_read :: "nat \<Rightarrow> world \<Rightarrow> ((nat \<times> nat) option \<times> world) option" where
  "semaphore_read s w =
     do { sm \<leftarrow> the_sema s w;
          (m, q) \<leftarrow> vectorized_queue_read (s_waiters sm);
          Some (m, upd_sema s (\<lambda>sm. sm\<lparr>s_waiters := q\<rparr>) w) }"

definition semaphore_free :: "nat \<Rightarrow> nat \<Rightarrow> world \<Rightarrow> (bool \<times> world) option" where
  "semaphore_free s index w =
     do { sm \<leftarrow> the_sema s w;
          (b, q) \<leftarrow> vectorized_queue_lazy_free index (s_waiters sm);
          Some (b, upd_sema s (\<lambda>sm. sm\<lparr>s_waiters := q\<rparr>) w) }"

section \<open>Waking waiters\<close>

text \<open>
  \<^verbatim>\<open>pop_a_waiter\<close> sends the oldest waiter to the thread that manages it; it returns
  \<open>True\<close> on every path.
\<close>

definition pop_a_waiter :: "nat \<Rightarrow> nat \<Rightarrow> world \<Rightarrow> (bool \<times> world) option" where
  "pop_a_waiter s current w =
     do { (waiter, w1) \<leftarrow> semaphore_read s w;
          case waiter of
            None \<Rightarrow> Some (True, w1)
          | Some (managing_thread, index) \<Rightarrow>
              do { w2 \<leftarrow> thread_push_command managing_thread (schedule_waiting_routine s index) w1;
                   Some (True, w2) } }"

text \<open>The loop of \<^verbatim>\<open>disable\<close>; its fuel bounds the number of waiters.\<close>

fun wake_all_waiters :: "nat \<Rightarrow> nat \<Rightarrow> world \<Rightarrow> world option" where
  "wake_all_waiters 0 s w = None"
| "wake_all_waiters (Suc n) s w =
     do { (waiter, w1) \<leftarrow> semaphore_read s w;
          case waiter of
            None \<Rightarrow> Some w1
          | Some (managing_thread, index) \<Rightarrow>
              do { w2 \<leftarrow> thread_push_command managing_thread (schedule_waiting_routine s index) w1;
                   wake_all_waiters n s w2 } }"

definition semaphore_disable :: "nat \<Rightarrow> world \<Rightarrow> world option" where
  "semaphore_disable s w =
     do { sm \<leftarrow> the_sema s w;
          wake_all_waiters (Suc (length (vq_data (s_waiters sm)))) s
            (upd_sema s (\<lambda>sm. sm\<lparr>s_counter := disabled_standpoint\<rparr>) w) }"

definition semaphore_post :: "nat \<Rightarrow> nat \<Rightarrow> world \<Rightarrow> (semaphore_return_value \<times> world) option" where
  "semaphore_post s current w =
     do { (result, w1) \<leftarrow> sema_fetch_add s w;
          if disabling_threshold < result then
            do { (_, w2) \<leftarrow> sema_fetch_sub s w1; Some (sema_disabled, w2) }
          else if 0 \<le> result then
            do { (_, w2) \<leftarrow> pop_a_waiter s current w1; Some (sema_ok, w2) }
          else Some (sema_ok, w1) }"

text \<open>The destructor empties the queue of waiters without waking them.\<close>

fun drop_all_waiters :: "nat \<Rightarrow> nat \<Rightarrow> world \<Rightarrow> world option" where
  "drop_all_waiters 0 s w = None"
| "drop_all_waiters (Suc n) s w =
     do { (waiter, w1) \<leftarrow> semaphore_read s w;
          case waiter of None \<Rightarrow> Some w1 | Some _ \<Rightarrow> drop_all_waiters n s w1 }"

definition semaphore_destroy :: "nat \<Rightarrow> world \<Rightarrow> world option" where
  "semaphore_destroy s w =
     do { sm \<leftarrow> the_sema s w;
          w1 \<leftarrow> drop_all_waiters (Suc (length (vq_data (s_waiters sm)))) s w;
          Some (upd_sema s (\<lambda>sm. sm\<lparr>s_alive := False\<rparr>) w1) }"

end
