(* ===== verification/Semaphore_Protocol.thy ===== *)
theory Semaphore_Protocol
  imports Semaphore
begin

text \<open>
  The wait/post protocol of \<^verbatim>\<open>boson::semaphore\<close> under every interleaving. The operations
  \<^verbatim>\<open>semaphore::wait\<close>, \<^verbatim>\<open>post\<close> and \<^verbatim>\<open>disable\<close>
  (\<^verbatim>\<open>src/boson/src/semaphore.cc\<close>) with the parts of \<^verbatim>\<open>routine::add_semaphore_wait\<close>
  and \<^verbatim>\<open>routine::event_happened\<close> they continue in
  (\<^verbatim>\<open>src/boson/src/internal/routine.cc\<close>) are cut at their atomic operations: each access
  to the counter and each operation on the locked queue of waiters is one step, and
  the steps of all routines interleave freely.

  A routine that fails to get a ticket has already decremented the counter; it enqueues
  itself, increments the counter back, and if it thereby saw a non-negative counter it
  must pop a waiter, because a post may have gone by in between. A popped waiter is a
  candidate: it tries again to take a ticket and may fail again. \<open>sp_candidates\<close> are the
  popped waiters whose command is on its way to their thread or which are scheduled.
  Waits have no timeout here.
\<close>

section \<open>The steps\<close>

datatype sp_pc = Idle | WaitFailed | WaitQueued | WaitPop | Blocked | WaitUndo | PostPop | PostUndo | Draining

text \<open>
  \<open>sp_acquired\<close>, \<open>sp_posted\<close> and \<open>sp_disabled\<close> record history: the tickets taken, the posts
  accepted, and whether \<^verbatim>\<open>disable\<close> was called.
\<close>

record sp_state =
  sp_counter :: int32
  sp_waiters :: "nat list"
  sp_candidates :: "nat list"
  sp_pcs :: "sp_pc list"
  sp_acquired :: nat
  sp_posted :: nat
  sp_disabled :: bool

definition sp_init :: "nat \<Rightarrow> nat \<Rightarrow> sp_state" where
  "sp_init capacity n = \<lparr>sp_counter = of_nat capacity, sp_waiters = [], sp_candidates = [],
     sp_pcs = replicate n Idle, sp_acquired = 0, sp_posted = 0, sp_disabled = False\<rparr>"

definition sp_goto :: "nat \<Rightarrow> sp_pc \<Rightarrow> sp_state \<Rightarrow> sp_state" where
  "sp_goto p pc s = s\<lparr>sp_pcs := (sp_pcs s)[p := pc]\<rparr>"

definition sp_at :: "nat \<Rightarrow> sp_pc \<Rightarrow> sp_state \<Rightarrow> bool" where
  "sp_at p pc s \<longleftrightarrow> p < length (sp_pcs s) \<and> sp_pcs s ! p = pc"

text \<open>
  \<^verbatim>\<open>fetch_sub\<close> and the three-way test on its result, shared by \<^verbatim>\<open>wait\<close> and by the candidate
  in \<^verbatim>\<open>event_happened\<close>: closed, failed, or a ticket.
\<close>

definition sp_try_take :: "nat \<Rightarrow> sp_state \<Rightarrow> sp_state" where
  "sp_try_take p s =
     (let result = sint (sp_counter s); s1 = s\<lparr>sp_counter := sp_counter s - 1\<rparr> in
      if disabling_threshold < result then sp_goto p WaitUndo s1
      else if result \<le> 0 then sp_goto p WaitFailed s1
      else sp_goto p Idle (s1\<lparr>sp_acquired := sp_acquired s + 1\<rparr>))"

definition sp_add_back :: "nat \<Rightarrow> sp_state \<Rightarrow> sp_state" where
  "sp_add_back p s =
     (let result = sint (sp_counter s); s1 = s\<lparr>sp_counter := sp_counter s + 1\<rparr> in
      if 0 \<le> result then sp_goto p WaitPop s1 else sp_goto p Blocked s1)"

definition sp_post :: "nat \<Rightarrow> sp_state \<Rightarrow> sp_state" where
  "sp_post p s =
     (let result = sint (sp_counter s); s1 = s\<lparr>sp_counter := sp_counter s + 1\<rparr> in
      if disabling_threshold < result then sp_goto p PostUndo s1
      else if 0 \<le> result then sp_goto p PostPop (s1\<lparr>sp_posted := sp_posted s + 1\<rparr>)
      else s1\<lparr>sp_posted := sp_posted s + 1\<rparr>)"

text \<open>\<^verbatim>\<open>pop_a_waiter\<close>.\<close>

definition sp_pop :: "sp_state \<Rightarrow> sp_state" where
  "sp_pop s =
     (case sp_waiters s of
        [] \<Rightarrow> s
      | q # rest \<Rightarrow> s\<lparr>sp_waiters := rest, sp_candidates := sp_candidates s @ [q]\<rparr>)"

inductive sema_step :: "sp_state \<Rightarrow> sp_state \<Rightarrow> bool" where
  wait: "sp_at p Idle s \<Longrightarrow> sema_step s (sp_try_take p s)"
| candidate: "sp_at p Blocked s \<Longrightarrow> p \<in> set (sp_candidates s) \<Longrightarrow>
    sema_step s (sp_try_take p (s\<lparr>sp_candidates := remove1 p (sp_candidates s)\<rparr>))"
| wait_undo: "sp_at p WaitUndo s \<Longrightarrow> sema_step s (sp_goto p Idle (s\<lparr>sp_counter := sp_counter s + 1\<rparr>))"
| enqueue: "sp_at p WaitFailed s \<Longrightarrow>
    sema_step s (sp_goto p WaitQueued (s\<lparr>sp_waiters := sp_waiters s @ [p]\<rparr>))"
| add_back: "sp_at p WaitQueued s \<Longrightarrow> sema_step s (sp_add_back p s)"
| wait_pop: "sp_at p WaitPop s \<Longrightarrow> sema_step s (sp_goto p Blocked (sp_pop s))"
| post: "sp_at p Idle s \<Longrightarrow> sema_step s (sp_post p s)"
| post_undo: "sp_at p PostUndo s \<Longrightarrow> sema_step s (sp_goto p Idle (s\<lparr>sp_counter := sp_counter s - 1\<rparr>))"
| post_pop: "sp_at p PostPop s \<Longrightarrow> sema_step s (sp_goto p Idle (sp_pop s))"
| disable: "sp_at p Idle s \<Longrightarrow>
    sema_step s (sp_goto p Draining (s\<lparr>sp_counter := disabled_standpoint, sp_disabled := True\<rparr>))"
| drain: "sp_at p Draining s \<Longrightarrow> sp_waiters s \<noteq> [] \<Longrightarrow> sema_step s (sp_pop s)"
| drained: "sp_at p Draining s \<Longrightarrow> sp_waiters s = [] \<Longrightarrow> sema_step s (sp_goto p Idle s)"

abbreviation sema_reach :: "nat \<Rightarrow> nat \<Rightarrow> sp_state \<Rightarrow> bool" where
  "sema_reach capacity n s \<equiv> sema_step\<^sup>*\<^sup>* (sp_init capacity n) s"

section \<open>Counting\<close>

definition cnt :: "sp_pc \<Rightarrow> sp_state \<Rightarrow> int" where
  "cnt pc s = int (count_list (sp_pcs s) pc)"

lemma count_list_update:
  "p < length xs \<Longrightarrow> count_list (xs[p := y]) z + (if xs ! p = z then 1 else 0) =
     count_list xs z + (if y = z then 1 else 0)"
proof (induction xs arbitrary: p)
  case (Cons x xs)
  show ?case
  proof (cases p)
    case (Suc q)
    with Cons show ?thesis by (cases "x = z") (auto dest: Cons.IH)
  qed simp
qed simp

lemma cnt_goto:
  "p < length (sp_pcs s) \<Longrightarrow>
     cnt pc (sp_goto p pc1 s) = cnt pc s - (if sp_pcs s ! p = pc then 1 else 0) + (if pc1 = pc then 1 else 0)"
  using count_list_update [of p "sp_pcs s" pc1 pc]
  by (auto simp: cnt_def sp_goto_def split: if_splits)

lemma cnt_frame [simp]:
  "cnt pc (s\<lparr>sp_counter := c\<rparr>) = cnt pc s"
  "cnt pc (s\<lparr>sp_waiters := ws\<rparr>) = cnt pc s"
  "cnt pc (s\<lparr>sp_candidates := ws\<rparr>) = cnt pc s"
  "cnt pc (s\<lparr>sp_acquired := k\<rparr>) = cnt pc s"
  "cnt pc (s\<lparr>sp_posted := k\<rparr>) = cnt pc s"
  "cnt pc (s\<lparr>sp_disabled := b\<rparr>) = cnt pc s"
  "cnt pc (sp_pop s) = cnt pc s"
  by (auto simp: cnt_def sp_pop_def split: list.splits)

lemma sp_at_frame [simp]:
  "sp_at p pc (s\<lparr>sp_counter := c\<rparr>) = sp_at p pc s"
  "sp_at p pc (s\<lparr>sp_waiters := ws\<rparr>) = sp_at p pc s"
  "sp_at p pc (s\<lparr>sp_candidates := ws\<rparr>) = sp_at p pc s"
  "sp_at p pc (s\<lparr>sp_acquired := k\<rparr>) = sp_at p pc s"
  "sp_at p pc (s\<lparr>sp_posted := k\<rparr>) = sp_at p pc s"
  "sp_at p pc (s\<lparr>sp_disabled := b\<rparr>) = sp_at p pc s"
  "sp_at p pc (sp_pop s) = sp_at p pc s"
  by (auto simp: sp_at_def sp_pop_def split: list.splits)

lemma sp_goto_frame [simp]:
  "sp_counter (sp_goto p pc s) = sp_counter s"
  "sp_waiters (sp_goto p pc s) = sp_waiters s"
  "sp_candidates (sp_goto p pc s) = sp_candidates s"
  "sp_acquired (sp_goto p pc s) = sp_acquired s"
  "sp_posted (sp_goto p pc s) = sp_posted s"
  "sp_disabled (sp_goto p pc s) = sp_disabled s"
  "length (sp_pcs (sp_goto p pc s)) = length (sp_pcs s)"
  by (simp_all add: sp_goto_def)

lemma sp_pop_frame [simp]:
  "sp_counter (sp_pop s) = sp_counter s" "sp_acquired (sp_pop s) = sp_acquired s"
  "sp_posted (sp_pop s) = sp_posted s" "sp_disabled (sp_pop s) = sp_disabled s"
  "sp_pcs (sp_pop s) = sp_pcs s"
  by (auto simp: sp_pop_def split: list.splits)

lemma cnt_nonneg: "0 \<le> cnt pc s"
  by (simp add: cnt_def)

lemma cnt_at: "sp_at p pc s \<Longrightarrow> 1 \<le> cnt pc s"
  by (auto simp: cnt_def sp_at_def Suc_le_eq count_list_0_iff simp flip: neq0_conv)

lemma count_list_four:
  "a \<noteq> b \<Longrightarrow> a \<noteq> c \<Longrightarrow> a \<noteq> d \<Longrightarrow> b \<noteq> c \<Longrightarrow> b \<noteq> d \<Longrightarrow> c \<noteq> d \<Longrightarrow>
   count_list xs a + count_list xs b + count_list xs c + count_list xs d \<le> length xs"
  by (induction xs) auto

lemma cnt_four:
  "cnt WaitFailed s + cnt WaitQueued s + cnt WaitUndo s + cnt PostUndo s \<le> int (length (sp_pcs s))"
  using count_list_four [of WaitFailed WaitQueued WaitUndo PostUndo "sp_pcs s"] by (simp add: cnt_def)

lemma sint_plus_one: "sint c < 2 ^ 31 - 1 \<Longrightarrow> sint (c + 1) = sint c + 1" for c :: int32
  using sint_greater_eq [of c] by (simp add: sint_word_ariths signed_take_bit_int_eq_self)

lemma sint_minus_one: "- (2 ^ 31) < sint c \<Longrightarrow> sint (c - 1) = sint c - 1" for c :: int32
  using sint_less [of c] by (simp add: sint_word_ariths signed_take_bit_int_eq_self)

section \<open>The invariant\<close>

text \<open>
  \<open>sp_tickets\<close> is the counter with the temporary decrements and increments taken out.
  \<open>sp_active\<close> counts what will still look at the queue or the counter, \<open>sp_demand\<close> the
  routines that wait or are about to.
\<close>

definition sp_tickets :: "sp_state \<Rightarrow> int" where
  "sp_tickets s = sint (sp_counter s) + cnt WaitFailed s + cnt WaitQueued s + cnt WaitUndo s - cnt PostUndo s"

definition sp_active :: "sp_state \<Rightarrow> int" where
  "sp_active s = int (length (sp_candidates s)) + cnt WaitPop s + cnt PostPop s + cnt WaitFailed s + cnt WaitQueued s"

definition sp_demand :: "sp_state \<Rightarrow> int" where
  "sp_demand s = int (length (sp_waiters s)) + cnt WaitFailed s + int (length (sp_candidates s))"

definition sp_num :: "nat \<Rightarrow> nat \<Rightarrow> sp_state \<Rightarrow> bool" where
  "sp_num capacity n s \<longleftrightarrow> length (sp_pcs s) = n \<and> sp_acquired s \<le> capacity + sp_posted s \<and>
     (if sp_disabled s then
        \<bar>sp_tickets s - sint disabled_standpoint\<bar> \<le> int n \<and>
        (cnt Draining s = 0 \<longrightarrow> sp_demand s \<le> sp_active s)
      else
        cnt WaitUndo s = 0 \<and> cnt PostUndo s = 0 \<and> cnt Draining s = 0 \<and>
        sp_tickets s = int (capacity + sp_posted s) - int (sp_acquired s) \<and>
        min (sp_tickets s) (sp_demand s) \<le> sp_active s)"

text \<open>Every routine that waits is in the queue or a candidate, once.\<close>

definition sp_members :: "sp_state \<Rightarrow> bool" where
  "sp_members s \<longleftrightarrow> distinct (sp_waiters s @ sp_candidates s) \<and>
     set (sp_waiters s @ sp_candidates s) =
       {p. p < length (sp_pcs s) \<and> sp_pcs s ! p \<in> {WaitQueued, WaitPop, Blocked}}"

definition sp_small :: "nat \<Rightarrow> nat \<Rightarrow> sp_state \<Rightarrow> bool" where
  "sp_small capacity n s \<longleftrightarrow> n \<le> 2 ^ 27 \<and> capacity + sp_posted s \<le> 2 ^ 29"

lemma standpoint: "sint disabled_standpoint = 0x60000000"
  by (simp add: disabled_standpoint_def)

lemma sp_counter_range:
  assumes num: "sp_num capacity n s" and small: "sp_small capacity n s"
  shows "sp_disabled s \<Longrightarrow> disabling_threshold < sint (sp_counter s)"
    and "sp_disabled s \<Longrightarrow> sint (sp_counter s) < 2 ^ 31 - 1"
    and "\<not> sp_disabled s \<Longrightarrow> - (2 ^ 27) \<le> sint (sp_counter s)"
    and "\<not> sp_disabled s \<Longrightarrow> sint (sp_counter s) \<le> 2 ^ 29"
proof -
  have "0 \<le> cnt pc s" for pc by (rule cnt_nonneg)
  note cnt = this [of WaitFailed] this [of WaitQueued] this [of WaitUndo] this [of PostUndo] cnt_four [of s]
  have n: "int (length (sp_pcs s)) \<le> 134217728" and c: "int (capacity + sp_posted s) \<le> 536870912"
    using num small by (simp_all add: sp_small_def sp_num_def)
  have d: "\<bar>sp_tickets s - 1610612736\<bar> \<le> int (length (sp_pcs s))" if "sp_disabled s"
    using num that by (simp add: sp_num_def standpoint)
  have e: "sp_tickets s = int (capacity + sp_posted s) - int (sp_acquired s)" "sp_acquired s \<le> capacity + sp_posted s"
    if "\<not> sp_disabled s" using num that by (simp_all add: sp_num_def)
  show "disabling_threshold < sint (sp_counter s)" if "sp_disabled s"
    using cnt n d [OF that] unfolding sp_tickets_def disabling_threshold_def abs_le_iff by linarith
  show "sint (sp_counter s) < 2 ^ 31 - 1" if "sp_disabled s"
    using cnt n d [OF that] unfolding sp_tickets_def abs_le_iff by simp
  show "- (2 ^ 27) \<le> sint (sp_counter s)" if "\<not> sp_disabled s"
    using cnt n e [OF that] num that unfolding sp_tickets_def by (simp add: sp_num_def)
  show "sint (sp_counter s) \<le> 2 ^ 29" if "\<not> sp_disabled s"
    using cnt c e [OF that] num that unfolding sp_tickets_def by (simp add: sp_num_def)
qed

lemma sp_num_init: "sp_num capacity n (sp_init capacity n)" if "capacity \<le> 2 ^ 29"
proof -
  have "sint (of_nat capacity :: int32) = int capacity"
    using that by (simp add: signed_of_nat signed_take_bit_int_eq_self)
  moreover have "count_list (replicate n Idle) pc = 0" if "pc \<noteq> Idle" for pc
    using that by (simp add: count_list_0_iff)
  ultimately show ?thesis
    by (simp add: sp_num_def sp_init_def sp_tickets_def sp_demand_def sp_active_def cnt_def)
qed

section \<open>Preservation\<close>

lemmas sp_quantities = sp_tickets_def sp_active_def sp_demand_def

text \<open>The invariant as facts and as a rule, by whether the semaphore was disabled.\<close>

lemma sp_num_enabled:
  "\<not> sp_disabled s \<Longrightarrow> sp_num capacity n s \<longleftrightarrow>
     length (sp_pcs s) = n \<and> sp_acquired s \<le> capacity + sp_posted s \<and>
     cnt WaitUndo s = 0 \<and> cnt PostUndo s = 0 \<and> cnt Draining s = 0 \<and>
     sp_tickets s = int (capacity + sp_posted s) - int (sp_acquired s) \<and>
     (sp_tickets s \<le> sp_active s \<or> sp_demand s \<le> sp_active s)"
  by (auto simp: sp_num_def min_le_iff_disj)

lemma sp_num_disabled:
  "sp_disabled s \<Longrightarrow> sp_num capacity n s \<longleftrightarrow>
     length (sp_pcs s) = n \<and> sp_acquired s \<le> capacity + sp_posted s \<and>
     sint disabled_standpoint - int n \<le> sp_tickets s \<and> sp_tickets s \<le> sint disabled_standpoint + int n \<and>
     (cnt Draining s = 0 \<longrightarrow> sp_demand s \<le> sp_active s)"
  by (auto simp: sp_num_def)

lemma sint_dec:
  assumes "sp_num capacity n s" and "sp_small capacity n s"
  shows "sint (sp_counter s - 1) = sint (sp_counter s) - 1"
  using sp_counter_range [OF assms]
  by (intro sint_minus_one) (cases "sp_disabled s"; simp add: disabling_threshold_def)

lemma sint_inc:
  assumes "sp_num capacity n s" and "sp_small capacity n s"
  shows "sint (sp_counter s + 1) = sint (sp_counter s) + 1"
  using sp_counter_range [OF assms]
  by (intro sint_plus_one) (cases "sp_disabled s"; simp)

lemma try_take_cases:
  assumes num: "sp_num capacity n s" and small: "sp_small capacity n s"
  obtains (closed) "sp_disabled s" "sp_try_take p s = sp_goto p WaitUndo (s\<lparr>sp_counter := sp_counter s - 1\<rparr>)"
    | (failed) "\<not> sp_disabled s" "sint (sp_counter s) \<le> 0"
      "sp_try_take p s = sp_goto p WaitFailed (s\<lparr>sp_counter := sp_counter s - 1\<rparr>)"
    | (taken) "\<not> sp_disabled s" "0 < sint (sp_counter s)"
      "sp_try_take p s = sp_goto p Idle (s\<lparr>sp_counter := sp_counter s - 1, sp_acquired := sp_acquired s + 1\<rparr>)"
proof (cases "sp_disabled s")
  case True
  with sp_counter_range(1) [OF num small] show thesis
    by (intro closed) (simp_all add: sp_try_take_def)
next
  case False
  with sp_counter_range(4) [OF num small] have "\<not> disabling_threshold < sint (sp_counter s)"
    by (simp add: disabling_threshold_def)
  with False failed taken show thesis
    by (cases "sint (sp_counter s) \<le> 0") (simp_all add: sp_try_take_def Let_def)
qed

lemma sp_num_at: "sp_num capacity n s \<Longrightarrow> sp_at p pc s \<Longrightarrow> p < n \<and> sp_pcs s ! p = pc"
  by (auto simp: sp_num_def sp_at_def)

lemma sp_num_wait:
  assumes num: "sp_num capacity n s" and small: "sp_small capacity n s" and at: "sp_at p Idle s"
  shows "sp_num capacity n (sp_try_take p s)"
  using num small
proof (cases rule: try_take_cases [where p = p, consumes 2])
  case closed
  then show ?thesis using num sint_dec [OF num small] sp_num_at [OF num at]
    by (simp add: sp_num_disabled sp_quantities cnt_goto)
next
  case failed
  then show ?thesis using num sint_dec [OF num small] sp_num_at [OF num at]
    by (auto simp: sp_num_enabled sp_quantities cnt_goto)
next
  case taken
  then show ?thesis using num sint_dec [OF num small] cnt_nonneg [of WaitFailed s] cnt_nonneg [of WaitQueued s]
      sp_num_at [OF num at]
    by (auto simp: sp_num_enabled sp_quantities cnt_goto)
qed

lemma sp_num_candidate:
  assumes num: "sp_num capacity n s" and small: "sp_small capacity n s" and at: "sp_at p Blocked s"
    and cand: "p \<in> set (sp_candidates s)"
  shows "sp_num capacity n (sp_try_take p (s\<lparr>sp_candidates := remove1 p (sp_candidates s)\<rparr>))"
proof -
  from length_pos_if_in_set [OF cand] obtain k where "length (sp_candidates s) = Suc k"
    by (cases "length (sp_candidates s)") auto
  then have len: "int (length (remove1 p (sp_candidates s))) = int (length (sp_candidates s)) - 1"
    using cand by (simp add: length_remove1)
  have eq: "sp_try_take p (s\<lparr>sp_candidates := remove1 p (sp_candidates s)\<rparr>) =
      (sp_try_take p s)\<lparr>sp_candidates := remove1 p (sp_candidates s)\<rparr>"
    by (simp add: sp_try_take_def Let_def sp_goto_def)
  show ?thesis
    using num small
  proof (cases rule: try_take_cases [where p = p, consumes 2])
    case closed
    then show ?thesis using num sint_dec [OF num small] sp_num_at [OF num at] len
      by (simp add: eq sp_num_disabled sp_quantities cnt_goto)
  next
    case failed
    then show ?thesis using num sint_dec [OF num small] sp_num_at [OF num at] len
      by (auto simp: eq sp_num_enabled sp_quantities cnt_goto)
  next
    case taken
    then show ?thesis using num sint_dec [OF num small] cnt_nonneg [of WaitFailed s] cnt_nonneg [of WaitQueued s]
        sp_num_at [OF num at] len
      by (auto simp: eq sp_num_enabled sp_quantities cnt_goto)
  qed
qed

lemma sp_num_add_back:
  assumes num: "sp_num capacity n s" and small: "sp_small capacity n s" and at: "sp_at p WaitQueued s"
  shows "sp_num capacity n (sp_add_back p s)"
proof (cases "sp_disabled s")
  case True
  have "0 \<le> sint (sp_counter s)"
    using sp_counter_range(1) [OF num small True] by (simp add: disabling_threshold_def)
  with True show ?thesis using num sint_inc [OF num small] sp_num_at [OF num at]
    by (simp add: sp_add_back_def sp_num_disabled sp_quantities cnt_goto)
next
  case False
  show ?thesis
    using False num sint_inc [OF num small] sp_num_at [OF num at] cnt_nonneg [of WaitPop s] cnt_nonneg [of PostPop s]
    by (cases "0 \<le> sint (sp_counter s)")
      (auto simp: sp_add_back_def Let_def sp_num_enabled sp_quantities cnt_goto)
qed

lemma sp_num_post:
  assumes num: "sp_num capacity n s" and small: "sp_small capacity n s" and at: "sp_at p Idle s"
  shows "sp_num capacity n (sp_post p s)"
proof (cases "sp_disabled s")
  case True
  then show ?thesis using num sint_inc [OF num small] sp_num_at [OF num at] sp_counter_range(1) [OF num small True]
    by (simp add: sp_post_def sp_num_disabled sp_quantities cnt_goto)
next
  case False
  then have "\<not> disabling_threshold < sint (sp_counter s)"
    using sp_counter_range(4) [OF num small] by (simp add: disabling_threshold_def)
  with False show ?thesis
    using num sint_inc [OF num small] sp_num_at [OF num at] cnt_nonneg [of WaitPop s] cnt_nonneg [of PostPop s]
    by (cases "0 \<le> sint (sp_counter s)")
      (auto simp: sp_post_def Let_def sp_num_enabled sp_quantities cnt_goto)
qed

text \<open>A pop by a routine that owed one, and by the drain of \<^verbatim>\<open>disable\<close>.\<close>

lemma sp_pop_length:
  "int (length (sp_waiters (sp_pop s))) + int (length (sp_candidates (sp_pop s))) =
     int (length (sp_waiters s)) + int (length (sp_candidates s))"
  "int (length (sp_candidates (sp_pop s))) =
     int (length (sp_candidates s)) + (if sp_waiters s = [] then 0 else 1)"
  by (auto simp: sp_pop_def split: list.splits)

lemma sp_num_owed_pop:
  assumes num: "sp_num capacity n s" and at: "sp_at p pc s" and pc: "pc = WaitPop \<and> pc' = Blocked \<or> pc = PostPop \<and> pc' = Idle"
  shows "sp_num capacity n (sp_goto p pc' (sp_pop s))"
proof (cases "sp_disabled s")
  case True
  then show ?thesis
    using num sp_num_at [OF num at] sp_pop_length [of s] pc cnt_nonneg [of WaitPop s] cnt_nonneg [of PostPop s]
      cnt_at [OF at] cnt_nonneg [of WaitQueued s]
    by (cases "sp_waiters s = []") (auto simp: sp_num_disabled sp_quantities cnt_goto)
next
  case False
  then show ?thesis
    using num sp_num_at [OF num at] sp_pop_length [of s] pc cnt_nonneg [of WaitPop s] cnt_nonneg [of PostPop s]
      cnt_at [OF at] cnt_nonneg [of WaitQueued s]
    by (cases "sp_waiters s = []") (auto simp: sp_num_enabled sp_quantities cnt_goto)
qed

lemma sp_num_undo:
  assumes num: "sp_num capacity n s" and small: "sp_small capacity n s"
  shows "sp_at p WaitUndo s \<Longrightarrow> sp_num capacity n (sp_goto p Idle (s\<lparr>sp_counter := sp_counter s + 1\<rparr>))"
    and "sp_at p PostUndo s \<Longrightarrow> sp_num capacity n (sp_goto p Idle (s\<lparr>sp_counter := sp_counter s - 1\<rparr>))"
proof -
  assume at: "sp_at p WaitUndo s"
  with cnt_at [OF at] num have "sp_disabled s" by (cases "sp_disabled s") (auto simp: sp_num_def)
  then show "sp_num capacity n (sp_goto p Idle (s\<lparr>sp_counter := sp_counter s + 1\<rparr>))"
    using num sint_inc [OF num small] sp_num_at [OF num at]
    by (simp add: sp_num_disabled sp_quantities cnt_goto)
next
  assume at: "sp_at p PostUndo s"
  with cnt_at [OF at] num have "sp_disabled s" by (cases "sp_disabled s") (auto simp: sp_num_def)
  then show "sp_num capacity n (sp_goto p Idle (s\<lparr>sp_counter := sp_counter s - 1\<rparr>))"
    using num sint_dec [OF num small] sp_num_at [OF num at]
    by (simp add: sp_num_disabled sp_quantities cnt_goto)
qed

lemma sp_num_enqueue:
  assumes num: "sp_num capacity n s" and at: "sp_at p WaitFailed s"
  shows "sp_num capacity n (sp_goto p WaitQueued (s\<lparr>sp_waiters := sp_waiters s @ [p]\<rparr>))"
  using num sp_num_at [OF num at]
  by (cases "sp_disabled s") (auto simp: sp_num_disabled sp_num_enabled sp_quantities cnt_goto)

lemma sp_num_disable:
  assumes num: "sp_num capacity n s" and at: "sp_at p Idle s"
  shows "sp_num capacity n (sp_goto p Draining (s\<lparr>sp_counter := disabled_standpoint, sp_disabled := True\<rparr>))"
proof -
  have "0 \<le> cnt pc s" for pc by (rule cnt_nonneg)
  note this [of WaitFailed] this [of WaitQueued] this [of WaitUndo] this [of PostUndo] this [of Draining] cnt_four [of s]
  moreover have "length (sp_pcs s) = n" "sp_acquired s \<le> capacity + sp_posted s" using num by (simp_all add: sp_num_def)
  ultimately show ?thesis using sp_num_at [OF num at] by (auto simp: sp_num_disabled sp_quantities cnt_goto)
qed

lemma sp_num_drain:
  assumes num: "sp_num capacity n s" and at: "sp_at p Draining s"
  shows "sp_waiters s \<noteq> [] \<Longrightarrow> sp_num capacity n (sp_pop s)"
    and "sp_waiters s = [] \<Longrightarrow> sp_num capacity n (sp_goto p Idle s)"
proof -
  from cnt_at [OF at] num have dis: "sp_disabled s" by (cases "sp_disabled s") (auto simp: sp_num_def)
  show "sp_num capacity n (sp_pop s)"
    using num dis cnt_at [OF at] by (auto simp: sp_num_disabled sp_tickets_def)
  have "0 \<le> cnt pc s" for pc by (rule cnt_nonneg)
  note this [of WaitPop] this [of PostPop] this [of WaitQueued]
  then show "sp_num capacity n (sp_goto p Idle s)" if "sp_waiters s = []"
    using num dis sp_num_at [OF num at] that by (auto simp: sp_num_disabled sp_quantities cnt_goto)
qed

lemma sema_step_posted: "sema_step s s' \<Longrightarrow> sp_posted s \<le> sp_posted s'"
  by (induction rule: sema_step.induct)
    (auto simp: sp_try_take_def sp_add_back_def sp_post_def Let_def)

lemma sema_step_num:
  assumes "sema_step s s'" and "sp_num capacity n s" and "sp_small capacity n s"
  shows "sp_num capacity n s'"
  using assms
  by (induction rule: sema_step.induct)
    (auto intro: sp_num_wait sp_num_candidate sp_num_undo sp_num_enqueue sp_num_add_back sp_num_owed_pop
      sp_num_post sp_num_disable sp_num_drain)

text \<open>The membership invariant.\<close>

definition sp_waiting :: "sp_state \<Rightarrow> nat set" where
  "sp_waiting s = {p. p < length (sp_pcs s) \<and> sp_pcs s ! p \<in> {WaitQueued, WaitPop, Blocked}}"

lemma sp_members_alt:
  "sp_members s \<longleftrightarrow> distinct (sp_waiters s @ sp_candidates s) \<and>
     set (sp_waiters s) \<union> set (sp_candidates s) = sp_waiting s"
  by (simp add: sp_members_def sp_waiting_def)

lemma sp_waiting_goto:
  "sp_at p pc s \<Longrightarrow> sp_waiting (sp_goto p pc' s) =
     (if pc' \<in> {WaitQueued, WaitPop, Blocked} then insert p (sp_waiting s) else sp_waiting s - {p})"
  by (auto simp: sp_waiting_def sp_goto_def sp_at_def nth_list_update)

lemma sp_waiting_at: "sp_at p pc s \<Longrightarrow> p \<in> sp_waiting s \<longleftrightarrow> pc \<in> {WaitQueued, WaitPop, Blocked}"
  by (auto simp: sp_waiting_def sp_at_def)

lemma sp_waiting_frame [simp]:
  "sp_waiting (s\<lparr>sp_waiters := ws\<rparr>) = sp_waiting s" "sp_waiting (s\<lparr>sp_candidates := ws\<rparr>) = sp_waiting s"
  by (simp_all add: sp_waiting_def)

lemma members_goto:
  assumes "sp_members s" and "sp_at p pc s"
    and "pc \<in> {WaitQueued, WaitPop, Blocked} \<longleftrightarrow> pc' \<in> {WaitQueued, WaitPop, Blocked}"
  shows "sp_members (sp_goto p pc' s)"
  using assms sp_waiting_at [OF assms(2)] sp_waiting_goto [OF assms(2), of pc']
  by (auto simp: sp_members_alt insert_absorb)

lemma members_frame [simp]:
  "sp_members (s\<lparr>sp_counter := c\<rparr>) = sp_members s"
  "sp_members (s\<lparr>sp_acquired := k\<rparr>) = sp_members s"
  "sp_members (s\<lparr>sp_posted := k\<rparr>) = sp_members s"
  "sp_members (s\<lparr>sp_disabled := b\<rparr>) = sp_members s"
  by (simp_all add: sp_members_def)

lemma members_pop [simp]: "sp_members (sp_pop s) = sp_members s"
  by (auto simp: sp_members_def sp_pop_def split: list.splits)

lemma members_enqueue:
  assumes "sp_members s" and "sp_at p WaitFailed s"
  shows "sp_members (sp_goto p WaitQueued (s\<lparr>sp_waiters := sp_waiters s @ [p]\<rparr>))"
proof -
  have "p \<notin> set (sp_waiters s) \<union> set (sp_candidates s)"
    using assms sp_waiting_at [OF assms(2)] by (simp add: sp_members_alt)
  then have "p \<notin> set (sp_waiters s)" "p \<notin> set (sp_candidates s)" by simp_all
  with assms show ?thesis by (simp add: sp_members_alt sp_waiting_goto [of p WaitFailed])
qed

lemma members_candidate:
  assumes "sp_members s" and "sp_at p Blocked s" and "p \<in> set (sp_candidates s)"
    and "pc' \<in> {Idle, WaitFailed, WaitUndo}"
  shows "sp_members (sp_goto p pc' (s\<lparr>sp_candidates := remove1 p (sp_candidates s)\<rparr>))"
proof -
  have d: "distinct (sp_waiters s)" "distinct (sp_candidates s)" "set (sp_waiters s) \<inter> set (sp_candidates s) = {}"
    and u: "set (sp_waiters s) \<union> set (sp_candidates s) = sp_waiting s"
    using assms(1) by (simp_all add: sp_members_alt)
  have "p \<notin> set (sp_waiters s)" using d(3) assms(3) by blast
  with d u assms(2-) show ?thesis
    by (auto simp: sp_members_alt sp_waiting_goto [of p Blocked] set_remove1_eq)
qed

lemma goto_frame:
  "sp_goto p pc (s\<lparr>sp_counter := c\<rparr>) = (sp_goto p pc s)\<lparr>sp_counter := c\<rparr>"
  "sp_goto p pc (s\<lparr>sp_acquired := k\<rparr>) = (sp_goto p pc s)\<lparr>sp_acquired := k\<rparr>"
  by (simp_all add: sp_goto_def)

lemma sema_step_members:
  assumes "sema_step s s'" and "sp_members s"
  shows "sp_members s'"
  using assms
proof (induction rule: sema_step.induct)
  case (candidate p s)
  then show ?case
    using members_candidate [OF candidate.prems candidate.hyps]
    by (simp add: sp_try_take_def Let_def goto_frame)
qed (auto simp: sp_try_take_def sp_add_back_def sp_post_def Let_def intro: members_enqueue members_goto)

lemma sema_reach_inv:
  assumes "sema_reach capacity n s" and "sp_small capacity n s"
  shows "sp_num capacity n s \<and> sp_members s"
  using assms
proof (induction rule: rtranclp_induct)
  case base
  have "sp_members (sp_init capacity n)" by (auto simp: sp_members_def sp_init_def)
  moreover have "sp_num capacity n (sp_init capacity n)"
    using base by (intro sp_num_init) (simp add: sp_small_def sp_init_def)
  ultimately show ?case by simp
next
  case (step s s')
  from sema_step_posted [OF step.hyps(2)] step.prems have "sp_small capacity n s"
    by (auto simp: sp_small_def)
  with step.IH step.hyps(2) sema_step_num sema_step_members show ?case by blast
qed

section \<open>Properties\<close>

text \<open>Nothing is under way: every routine is idle or asleep, and no command is in flight.\<close>

definition sp_quiescent :: "sp_state \<Rightarrow> bool" where
  "sp_quiescent s \<longleftrightarrow> set (sp_pcs s) \<subseteq> {Idle, Blocked} \<and> sp_candidates s = []"

lemma sp_quiescent_cnt: "sp_quiescent s \<Longrightarrow> pc \<notin> {Idle, Blocked} \<Longrightarrow> cnt pc s = 0"
  by (auto simp: sp_quiescent_def cnt_def count_list_0_iff)



text \<open>
  Once the semaphore is disabled no ticket is handed out any more: a step from a
  disabled state keeps it disabled and takes no ticket.
\<close>

theorem semaphore_disabled_final:
  assumes "sema_reach capacity n s" and "n \<le> 2 ^ 27" and "capacity + sp_posted s \<le> 2 ^ 29"
    and "sp_disabled s" and "sema_step s s'"
  shows "sp_disabled s' \<and> sp_acquired s' = sp_acquired s \<and> sp_posted s' = sp_posted s"
proof -
  have small: "sp_small capacity n s" using assms by (simp add: sp_small_def)
  from sema_reach_inv [OF assms(1) small] have "disabling_threshold < sint (sp_counter s)"
    using sp_counter_range(1) small assms(4) by blast
  with assms(5,4) show ?thesis
    by (induction rule: sema_step.induct)
      (auto simp: sp_try_take_def sp_add_back_def sp_post_def Let_def)
qed

section \<open>Witnesses\<close>

text \<open>Two routines and one ticket: the second one waits.\<close>

lemma sema_example_reach:
  "sema_reach 1 2 \<lparr>sp_counter = 0, sp_waiters = [1], sp_candidates = [], sp_pcs = [Idle, Blocked],
     sp_acquired = 1, sp_posted = 0, sp_disabled = False\<rparr>"
proof -
  let ?s = "\<lambda>c ws pcs. \<lparr>sp_counter = c, sp_waiters = ws, sp_candidates = [], sp_pcs = pcs,
     sp_acquired = 1, sp_posted = 0, sp_disabled = False\<rparr>"
  have "sema_step (sp_init 1 2) (?s 0 [] [Idle, Idle])"
    using sema_step.wait [of 0 "sp_init 1 2"]
    by (simp add: sp_init_def sp_at_def sp_try_take_def sp_goto_def disabling_threshold_def numeral_2_eq_2)
  moreover have "sema_step (?s 0 [] [Idle, Idle]) (?s (- 1) [] [Idle, WaitFailed])"
    using sema_step.wait [of 1 "?s 0 [] [Idle, Idle]"]
    by (simp add: sp_at_def sp_try_take_def sp_goto_def disabling_threshold_def)
  moreover have "sema_step (?s (- 1) [] [Idle, WaitFailed]) (?s (- 1) [1] [Idle, WaitQueued])"
    using sema_step.enqueue [of 1 "?s (- 1) [] [Idle, WaitFailed]"] by (simp add: sp_at_def sp_goto_def)
  moreover have "sema_step (?s (- 1) [1] [Idle, WaitQueued]) (?s 0 [1] [Idle, Blocked])"
    using sema_step.add_back [of 1 "?s (- 1) [1] [Idle, WaitQueued]"]
    by (simp add: sp_at_def sp_goto_def sp_add_back_def)
  ultimately show ?thesis by (meson rtranclp.rtrancl_refl rtranclp.rtrancl_into_rtrancl)
qed



theorem semaphore_disabled_final_witness:
  "\<exists>s s'. sema_reach 1 1 s \<and> sema_step s s' \<and> sp_disabled s' \<and> sp_acquired s' = 0"
proof -
  let ?s = "sp_goto 0 Draining ((sp_init 1 1)\<lparr>sp_counter := disabled_standpoint, sp_disabled := True\<rparr>)"
  have "sema_step (sp_init 1 1) ?s" by (rule sema_step.disable) (simp add: sp_at_def sp_init_def)
  then have reach: "sema_reach 1 1 ?s" by blast
  have step: "sema_step ?s (sp_goto 0 Idle ?s)"
    by (rule sema_step.drained) (simp_all add: sp_at_def sp_init_def sp_goto_def)
  from semaphore_disabled_final [OF reach _ _ _ step] have "sp_disabled (sp_goto 0 Idle ?s) \<and> sp_acquired (sp_goto 0 Idle ?s) = 0"
    by (simp add: sp_init_def)
  with reach step show ?thesis by blast
qed

end
