(* ===== verification/Routine.thy ===== *)
theory Routine
  imports Semaphore
begin

text \<open>
  \<^verbatim>\<open>internal::routine\<close> (\<^verbatim>\<open>src/boson/src/internal/routine.cc\<close>): the event round of a
  routine. A routine that has to wait starts a round, adds the events it waits for, and
  commits; the first event that happens ends the round, takes back the other
  registrations and schedules the routine; an event of a semaphore makes it a candidate
  only, since the ticket may be gone when it runs.
\<close>

section \<open>Starting a round\<close>

definition routine_start_event_round :: "nat \<Rightarrow> world \<Rightarrow> world option" where
  "routine_start_event_round r w =
     do { rt \<leftarrow> the_routine r w;
          (case make_ptr r w of
             (b, w1) \<Rightarrow> Some (upd_routine r (\<lambda>rt. rt\<lparr>r_events := [], r_current_ptr := Some b\<rparr>) w1)) }"

definition add_event :: "nat \<Rightarrow> waited_event \<Rightarrow> world \<Rightarrow> world" where
  "add_event r ev w = upd_routine r (\<lambda>rt. rt\<lparr>r_events := r_events rt @ [ev]\<rparr>) w"

definition set_event :: "nat \<Rightarrow> nat \<Rightarrow> waited_event \<Rightarrow> world \<Rightarrow> world" where
  "set_event r index ev w = upd_routine r (\<lambda>rt. rt\<lparr>r_events := (r_events rt)[index := ev]\<rparr>) w"

definition routine_add_semaphore_wait :: "nat \<Rightarrow> nat \<Rightarrow> world \<Rightarrow> world option" where
  "routine_add_semaphore_wait r sema w =
     do { rt \<leftarrow> the_routine r w;
          (let t = r_thread rt; pos = length (r_events rt) in
           do { (slot_index, w1) \<leftarrow> thread_register_semaphore_wait t
                  \<lparr>slot_ptr = r_current_ptr rt, slot_event_index = pos\<rparr>
                  (add_event r (SemaEvent \<lparr>se_sema = sema, se_index = 0, se_slot_index = 0\<rparr>) w);
                (index, w2) \<leftarrow> semaphore_write sema t slot_index w1;
                (result, w3) \<leftarrow> sema_fetch_add sema
                  (set_event r pos (SemaEvent \<lparr>se_sema = sema, se_index = index, se_slot_index = slot_index\<rparr>) w2);
                if 0 \<le> result then do { (_, w4) \<leftarrow> pop_a_waiter sema t w3; Some w4 } else Some w3 }) }"

definition routine_add_timer :: "nat \<Rightarrow> int \<Rightarrow> world \<Rightarrow> world option" where
  "routine_add_timer r date w =
     do { rt \<leftarrow> the_routine r w;
          thread_register_timer (r_thread rt) date
            \<lparr>slot_ptr = r_current_ptr rt, slot_event_index = length (r_events rt)\<rparr>
            (add_event r (TimerEvent date) w) }"

definition routine_add_read :: "int option \<Rightarrow> nat \<Rightarrow> int \<Rightarrow> world \<Rightarrow> world option" where
  "routine_add_read ctl r fd w =
     do { rt \<leftarrow> the_routine r w;
          thread_register_read ctl (r_thread rt) fd
            \<lparr>slot_ptr = r_current_ptr rt, slot_event_index = length (r_events rt)\<rparr>
            (add_event r (ReadEvent fd) w) }"

definition routine_add_write :: "int option \<Rightarrow> nat \<Rightarrow> int \<Rightarrow> world \<Rightarrow> world option" where
  "routine_add_write ctl r fd w =
     do { rt \<leftarrow> the_routine r w;
          thread_register_write ctl (r_thread rt) fd
            \<lparr>slot_ptr = r_current_ptr rt, slot_event_index = length (r_events rt)\<rparr>
            (add_event r (WriteEvent fd) w) }"

text \<open>\<^verbatim>\<open>commit_event_round\<close> up to the context switch; \<^verbatim>\<open>happened_index_\<close> is its result.\<close>

definition routine_commit_event_round :: "nat \<Rightarrow> world \<Rightarrow> world option" where
  "routine_commit_event_round r w =
     do { rt \<leftarrow> the_routine r w; Some (upd_routine r (\<lambda>rt. rt\<lparr>r_status := wait_events\<rparr>) w) }"

section \<open>Taking back registrations\<close>

text \<open>\<^verbatim>\<open>--neighbor_timers->nb_active\<close>; the set must still be in the map.\<close>

fun timed_dec :: "int \<Rightarrow> (int \<times> timed_routines_set) list \<Rightarrow> (int \<times> timed_routines_set) list option" where
  "timed_dec date [] = None"
| "timed_dec date ((d, s) # rest) =
     (if date = d then Some ((d, s\<lparr>ts_nb_active := ts_nb_active s - 1\<rparr>) # rest)
      else do { rest' \<leftarrow> timed_dec date rest; Some ((d, s) # rest') })"

definition dec_suspended :: "nat \<Rightarrow> world \<Rightarrow> world option" where
  "dec_suspended t w =
     do { th \<leftarrow> the_thread t w;
          Some (upd_thread t (\<lambda>th. th\<lparr>t_nb_suspended := t_nb_suspended th - 1\<rparr>) w) }"

text \<open>The body of the two loops that invalidate the other events.\<close>

fun expire_event :: "nat \<Rightarrow> waited_event \<Rightarrow> world \<Rightarrow> world option" where
  "expire_event t (TimerEvent date) w =
     do { th \<leftarrow> the_thread t w;
          timed \<leftarrow> timed_dec date (t_timed th);
          Some (upd_thread t (\<lambda>th. th\<lparr>t_timed := timed\<rparr>) w) }"
| "expire_event t (ReadEvent fd) w = dec_suspended t w"
| "expire_event t (WriteEvent fd) w = dec_suspended t w"
| "expire_event t (SemaEvent d) w =
     do { w1 \<leftarrow> dec_suspended t w;
          (was_queued, w2) \<leftarrow> semaphore_free (se_sema d) (se_index d) w1;
          if was_queued then thread_unregister_expired_slot t (se_slot_index d) w2 else Some w2 }"

definition routine_cancel_event_round :: "nat \<Rightarrow> world \<Rightarrow> world option" where
  "routine_cancel_event_round r w =
     do { rt \<leftarrow> the_routine r w;
          w1 \<leftarrow> fold_opt (expire_event (r_thread rt)) (r_events rt) w;
          (_, w2) \<leftarrow> ptr_release (r_current_ptr rt) w1;
          w3 \<leftarrow> ptr_invalidate_all (r_current_ptr rt) w2;
          Some (upd_routine r (\<lambda>rt. rt\<lparr>r_events := []\<rparr>) w3) }"

section \<open>An event happens\<close>

definition routine_set_as_semaphore_event_candidate :: "nat \<Rightarrow> nat \<Rightarrow> world \<Rightarrow> world option" where
  "routine_set_as_semaphore_event_candidate r index w =
     do { rt \<leftarrow> the_routine r w;
          thread_schedule_routine (r_thread rt)
            \<lparr>slot_ptr = r_current_ptr rt, slot_event_index = index\<rparr>
            (upd_routine r (\<lambda>rt. rt\<lparr>r_status := sema_event_candidate\<rparr>) w) }"

definition routine_event_is_a_fd_wait :: "nat \<Rightarrow> int \<Rightarrow> routine \<Rightarrow> bool" where
  "routine_event_is_a_fd_wait index fd rt \<longleftrightarrow>
     (if index < length (r_events rt) then
        (case r_events rt ! index of
           ReadEvent fd' \<Rightarrow> fd = fd' | WriteEvent fd' \<Rightarrow> fd = fd' | _ \<Rightarrow> False)
      else False)"

definition happened :: "nat \<Rightarrow> event_type \<Rightarrow> int \<Rightarrow> world \<Rightarrow> world" where
  "happened r type rc w = upd_routine r (\<lambda>rt. rt\<lparr>r_happened_type := type, r_happened_rc := rc\<rparr>) w"

text \<open>
  The \<^verbatim>\<open>sema_wait\<close> branch of \<^verbatim>\<open>event_happened\<close>: the candidate tries to take the ticket.
  It returns \<open>False\<close> when the ticket was gone and the routine went back to the queue.
\<close>

definition try_semaphore_ticket :: "nat \<Rightarrow> nat \<Rightarrow> sema_event_data \<Rightarrow> world \<Rightarrow> (bool \<times> world) option" where
  "try_semaphore_ticket r index d w =
     do { rt \<leftarrow> the_routine r w;
          (let t = r_thread rt in
           do { w1 \<leftarrow> dec_suspended t w;
                w2 \<leftarrow> thread_unregister_expired_slot t (se_slot_index d) w1;
                (result, w3) \<leftarrow> sema_fetch_sub (se_sema d) w2;
                if disabling_threshold < result then
                  do { (_, w4) \<leftarrow> sema_fetch_add (se_sema d) w3; Some (True, happened r ev_sema_closed 0 w4) }
                else if result \<le> 0 then
                  do { (slot_index, w4) \<leftarrow> thread_register_semaphore_wait t
                         \<lparr>slot_ptr = r_current_ptr rt, slot_event_index = index\<rparr> w3;
                       (qindex, w5) \<leftarrow> semaphore_write (se_sema d) t slot_index w4;
                       (result', w6) \<leftarrow> sema_fetch_add (se_sema d)
                         (set_event r index (SemaEvent (d\<lparr>se_index := qindex\<rparr>)) w5);
                       w7 \<leftarrow> (if 0 \<le> result' then do { (_, w7) \<leftarrow> pop_a_waiter (se_sema d) t w6; Some w7 }
                               else Some w6);
                       Some (False, w7) }
                else Some (True, happened r ev_sema_wait 0 w3) }) }"

text \<open>
  The switch at the start of \<^verbatim>\<open>event_happened\<close>: record what happened and release what the
  event itself holds. Every branch starts from \<^verbatim>\<open>happened_rc_ = 0\<close>.
\<close>

fun record_event :: "nat \<Rightarrow> nat \<Rightarrow> nat \<Rightarrow> int \<Rightarrow> waited_event \<Rightarrow> world \<Rightarrow> (bool \<times> world) option" where
  "record_event r t index status (TimerEvent date) w = Some (True, happened r ev_timer (- ETIMEDOUT) w)"
| "record_event r t index status (ReadEvent fd) w =
     do { w1 \<leftarrow> dec_suspended t (happened r ev_io_read status w); Some (True, w1) }"
| "record_event r t index status (WriteEvent fd) w =
     do { w1 \<leftarrow> dec_suspended t (happened r ev_io_write status w); Some (True, w1) }"
| "record_event r t index status (SemaEvent d) w = try_semaphore_ticket r index d w"

definition routine_event_happened :: "nat \<Rightarrow> nat \<Rightarrow> int \<Rightarrow> world \<Rightarrow> (bool \<times> world) option" where
  "routine_event_happened r index status w =
     do { rt \<leftarrow> the_routine r w;
          ev \<leftarrow> vec_get (r_events rt) index;
          (let t = r_thread rt; others = take index (r_events rt) @ drop (Suc index) (r_events rt) in
           do { (proceed, w1) \<leftarrow> record_event r t index status ev (upd_routine r (\<lambda>rt. rt\<lparr>r_happened_rc := 0\<rparr>) w);
                if \<not> proceed then Some (False, w1)
                else
                  do { w2 \<leftarrow> fold_opt (expire_event t) others w1;
                       rt' \<leftarrow> the_routine r w2;
                       if r_happened_type rt' = ev_sema_wait \<or> r_happened_type rt' = ev_sema_closed then
                         do { (_, w3) \<leftarrow> ptr_release (r_current_ptr rt) (upd_routine r (\<lambda>rt. rt\<lparr>r_status := yielding\<rparr>) w2);
                              w4 \<leftarrow> ptr_invalidate_all (r_current_ptr rt) w3;
                              Some (True, upd_routine r (\<lambda>rt. rt\<lparr>r_happened_index := index\<rparr>) w4) }
                       else if r_happened_type rt' \<noteq> ev_none then
                         do { (owned, w3) \<leftarrow> ptr_release (r_current_ptr rt)
                                (upd_routine r (\<lambda>rt. rt\<lparr>r_status := yielding, r_happened_index := index\<rparr>) w2);
                              r' \<leftarrow> owned;
                              (case make_ptr r' w3 of
                                 (b, w4) \<Rightarrow>
                                   do { w5 \<leftarrow> thread_schedule_routine t \<lparr>slot_ptr = Some b, slot_event_index = 0\<rparr> w4;
                                        w6 \<leftarrow> ptr_invalidate_all (r_current_ptr rt) w5;
                                        Some (True, w6) }) }
                       else Some (False, w2) } }) }"

section \<open>Running\<close>

text \<open>
  \<^verbatim>\<open>resume\<close>. The code of the routine is not part of the runtime: \<open>run\<close> is what it does
  from the switch into it to its next switch back. A new routine starts in
  \<^verbatim>\<open>resume_routine\<close>, which marks it running; a yielding one marks itself. The switches
  pass no data, so the loop over in-context functions that follows does not run.
\<close>

definition routine_resume ::
  "(nat \<Rightarrow> world \<Rightarrow> world option) \<Rightarrow> nat \<Rightarrow> nat \<Rightarrow> world \<Rightarrow> world option" where
  "routine_resume run managing_thread r w =
     do { rt \<leftarrow> the_routine r w;
          (let w1 = upd_routine r (\<lambda>rt. rt\<lparr>r_thread := managing_thread\<rparr>) w in
           case r_status rt of
             is_new \<Rightarrow> run r (upd_routine r (\<lambda>rt. rt\<lparr>r_status := running\<rparr>) w1)
           | yielding \<Rightarrow> run r w1
           | _ \<Rightarrow> None) }"

end
