(* ===== verification/Thread.thy ===== *)
theory Thread
  imports Routine
begin

text \<open>
  \<^verbatim>\<open>internal::thread\<close> (\<^verbatim>\<open>src/boson/src/internal/thread.cc\<close>): the handlers of fd
  events, the handling of commands, the execution of the scheduled routines, and the loop
  that ties them to the poller and the timers. The clock and the kernel are arguments.
  Loops that run until a queue is empty take fuel.
\<close>

section \<open>Events of file descriptors\<close>

fun routine_status_value :: "routine_status \<Rightarrow> int" where
  "routine_status_value is_new = 0"
| "routine_status_value running = 1"
| "routine_status_value yielding = 2"
| "routine_status_value wait_events = 3"
| "routine_status_value sema_event_candidate = 4"
| "routine_status_value finished = 5"

text \<open>
  \<^verbatim>\<open>thread::read\<close>. A local variable \<^verbatim>\<open>status\<close>, the status of the routine, shadows the
  parameter \<^verbatim>\<open>status\<close> in the call of \<^verbatim>\<open>event_happened\<close>; \<^verbatim>\<open>thread::write\<close> passes the
  parameter.
\<close>

definition thread_read :: "nat \<Rightarrow> int \<Rightarrow> size_t \<Rightarrow> int \<Rightarrow> world \<Rightarrow> world option" where
  "thread_read t fd data status w =
     do { th \<leftarrow> the_thread t w;
          if \<not> sparse_vector_has (unat data) (t_slots th) then Some w
          else
            do { slot \<leftarrow> sparse_vector_get (unat data) (t_slots th);
                 if \<not> ptr_valid (slot_ptr slot) w then Some w
                 else
                   do { r \<leftarrow> ptr_get (slot_ptr slot) w;
                        rt \<leftarrow> the_routine r w;
                        if \<not> routine_event_is_a_fd_wait (slot_event_index slot) fd rt then None
                        else
                          do { p \<leftarrow> netpoller_unregister_read fd (t_poller th);
                               (_, w1) \<leftarrow> routine_event_happened r (slot_event_index slot)
                                 (routine_status_value (r_status rt)) (upd_thread t (\<lambda>th. th\<lparr>t_poller := p\<rparr>) w);
                               thread_unregister_expired_slot t (unat data) w1 } } } }"

definition thread_write :: "nat \<Rightarrow> int \<Rightarrow> size_t \<Rightarrow> int \<Rightarrow> world \<Rightarrow> world option" where
  "thread_write t fd data status w =
     do { th \<leftarrow> the_thread t w;
          if \<not> sparse_vector_has (unat data) (t_slots th) then Some w
          else
            do { slot \<leftarrow> sparse_vector_get (unat data) (t_slots th);
                 if \<not> ptr_valid (slot_ptr slot) w then Some w
                 else
                   do { r \<leftarrow> ptr_get (slot_ptr slot) w;
                        rt \<leftarrow> the_routine r w;
                        if \<not> routine_event_is_a_fd_wait (slot_event_index slot) fd rt then None
                        else
                          do { p \<leftarrow> netpoller_unregister_write fd (t_poller th);
                               (_, w1) \<leftarrow> routine_event_happened r (slot_event_index slot) status
                                 (upd_thread t (\<lambda>th. th\<lparr>t_poller := p\<rparr>) w);
                               thread_unregister_expired_slot t (unat data) w1 } } } }"

definition thread_signal_fd_closed :: "int option \<Rightarrow> nat \<Rightarrow> int \<Rightarrow> world \<Rightarrow> world option" where
  "thread_signal_fd_closed ctl t fd w =
     do { th \<leftarrow> the_thread t w;
          r \<leftarrow> netpoller_signal_fd_closed ctl None fd (t_poller th);
          (case r of Inl e \<Rightarrow> None | Inr p \<Rightarrow> Some (upd_thread t (\<lambda>th. th\<lparr>t_poller := p\<rparr>) w)) }"

text \<open>The poller of a thread inside the world, and the thread as its handler.\<close>

definition poller_of :: "nat \<Rightarrow> world \<Rightarrow> netpoller" where
  "poller_of t w = t_poller (w_threads w ! t)"

definition upd_poller :: "nat \<Rightarrow> (netpoller \<Rightarrow> netpoller) \<Rightarrow> world \<Rightarrow> world" where
  "upd_poller t f w = upd_thread t (\<lambda>th. th\<lparr>t_poller := f (t_poller th)\<rparr>) w"

definition thread_handler :: "nat \<Rightarrow> world net_event_handler" where
  "thread_handler t = \<lparr>nh_read = thread_read t, nh_write = thread_write t\<rparr>"

section \<open>Commands\<close>

text \<open>The \<^verbatim>\<open>fd_ready\<close> branch starts with \<^verbatim>\<open>assert(false)\<close>.\<close>

fun handle_command :: "nat \<Rightarrow> thread_command \<Rightarrow> world \<Rightarrow> world option" where
  "handle_command t (add_routine r) w =
     (case make_ptr r w of
        (b, w1) \<Rightarrow> thread_schedule_routine t \<lparr>slot_ptr = Some b, slot_event_index = 0\<rparr> w1)"
| "handle_command t (schedule_waiting_routine sema index) w =
     do { th \<leftarrow> the_thread t w;
          slot \<leftarrow> sparse_vector_get index (t_slots th);
          if ptr_valid (slot_ptr slot) w then
            do { r \<leftarrow> ptr_get (slot_ptr slot) w;
                 routine_set_as_semaphore_event_candidate r (slot_event_index slot) w }
          else
            do { sm \<leftarrow> the_sema sema w;
                 w1 \<leftarrow> (if s_alive sm then do { (_, w1) \<leftarrow> pop_a_waiter sema t w; Some w1 } else Some w);
                 thread_unregister_expired_slot t index w1 } }"
| "handle_command t finish_thread w = Some (upd_thread t (\<lambda>th. th\<lparr>t_status := t_finishing\<rparr>) w)"
| "handle_command t (fd_ready index fd status is_read) w = None"

fun thread_handle_engine_event :: "nat \<Rightarrow> nat \<Rightarrow> world \<Rightarrow> world option" where
  "thread_handle_engine_event 0 t w = None"
| "thread_handle_engine_event (Suc n) t w =
     do { th \<leftarrow> the_thread t w;
          case t_engine_queue th of
            [] \<Rightarrow> Some w
          | cmd # rest \<Rightarrow>
              do { w1 \<leftarrow> handle_command t cmd
                     (upd_thread t (\<lambda>th. th\<lparr>t_engine_queue := rest, t_nb_pending := t_nb_pending th - 1\<rparr>) w);
                   thread_handle_engine_event n t w1 } }"

section \<open>The scheduled routines\<close>

text \<open>
  One slot of \<^verbatim>\<open>scheduled_routines_\<close>; \<open>next\<close> collects \<^verbatim>\<open>next_scheduled_routines\<close>. First the
  ticket of a semaphore candidate, then the run, then what the status after the run asks
  for.
\<close>

definition run_candidate :: "routine_slot \<Rightarrow> nat \<Rightarrow> world \<Rightarrow> (bool \<times> nat option \<times> world) option" where
  "run_candidate slot r w =
     do { rt \<leftarrow> the_routine r w;
          if r_status rt = sema_event_candidate then
            do { (run_routine, w1) \<leftarrow> routine_event_happened r (slot_event_index slot) 0 w;
                 if run_routine then (case make_ptr r w1 of (b, w2) \<Rightarrow> Some (True, Some b, w2))
                 else Some (False, slot_ptr slot, w1) }
          else Some (True, slot_ptr slot, w) }"

definition after_run ::
  "nat option \<Rightarrow> nat \<Rightarrow> routine_slot list \<Rightarrow> world \<Rightarrow> (routine_slot list \<times> world) option" where
  "after_run ptr r next w =
     do { rt \<leftarrow> the_routine r w;
          case r_status rt of
            is_new \<Rightarrow> None
          | running \<Rightarrow> None
          | yielding \<Rightarrow>
              do { (owned, w1) \<leftarrow> ptr_release ptr w;
                   r' \<leftarrow> owned;
                   (case make_ptr r' w1 of
                      (b, w2) \<Rightarrow> Some (next @ [\<lparr>slot_ptr = Some b, slot_event_index = 0\<rparr>], w2)) }
          | wait_events \<Rightarrow> do { (_, w1) \<leftarrow> ptr_release ptr w; Some (next, w1) }
          | sema_event_candidate \<Rightarrow> Some (next, upd_routine r (\<lambda>rt. rt\<lparr>r_status := wait_events\<rparr>) w)
          | finished \<Rightarrow> Some (next, w) }"

definition runnable :: "nat option \<Rightarrow> world \<Rightarrow> bool" where
  "runnable ptr w =
     (case ptr_get ptr w of
        None \<Rightarrow> False
      | Some r \<Rightarrow> r < length (w_routines w) \<and>
          r_status (w_routines w ! r) \<in> {yielding, is_new, sema_event_candidate})"

definition run_slot ::
  "(nat \<Rightarrow> world \<Rightarrow> world option) \<Rightarrow> nat \<Rightarrow> routine_slot \<Rightarrow> routine_slot list \<Rightarrow> world \<Rightarrow>
     (routine_slot list \<times> world) option" where
  "run_slot run t slot next w =
     (if \<not> ptr_valid (slot_ptr slot) w then Some (next, w)
      else
        do { r \<leftarrow> ptr_get (slot_ptr slot) w;
             (let w1 = upd_thread t (\<lambda>th. th\<lparr>t_running := Some r\<rparr>) w in
              if \<not> runnable (slot_ptr slot) w1 then None
              else
                do { (run_routine, ptr, w2) \<leftarrow> run_candidate slot r w1;
                     if \<not> runnable ptr w2 then None
                     else
                       do { w3 \<leftarrow> (if run_routine then routine_resume run t r w2 else Some w2);
                            after_run ptr r next w3 } }) })"

fun run_scheduled ::
  "nat \<Rightarrow> (nat \<Rightarrow> world \<Rightarrow> world option) \<Rightarrow> nat \<Rightarrow> routine_slot list \<Rightarrow> world \<Rightarrow>
     (routine_slot list \<times> world) option" where
  "run_scheduled 0 run t next w = None"
| "run_scheduled (Suc n) run t next w =
     do { th \<leftarrow> the_thread t w;
          case t_scheduled th of
            [] \<Rightarrow> Some (next, w)
          | slot # _ \<Rightarrow>
              do { (next', w1) \<leftarrow> run_slot run t slot next w;
                   run_scheduled n run t next' (upd_thread t (\<lambda>th. th\<lparr>t_scheduled := tl (t_scheduled th)\<rparr>) w1) } }"

text \<open>The sets of timers at the front whose timers were all cancelled.\<close>

fun cleanup_timers ::
  "(int \<times> timed_routines_set) list \<Rightarrow> routine_slot sparse_vector \<Rightarrow>
     ((int \<times> timed_routines_set) list \<times> routine_slot sparse_vector) option" where
  "cleanup_timers [] v = Some ([], v)"
| "cleanup_timers ((d, s) # rest) v =
     (if ts_nb_active s = 0 then do { v' \<leftarrow> fold_opt sparse_vector_free (ts_slots s) v; cleanup_timers rest v' }
      else Some ((d, s) # rest, v))"

definition notify_idle :: "nat \<Rightarrow> nat \<Rightarrow> world \<Rightarrow> world" where
  "notify_idle t nb w = w\<lparr>w_engine_queue := w_engine_queue w @ [ec_notify_idle t nb]\<rparr>"

definition notify_end :: "nat \<Rightarrow> world \<Rightarrow> world" where
  "notify_end t w = w\<lparr>w_engine_queue := w_engine_queue w @ [ec_notify_end t]\<rparr>"

text \<open>
  The end of \<^verbatim>\<open>execute_scheduled_routines\<close>: whether the loop has to turn again at once, and
  what the engine is told.
\<close>

definition decide_next_turn :: "nat \<Rightarrow> world \<Rightarrow> (bool \<times> world) option" where
  "decide_next_turn t w =
     do { th \<leftarrow> the_thread t w;
          let no_more_routines = (t_scheduled th = [] \<and> t_timed th = [] \<and> t_nb_suspended th = 0);
          if no_more_routines then
            if t_nb_pending th = 0 then
              if t_status th = t_finishing then Some (False, upd_thread t (\<lambda>th. th\<lparr>t_status := t_finished\<rparr>) w)
              else Some (False, notify_idle t 0 w)
            else Some (True, w)
          else if t_scheduled th = [] then
            if t_nb_pending th = 0 then
              if of_nat (length (t_timed th)) + t_nb_suspended th = 0 then Some (False, notify_idle t 0 w)
              else Some (False, w)
            else do { th' \<leftarrow> thread_wakeUp th; Some (True, upd_thread t (\<lambda>_. th') w) }
          else Some (True, w) }"

definition thread_execute_scheduled_routines ::
  "nat \<Rightarrow> (nat \<Rightarrow> world \<Rightarrow> world option) \<Rightarrow> nat \<Rightarrow> world \<Rightarrow> (bool \<times> world) option" where
  "thread_execute_scheduled_routines n run t w =
     do { (next, w1) \<leftarrow> run_scheduled n run t [] w;
          th \<leftarrow> the_thread t w1;
          (timed, slots) \<leftarrow> cleanup_timers (t_timed th) (t_slots th);
          decide_next_turn t
            (upd_thread t (\<lambda>th. th\<lparr>t_scheduled := next, t_timed := timed, t_slots := slots\<rparr>) w1) }"

section \<open>The loop\<close>

text \<open>
  Dates are milliseconds and the clock nanoseconds; \<^verbatim>\<open>duration_cast\<close> truncates towards
  zero, and the result is stored in an \<^verbatim>\<open>int\<close>.
\<close>

definition remaining_ms :: "int \<Rightarrow> int \<Rightarrow> int" where
  "remaining_ms date now_ns =
     (let d = date * 1000000 - now_ns in to_int32 (if 0 \<le> d then d div 1000000 else - (- d div 1000000)))"

definition next_timeout :: "int \<Rightarrow> int \<Rightarrow> (int \<times> timed_routines_set) list \<Rightarrow> int \<times> bool" where
  "next_timeout timeout_ms now_ns timed =
     (if timeout_ms \<noteq> 0 \<and> timed \<noteq> [] then
        let d = max 0 (remaining_ms (fst (hd timed)) now_ns) in (d, d = 0)
      else (timeout_ms, False))"

definition fire_timer :: "nat \<Rightarrow> nat \<Rightarrow> world \<Rightarrow> world option" where
  "fire_timer t index w =
     do { th \<leftarrow> the_thread t w;
          slot \<leftarrow> sparse_vector_get index (t_slots th);
          w1 \<leftarrow> (if ptr_valid (slot_ptr slot) w then
                    do { r \<leftarrow> ptr_get (slot_ptr slot) w;
                         (_, w1) \<leftarrow> routine_event_happened r (slot_event_index slot) 0 w;
                         Some w1 }
                  else Some w);
          thread_unregister_expired_slot t index w1 }"

text \<open>The set of timers that was first when the turn began; with none, the end iterator.\<close>

definition fire_timers :: "nat \<Rightarrow> (int \<times> timed_routines_set) list \<Rightarrow> world \<Rightarrow> world option" where
  "fire_timers t first w =
     (case first of
        [] \<Rightarrow> None
      | (date, _) # _ \<Rightarrow>
          do { th \<leftarrow> the_thread t w;
               s \<leftarrow> map_of (t_timed th) date;
               w1 \<leftarrow> fold_opt (fire_timer t) (ts_slots s) w;
               Some (upd_thread t (\<lambda>th. th\<lparr>t_timed := filter (\<lambda>e. fst e \<noteq> date) (t_timed th)\<rparr>) w1) })"

text \<open>
  One turn of \<^verbatim>\<open>thread::loop\<close>: \<open>now_ns\<close> is the clock, \<open>answers\<close> the answers of the kernel,
  \<open>n\<close> the fuel of the inner loops. An exception of the poller leaves the loop.
\<close>

definition thread_loop_turn ::
  "nat \<Rightarrow> (nat \<Rightarrow> world \<Rightarrow> world option) \<Rightarrow> nat \<Rightarrow> int \<Rightarrow> epoll_answer list \<Rightarrow> int \<Rightarrow> world \<Rightarrow>
     (int \<times> world) option" where
  "thread_loop_turn n run t now_ns answers timeout_ms w =
     do { th \<leftarrow> the_thread t w;
          (let first = t_timed th; (timeout_ms', due) = next_timeout timeout_ms now_ns first in
           do { (reason, w1) \<leftarrow> netpoller_wait (poller_of t) (upd_poller t) (thread_handler t) timeout_ms' answers w;
                th1 \<leftarrow> the_thread t w1;
                w2 \<leftarrow> (if 0 < t_nb_pending th1 then thread_handle_engine_event n t w1 else Some w1);
                (case reason of
                   Inl e \<Rightarrow> None
                 | Inr status \<Rightarrow>
                     do { w3 \<leftarrow> (if due \<or> status = timed_out then fire_timers t first w2 else Some w2);
                          (again, w4) \<leftarrow> thread_execute_scheduled_routines n run t w3;
                          Some (if again then 0 else - 1, w4) }) }) }"

text \<open>\<^verbatim>\<open>thread::loop\<close> over the successive inputs; when they run out the thread is still running.\<close>

fun thread_loop ::
  "nat \<Rightarrow> (nat \<Rightarrow> world \<Rightarrow> world option) \<Rightarrow> nat \<Rightarrow> (int \<times> epoll_answer list) list \<Rightarrow> int \<Rightarrow> world \<Rightarrow>
     world option" where
  "thread_loop n run t inputs timeout_ms w =
     do { th \<leftarrow> the_thread t w;
          if t_status th = t_finished then Some (notify_end t w)
          else (case inputs of
                  [] \<Rightarrow> None
                | (now_ns, answers) # inputs' \<Rightarrow>
                    do { (timeout_ms', w1) \<leftarrow> thread_loop_turn n run t now_ns answers timeout_ms w;
                         thread_loop n run t inputs' timeout_ms' w1 }) }"

end
