(* ===== verification/Event_Rounds.thy ===== *)
theory Event_Rounds
  imports Thread
begin

text \<open>
  What an event round guarantees: an event that is not the last chance of a semaphore
  wakes the routine exactly once, takes back every other registration of the round, and
  leaves all pointers that were handed out for the round dead, so that late events of the
  same round change nothing.
\<close>

section \<open>Access to the world\<close>

lemma world_access [simp]:
  "the_routine r (upd_thread t f w) = the_routine r w"
  "the_routine r (upd_sema s g w) = the_routine r w"
  "the_sema s (upd_thread t f w) = the_sema s w"
  "the_sema s (upd_routine r h w) = the_sema s w"
  "the_thread t (upd_routine r h w) = the_thread t w"
  "the_thread t (upd_sema s g w) = the_thread t w"
  "w_blocks (upd_thread t f w) = w_blocks w"
  "w_blocks (upd_sema s g w) = w_blocks w"
  "w_blocks (upd_routine r h w) = w_blocks w"
  "w_routines (upd_thread t f w) = w_routines w"
  "w_routines (upd_sema s g w) = w_routines w"
  "w_semas (upd_thread t f w) = w_semas w"
  "w_semas (upd_routine r h w) = w_semas w"
  "w_threads (upd_routine r h w) = w_threads w"
  "w_threads (upd_sema s g w) = w_threads w"
  by (simp_all add: the_routine_def the_thread_def the_sema_def upd_thread_def upd_sema_def upd_routine_def)

lemma the_thread_upd:
  "the_thread t (upd_thread t' f w) = (if t = t' then map_option f (the_thread t w) else the_thread t w)"
  by (simp add: the_thread_def upd_thread_def vec_get_def)

lemma the_routine_upd:
  "the_routine r (upd_routine r' f w) = (if r = r' then map_option f (the_routine r w) else the_routine r w)"
  by (simp add: the_routine_def upd_routine_def vec_get_def)

lemma the_sema_upd:
  "the_sema s (upd_sema s' f w) = (if s = s' then map_option f (the_sema s w) else the_sema s w)"
  by (simp add: the_sema_def upd_sema_def vec_get_def)

lemma the_blocks [simp]:
  "the_routine r (w\<lparr>w_blocks := bs\<rparr>) = the_routine r w"
  "the_thread t (w\<lparr>w_blocks := bs\<rparr>) = the_thread t w"
  "the_sema s (w\<lparr>w_blocks := bs\<rparr>) = the_sema s w"
  by (simp_all add: the_routine_def the_thread_def the_sema_def)

lemma ptr_access:
  "ptr_valid (Some b) w \<longleftrightarrow> b < length (w_blocks w) \<and> w_blocks w ! b \<noteq> Invalidated"
  "ptr_get (Some b) w = Some r \<longleftrightarrow> b < length (w_blocks w) \<and> w_blocks w ! b = Owner (Some r)"
  by (auto simp: ptr_valid_def ptr_get_def vec_get_def split: block.splits)

section \<open>Taking back registrations\<close>

text \<open>
  A registration that can be taken back: the timer is in the map of the thread, the
  semaphore and the slot exist.
\<close>

definition sema_wf :: "nat \<Rightarrow> world \<Rightarrow> bool" where
  "sema_wf s w \<longleftrightarrow> (\<exists>sm es fs. the_sema s w = Some sm \<and> vq_rep (s_waiters sm) es fs)"

fun event_registered :: "nat \<Rightarrow> world \<Rightarrow> waited_event \<Rightarrow> bool" where
  "event_registered t w (TimerEvent date) \<longleftrightarrow> (\<exists>th. the_thread t w = Some th \<and> date \<in> fst ` set (t_timed th))"
| "event_registered t w (ReadEvent fd) \<longleftrightarrow> the_thread t w \<noteq> None"
| "event_registered t w (WriteEvent fd) \<longleftrightarrow> the_thread t w \<noteq> None"
| "event_registered t w (SemaEvent d) \<longleftrightarrow>
     (\<exists>th. the_thread t w = Some th \<and> se_slot_index d < length (sv_free_cells (t_slots th))) \<and>
     sema_wf (se_sema d) w"

text \<open>What \<open>expire_event\<close> keeps of the thread, and the count it takes back.\<close>

definition suspended_weight :: "waited_event \<Rightarrow> size_t" where
  "suspended_weight ev = (case ev of TimerEvent d \<Rightarrow> 0 | _ \<Rightarrow> 1)"

definition expired_thread :: "size_t \<Rightarrow> thread \<Rightarrow> thread \<Rightarrow> bool" where
  "expired_thread k th th' \<longleftrightarrow>
     t_scheduled th' = t_scheduled th \<and> t_status th' = t_status th \<and> t_engine_queue th' = t_engine_queue th \<and>
     t_nb_pending th' = t_nb_pending th \<and> t_poller th' = t_poller th \<and>
     map fst (t_timed th') = map fst (t_timed th) \<and> t_nb_suspended th' = t_nb_suspended th - k \<and>
     length (sv_free_cells (t_slots th')) = length (sv_free_cells (t_slots th))"

lemma timed_dec_keys:
  "date \<in> fst ` set xs \<Longrightarrow> \<exists>xs'. timed_dec date xs = Some xs' \<and> map fst xs' = map fst xs"
proof (induction xs)
  case (Cons x xs)
  obtain d s where "x = (d, s)" by fastforce
  with Cons show ?case by (cases "date = d") auto
qed simp

lemma sparse_vector_free_length:
  "index < length (sv_free_cells v) \<Longrightarrow>
     \<exists>v'. sparse_vector_free index v = Some v' \<and> length (sv_free_cells v') = length (sv_free_cells v)"
  by (simp add: sparse_vector_free_def)

lemma sema_wf_upd:
  "vq_rep q es fs \<Longrightarrow> sema_wf s' w \<Longrightarrow> sema_wf s' (upd_sema s (\<lambda>sm. sm\<lparr>s_waiters := q\<rparr>) w)"
  by (cases "s' = s") (fastforce simp: sema_wf_def the_sema_upd)+

lemma sema_wf_thread [simp]:
  "sema_wf s (upd_thread t f w) = sema_wf s w"
  "sema_wf s (upd_routine r h w) = sema_wf s w"
  by (simp_all add: sema_wf_def)

lemma semaphore_free_ok:
  assumes "sema_wf s w"
  shows "\<exists>b q es fs. semaphore_free s i w = Some (b, upd_sema s (\<lambda>sm. sm\<lparr>s_waiters := q\<rparr>) w) \<and> vq_rep q es fs"
proof -
  from assms obtain sm es fs where sm: "the_sema s w = Some sm" "vq_rep (s_waiters sm) es fs"
    by (auto simp: sema_wf_def)
  from vq_lazy_free_rep [OF sm(2), of i] obtain q' fs' b where
    "vectorized_queue_lazy_free i (s_waiters sm) = Some (b, q')" "vq_rep q' (filter (\<lambda>e. fst e \<noteq> i) es) fs'" by blast
  with sm show ?thesis by (intro exI [of _ b] exI [of _ q'] exI [of _ "filter (\<lambda>e. fst e \<noteq> i) es"] exI [of _ fs'])
      (simp add: semaphore_free_def)
qed

lemma expire_event_ok:
  assumes "event_registered t w ev"
  shows "\<exists>w' th th'. expire_event t ev w = Some w' \<and> w_blocks w' = w_blocks w \<and> w_routines w' = w_routines w \<and>
    the_thread t w = Some th \<and> the_thread t w' = Some th' \<and> expired_thread (suspended_weight ev) th th' \<and>
    (\<forall>s. sema_wf s w \<longrightarrow> sema_wf s w')"
proof (cases ev)
  case (TimerEvent date)
  with assms obtain th where th: "the_thread t w = Some th" "date \<in> fst ` set (t_timed th)" by auto
  with timed_dec_keys [OF th(2)] TimerEvent show ?thesis
    by (auto simp: the_thread_upd expired_thread_def suspended_weight_def)
next
  case (SemaEvent d)
  with assms obtain th where th: "the_thread t w = Some th" "se_slot_index d < length (sv_free_cells (t_slots th))"
    and ok: "sema_wf (se_sema d) w" by auto
  let ?w1 = "upd_thread t (\<lambda>th. th\<lparr>t_nb_suspended := t_nb_suspended th - 1\<rparr>) w"
  from semaphore_free_ok [of "se_sema d" ?w1 "se_index d"] ok obtain b q es fs
    where q: "semaphore_free (se_sema d) (se_index d) ?w1 = Some (b, upd_sema (se_sema d) (\<lambda>sm. sm\<lparr>s_waiters := q\<rparr>) ?w1)"
      "vq_rep q es fs" by auto
  from sparse_vector_free_length [OF th(2)] obtain v' where
    v': "sparse_vector_free (se_slot_index d) (t_slots th) = Some v'"
      "length (sv_free_cells v') = length (sv_free_cells (t_slots th))" by blast
  show ?thesis
    using SemaEvent th q v' sema_wf_upd [OF q(2)]
    by (cases b) (auto simp: dec_suspended_def thread_unregister_expired_slot_def the_thread_upd the_sema_upd
        expired_thread_def suspended_weight_def)
qed (use assms in \<open>auto simp: dec_suspended_def the_thread_upd expired_thread_def suspended_weight_def\<close>)

lemma expired_thread_trans:
  "expired_thread j th th1 \<Longrightarrow> expired_thread k th1 th2 \<Longrightarrow> expired_thread (j + k) th th2"
  by (simp add: expired_thread_def algebra_simps)

lemma event_registered_mono:
  assumes "event_registered t w ev" and "the_thread t w = Some th" and "the_thread t w' = Some th'"
    and "expired_thread k th th'"
    and "\<And>s. sema_wf s w \<Longrightarrow> sema_wf s w'"
  shows "event_registered t w' ev"
proof (cases ev)
  case (TimerEvent date)
  with assms show ?thesis by (auto simp: expired_thread_def simp flip: set_map)
next
  case (SemaEvent d)
  with assms show ?thesis by (auto simp: expired_thread_def)
qed (use assms in auto)

lemma expire_events_ok:
  assumes "\<forall>ev \<in> set evs. event_registered t w ev" and "the_thread t w = Some th"
  shows "\<exists>w' th'. fold_opt (expire_event t) evs w = Some w' \<and> w_blocks w' = w_blocks w \<and> w_routines w' = w_routines w \<and>
    the_thread t w' = Some th' \<and> expired_thread (sum_list (map suspended_weight evs)) th th'"
  using assms
proof (induction evs arbitrary: w th)
  case Nil
  then show ?case by (simp add: expired_thread_def)
next
  case (Cons ev evs)
  from Cons.prems expire_event_ok [of t w ev] obtain w1 th1
    where w1: "expire_event t ev w = Some w1" "w_blocks w1 = w_blocks w" "w_routines w1 = w_routines w"
      "the_thread t w1 = Some th1" "expired_thread (suspended_weight ev) th th1"
      and semas: "\<forall>s. sema_wf s w \<longrightarrow> sema_wf s w1"
    by fastforce
  have "event_registered t w1 ev'" if "ev' \<in> set evs" for ev'
    using that Cons.prems w1(4,5) semas by (intro event_registered_mono [of t w ev' th w1 th1]) auto
  with Cons.IH [of w1 th1] w1 obtain w2 th2
    where "fold_opt (expire_event t) evs w1 = Some w2" "w_blocks w2 = w_blocks w1" "w_routines w2 = w_routines w1"
      "the_thread t w2 = Some th2" "expired_thread (sum_list (map suspended_weight evs)) th1 th2" by blast
  with w1 expired_thread_trans [OF w1(5)] show ?case by auto
qed

section \<open>An event wakes the routine\<close>

lemma event_registered_frame [simp]:
  "event_registered t (upd_routine r h w) ev = event_registered t w ev"
  "event_registered t (upd_thread t (\<lambda>th. th\<lparr>t_nb_suspended := f th\<rparr>) w) ev = event_registered t w ev"
  by (cases ev; simp; fail | cases "the_thread t w"; cases ev; simp add: the_thread_upd)+

text \<open>What an event of each kind leaves in \<^verbatim>\<open>happened_type_\<close> and \<^verbatim>\<open>happened_rc_\<close>.\<close>

fun happened_with :: "int \<Rightarrow> waited_event \<Rightarrow> (event_type \<times> int) option" where
  "happened_with status (TimerEvent date) = Some (ev_timer, - ETIMEDOUT)"
| "happened_with status (ReadEvent fd) = Some (ev_io_read, status)"
| "happened_with status (WriteEvent fd) = Some (ev_io_write, status)"
| "happened_with status (SemaEvent d) = None"

lemma record_event_ok:
  assumes "the_routine r w = Some rt" and "the_thread t w = Some th" and "happened_with status ev = Some (type, rc)"
  shows "\<exists>w1 th1. record_event r t index status ev w = Some (True, w1) \<and> w_blocks w1 = w_blocks w \<and>
    the_routine r w1 = Some (rt\<lparr>r_happened_type := type, r_happened_rc := rc\<rparr>) \<and>
    the_thread t w1 = Some th1 \<and> expired_thread (suspended_weight ev) th th1 \<and>
    (\<forall>ev'. event_registered t w ev' \<longrightarrow> event_registered t w1 ev')"
  using assms
  by (cases ev) (auto simp: happened_def dec_suspended_def the_routine_upd the_thread_upd expired_thread_def
      suspended_weight_def)

lemma sum_weights_split:
  assumes "index < length evs"
  shows "suspended_weight (evs ! index) + sum_list (map suspended_weight (take index evs @ drop (Suc index) evs)) =
    sum_list (map suspended_weight evs)"
proof -
  have "sum_list (map suspended_weight evs) =
      sum_list (map suspended_weight (take index evs @ evs ! index # drop (Suc index) evs))"
    using assms by (simp add: id_take_nth_drop [symmetric])
  then show ?thesis by (simp add: algebra_simps)
qed

lemma event_happened_ok:
  assumes rt: "the_routine r w = Some rt" and ptr: "r_current_ptr rt = Some b" and own: "ptr_get (Some b) w = Some r"
    and th: "the_thread (r_thread rt) w = Some th"
    and ev: "index < length (r_events rt)" "happened_with status (r_events rt ! index) = Some (type, rc)"
    and reg: "\<forall>ev \<in> set (r_events rt). event_registered (r_thread rt) w ev"
  shows "\<exists>w' th'. routine_event_happened r index status w = Some (True, w') \<and>
    the_routine r w' = Some (rt\<lparr>r_status := yielding, r_happened_type := type, r_happened_rc := rc, r_happened_index := index\<rparr>) \<and>
    the_thread (r_thread rt) w' = Some th' \<and>
    t_scheduled th' = t_scheduled th @ [\<lparr>slot_ptr = Some (length (w_blocks w)), slot_event_index = 0\<rparr>] \<and>
    t_nb_suspended th' = t_nb_suspended th - sum_list (map suspended_weight (r_events rt)) \<and>
    map fst (t_timed th') = map fst (t_timed th) \<and> t_engine_queue th' = t_engine_queue th \<and> t_status th' = t_status th \<and>
    t_nb_pending th' = t_nb_pending th \<and> length (sv_free_cells (t_slots th')) = length (sv_free_cells (t_slots th)) \<and>
    w_blocks w' = (w_blocks w)[b := Invalidated] @ [Owner (Some r)]"
proof -
  let ?t = "r_thread rt" and ?rt0 = "rt\<lparr>r_happened_rc := 0\<rparr>"
  let ?others = "take index (r_events rt) @ drop (Suc index) (r_events rt)"
  let ?w0 = "upd_routine r (\<lambda>rt. rt\<lparr>r_happened_rc := 0\<rparr>) w"
  from own have b: "b < length (w_blocks w)" "w_blocks w ! b = Owner (Some r)" by (simp_all add: ptr_access)
  have rt0: "the_routine r ?w0 = Some ?rt0" using rt by (simp add: the_routine_upd)
  have th0: "the_thread ?t ?w0 = Some th" using th by simp
  from record_event_ok [OF rt0 th0 ev(2), of index] obtain w1 th1
    where w1: "record_event r ?t index status (r_events rt ! index) ?w0 = Some (True, w1)" "w_blocks w1 = w_blocks w"
      "the_routine r w1 = Some (rt\<lparr>r_happened_type := type, r_happened_rc := rc\<rparr>)"
      "the_thread ?t w1 = Some th1" "expired_thread (suspended_weight (r_events rt ! index)) th th1"
      "\<And>ev'. event_registered ?t ?w0 ev' \<Longrightarrow> event_registered ?t w1 ev'"
    by auto
  have "\<forall>ev \<in> set ?others. event_registered ?t w1 ev"
    using reg w1(6) by (auto dest: in_set_takeD in_set_dropD)
  from expire_events_ok [OF this w1(4)] obtain w2 th2
    where w2: "fold_opt (expire_event ?t) ?others w1 = Some w2" "w_blocks w2 = w_blocks w1" "w_routines w2 = w_routines w1"
      "the_thread ?t w2 = Some th2" "expired_thread (sum_list (map suspended_weight ?others)) th1 th2"
    by blast
  have rt2: "the_routine r w2 = Some (rt\<lparr>r_happened_type := type, r_happened_rc := rc\<rparr>)"
    using w1(3) w2(3) by (simp add: the_routine_def)
  from expired_thread_trans [OF w1(5) w2(5)] sum_weights_split [OF ev(1)]
  have exp: "expired_thread (sum_list (map suspended_weight (r_events rt))) th th2" by simp
  have type: "type \<noteq> ev_sema_wait" "type \<noteq> ev_sema_closed" "type \<noteq> ev_none"
    using ev(2) by (cases "r_events rt ! index"; auto)+
  let ?w3 = "(upd_routine r (\<lambda>rt. rt\<lparr>r_status := yielding, r_happened_index := index\<rparr>) w2)\<lparr>w_blocks := (w_blocks w2)[b := Owner None]\<rparr>"
  let ?slot = "\<lparr>slot_ptr = Some (length (w_blocks w)), slot_event_index = 0\<rparr>"
  let ?w4 = "?w3\<lparr>w_blocks := w_blocks ?w3 @ [Owner (Some r)]\<rparr>"
  have rel: "ptr_release (Some b) (upd_routine r (\<lambda>rt. rt\<lparr>r_status := yielding, r_happened_index := index\<rparr>) w2) =
      Some (Some r, ?w3)"
    using b w1(2) w2(2) by (simp add: ptr_release_def)
  have sched: "thread_schedule_routine ?t ?slot ?w4 =
      Some (upd_thread ?t (\<lambda>th. th\<lparr>t_scheduled := t_scheduled th @ [?slot]\<rparr>) ?w4)"
    using w2(4) rt2 w1(2) w2(2)
    by (simp add: thread_schedule_routine_def ptr_get_def the_routine_upd vec_get_def nth_append)
  have "routine_event_happened r index status w =
      Some (True, (upd_thread ?t (\<lambda>th. th\<lparr>t_scheduled := t_scheduled th @ [?slot]\<rparr>) ?w4)
        \<lparr>w_blocks := (w_blocks ?w4)[b := Invalidated]\<rparr>)"
    using rt ev(1) ptr w1(1) w2(1) rt2 type rel sched b w1(2) w2(2)
    by (simp add: routine_event_happened_def Let_def make_ptr_def ptr_invalidate_all_def list_update_append)
  then show ?thesis
    using exp w2(4) rt2 b w1(2) w2(2)
    by (simp add: the_thread_upd the_routine_upd expired_thread_def list_update_append)
qed

text \<open>
  A routine in a committed round: its current pointer is valid and owns it, and all its
  events are registered with its thread.
\<close>

definition in_round :: "nat \<Rightarrow> nat \<Rightarrow> routine \<Rightarrow> thread \<Rightarrow> world \<Rightarrow> bool" where
  "in_round r b rt th w \<longleftrightarrow> the_routine r w = Some rt \<and> r_current_ptr rt = Some b \<and> ptr_get (Some b) w = Some r \<and>
     the_thread (r_thread rt) w = Some th \<and> (\<forall>ev \<in> set (r_events rt). event_registered (r_thread rt) w ev)"

text \<open>
  C8: a timer or fd event wakes its routine exactly once. Whatever else the routine waits
  for in the round, \<^verbatim>\<open>event_happened\<close> succeeds, records the index, type and return code of
  the event, makes the routine ready under one new pointer at the end of the scheduling
  queue of its thread, takes its share out of the count of suspended routines, and
  invalidates the pointer all the other registrations of the round hold.
\<close>

theorem event_wakes_routine_once:
  assumes "in_round r b rt th w" and "index < length (r_events rt)"
    and "happened_with status (r_events rt ! index) = Some (type, rc)"
  shows "\<exists>w' th' slot. routine_event_happened r index status w = Some (True, w') \<and>
    the_routine r w' = Some (rt\<lparr>r_status := yielding, r_happened_type := type, r_happened_rc := rc, r_happened_index := index\<rparr>) \<and>
    the_thread (r_thread rt) w' = Some th' \<and> t_scheduled th' = t_scheduled th @ [slot] \<and>
    ptr_get (slot_ptr slot) w' = Some r \<and> slot_ptr slot \<noteq> Some b \<and> \<not> ptr_valid (Some b) w' \<and>
    t_nb_suspended th' = t_nb_suspended th - sum_list (map suspended_weight (r_events rt))"
proof -
  from assms(1) have b: "b < length (w_blocks w)" by (simp add: in_round_def ptr_access)
  from assms event_happened_ok [of r w rt b th index status type rc] obtain w' th'
    where "routine_event_happened r index status w = Some (True, w')"
      "the_routine r w' = Some (rt\<lparr>r_status := yielding, r_happened_type := type, r_happened_rc := rc, r_happened_index := index\<rparr>)"
      "the_thread (r_thread rt) w' = Some th'"
      "t_scheduled th' = t_scheduled th @ [\<lparr>slot_ptr = Some (length (w_blocks w)), slot_event_index = 0\<rparr>]"
      "t_nb_suspended th' = t_nb_suspended th - sum_list (map suspended_weight (r_events rt))"
      "w_blocks w' = (w_blocks w)[b := Invalidated] @ [Owner (Some r)]"
    unfolding in_round_def by auto
  with b show ?thesis
    by (intro exI [of _ w'] exI [of _ th'] exI [of _ "\<lparr>slot_ptr = Some (length (w_blocks w)), slot_event_index = 0\<rparr>"])
      (auto simp: ptr_access nth_append)
qed

text \<open>A routine that waits for fd 0 to be readable, with a timeout at date 5.\<close>

definition round_example :: world where
  "round_example =
     \<lparr>w_routines = [routine_new\<lparr>r_status := wait_events, r_events := [ReadEvent 0, TimerEvent 5], r_current_ptr := Some 0\<rparr>],
      w_blocks = [Owner (Some 0)], w_semas = [],
      w_threads = [(thread_new (netpoller_new 1 np_example_loop))
        \<lparr>t_timed := [(5, \<lparr>ts_nb_active = 1, ts_slots = [1]\<rparr>)], t_nb_suspended := 1,
         t_slots := \<lparr>sv_data = [\<lparr>slot_ptr = Some 0, slot_event_index = 0\<rparr>, \<lparr>slot_ptr = Some 0, slot_event_index = 1\<rparr>],
           sv_free_cells = [- 1, - 1], sv_first_free_cell = - 1, sv_last_free_cell = - 1\<rparr>\<rparr>],
      w_engine_queue = []\<rparr>"

lemma round_example_in_round:
  "in_round 0 0 (w_routines round_example ! 0) (w_threads round_example ! 0) round_example"
  by (simp add: in_round_def round_example_def the_routine_def the_thread_def routine_new_def ptr_access)

theorem event_wakes_routine_once_witness:
  "\<exists>w' rt'. routine_event_happened 0 1 0 round_example = Some (True, w') \<and> the_routine 0 w' = Some rt' \<and>
     r_happened_type rt' = ev_timer \<and> \<not> ptr_valid (Some 0) w'"
  using event_wakes_routine_once [OF round_example_in_round, of 1 0]
  by (auto simp: round_example_def routine_new_def)



section \<open>Delivery of fd events\<close>

lemma thread_read_delivers:
  assumes round: "in_round r b rt th w" and ev: "r_events rt ! slot_event_index slot = ReadEvent fd"
    and slot: "sparse_vector_has (unat data) (t_slots th)" "sparse_vector_get (unat data) (t_slots th) = Some slot"
      "slot_ptr slot = Some b" "slot_event_index slot < length (r_events rt)"
      "unat data < length (sv_free_cells (t_slots th))"
    and fd: "fd_ok (t_poller th) fd"
  shows "\<exists>w'. thread_read (r_thread rt) fd data status w = Some w' \<and>
    the_routine r w' = Some (rt\<lparr>r_status := yielding, r_happened_type := ev_io_read,
      r_happened_rc := routine_status_value (r_status rt), r_happened_index := slot_event_index slot\<rparr>)"
proof -
  let ?t = "r_thread rt" and ?i = "slot_event_index slot"
  obtain p where p: "netpoller_unregister_read fd (t_poller th) = Some p"
    using fd by (simp add: netpoller_unregister_read_def np_fd_ok_ex)
  let ?w = "upd_thread ?t (\<lambda>th. th\<lparr>t_poller := p\<rparr>) w"
  have reg: "event_registered ?t ?w e" if "event_registered ?t w e" for e
    using that by (cases "the_thread ?t w"; cases e) (simp_all add: the_thread_upd)
  from round have "\<exists>w' th'. routine_event_happened r ?i (routine_status_value (r_status rt)) ?w = Some (True, w') \<and>
    the_routine r w' = Some (rt\<lparr>r_status := yielding, r_happened_type := ev_io_read,
      r_happened_rc := routine_status_value (r_status rt), r_happened_index := ?i\<rparr>) \<and>
    the_thread ?t w' = Some th' \<and> length (sv_free_cells (t_slots th')) = length (sv_free_cells (t_slots th))"
    using event_happened_ok [of r ?w rt b "th\<lparr>t_poller := p\<rparr>" ?i "routine_status_value (r_status rt)" ev_io_read
        "routine_status_value (r_status rt)"] ev slot reg
    unfolding in_round_def by (auto simp: the_thread_upd ptr_access)
  then obtain w1 th1 where w1: "routine_event_happened r ?i (routine_status_value (r_status rt)) ?w = Some (True, w1)"
    "the_routine r w1 = Some (rt\<lparr>r_status := yielding, r_happened_type := ev_io_read,
      r_happened_rc := routine_status_value (r_status rt), r_happened_index := ?i\<rparr>)"
    "the_thread ?t w1 = Some th1" "length (sv_free_cells (t_slots th1)) = length (sv_free_cells (t_slots th))" by blast
  from sparse_vector_free_length [of "unat data" "t_slots th1"] w1(4) slot(5) obtain v
    where "sparse_vector_free (unat data) (t_slots th1) = Some v" by auto
  moreover have "routine_event_is_a_fd_wait ?i fd rt" using ev slot(4) by (simp add: routine_event_is_a_fd_wait_def)
  moreover have "ptr_valid (Some b) w" using round by (auto simp: in_round_def ptr_access)
  ultimately show ?thesis
    using round slot p w1 unfolding in_round_def
    by (simp add: thread_read_def thread_unregister_expired_slot_def)
qed

text \<open>
  \<^verbatim>\<open>thread::read\<close> drops the status of the event. A routine that waits for an fd to be
  readable is woken with the return code \<open>3\<close>, the number of its own status
  \<^verbatim>\<open>wait_events\<close>, whatever the status of the event is; in particular it is not told of
  the \<^verbatim>\<open>-EBADF\<close> of a closed fd or the \<^verbatim>\<open>-EINTR\<close> of a hang-up.
\<close>

theorem thread_read_drops_status:
  assumes "in_round r b rt th w" and "r_status rt = wait_events" and "r_events rt ! slot_event_index slot = ReadEvent fd"
    and "sparse_vector_has (unat data) (t_slots th)" and "sparse_vector_get (unat data) (t_slots th) = Some slot"
    and "slot_ptr slot = Some b" and "slot_event_index slot < length (r_events rt)"
    and "unat data < length (sv_free_cells (t_slots th))" and "fd_ok (t_poller th) fd"
  shows "\<exists>w' rt'. thread_read (r_thread rt) fd data status w = Some w' \<and> the_routine r w' = Some rt' \<and>
    r_status rt' = yielding \<and> r_happened_type rt' = ev_io_read \<and> r_happened_rc rt' = 3"
  using thread_read_delivers [OF assms(1,3-)] assms(2) by fastforce

theorem thread_read_drops_status_witness:
  "\<exists>w' rt'. thread_read 0 0 0 (- EBADF) round_example = Some w' \<and> the_routine 0 w' = Some rt' \<and> r_happened_rc rt' = 3"
  using thread_read_drops_status [OF round_example_in_round, of "\<lparr>slot_ptr = Some 0, slot_event_index = 0\<rparr>" 0 0 "- EBADF"]
  by (auto simp: round_example_def routine_new_def sparse_vector_has_def sparse_vector_get_def thread_new_def
      netpoller_new_def fd_ok_def)

end
