(* ===== verification/Blocking.thy ===== *)
theory Blocking
  imports Event_Rounds
begin

text \<open>
  The operations a routine may block in: \<^verbatim>\<open>semaphore::wait\<close>
  (\<^verbatim>\<open>src/boson/src/semaphore.cc\<close>), \<^verbatim>\<open>mutex\<close> (\<^verbatim>\<open>src/boson/boson/mutex.h\<close>), and
  \<^verbatim>\<open>yield\<close>, \<^verbatim>\<open>usleep\<close> and \<^verbatim>\<open>wait_readiness\<close> with the system calls built on it
  (\<^verbatim>\<open>src/boson/src/syscalls.cc\<close>). Each is cut at its context switch: a start, which
  may return at once, and a finish that runs when the routine is resumed. The clock \<open>now_ns\<close>
  is in nanoseconds.
\<close>

section \<open>Time\<close>

text \<open>\<^verbatim>\<open>duration_cast\<close> truncates towards zero, and \<^verbatim>\<open>experimental::chrono::ceil\<close> rounds up.\<close>

definition duration_cast_ms :: "int \<Rightarrow> int" where
  "duration_cast_ms ns = (if 0 \<le> ns then ns div 1000000 else - (- ns div 1000000))"

definition ceil_ms :: "int \<Rightarrow> int" where
  "ceil_ms d = (let t = duration_cast_ms d in if t * 1000000 < d then t + 1 else t)"

section \<open>Switching away and back\<close>

definition running_of :: "nat \<Rightarrow> world \<Rightarrow> nat option" where
  "running_of t w = do { th \<leftarrow> the_thread t w; t_running th }"

text \<open>\<^verbatim>\<open>yield\<close>.\<close>

definition yield_start :: "nat \<Rightarrow> world \<Rightarrow> world option" where
  "yield_start t w =
     do { r \<leftarrow> running_of t w; rt \<leftarrow> the_routine r w;
          Some (upd_routine r (\<lambda>rt. rt\<lparr>r_status := yielding\<rparr>) w) }"

definition yield_finish :: "nat \<Rightarrow> world \<Rightarrow> world option" where
  "yield_finish t w =
     do { r \<leftarrow> running_of t w; rt \<leftarrow> the_routine r w;
          Some (upd_routine r (\<lambda>rt. rt\<lparr>r_previous_status := yielding, r_status := running\<rparr>) w) }"

text \<open>What every operation that waited for events does first when it is resumed.\<close>

definition wait_finish :: "nat \<Rightarrow> world \<Rightarrow> world option" where
  "wait_finish r w =
     do { rt \<leftarrow> the_routine r w;
          Some (upd_routine r (\<lambda>rt. rt\<lparr>r_previous_status := wait_events, r_status := running\<rparr>) w) }"

text \<open>\<^verbatim>\<open>usleep\<close>; \<open>duration_ns\<close> is the duration.\<close>

definition usleep_start :: "nat \<Rightarrow> int \<Rightarrow> int \<Rightarrow> world \<Rightarrow> world option" where
  "usleep_start t now_ns duration_ns w =
     do { r \<leftarrow> running_of t w;
          w1 \<leftarrow> routine_start_event_round r w;
          w2 \<leftarrow> routine_add_timer r (ceil_ms (now_ns + duration_ns)) w1;
          routine_commit_event_round r w2 }"

section \<open>Semaphores and mutexes\<close>

text \<open>
  \<^verbatim>\<open>semaphore::wait\<close> up to the switch: \<open>Some v\<close> when it returns \<open>v\<close> at once, \<open>None\<close> when
  the routine is suspended.
\<close>

definition semaphore_wait_start ::
  "nat \<Rightarrow> nat \<Rightarrow> int \<Rightarrow> int \<Rightarrow> world \<Rightarrow> (semaphore_return_value option \<times> world) option" where
  "semaphore_wait_start s t timeout now_ns w =
     do { (result, w1) \<leftarrow> sema_fetch_sub s w;
          if disabling_threshold < result then
            do { (_, w2) \<leftarrow> sema_fetch_add s w1; Some (Some sema_disabled, w2) }
          else if result \<le> 0 then
            do { r \<leftarrow> running_of t w1;
                 w2 \<leftarrow> routine_start_event_round r w1;
                 w3 \<leftarrow> routine_add_semaphore_wait r s w2;
                 w4 \<leftarrow> (if 0 \<le> timeout
                         then routine_add_timer r (duration_cast_ms (now_ns + timeout * 1000000)) w3 else Some w3);
                 w5 \<leftarrow> routine_commit_event_round r w4;
                 Some (None, w5) }
          else Some (Some sema_ok, w1) }"

definition semaphore_wait_value :: "event_type \<Rightarrow> semaphore_return_value" where
  "semaphore_wait_value happened_type =
     (if happened_type = ev_sema_wait then sema_ok
      else if happened_type = ev_sema_closed then sema_disabled else sema_timedout)"

definition semaphore_wait_finish :: "nat \<Rightarrow> world \<Rightarrow> (semaphore_return_value \<times> world) option" where
  "semaphore_wait_finish r w =
     do { rt \<leftarrow> the_routine r w;
          w1 \<leftarrow> wait_finish r w;
          Some (semaphore_wait_value (r_happened_type rt), w1) }"

text \<open>\<^verbatim>\<open>mutex\<close> is a semaphore with one ticket; \<^verbatim>\<open>lock\<close> drops the result of \<^verbatim>\<open>wait\<close>.\<close>

definition mutex_new :: semaphore where
  "mutex_new = semaphore_new 1"

definition mutex_lock_start :: "nat \<Rightarrow> nat \<Rightarrow> int \<Rightarrow> int \<Rightarrow> world \<Rightarrow> (bool \<times> world) option" where
  "mutex_lock_start m t timeout now_ns w =
     do { (v, w1) \<leftarrow> semaphore_wait_start m t timeout now_ns w; Some (v \<noteq> None, w1) }"

definition mutex_lock_finish :: "nat \<Rightarrow> world \<Rightarrow> world option" where
  "mutex_lock_finish r w = do { (_, w1) \<leftarrow> semaphore_wait_finish r w; Some w1 }"

definition mutex_unlock :: "nat \<Rightarrow> nat \<Rightarrow> world \<Rightarrow> world option" where
  "mutex_unlock m t w = do { (_, w1) \<leftarrow> semaphore_post m t w; Some w1 }"

section \<open>System calls\<close>

text \<open>\<^verbatim>\<open>wait_readiness\<close>, with \<^verbatim>\<open>add_event\<close> and \<^verbatim>\<open>add_timer\<close> of \<^verbatim>\<open>syscall_traits.h\<close>.\<close>

definition wait_readiness_start ::
  "bool \<Rightarrow> bool \<Rightarrow> int option \<Rightarrow> nat \<Rightarrow> int \<Rightarrow> int \<Rightarrow> int \<Rightarrow> world \<Rightarrow> world option" where
  "wait_readiness_start is_a_read has_timer ctl t fd timeout_ms now_ns w =
     do { r \<leftarrow> running_of t w;
          w1 \<leftarrow> routine_start_event_round r w;
          w2 \<leftarrow> (if is_a_read then routine_add_read ctl r fd w1 else routine_add_write ctl r fd w1);
          w3 \<leftarrow> (if has_timer then routine_add_timer r (ceil_ms (now_ns + timeout_ms * 1000000)) w2 else Some w2);
          routine_commit_event_round r w3 }"

text \<open>The return code and, when it is \<open>-1\<close>, the new \<^verbatim>\<open>errno\<close>.\<close>

definition readiness_code :: "int \<Rightarrow> int \<times> int option" where
  "readiness_code happened_rc = (if happened_rc < 0 then (- 1, Some (- happened_rc)) else (0, None))"

definition wait_readiness_finish :: "nat \<Rightarrow> world \<Rightarrow> ((int \<times> int option) \<times> world) option" where
  "wait_readiness_finish r w =
     do { rt \<leftarrow> the_routine r w;
          w1 \<leftarrow> wait_finish r w;
          Some (readiness_code (r_happened_rc rt), w1) }"

text \<open>
  \<^verbatim>\<open>boson_classic_syscall::call\<close>: \<open>attempts\<close> are the answers of the successive system calls,
  each a return code and \<^verbatim>\<open>errno\<close>, and \<open>wakeups\<close> the values of \<^verbatim>\<open>happened_rc_\<close> at the
  successive wakeups. \<open>None\<close> means that the routine is still suspended.
\<close>

fun classic_retry :: "int \<times> int \<Rightarrow> (int \<times> int) list \<Rightarrow> int list \<Rightarrow> (int \<times> int) option" where
  "classic_retry (rc, errno) attempts [] =
     (if rc < 0 \<and> errno = EAGAIN then None else Some (rc, errno))"
| "classic_retry (rc, errno) attempts (h # wakeups) =
     (if rc < 0 \<and> errno = EAGAIN then
        (case readiness_code h of
           (code, Some errno') \<Rightarrow> classic_retry (code, errno') attempts wakeups
         | (code, None) \<Rightarrow>
             (case attempts of
                [] \<Rightarrow> None
              | attempt # attempts' \<Rightarrow> classic_retry attempt attempts' wakeups))
      else Some (rc, errno))"

definition classic_syscall :: "(int \<times> int) list \<Rightarrow> int list \<Rightarrow> (int \<times> int) option" where
  "classic_syscall attempts wakeups =
     (case attempts of [] \<Rightarrow> None | attempt # attempts' \<Rightarrow> classic_retry attempt attempts' wakeups)"

text \<open>
  \<^verbatim>\<open>connect_impl\<close>: \<open>first\<close> is the answer of \<^verbatim>\<open>connect\<close>, \<open>wakeup\<close> the \<^verbatim>\<open>happened_rc_\<close> of the wait,
  \<open>sockopt\<close> the answer of \<^verbatim>\<open>getsockopt\<close>: \<open>None\<close> when it fails, which throws (\<open>Inl\<close>), and
  otherwise the pending error of the socket.
\<close>

definition EINPROGRESS :: int where "EINPROGRESS = 115"

definition connect_impl :: "int \<times> int \<Rightarrow> int \<Rightarrow> int option \<Rightarrow> string + int \<times> int" where
  "connect_impl first wakeup sockopt =
     (case first of
        (rc, errno) \<Rightarrow>
          if rc < 0 \<and> errno = EINPROGRESS then
            (case readiness_code wakeup of
               (code, Some errno') \<Rightarrow> Inr (code, errno')
             | (code, None) \<Rightarrow>
                 (case sockopt of
                    None \<Rightarrow> Inl ''getsockopt''
                  | Some err \<Rightarrow> if err \<noteq> 0 then Inr (- 1, err) else Inr (err, errno)))
          else Inr (rc, errno))"

text \<open>\<^verbatim>\<open>close\<close> tells every thread of the engine, then calls the kernel, whose answer it returns.\<close>

fun engine_signal_fd_closed :: "(nat \<Rightarrow> int option) \<Rightarrow> nat list \<Rightarrow> int \<Rightarrow> world \<Rightarrow> world option" where
  "engine_signal_fd_closed ctl [] fd w = Some w"
| "engine_signal_fd_closed ctl (t # ts) fd w =
     do { w1 \<leftarrow> thread_signal_fd_closed (ctl t) t fd w; engine_signal_fd_closed ctl ts fd w1 }"

definition boson_close :: "(nat \<Rightarrow> int option) \<Rightarrow> int \<Rightarrow> int \<Rightarrow> world \<Rightarrow> (int \<times> world) option" where
  "boson_close ctl rc fd w =
     do { w1 \<leftarrow> engine_signal_fd_closed ctl [0..<length (w_threads w)] fd w; Some (rc, w1) }"

section \<open>Properties\<close>

lemma div_million: "k div 1000000 * 1000000 \<le> k \<and> k < k div 1000000 * 1000000 + 1000000" for k :: int
  using div_mult_mod_eq [of k 1000000] pos_mod_bound [of 1000000 k] pos_mod_sign [of 1000000 k] by linarith

lemma duration_cast_ms_bounds: "0 \<le> ns \<Longrightarrow> duration_cast_ms ns * 1000000 \<le> ns \<and> ns < duration_cast_ms ns * 1000000 + 1000000"
  using div_million [of ns] by (simp add: duration_cast_ms_def)

text \<open>
  Rounding a date up never shortens a delay and adds less than a millisecond, for every
  point in time, so that a sleep never ends before its deadline because of rounding.
\<close>

lemma ceil_ms_bounds: "ns \<le> ceil_ms ns * 1000000 \<and> ceil_ms ns * 1000000 < ns + 1000000"
proof (cases "0 \<le> ns")
  case True
  from duration_cast_ms_bounds [OF True] show ?thesis by (auto simp: ceil_ms_def Let_def)
next
  case False
  with div_million [of "- ns"] show ?thesis by (auto simp: ceil_ms_def duration_cast_ms_def Let_def)
qed

lemma classic_retry_result:
  "classic_retry a attempts wakeups = Some (rc, errno) \<Longrightarrow> \<not> (rc < 0 \<and> errno = EAGAIN)"
  by (induction a attempts wakeups rule: classic_retry.induct)
    (auto split: if_splits option.splits prod.splits list.splits)



end
