(* ===== verification/Scheduling.thy ===== *)
theory Scheduling
  imports Blocking
begin

text \<open>
  Properties of the scheduler of a thread: the order of timers and the time the loop sleeps,
  the turn of the ready routines, and when a thread reports that it is idle or ends.
\<close>

section \<open>Timers\<close>

lemma timed_add_keys: "set (map fst (timed_add d i xs)) = insert d (set (map fst xs))"
  by (induction d i xs rule: timed_add.induct) auto

lemma timed_add_sorted:
  "sorted_wrt (<) (map fst xs) \<Longrightarrow> sorted_wrt (<) (map fst (timed_add d i xs))"
proof (induction d i xs rule: timed_add.induct)
  case (2 d i d' s rest)
  then show ?case using timed_add_keys [of d i rest] by (auto simp del: set_map)
qed simp

definition slots_at :: "int \<Rightarrow> (int \<times> timed_routines_set) list \<Rightarrow> nat list" where
  "slots_at d xs = (case map_of xs d of None \<Rightarrow> [] | Some s \<Rightarrow> ts_slots s)"

lemma slots_at_timed_add:
  "sorted_wrt (<) (map fst xs) \<Longrightarrow>
     slots_at d' (timed_add d i xs) = (if d' = d then slots_at d xs @ [i] else slots_at d' xs)"
proof (induction d i xs rule: timed_add.induct)
  case (2 d i e s rest)
  have "map_of rest d = None" if "d < e"
    using 2(2) that by (fastforce simp: map_of_eq_None_iff)
  with 2 show ?case by (auto simp: slots_at_def)
qed (simp add: slots_at_def)

lemma timed_adds:
  "sorted_wrt (<) (map fst (fold (\<lambda>(d, i). timed_add d i) regs [])) \<and>
   set (map fst (fold (\<lambda>(d, i). timed_add d i) regs [])) = set (map fst regs) \<and>
   slots_at d (fold (\<lambda>(d, i). timed_add d i) regs []) = map snd (filter (\<lambda>e. fst e = d) regs)"
proof (induction regs rule: rev_induct)
  case (snoc x regs)
  obtain e i where "x = (e, i)" by fastforce
  with snoc timed_add_sorted slots_at_timed_add timed_add_keys show ?case
    by (auto simp del: set_map simp: image_iff) 
qed (simp add: slots_at_def)

text \<open>
  Whatever timers a thread registers, and in whatever order, its timer map is strictly
  ordered by date with exactly the registered dates, so that the first entry is the next
  deadline, and the timers of one date are kept, and fired, in the order of registration.
\<close>

theorem timers_in_date_order:
  "sorted_wrt (<) (map fst (fold (\<lambda>(d, i). timed_add d i) regs [])) \<and>
   set (map fst (fold (\<lambda>(d, i). timed_add d i) regs [])) = set (map fst regs) \<and>
   slots_at d (fold (\<lambda>(d, i). timed_add d i) regs []) = map snd (filter (\<lambda>e. fst e = d) regs)"
  by (rule timed_adds)

lemma remaining_ms_eq:
  assumes "\<bar>date * 1000000 - now_ns\<bar> < 2 ^ 31"
  shows "remaining_ms date now_ns = duration_cast_ms (date * 1000000 - now_ns)"
proof -
  let ?d = "date * 1000000 - now_ns"
  have "\<bar>duration_cast_ms ?d\<bar> \<le> \<bar>?d\<bar>"
    using div_million [of ?d] div_million [of "- ?d"] by (auto simp: duration_cast_ms_def)
  with assms have "to_int32 (duration_cast_ms ?d) = duration_cast_ms ?d" by (intro to_int32_id) linarith+
  then show ?thesis by (simp add: remaining_ms_def duration_cast_ms_def Let_def)
qed



text \<open>
  A thread with ready routines does not look at the clock. A turn that starts with the
  timeout \<open>0\<close>, which is how every turn starts while some routine stays ready, has the same
  result at any time: no timer fires, however long its deadline is past.
\<close>

theorem busy_turn_ignores_the_clock:
  "thread_loop_turn n run t now_ns answers 0 w = thread_loop_turn n run t later_ns answers 0 w \<and>
   thread_loop_turn n run t now_ns answers 0 w =
     do { th \<leftarrow> the_thread t w;
          (reason, w1) \<leftarrow> netpoller_wait (poller_of t) (upd_poller t) (thread_handler t) 0 answers w;
          th1 \<leftarrow> the_thread t w1;
          w2 \<leftarrow> (if 0 < t_nb_pending th1 then thread_handle_engine_event n t w1 else Some w1);
          case reason of Inl e \<Rightarrow> None
          | Inr status \<Rightarrow>
              do { (again, w4) \<leftarrow> thread_execute_scheduled_routines n run t w2;
                   Some (if again then 0 else - 1, w4) } }" (is "_ \<and> _ = ?untimed")
proof -
  have zero: "reason \<noteq> Inr timed_out"
    if "netpoller_wait (poller_of t) (upd_poller t) (thread_handler t) 0 answers w = Some (reason, w1)" for reason w1
    using that
    by (auto simp: netpoller_wait_def Let_def dest!: bind_eq_Some_conv [THEN iffD1] dest: io_event_loop_wait_zero)
  have "thread_loop_turn n run t now_ns answers 0 w = thread_loop_turn n run t later_ns answers 0 w"
    by (simp add: thread_loop_turn_def next_timeout_def)
  moreover have "thread_loop_turn n run t now_ns answers 0 w = ?untimed"
  proof (cases "netpoller_wait (poller_of t) (upd_poller t) (thread_handler t) 0 answers w")
    case (Some p)
    obtain reason w1 where p: "p = (reason, w1)" by fastforce
    from zero [OF Some [unfolded p]] have "reason = Inr status \<Longrightarrow> status \<noteq> timed_out" for status by auto
    then show ?thesis
      using Some p by (cases reason) (simp_all add: thread_loop_turn_def next_timeout_def)
  qed (simp add: thread_loop_turn_def next_timeout_def)
  ultimately show ?thesis by blast
qed

section \<open>The end of a turn\<close>

lemma size_sum_zero:
  fixes k :: size_t
  assumes "n + unat k < 2 ^ 64"
  shows "of_nat n + k = 0 \<longleftrightarrow> n = 0 \<and> k = 0"
proof -
  have "of_nat n + k = of_nat (n + unat k)" by simp
  moreover have "unat (of_nat (n + unat k) :: size_t) = n + unat k"
    using assms by (simp only: unsigned_of_nat) (simp add: take_bit_nat_eq_self)
  ultimately show ?thesis by (metis add_is_0 unat_0 unat_eq_zero add.right_neutral)
qed

text \<open>
  C35: a thread ends or reports that it is idle only when it has nothing left to do: no ready
  routine, no timer, no suspended routine and no pending command; it ends exactly when it
  has also been told to finish, and reports exactly when it has not.
\<close>

theorem thread_ends_only_when_done:
  assumes "the_thread t w = Some th" and "t_status th \<noteq> t_finished"
    and "length (t_timed th) + unat (t_nb_suspended th) < 2 ^ 64"
  shows "\<exists>again w' th'. decide_next_turn t w = Some (again, w') \<and> the_thread t w' = Some th' \<and>
    (t_status th' = t_finished \<or> w_engine_queue w' \<noteq> w_engine_queue w \<longrightarrow>
       t_scheduled th = [] \<and> t_timed th = [] \<and> t_nb_suspended th = 0 \<and> t_nb_pending th = 0) \<and>
    (t_scheduled th = [] \<and> t_timed th = [] \<and> t_nb_suspended th = 0 \<and> t_nb_pending th = 0 \<longrightarrow>
       \<not> again \<and> (if t_status th = t_finishing then t_status th' = t_finished \<and> w_engine_queue w' = w_engine_queue w
         else t_status th' = t_status th \<and> w_engine_queue w' = w_engine_queue w @ [ec_notify_idle t 0]))"
proof -
  obtain p where p: "thread_wakeUp th = Some (th\<lparr>t_poller := p\<rparr>)"
    by (cases "t_looping th") (auto simp: thread_wakeUp_def netpoller_interrupt_def io_event_loop_interrupt_def)
  have "of_nat (length (t_timed th)) + t_nb_suspended th = 0 \<longleftrightarrow> t_timed th = [] \<and> t_nb_suspended th = 0"
    using assms(3) size_sum_zero [of "length (t_timed th)" "t_nb_suspended th"] by simp
  with assms(1,2) p show ?thesis
    by (auto simp: decide_next_turn_def the_thread_upd notify_idle_def the_thread_def upd_thread_def Let_def)
qed

theorem thread_ends_only_when_done_witness:
  "\<exists>w'. decide_next_turn 0 (round_example\<lparr>w_threads := [(thread_new (netpoller_new 1 np_example_loop))\<lparr>t_status := t_finishing\<rparr>]\<rparr>) =
     Some (False, w')"
  using thread_ends_only_when_done
    [of 0 "round_example\<lparr>w_threads := [(thread_new (netpoller_new 1 np_example_loop))\<lparr>t_status := t_finishing\<rparr>]\<rparr>"
      "(thread_new (netpoller_new 1 np_example_loop))\<lparr>t_status := t_finishing\<rparr>"]
  by (auto simp: the_thread_def thread_new_def)

section \<open>Turns of ready routines\<close>

text \<open>A routine that yields again as soon as it is resumed.\<close>

definition yield_again :: "nat \<Rightarrow> nat \<Rightarrow> world \<Rightarrow> world option" where
  "yield_again t r w = do { w1 \<leftarrow> yield_finish t w; yield_start t w1 }"

text \<open>A ready slot: a valid pointer to a yielding routine.\<close>

definition ready_slot :: "world \<Rightarrow> routine_slot \<Rightarrow> nat \<Rightarrow> bool" where
  "ready_slot w slot r \<longleftrightarrow> (\<exists>b rt. slot_ptr slot = Some b \<and> b < length (w_blocks w) \<and> w_blocks w ! b = Owner (Some r) \<and>
     the_routine r w = Some rt \<and> r_status rt = yielding)"

lemma run_slot_yield:
  assumes th: "the_thread t w = Some th" and b: "slot_ptr slot = Some b" "b < length (w_blocks w)"
      "w_blocks w ! b = Owner (Some r)" and rt: "the_routine r w = Some rt" "r_status rt = yielding"
  shows "\<exists>w'. run_slot (yield_again t) t slot next w =
      Some (next @ [\<lparr>slot_ptr = Some (length (w_blocks w)), slot_event_index = 0\<rparr>], w') \<and>
    w_blocks w' = (w_blocks w)[b := Owner None] @ [Owner (Some r)] \<and> the_thread t w' = Some (th\<lparr>t_running := Some r\<rparr>) \<and>
    (\<forall>q. map_option r_status (the_routine q w') = map_option r_status (the_routine q w))"
proof -
  let ?w1 = "upd_thread t (\<lambda>th. th\<lparr>t_running := Some r\<rparr>) w"
  let ?w2 = "upd_routine r (\<lambda>rt. rt\<lparr>r_thread := t\<rparr>) ?w1"
  let ?w3 = "upd_routine r (\<lambda>rt. rt\<lparr>r_status := yielding\<rparr>)
    (upd_routine r (\<lambda>rt. rt\<lparr>r_previous_status := yielding, r_status := running\<rparr>) ?w2)"
  have get: "ptr_get (Some b) w = Some r" "ptr_valid (Some b) w" using b by (simp_all add: ptr_access)
  have run: "runnable (Some b) ?w1"
    using b rt by (simp add: runnable_def ptr_get_def the_routine_def)
  have resume: "routine_resume (yield_again t) t r ?w1 = Some ?w3"
    using th rt by (simp add: routine_resume_def yield_again_def yield_finish_def yield_start_def running_of_def
        the_thread_upd the_routine_upd)
  have "run_slot (yield_again t) t slot next w = after_run (Some b) r next ?w3"
    using get run resume b rt by (simp add: run_slot_def run_candidate_def)
  moreover have "after_run (Some b) r next ?w3 =
      Some (next @ [\<lparr>slot_ptr = Some (length (w_blocks w)), slot_event_index = 0\<rparr>],
        ?w3\<lparr>w_blocks := (w_blocks w)[b := Owner None] @ [Owner (Some r)]\<rparr>)"
    using b rt by (simp add: after_run_def ptr_release_def make_ptr_def the_routine_upd)
  ultimately show ?thesis using th rt by (auto simp: the_thread_upd the_routine_upd)
qed

lemma ready_slots_old:
  assumes "list_all2 (ready_slot w) xs ys"
  shows "Some (length (w_blocks w)) \<notin> set (map slot_ptr xs)"
  using assms by (induction rule: list_all2_induct) (auto simp: ready_slot_def)

lemma run_scheduled_yields:
  assumes "the_thread t w = Some th" and "t_scheduled th = slots" and "list_all2 (ready_slot w) slots rs"
    and "distinct (map slot_ptr slots @ map slot_ptr next)" and "list_all2 (ready_slot w) next qs"
  shows "\<exists>next' w'. run_scheduled (Suc (length slots)) (yield_again t) t next w = Some (next', w') \<and>
    list_all2 (ready_slot w') next' (qs @ rs)"
  using assms
proof (induction slots arbitrary: w th rs "next" qs)
  case Nil
  then show ?case by auto
next
  case (Cons slot slots)
  then obtain r rs' where rs: "rs = r # rs'" "ready_slot w slot r" "list_all2 (ready_slot w) slots rs'"
    by (auto simp: list_all2_Cons1)
  then obtain b rt where b: "slot_ptr slot = Some b" "b < length (w_blocks w)" "w_blocks w ! b = Owner (Some r)"
    "the_routine r w = Some rt" "r_status rt = yielding" by (auto simp: ready_slot_def)
  let ?new = "\<lparr>slot_ptr = Some (length (w_blocks w)), slot_event_index = 0\<rparr>"
  from run_slot_yield [OF Cons.prems(1) b, of "next"] obtain w1 where w1:
    "run_slot (yield_again t) t slot next w = Some (next @ [?new], w1)"
    "w_blocks w1 = (w_blocks w)[b := Owner None] @ [Owner (Some r)]"
    "the_thread t w1 = Some (th\<lparr>t_running := Some r\<rparr>)"
    "\<And>q. map_option r_status (the_routine q w1) = map_option r_status (the_routine q w)" by blast
  let ?w2 = "upd_thread t (\<lambda>th. th\<lparr>t_scheduled := tl (t_scheduled th)\<rparr>) w1"
  have st: "\<exists>rq. the_routine q w1 = Some rq \<and> r_status rq = yielding"
    if "the_routine q w = Some rq0" "r_status rq0 = yielding" for q rq0
    using w1(4) [of q] that by (cases "the_routine q w1") simp_all
  have keep: "ready_slot ?w2 s q" if "ready_slot w s q" "slot_ptr s \<noteq> Some b" for s q
  proof -
    from that(1) obtain c rq0 where c: "slot_ptr s = Some c" "c < length (w_blocks w)" "w_blocks w ! c = Owner (Some q)"
      "the_routine q w = Some rq0" "r_status rq0 = yielding" by (auto simp: ready_slot_def)
    with st [OF c(4,5)] that(2) w1(2) show ?thesis by (simp add: ready_slot_def nth_append)
  qed
  have new: "ready_slot ?w2 ?new r"
    using st [OF b(4,5)] w1(2) by (simp add: ready_slot_def nth_append)
  have other: "slot_ptr s \<noteq> Some b" if "s \<in> set slots \<union> set next" for s
  proof
    assume "slot_ptr s = Some b"
    then have "slot_ptr slot \<in> slot_ptr ` (set slots \<union> set next)" using b(1) that by (metis imageI)
    with Cons.prems(4) show False by auto
  qed
  have "list_all2 (ready_slot ?w2) slots rs'"
    by (rule list.rel_mono_strong [OF rs(3)], rule keep) (use other in auto)
  moreover have "list_all2 (ready_slot ?w2) next qs"
    by (rule list.rel_mono_strong [OF Cons.prems(5)], rule keep) (use other in auto)
  with new have "list_all2 (ready_slot ?w2) (next @ [?new]) (qs @ [r])"
    by (intro list_all2_appendI) simp_all
  moreover have "distinct (map slot_ptr slots @ map slot_ptr (next @ [?new]))"
    using Cons.prems(4) ready_slots_old [OF rs(3)] ready_slots_old [OF Cons.prems(5)] by auto
  moreover have "the_thread t ?w2 = Some (th\<lparr>t_running := Some r, t_scheduled := slots\<rparr>)"
    using w1(3) Cons.prems(2) by (simp add: the_thread_upd)
  ultimately obtain next' w' where "run_scheduled (Suc (length slots)) (yield_again t) t (next @ [?new]) ?w2 = Some (next', w')"
    "list_all2 (ready_slot w') next' ((qs @ [r]) @ rs')"
    using Cons.IH [of ?w2 "th\<lparr>t_running := Some r, t_scheduled := slots\<rparr>" rs' "next @ [?new]" "qs @ [r]"]
    by (auto simp del: run_scheduled.simps)
  moreover have "run_scheduled (Suc (Suc (length slots))) (yield_again t) t next w =
      run_scheduled (Suc (length slots)) (yield_again t) t (next @ [?new]) ?w2"
    using w1(1) Cons.prems(1,2) by (subst run_scheduled.simps(2)) (simp del: run_scheduled.simps)
  ultimately show ?case using rs(1) by (auto simp del: run_scheduled.simps)
qed


definition turns_example :: world where
  "turns_example =
     \<lparr>w_routines = [routine_new\<lparr>r_status := yielding\<rparr>, routine_new\<lparr>r_status := yielding\<rparr>],
      w_blocks = [Owner (Some 0), Owner (Some 1)], w_semas = [],
      w_threads = [(thread_new (netpoller_new 1 np_example_loop))
        \<lparr>t_scheduled := [\<lparr>slot_ptr = Some 1, slot_event_index = 0\<rparr>, \<lparr>slot_ptr = Some 0, slot_event_index = 0\<rparr>]\<rparr>],
      w_engine_queue = []\<rparr>"


end
