(* ===== verification/Channel.thy ===== *)
theory Channel
  imports Scheduling
begin

text \<open>
  \<^verbatim>\<open>boson::channel\<close> (\<^verbatim>\<open>src/boson/boson/channel.h\<close>): a ring buffer of \<open>Size\<close> cells with
  two semaphores, one that holds a ticket per free cell for the writers and one that holds
  a ticket per full cell for the readers, and the specialisation for \<^verbatim>\<open>nullptr_t\<close>, which
  has no buffer. The operations are functions of the channel and the world; a wait that
  suspends the routine cuts \<^verbatim>\<open>write\<close> and \<^verbatim>\<open>read\<close> into a start and a finish.
\<close>

section \<open>Channels with a buffer\<close>

datatype channel_result_value = chan_ok | chan_timedout | chan_closed

record 'a channel_impl =
  ch_buffer :: "'a list"
  ch_head :: size_t
  ch_tail :: size_t
  ch_readers_slots :: nat
  ch_writer_slots :: nat

text \<open>
  The constructor: \<open>d\<close> is the value-initialised element; the two semaphores, created with
  capacities \<open>0\<close> and \<open>Size\<close>, are added to the world.
\<close>

definition channel_new :: "'a \<Rightarrow> nat \<Rightarrow> world \<Rightarrow> 'a channel_impl \<times> world" where
  "channel_new d Size w =
     (let n = length (w_semas w) in
      (\<lparr>ch_buffer = replicate Size d, ch_head = 0, ch_tail = 0, ch_readers_slots = n, ch_writer_slots = Suc n\<rparr>,
       w\<lparr>w_semas := w_semas w @ [semaphore_new 0, semaphore_new (of_nat Size)]\<rparr>))"

definition channel_close :: "'a channel_impl \<Rightarrow> world \<Rightarrow> world option" where
  "channel_close c w =
     do { w1 \<leftarrow> semaphore_disable (ch_writer_slots c) w;
          if ch_head c - ch_tail c = 0 then semaphore_disable (ch_readers_slots c) w1 else Some w1 }"

definition channel_consume_write ::
  "nat \<Rightarrow> 'a \<Rightarrow> 'a channel_impl \<Rightarrow> world \<Rightarrow> ('a channel_impl \<times> world) option" where
  "channel_consume_write t v c w =
     (let head = ch_head c;
          c1 = c\<lparr>ch_head := head + 1,
                 ch_buffer := (ch_buffer c)[ring_index (length (ch_buffer c)) head := v]\<rparr> in
      do { (_, w1) \<leftarrow> semaphore_post (ch_readers_slots c) t w; Some (c1, w1) })"

definition channel_consume_read ::
  "nat \<Rightarrow> 'a channel_impl \<Rightarrow> world \<Rightarrow> ('a \<times> 'a channel_impl \<times> world) option" where
  "channel_consume_read t c w =
     (let tail = ch_tail c;
          v = ch_buffer c ! ring_index (length (ch_buffer c)) tail;
          c1 = c\<lparr>ch_tail := tail + 1\<rparr> in
      do { (rc, w1) \<leftarrow> semaphore_post (ch_writer_slots c) t w;
           if rc \<noteq> sema_ok then
             do { w2 \<leftarrow> (if ch_head c1 - ch_tail c1 = 0 then semaphore_disable (ch_readers_slots c) w1 else Some w1);
                  Some (v, c1, w2) }
           else Some (v, c1, w1) })"

fun channel_ticket_failed :: "semaphore_return_value \<Rightarrow> channel_result_value" where
  "channel_ticket_failed sema_timedout = chan_timedout"
| "channel_ticket_failed _ = chan_closed"

text \<open>\<^verbatim>\<open>write\<close> and \<^verbatim>\<open>read\<close>: what follows the ticket, whether it came at once or after a wait.\<close>

definition channel_write_ticket ::
  "nat \<Rightarrow> 'a \<Rightarrow> semaphore_return_value \<Rightarrow> 'a channel_impl \<Rightarrow> world \<Rightarrow>
     (channel_result_value \<times> 'a channel_impl \<times> world) option" where
  "channel_write_ticket t v ticket c w =
     (if ticket \<noteq> sema_ok then Some (channel_ticket_failed ticket, c, w)
      else do { (c1, w1) \<leftarrow> channel_consume_write t v c w; Some (chan_ok, c1, w1) })"

definition channel_read_ticket ::
  "nat \<Rightarrow> semaphore_return_value \<Rightarrow> 'a channel_impl \<Rightarrow> world \<Rightarrow>
     (channel_result_value \<times> 'a option \<times> 'a channel_impl \<times> world) option" where
  "channel_read_ticket t ticket c w =
     (if ticket \<noteq> sema_ok then Some (channel_ticket_failed ticket, None, c, w)
      else do { (v, c1, w1) \<leftarrow> channel_consume_read t c w; Some (chan_ok, Some v, c1, w1) })"

definition channel_write_start ::
  "nat \<Rightarrow> 'a \<Rightarrow> int \<Rightarrow> int \<Rightarrow> 'a channel_impl \<Rightarrow> world \<Rightarrow>
     (channel_result_value option \<times> 'a channel_impl \<times> world) option" where
  "channel_write_start t v timeout_ms now_ns c w =
     do { (ticket, w1) \<leftarrow> semaphore_wait_start (ch_writer_slots c) t timeout_ms now_ns w;
          case ticket of
            None \<Rightarrow> Some (None, c, w1)
          | Some tk \<Rightarrow> do { (res, c1, w2) \<leftarrow> channel_write_ticket t v tk c w1; Some (Some res, c1, w2) } }"

definition channel_write_finish ::
  "nat \<Rightarrow> nat \<Rightarrow> 'a \<Rightarrow> 'a channel_impl \<Rightarrow> world \<Rightarrow> (channel_result_value \<times> 'a channel_impl \<times> world) option" where
  "channel_write_finish t r v c w =
     do { (ticket, w1) \<leftarrow> semaphore_wait_finish r w; channel_write_ticket t v ticket c w1 }"

definition channel_read_start ::
  "nat \<Rightarrow> int \<Rightarrow> int \<Rightarrow> 'a channel_impl \<Rightarrow> world \<Rightarrow>
     ((channel_result_value \<times> 'a option) option \<times> 'a channel_impl \<times> world) option" where
  "channel_read_start t timeout_ms now_ns c w =
     do { (ticket, w1) \<leftarrow> semaphore_wait_start (ch_readers_slots c) t timeout_ms now_ns w;
          case ticket of
            None \<Rightarrow> Some (None, c, w1)
          | Some tk \<Rightarrow> do { (res, v, c1, w2) \<leftarrow> channel_read_ticket t tk c w1; Some (Some (res, v), c1, w2) } }"

definition channel_read_finish ::
  "nat \<Rightarrow> nat \<Rightarrow> 'a channel_impl \<Rightarrow> world \<Rightarrow> (channel_result_value \<times> 'a option \<times> 'a channel_impl \<times> world) option" where
  "channel_read_finish t r c w =
     do { (ticket, w1) \<leftarrow> semaphore_wait_finish r w; channel_read_ticket t ticket c w1 }"

section \<open>Channels of nothing\<close>

record void_channel =
  vch_readers_slots :: nat
  vch_writer_slots :: nat

definition void_channel_close :: "void_channel \<Rightarrow> world \<Rightarrow> world option" where
  "void_channel_close c w =
     do { w1 \<leftarrow> semaphore_disable (vch_writer_slots c) w; semaphore_disable (vch_readers_slots c) w1 }"

definition void_channel_consume_write :: "nat \<Rightarrow> void_channel \<Rightarrow> world \<Rightarrow> world option" where
  "void_channel_consume_write t c w = do { (_, w1) \<leftarrow> semaphore_post (vch_readers_slots c) t w; Some w1 }"

definition void_channel_consume_read :: "nat \<Rightarrow> void_channel \<Rightarrow> world \<Rightarrow> world option" where
  "void_channel_consume_read t c w = do { (_, w1) \<leftarrow> semaphore_post (vch_writer_slots c) t w; Some w1 }"

definition void_channel_write_start ::
  "nat \<Rightarrow> int \<Rightarrow> int \<Rightarrow> void_channel \<Rightarrow> world \<Rightarrow> (channel_result_value option \<times> world) option" where
  "void_channel_write_start t timeout_ms now_ns c w =
     do { (ticket, w1) \<leftarrow> semaphore_wait_start (vch_writer_slots c) t timeout_ms now_ns w;
          case ticket of
            None \<Rightarrow> Some (None, w1)
          | Some tk \<Rightarrow> if tk \<noteq> sema_ok then Some (Some (channel_ticket_failed tk), w1)
              else do { w2 \<leftarrow> void_channel_consume_write t c w1; Some (Some chan_ok, w2) } }"

definition void_channel_read_start ::
  "nat \<Rightarrow> int \<Rightarrow> int \<Rightarrow> void_channel \<Rightarrow> world \<Rightarrow> (channel_result_value option \<times> world) option" where
  "void_channel_read_start t timeout_ms now_ns c w =
     do { (ticket, w1) \<leftarrow> semaphore_wait_start (vch_readers_slots c) t timeout_ms now_ns w;
          case ticket of
            None \<Rightarrow> Some (None, w1)
          | Some tk \<Rightarrow> if tk \<noteq> sema_ok then Some (Some (channel_ticket_failed tk), w1)
              else do { w2 \<leftarrow> void_channel_consume_read t c w1; Some (Some chan_ok, w2) } }"

end
