(* ===== verification/Channel_Protocol.thy ===== *)
theory Channel_Protocol
  imports Channel "HOL-Library.Sublist"
begin

text \<open>
  \<^verbatim>\<open>channel_impl\<close> under interleaving. \<^verbatim>\<open>write\<close>, \<^verbatim>\<open>read\<close> and \<^verbatim>\<open>close\<close>
  (\<^verbatim>\<open>src/boson/boson/channel.h\<close>) are cut at their accesses to shared state: taking a
  ticket from a semaphore, claiming a position by \<^verbatim>\<open>fetch_add\<close>, the access to the cell,
  and giving a ticket back. The semaphores enter by their contract, a number of tickets
  that can be disabled (\<open>Semaphore_Protocol\<close> is about how they keep it).

  With one writer and one reader the channel is a first-in first-out queue; with two
  writers on different threads it is not.
\<close>

section \<open>Steps\<close>

datatype 'a writer_pc = WIdle | WTicket 'a | WClaimed 'a size_t | WStored

datatype reader_pc = RIdle | RTicket | RClaimed size_t | RLoaded | RClosed | RHead size_t | REmpty

datatype close_pc = CIdle | CDisabled | CHead size_t | CEmpty

text \<open>
  \<open>cs_written\<close> and \<open>cs_read\<close> record the values in the order in which their positions were
  claimed, and in which they were read; \<open>cs_clean\<close> records that no write was under way when
  the channel was closed.
\<close>

record 'a chan_state =
  cs_buffer :: "'a list"
  cs_head :: size_t
  cs_tail :: size_t
  cs_wslots :: nat
  cs_rslots :: nat
  cs_wdisabled :: bool
  cs_rdisabled :: bool
  cs_writers :: "'a writer_pc list"
  cs_readers :: "reader_pc list"
  cs_closer :: close_pc
  cs_written :: "'a list"
  cs_read :: "'a list"
  cs_clean :: bool

definition chan_init :: "'a \<Rightarrow> nat \<Rightarrow> nat \<Rightarrow> nat \<Rightarrow> 'a chan_state" where
  "chan_init d Size nw nr =
     \<lparr>cs_buffer = replicate Size d, cs_head = 0, cs_tail = 0, cs_wslots = Size, cs_rslots = 0,
      cs_wdisabled = False, cs_rdisabled = False, cs_writers = replicate nw WIdle, cs_readers = replicate nr RIdle,
      cs_closer = CIdle, cs_written = [], cs_read = [], cs_clean = True\<rparr>"

definition w_goto :: "nat \<Rightarrow> 'a writer_pc \<Rightarrow> 'a chan_state \<Rightarrow> 'a chan_state" where
  "w_goto p pc s = s\<lparr>cs_writers := (cs_writers s)[p := pc]\<rparr>"

definition r_goto :: "nat \<Rightarrow> reader_pc \<Rightarrow> 'a chan_state \<Rightarrow> 'a chan_state" where
  "r_goto p pc s = s\<lparr>cs_readers := (cs_readers s)[p := pc]\<rparr>"

definition w_at :: "nat \<Rightarrow> 'a writer_pc \<Rightarrow> 'a chan_state \<Rightarrow> bool" where
  "w_at p pc s \<longleftrightarrow> p < length (cs_writers s) \<and> cs_writers s ! p = pc"

definition r_at :: "nat \<Rightarrow> reader_pc \<Rightarrow> 'a chan_state \<Rightarrow> bool" where
  "r_at p pc s \<longleftrightarrow> p < length (cs_readers s) \<and> cs_readers s ! p = pc"

text \<open>
  A post on a disabled semaphore gives no ticket. The reader whose post failed, and the
  closer, load \<^verbatim>\<open>head_\<close>, then \<^verbatim>\<open>tail_\<close>, and disable the readers if they are equal.
\<close>

definition w_post :: "'a chan_state \<Rightarrow> 'a chan_state" where
  "w_post s = (if cs_rdisabled s then s else s\<lparr>cs_rslots := cs_rslots s + 1\<rparr>)"

definition r_post :: "nat \<Rightarrow> 'a chan_state \<Rightarrow> 'a chan_state" where
  "r_post p s = (if cs_wdisabled s then r_goto p RClosed s else r_goto p RIdle (s\<lparr>cs_wslots := cs_wslots s + 1\<rparr>))"

definition r_compare :: "nat \<Rightarrow> size_t \<Rightarrow> 'a chan_state \<Rightarrow> 'a chan_state" where
  "r_compare p h s = r_goto p (if h - cs_tail s = 0 then REmpty else RIdle) s"

definition c_compare :: "size_t \<Rightarrow> 'a chan_state \<Rightarrow> 'a chan_state" where
  "c_compare h s = s\<lparr>cs_closer := (if h - cs_tail s = 0 then CEmpty else CIdle)\<rparr>"

inductive chan_step :: "'a chan_state \<Rightarrow> 'a chan_state \<Rightarrow> bool" where
  w_ticket: "w_at p WIdle s \<Longrightarrow> \<not> cs_wdisabled s \<Longrightarrow> 0 < cs_wslots s \<Longrightarrow>
    chan_step s (w_goto p (WTicket v) (s\<lparr>cs_wslots := cs_wslots s - 1\<rparr>))"
| w_claim: "w_at p (WTicket v) s \<Longrightarrow>
    chan_step s (w_goto p (WClaimed v (cs_head s)) (s\<lparr>cs_head := cs_head s + 1, cs_written := cs_written s @ [v]\<rparr>))"
| w_store: "w_at p (WClaimed v i) s \<Longrightarrow>
    chan_step s (w_goto p WStored (s\<lparr>cs_buffer := (cs_buffer s)[ring_index (length (cs_buffer s)) i := v]\<rparr>))"
| w_posts: "w_at p WStored s \<Longrightarrow> chan_step s (w_goto p WIdle (w_post s))"
| r_ticket: "r_at p RIdle s \<Longrightarrow> \<not> cs_rdisabled s \<Longrightarrow> 0 < cs_rslots s \<Longrightarrow>
    chan_step s (r_goto p RTicket (s\<lparr>cs_rslots := cs_rslots s - 1\<rparr>))"
| r_claim: "r_at p RTicket s \<Longrightarrow>
    chan_step s (r_goto p (RClaimed (cs_tail s)) (s\<lparr>cs_tail := cs_tail s + 1\<rparr>))"
| r_load: "r_at p (RClaimed i) s \<Longrightarrow>
    chan_step s (r_goto p RLoaded (s\<lparr>cs_read := cs_read s @ [cs_buffer s ! ring_index (length (cs_buffer s)) i]\<rparr>))"
| r_posts: "r_at p RLoaded s \<Longrightarrow> chan_step s (r_post p s)"
| r_head: "r_at p RClosed s \<Longrightarrow> chan_step s (r_goto p (RHead (cs_head s)) s)"
| r_tail: "r_at p (RHead h) s \<Longrightarrow> chan_step s (r_compare p h s)"
| r_disable: "r_at p REmpty s \<Longrightarrow> chan_step s (r_goto p RIdle (s\<lparr>cs_rdisabled := True\<rparr>))"
| close_writers: "cs_closer s = CIdle \<Longrightarrow>
    chan_step s (s\<lparr>cs_wdisabled := True, cs_closer := CDisabled,
      cs_clean := (cs_clean s \<and> set (cs_writers s) \<subseteq> {WIdle})\<rparr>)"
| close_head: "cs_closer s = CDisabled \<Longrightarrow> chan_step s (s\<lparr>cs_closer := CHead (cs_head s)\<rparr>)"
| close_tail: "cs_closer s = CHead h \<Longrightarrow> chan_step s (c_compare h s)"
| close_readers: "cs_closer s = CEmpty \<Longrightarrow> chan_step s (s\<lparr>cs_rdisabled := True, cs_closer := CIdle\<rparr>)"

abbreviation chan_reach :: "'a \<Rightarrow> nat \<Rightarrow> nat \<Rightarrow> nat \<Rightarrow> 'a chan_state \<Rightarrow> bool" where
  "chan_reach d Size nw nr s \<equiv> chan_step\<^sup>*\<^sup>* (chan_init d Size nw nr) s"

section \<open>One writer and one reader\<close>

fun w_tick :: "'a writer_pc \<Rightarrow> nat" where
  "w_tick (WTicket v) = 1" | "w_tick _ = 0"

fun w_unstored :: "'a writer_pc \<Rightarrow> nat" where
  "w_unstored (WClaimed v i) = 1" | "w_unstored _ = 0"

fun w_unposted :: "'a writer_pc \<Rightarrow> nat" where
  "w_unposted (WClaimed v i) = 1" | "w_unposted WStored = 1" | "w_unposted _ = 0"

fun r_tick :: "reader_pc \<Rightarrow> nat" where
  "r_tick RTicket = 1" | "r_tick _ = 0"

fun r_unloaded :: "reader_pc \<Rightarrow> nat" where
  "r_unloaded (RClaimed i) = 1" | "r_unloaded _ = 0"

fun r_loaded :: "reader_pc \<Rightarrow> nat" where
  "r_loaded RLoaded = 1" | "r_loaded _ = 0"

text \<open>
  The tickets, held or available, account for the cells; the cells between what was read
  and what was stored hold the values written.
\<close>

definition chan_inv :: "nat \<Rightarrow> 'a writer_pc \<Rightarrow> reader_pc \<Rightarrow> 'a chan_state \<Rightarrow> bool" where
  "chan_inv Size wpc rpc s \<longleftrightarrow>
     cs_writers s = [wpc] \<and> cs_readers s = [rpc] \<and> length (cs_buffer s) = Size \<and>
     cs_head s = of_nat (length (cs_written s)) \<and> cs_tail s = of_nat (length (cs_read s) + r_unloaded rpc) \<and>
     w_tick wpc + length (cs_written s) + r_loaded rpc \<le> Size + length (cs_read s) \<and>
     (\<not> cs_wdisabled s \<longrightarrow> cs_wslots s + w_tick wpc + length (cs_written s) + r_loaded rpc = Size + length (cs_read s)) \<and>
     r_tick rpc + length (cs_read s) + r_unloaded rpc + w_unposted wpc \<le> length (cs_written s) \<and>
     (\<not> cs_rdisabled s \<longrightarrow>
        cs_rslots s + r_tick rpc + length (cs_read s) + r_unloaded rpc + w_unposted wpc = length (cs_written s)) \<and>
     cs_read s = take (length (cs_read s)) (cs_written s) \<and>
     (\<forall>k. length (cs_read s) \<le> k \<and> k + w_unstored wpc < length (cs_written s) \<longrightarrow>
        cs_buffer s ! (k mod Size) = cs_written s ! k) \<and>
     (\<forall>v i. wpc = WClaimed v i \<longrightarrow> cs_written s \<noteq> [] \<and> i = of_nat (length (cs_written s) - 1) \<and> v = last (cs_written s)) \<and>
     (\<forall>i. rpc = RClaimed i \<longrightarrow> i = of_nat (length (cs_read s)))"

lemma chan_inv_init: "chan_inv Size WIdle RIdle (chan_init d Size 1 1)"
  by (simp add: chan_inv_def chan_init_def)

lemma chan_inv_claim:
  assumes "chan_inv Size (WTicket v) rpc s"
  shows "chan_inv Size (WClaimed v (cs_head s)) rpc
    (w_goto 0 (WClaimed v (cs_head s)) (s\<lparr>cs_head := cs_head s + 1, cs_written := cs_written s @ [v]\<rparr>))"
  using assms by (auto simp: chan_inv_def w_goto_def nth_append)

lemma chan_inv_store:
  assumes inv: "chan_inv Size (WClaimed v i) rpc s" and bound: "ring_bound Size (length (cs_written s))" and "0 < Size"
  shows "chan_inv Size WStored rpc
    (w_goto 0 WStored (s\<lparr>cs_buffer := (cs_buffer s)[ring_index (length (cs_buffer s)) i := v]\<rparr>))"
proof -
  let ?h = "length (cs_written s)"
  have w: "cs_written s \<noteq> []" "i = of_nat (?h - 1)" "v = cs_written s ! (?h - 1)" and len: "length (cs_buffer s) = Size"
    using inv by (auto simp: chan_inv_def last_conv_nth)
  have cell: "ring_index Size i = (?h - 1) mod Size"
    using ring_index_of_nat [OF bound, of "?h - 1"] w by simp
  have "(cs_buffer s)[(?h - 1) mod Size := v] ! (k mod Size) = cs_written s ! k"
    if "length (cs_read s) \<le> k" "k < ?h" for k
  proof (cases "k = ?h - 1")
    case True
    with w len \<open>0 < Size\<close> show ?thesis by simp
  next
    case False
    have "?h \<le> Size + length (cs_read s)" using inv by (simp add: chan_inv_def)
    with False that have "k mod Size \<noteq> (?h - 1) mod Size" by (intro mod_neq) auto
    moreover have "cs_buffer s ! (k mod Size) = cs_written s ! k"
      using inv that False by (simp add: chan_inv_def)
    ultimately show ?thesis by simp
  qed
  with inv cell len show ?thesis by (simp add: chan_inv_def w_goto_def)
qed

lemma chan_inv_load:
  assumes inv: "chan_inv Size wpc (RClaimed i) s" and bound: "ring_bound Size (length (cs_written s))"
  shows "chan_inv Size wpc RLoaded
    (r_goto 0 RLoaded (s\<lparr>cs_read := cs_read s @ [cs_buffer s ! ring_index (length (cs_buffer s)) i]\<rparr>))"
proof -
  let ?l = "length (cs_read s)"
  have i: "i = of_nat ?l" "?l + w_unposted wpc < length (cs_written s)" "length (cs_buffer s) = Size"
    "cs_read s = take ?l (cs_written s)"
    using inv by (auto simp: chan_inv_def)
  then have "ring_index Size i = ?l mod Size" using ring_index_of_nat [OF bound, of ?l] by simp
  moreover have "?l + w_unstored wpc < length (cs_written s)" using i(2) by (cases wpc) auto
  then have "cs_buffer s ! (?l mod Size) = cs_written s ! ?l" using inv by (simp add: chan_inv_def)
  moreover have "take (Suc ?l) (cs_written s) = take ?l (cs_written s) @ [cs_written s ! ?l]"
    using i(2) by (simp add: take_Suc_conv_app_nth)
  ultimately show ?thesis using inv i by (auto simp: chan_inv_def r_goto_def)
qed

lemma chan_inv_rest:
  assumes inv: "chan_inv Size wpc rpc s"
  shows "wpc = WIdle \<Longrightarrow> \<not> cs_wdisabled s \<Longrightarrow> 0 < cs_wslots s \<Longrightarrow>
      chan_inv Size (WTicket v) rpc (w_goto 0 (WTicket v) (s\<lparr>cs_wslots := cs_wslots s - 1\<rparr>))"
    and "wpc = WStored \<Longrightarrow> chan_inv Size WIdle rpc (w_goto 0 WIdle (w_post s))"
    and "rpc = RIdle \<Longrightarrow> \<not> cs_rdisabled s \<Longrightarrow> 0 < cs_rslots s \<Longrightarrow>
      chan_inv Size wpc RTicket (r_goto 0 RTicket (s\<lparr>cs_rslots := cs_rslots s - 1\<rparr>))"
    and "rpc = RTicket \<Longrightarrow>
      chan_inv Size wpc (RClaimed (cs_tail s)) (r_goto 0 (RClaimed (cs_tail s)) (s\<lparr>cs_tail := cs_tail s + 1\<rparr>))"
    and "chan_inv Size wpc rpc (s\<lparr>cs_wdisabled := True, cs_closer := c, cs_clean := b\<rparr>)"
    and "chan_inv Size wpc rpc (s\<lparr>cs_rdisabled := True, cs_closer := c\<rparr>)"
    and "chan_inv Size wpc rpc (s\<lparr>cs_closer := c\<rparr>)"
  using inv by (auto simp: chan_inv_def w_goto_def r_goto_def w_post_def add_ac)

text \<open>The reader's way from the cell back to idle leaves the counts alone.\<close>

lemma chan_inv_reader:
  assumes inv: "chan_inv Size wpc rpc s"
  shows "rpc = RLoaded \<Longrightarrow> chan_inv Size wpc (if cs_wdisabled s then RClosed else RIdle) (r_post 0 s)"
    and "rpc = RClosed \<Longrightarrow> chan_inv Size wpc (RHead h) (r_goto 0 (RHead h) s)"
    and "rpc = RHead h \<Longrightarrow> chan_inv Size wpc (if h - cs_tail s = 0 then REmpty else RIdle) (r_compare 0 h s)"
    and "rpc = REmpty \<Longrightarrow> chan_inv Size wpc RIdle (r_goto 0 RIdle (s\<lparr>cs_rdisabled := True\<rparr>))"
  using inv by (auto simp: chan_inv_def r_goto_def r_post_def r_compare_def)

lemma chan_step_inv:
  assumes "chan_step s s'" and "\<exists>wpc rpc. chan_inv Size wpc rpc s" and "ring_bound Size (length (cs_written s))" and "0 < Size"
  shows "\<exists>wpc rpc. chan_inv Size wpc rpc s'"
proof -
  from assms(2) obtain wpc rpc where inv: "chan_inv Size wpc rpc s" by blast
  then have w: "w_at p pc s \<longleftrightarrow> p = 0 \<and> pc = wpc" and r: "r_at p pc' s \<longleftrightarrow> p = 0 \<and> pc' = rpc" for p pc pc'
    by (auto simp: chan_inv_def w_at_def r_at_def)
  note rest = chan_inv_rest [OF inv] and reader = chan_inv_reader [OF inv]
  from assms(1) show ?thesis
  proof cases
    case (w_ticket p v)
    then have "wpc = WIdle" "p = 0" using w by auto
    with w_ticket rest(1) [of v] show ?thesis by blast
  next
    case (w_claim p v)
    then have "wpc = WTicket v" "p = 0" using w by auto
    with w_claim chan_inv_claim [of Size v rpc s] inv show ?thesis by blast
  next
    case (w_store p v i)
    then have "wpc = WClaimed v i" "p = 0" using w by auto
    with w_store chan_inv_store [of Size v i rpc s] assms(3,4) inv show ?thesis by blast
  next
    case (w_posts p)
    then have "wpc = WStored" "p = 0" using w by auto
    with w_posts rest(2) show ?thesis by blast
  next
    case (r_ticket p)
    then have "rpc = RIdle" "p = 0" using r by auto
    with r_ticket rest(3) show ?thesis by blast
  next
    case (r_claim p)
    then have "rpc = RTicket" "p = 0" using r by auto
    with r_claim rest(4) show ?thesis by blast
  next
    case (r_load p i)
    then have "rpc = RClaimed i" "p = 0" using r by auto
    with r_load chan_inv_load [of Size wpc i s] assms(3) inv show ?thesis by blast
  next
    case (r_posts p)
    then have "rpc = RLoaded" "p = 0" using r by auto
    with r_posts reader(1) show ?thesis by blast
  next
    case (r_head p)
    then have "rpc = RClosed" "p = 0" using r by auto
    with r_head reader(2) show ?thesis by blast
  next
    case (r_tail p h)
    then have "rpc = RHead h" "p = 0" using r by auto
    with r_tail reader(3) show ?thesis by blast
  next
    case (r_disable p)
    then have "rpc = REmpty" "p = 0" using r by auto
    with r_disable reader(4) show ?thesis by blast
  next
    case close_writers
    with rest(5) show ?thesis by blast
  next
    case close_head
    with rest(7) show ?thesis by blast
  next
    case (close_tail h)
    with rest(7) show ?thesis unfolding c_compare_def by blast
  next
    case close_readers
    with rest(6) show ?thesis by blast
  qed
qed

text \<open>After a clean close nothing more is written, and the readers are only disabled once all was claimed.\<close>

definition chan_closing :: "'a chan_state \<Rightarrow> bool" where
  "chan_closing s \<longleftrightarrow> cs_rdisabled s \<or> cs_closer s \<noteq> CIdle \<or>
     RClosed \<in> set (cs_readers s) \<or> (\<exists>h. RHead h \<in> set (cs_readers s)) \<or> REmpty \<in> set (cs_readers s)"

definition chan_empty_seen :: "'a chan_state \<Rightarrow> bool" where
  "chan_empty_seen s \<longleftrightarrow> cs_rdisabled s \<or> cs_closer s = CEmpty \<or> REmpty \<in> set (cs_readers s)"

definition chan_head_seen :: "size_t \<Rightarrow> 'a chan_state \<Rightarrow> bool" where
  "chan_head_seen h s \<longleftrightarrow> cs_closer s = CHead h \<or> RHead h \<in> set (cs_readers s)"

definition chan_closed_inv :: "'a chan_state \<Rightarrow> bool" where
  "chan_closed_inv s \<longleftrightarrow>
     (chan_closing s \<longrightarrow> cs_wdisabled s) \<and>
     (cs_wdisabled s \<and> cs_clean s \<longrightarrow> cs_writers s = [WIdle] \<and>
        (\<forall>h. chan_head_seen h s \<longrightarrow> h = cs_head s) \<and> (chan_empty_seen s \<longrightarrow> cs_tail s = cs_head s))"

lemmas chan_closed_defs = chan_closed_inv_def chan_closing_def chan_empty_seen_def chan_head_seen_def

lemma chan_tail_head:
  assumes "chan_inv Size wpc rpc s" and "Size < 2 ^ 64"
  shows "cs_tail s = cs_head s \<longleftrightarrow> length (cs_read s) + r_unloaded rpc = length (cs_written s)"
proof -
  let ?t = "length (cs_read s) + r_unloaded rpc" and ?h = "length (cs_written s)"
  have b: "?t \<le> ?h" "?h \<le> ?t + Size" using assms(1) by (auto simp: chan_inv_def)
  have "of_nat ?t = (of_nat ?h :: size_t) \<longleftrightarrow> ?t mod 2 ^ 64 = ?h mod 2 ^ 64"
    by (simp only: word_of_nat_eq_iff take_bit_eq_mod) simp
  moreover have "?t mod 2 ^ 64 \<noteq> ?h mod 2 ^ 64" if "?t \<noteq> ?h"
    using b that assms(2) by (intro mod_neq) auto
  ultimately show ?thesis using assms(1) by (auto simp: chan_inv_def)
qed

lemma chan_claimed_all:
  assumes inv: "chan_inv Size wpc rpc s" and "Size < 2 ^ 64" and eq: "cs_tail s = cs_head s"
  shows "\<not> r_at p RTicket s"
proof -
  have "length (cs_read s) + r_unloaded rpc = length (cs_written s)" using chan_tail_head [OF assms(1,2)] eq by simp
  with inv show ?thesis by (auto simp: chan_inv_def r_at_def)
qed

lemma chan_step_closed:
  assumes "chan_step s s'" and inv: "chan_inv Size wpc rpc s" and "Size < 2 ^ 64" and closed: "chan_closed_inv s"
  shows "chan_closed_inv s'"
proof -
  have w: "cs_writers s = [wpc]" and r: "cs_readers s = [rpc]" using inv by (simp_all add: chan_inv_def)
  have all: "cs_tail s = cs_head s \<Longrightarrow> rpc \<noteq> RTicket"
    using chan_claimed_all [OF inv \<open>Size < 2 ^ 64\<close>, of 0] r by (auto simp: r_at_def)
  have at: "r_at p pc s \<longleftrightarrow> p = 0 \<and> rpc = pc" "w_at p pc' s \<longleftrightarrow> p = 0 \<and> wpc = pc'" for p pc pc'
    using w r by (auto simp: r_at_def w_at_def)
  note defs = chan_closed_defs at w_post_def r_post_def r_compare_def c_compare_def w_goto_def r_goto_def
  consider (live) "\<not> cs_wdisabled s" | (raced) "cs_wdisabled s" "\<not> cs_clean s" | (clean) "cs_wdisabled s" "cs_clean s"
    by blast
  then show ?thesis
  proof cases
    case live
    then have "\<not> cs_rdisabled s" "cs_closer s = CIdle" "rpc \<noteq> RClosed" "rpc \<noteq> REmpty" "rpc \<noteq> RHead h" for h
      using closed r by (auto simp: chan_closed_defs)
    with assms(1) live w r show ?thesis by cases (auto simp: defs)
  next
    case raced
    with assms(1) w r show ?thesis by cases (auto simp: defs)
  next
    case clean
    then have c: "wpc = WIdle" "cs_closer s = CHead h \<Longrightarrow> h = cs_head s" "rpc = RHead h \<Longrightarrow> h = cs_head s"
      "cs_rdisabled s \<or> cs_closer s = CEmpty \<or> rpc = REmpty \<Longrightarrow> cs_tail s = cs_head s" for h
      using closed w r by (auto simp: chan_closed_defs)
    with assms(1) clean w r all show ?thesis by cases (auto simp: defs)
  qed
qed

lemma chan_step_written: "chan_step s s' \<Longrightarrow> length (cs_written s) \<le> length (cs_written s')"
  by (induction rule: chan_step.induct) (auto simp: w_goto_def r_goto_def w_post_def r_post_def r_compare_def c_compare_def)

lemma chan_reach_inv:
  assumes "chan_reach d Size 1 1 s" and "ring_bound Size (length (cs_written s))" and "0 < Size" and "Size < 2 ^ 64"
  shows "\<exists>wpc rpc. chan_inv Size wpc rpc s \<and> chan_closed_inv s"
  using assms
proof (induction rule: rtranclp_induct)
  case base
  have "chan_closed_inv (chan_init d Size 1 1)" by (simp add: chan_closed_defs chan_init_def r_at_def)
  with chan_inv_init [of Size d] show ?case by blast
next
  case (step s s')
  have b: "ring_bound Size (length (cs_written s))"
    using ring_bound_mono [OF step.prems(1)] chan_step_written [OF step.hyps(2)] by blast
  from step.IH [OF b step.prems(2,3)] obtain wpc rpc where "chan_inv Size wpc rpc s" "chan_closed_inv s" by blast
  with chan_step_inv [OF step.hyps(2) _ b step.prems(2)] chan_step_closed [OF step.hyps(2) _ step.prems(3)]
  show ?case by blast
qed

text \<open>
  C3: with one writer and one reader a channel is a bounded first-in first-out queue: what
  has been read is, in order, the beginning of what has been written, and at most
  \<^verbatim>\<open>Size\<close> values are in flight. The bound asks that \<^verbatim>\<open>Size\<close> divides $2^{64}$, or that fewer
  than $2^{64}$ values were written, since the positions wrap around.
\<close>

theorem channel_fifo:
  assumes "chan_reach d Size 1 1 s" and "ring_bound Size (length (cs_written s))" and "0 < Size" and "Size < 2 ^ 64"
  shows "prefix (cs_read s) (cs_written s) \<and> length (cs_written s) \<le> length (cs_read s) + Size"
proof -
  from chan_reach_inv [OF assms] obtain wpc rpc where inv: "chan_inv Size wpc rpc s" by blast
  then have "cs_read s = take (length (cs_read s)) (cs_written s)" by (simp add: chan_inv_def)
  then have "prefix (cs_read s) (cs_written s)" by (metis take_is_prefix)
  with inv show ?thesis by (simp add: chan_inv_def)
qed

text \<open>
  C29: a close that meets no write under way loses nothing: when the reader is told that the
  channel is closed, every value written has been read, or is the one it is about to load.
\<close>

theorem channel_close_delivers:
  assumes "chan_reach d Size 1 1 s" and "ring_bound Size (length (cs_written s))" and "0 < Size" and "Size < 2 ^ 64"
    and "cs_clean s" and "cs_rdisabled s" and "cs_readers s = [RIdle]"
  shows "cs_read s = cs_written s"
proof -
  from chan_reach_inv [OF assms(1-4)] obtain wpc rpc where inv: "chan_inv Size wpc rpc s" and c: "chan_closed_inv s"
    by blast
  have "cs_tail s = cs_head s" using c assms(5,6) by (simp add: chan_closed_defs)
  then have "length (cs_read s) + r_unloaded rpc = length (cs_written s)" using chan_tail_head [OF inv assms(4)] by simp
  moreover have "rpc = RIdle" using inv assms(7) by (simp add: chan_inv_def)
  moreover have "cs_read s = take (length (cs_read s)) (cs_written s)" using inv by (simp add: chan_inv_def)
  ultimately show ?thesis by simp
qed

section \<open>Runs\<close>

text \<open>Schedules as lists of moves, to exhibit reachable states.\<close>

datatype 'a chan_act = MTicket nat 'a | MWrite nat | MRead nat | MClose

fun w_move :: "nat \<Rightarrow> 'a writer_pc \<Rightarrow> 'a chan_state \<Rightarrow> 'a chan_state option" where
  "w_move p WIdle s = None"
| "w_move p (WTicket v) s =
     Some (w_goto p (WClaimed v (cs_head s)) (s\<lparr>cs_head := cs_head s + 1, cs_written := cs_written s @ [v]\<rparr>))"
| "w_move p (WClaimed v i) s =
     Some (w_goto p WStored (s\<lparr>cs_buffer := (cs_buffer s)[ring_index (length (cs_buffer s)) i := v]\<rparr>))"
| "w_move p WStored s = Some (w_goto p WIdle (w_post s))"

fun r_move :: "nat \<Rightarrow> reader_pc \<Rightarrow> 'a chan_state \<Rightarrow> 'a chan_state option" where
  "r_move p RIdle s =
     (if \<not> cs_rdisabled s \<and> 0 < cs_rslots s then Some (r_goto p RTicket (s\<lparr>cs_rslots := cs_rslots s - 1\<rparr>)) else None)"
| "r_move p RTicket s = Some (r_goto p (RClaimed (cs_tail s)) (s\<lparr>cs_tail := cs_tail s + 1\<rparr>))"
| "r_move p (RClaimed i) s =
     Some (r_goto p RLoaded (s\<lparr>cs_read := cs_read s @ [cs_buffer s ! ring_index (length (cs_buffer s)) i]\<rparr>))"
| "r_move p RLoaded s = Some (r_post p s)"
| "r_move p RClosed s = Some (r_goto p (RHead (cs_head s)) s)"
| "r_move p (RHead h) s = Some (r_compare p h s)"
| "r_move p REmpty s = Some (r_goto p RIdle (s\<lparr>cs_rdisabled := True\<rparr>))"

fun c_move :: "close_pc \<Rightarrow> 'a chan_state \<Rightarrow> 'a chan_state" where
  "c_move CIdle s = s\<lparr>cs_wdisabled := True, cs_closer := CDisabled,
     cs_clean := (cs_clean s \<and> set (cs_writers s) \<subseteq> {WIdle})\<rparr>"
| "c_move CDisabled s = s\<lparr>cs_closer := CHead (cs_head s)\<rparr>"
| "c_move (CHead h) s = c_compare h s"
| "c_move CEmpty s = s\<lparr>cs_rdisabled := True, cs_closer := CIdle\<rparr>"

fun chan_move :: "'a chan_act \<Rightarrow> 'a chan_state \<Rightarrow> 'a chan_state option" where
  "chan_move (MTicket p v) s =
     (if p < length (cs_writers s) \<and> cs_writers s ! p = WIdle \<and> \<not> cs_wdisabled s \<and> 0 < cs_wslots s
      then Some (w_goto p (WTicket v) (s\<lparr>cs_wslots := cs_wslots s - 1\<rparr>)) else None)"
| "chan_move (MWrite p) s = (if p < length (cs_writers s) then w_move p (cs_writers s ! p) s else None)"
| "chan_move (MRead p) s = (if p < length (cs_readers s) then r_move p (cs_readers s ! p) s else None)"
| "chan_move MClose s = Some (c_move (cs_closer s) s)"

fun chan_run :: "'a chan_act list \<Rightarrow> 'a chan_state \<Rightarrow> 'a chan_state option" where
  "chan_run [] s = Some s"
| "chan_run (m # ms) s = (case chan_move m s of None \<Rightarrow> None | Some s' \<Rightarrow> chan_run ms s')"

lemma w_move_step:
  assumes "w_at p pc s" and "w_move p pc s = Some s'"
  shows "chan_step s s'"
  using assms by (cases pc) (auto intro: chan_step.intros)

lemma r_move_step:
  assumes "r_at p pc s" and "r_move p pc s = Some s'"
  shows "chan_step s s'"
  using assms by (cases pc) (auto simp del: One_nat_def intro: chan_step.intros split: if_splits)

lemma c_move_step: "cs_closer s = pc \<Longrightarrow> chan_step s (c_move pc s)"
  by (cases pc) (auto intro: chan_step.intros)

lemma chan_move_step:
  assumes "chan_move m s = Some s'"
  shows "chan_step s s'"
proof (cases m)
  case (MTicket p v)
  with assms show ?thesis by (auto simp: w_at_def simp del: One_nat_def intro: chan_step.w_ticket split: if_splits)
next
  case (MWrite p)
  with assms show ?thesis by (auto simp: w_at_def intro!: w_move_step split: if_splits)
next
  case (MRead p)
  with assms show ?thesis by (auto simp: r_at_def intro!: r_move_step split: if_splits)
next
  case MClose
  with assms show ?thesis by (auto intro: c_move_step)
qed

lemma chan_run_reach: "chan_run ms s = Some s' \<Longrightarrow> chan_step\<^sup>*\<^sup>* s s'"
proof (induction ms arbitrary: s)
  case (Cons m ms)
  then obtain u where "chan_move m s = Some u" "chan_run ms u = Some s'" by (auto split: option.splits)
  then show ?case using Cons.IH chan_move_step converse_rtranclp_into_rtranclp by metis
qed simp

lemmas chan_run_defs = chan_init_def w_goto_def r_goto_def w_post_def r_post_def r_compare_def c_compare_def ring_index_def

text \<open>A value written and read, then the channel closed.\<close>

definition chan_example :: "nat chan_state" where
  "chan_example = the (chan_run ([MTicket 0 7, MWrite 0, MWrite 0, MWrite 0] @ replicate 4 (MRead 0) @ replicate 4 MClose)
     (chan_init 0 2 1 1))"

lemma chan_example_state:
  "chan_example = \<lparr>cs_buffer = [7, 0], cs_head = 1, cs_tail = 1, cs_wslots = 2, cs_rslots = 0,
     cs_wdisabled = True, cs_rdisabled = True, cs_writers = [WIdle], cs_readers = [RIdle], cs_closer = CIdle,
     cs_written = [7], cs_read = [7], cs_clean = True\<rparr>"
  by (simp add: chan_example_def chan_run_defs numeral_2_eq_2 eval_nat_numeral)

lemma chan_example_reach: "chan_reach 0 2 1 1 chan_example"
  unfolding chan_example_state
  by (rule chan_run_reach [of "[MTicket 0 7, MWrite 0, MWrite 0, MWrite 0] @ replicate 4 (MRead 0) @ replicate 4 MClose"])
    (simp add: chan_run_defs eval_nat_numeral)

theorem channel_fifo_witness:
  "chan_reach 0 2 1 1 chan_example \<and> cs_written chan_example = [7] \<and>
   prefix (cs_read chan_example) (cs_written chan_example) \<and>
   length (cs_written chan_example) \<le> length (cs_read chan_example) + 2"
  using channel_fifo [OF chan_example_reach] chan_example_reach by (simp add: chan_example_state ring_bound_def)

theorem channel_close_delivers_witness:
  "chan_reach 0 2 1 1 chan_example \<and> cs_rdisabled chan_example \<and> cs_read chan_example = cs_written chan_example"
  using channel_close_delivers [OF chan_example_reach] chan_example_reach by (simp add: chan_example_state ring_bound_def)

section \<open>More writers, and a close that races a write\<close>

text \<open>
  C39: with two writers the channel is not first-in first-out, and a reader can be given a
  value that nobody wrote: a writer that has claimed a cell and not stored yet is overtaken
  by the other, whose post lets the reader into the cell that still holds the buffer's
  initial value.
\<close>

theorem channel_two_writers_unwritten_value:
  "\<exists>s. chan_reach 0 2 2 1 s \<and> cs_written s = [7, 8] \<and> cs_read s = [0 :: nat]"
proof -
  have "chan_run [MTicket 0 7, MTicket 1 8, MWrite 0, MWrite 1, MWrite 1, MWrite 1, MRead 0, MRead 0, MRead 0]
      (chan_init (0 :: nat) 2 2 1)
    = Some \<lparr>cs_buffer = [0, 8], cs_head = 2, cs_tail = 1, cs_wslots = 0, cs_rslots = 0,
        cs_wdisabled = False, cs_rdisabled = False, cs_writers = [WClaimed 7 0, WIdle], cs_readers = [RLoaded],
        cs_closer = CIdle, cs_written = [7, 8], cs_read = [0], cs_clean = True\<rparr>"
    by (simp add: chan_run_defs eval_nat_numeral)
  from chan_run_reach [OF this] show ?thesis by force
qed

text \<open>
  A close that comes between a writer's ticket and its claim loses the value: the write
  returns \<^verbatim>\<open>ok\<close>, the readers are told that the channel is closed, and the value stays in the
  buffer.
\<close>

theorem channel_close_race_loses_value:
  "\<exists>s. chan_reach 0 2 1 1 s \<and> cs_written s = [7 :: nat] \<and> cs_writers s = [WIdle] \<and>
       cs_readers s = [RIdle] \<and> cs_rdisabled s \<and> cs_read s = []"
proof -
  have "chan_run ([MTicket 0 7] @ replicate 4 MClose @ [MWrite 0, MWrite 0, MWrite 0]) (chan_init (0 :: nat) 2 1 1)
    = Some \<lparr>cs_buffer = [7, 0], cs_head = 1, cs_tail = 0, cs_wslots = 1, cs_rslots = 0,
        cs_wdisabled = True, cs_rdisabled = True, cs_writers = [WIdle], cs_readers = [RIdle],
        cs_closer = CIdle, cs_written = [7], cs_read = [], cs_clean = False\<rparr>"
    by (simp add: chan_run_defs eval_nat_numeral)
  from chan_run_reach [OF this] show ?thesis by force
qed

end
