(* ===== verification/Select.thy ===== *)
theory Select
  imports Channel
begin

text \<open>
  \<^verbatim>\<open>boson::select_any\<close> and its selectors (\<^verbatim>\<open>src/boson/boson/select.h\<close>): a routine waits
  for the first of several events and runs the callback of that event. A selector has two
  functions: \<^verbatim>\<open>subscribe\<close>, which returns \<open>True\<close> when the event is there already, and
  \<^verbatim>\<open>execute\<close>, which completes the operation and calls back. The answers of the system
  calls are arguments; a callback is represented by the argument it is called with.
\<close>

section \<open>Selectors\<close>

text \<open>
  One constructor per class of selector: \<^verbatim>\<open>event_timer_storage\<close>,
  \<^verbatim>\<open>event_syscall_storage\<close> with the \<^verbatim>\<open>is_read\<close> of its \<^verbatim>\<open>syscall_traits\<close>, its
  specialisations for \<^verbatim>\<open>SYS_accept\<close> and \<^verbatim>\<open>SYS_connect\<close>, \<^verbatim>\<open>event_mutex_lock_storage\<close> with
  its semaphore, and \<^verbatim>\<open>event_channel_read_storage\<close> and \<^verbatim>\<open>event_channel_write_storage\<close> with
  the index of their channel.
\<close>

datatype 'a selector =
    EvTimer int
  | EvSyscall bool int
  | EvAccept int
  | EvConnect int
  | EvLock nat
  | EvChannelRead nat
  | EvChannelWrite nat 'a

text \<open>The dates and fds the functions that make selectors compute.\<close>

definition event_timer :: "int \<Rightarrow> int \<Rightarrow> 'a selector" where
  "event_timer timeout_ms now_ns = EvTimer (duration_cast_ms (now_ns + timeout_ms * 1000000))"

definition event_read :: "int \<Rightarrow> 'a selector" where
  "event_read fd = EvSyscall True fd"

definition event_recv :: "int \<Rightarrow> 'a selector" where
  "event_recv fd = EvSyscall True fd"

definition event_write :: "int \<Rightarrow> 'a selector" where
  "event_write fd = EvSyscall False fd"

definition event_send :: "int \<Rightarrow> 'a selector" where
  "event_send fd = EvSyscall False fd"

definition event_accept :: "int \<Rightarrow> 'a selector" where
  "event_accept socket = EvAccept socket"

definition event_connect :: "int \<Rightarrow> 'a selector" where
  "event_connect sockfd = EvConnect sockfd"

text \<open>A mutex is its semaphore; a channel read or write refers to the shared part of the channel.\<close>

definition event_lock :: "nat \<Rightarrow> 'a selector" where
  "event_lock mut = EvLock mut"

definition event_channel_read :: "nat \<Rightarrow> 'a selector" where
  "event_channel_read chan = EvChannelRead chan"

definition event_channel_write :: "nat \<Rightarrow> 'a \<Rightarrow> 'a selector" where
  "event_channel_write chan value = EvChannelWrite chan value"

section \<open>Subscribing\<close>

definition event_semaphore_subscribe :: "nat \<Rightarrow> nat \<Rightarrow> world \<Rightarrow> (bool \<times> world) option" where
  "event_semaphore_subscribe r s w =
     do { (result, w1) \<leftarrow> sema_fetch_sub s w;
          if result \<le> 0 then do { w2 \<leftarrow> routine_add_semaphore_wait r s w1; Some (False, w2) }
          else Some (True, w1) }"

text \<open>
  A system call that would block; \<open>pending\<close> is the error that means it:
  \<^verbatim>\<open>EAGAIN\<close>, equal to \<^verbatim>\<open>EWOULDBLOCK\<close>, or \<^verbatim>\<open>EINPROGRESS\<close>.
\<close>

definition event_syscall_subscribe ::
  "int \<Rightarrow> bool \<Rightarrow> int option \<Rightarrow> nat \<Rightarrow> int \<Rightarrow> int \<times> int \<Rightarrow> world \<Rightarrow> (bool \<times> int \<times> world) option" where
  "event_syscall_subscribe pending is_read ctl r fd answer w =
     (case answer of
        (rc, errno) \<Rightarrow>
          if rc < 0 \<and> errno = pending then
            do { w1 \<leftarrow> (if is_read then routine_add_read ctl r fd w else routine_add_write ctl r fd w);
                 Some (False, rc, w1) }
          else Some (True, rc, w))"

text \<open>The semaphore a selector takes its ticket from.\<close>

fun selector_semaphore :: "'a channel_impl list \<Rightarrow> 'a selector \<Rightarrow> nat option" where
  "selector_semaphore chans (EvLock s) = Some s"
| "selector_semaphore chans (EvChannelRead c) = do { ch \<leftarrow> vec_get chans c; Some (ch_readers_slots ch) }"
| "selector_semaphore chans (EvChannelWrite c v) = do { ch \<leftarrow> vec_get chans c; Some (ch_writer_slots ch) }"
| "selector_semaphore chans _ = None"

text \<open>\<^verbatim>\<open>subscribe\<close>: whether the event is there, the data kept in the selector, and the new world.\<close>

fun selector_subscribe ::
  "'a channel_impl list \<Rightarrow> int option \<Rightarrow> nat \<Rightarrow> int \<times> int \<Rightarrow> 'a selector \<Rightarrow> world \<Rightarrow> (bool \<times> int \<times> world) option" where
  "selector_subscribe chans ctl r answer (EvTimer date) w =
     do { w1 \<leftarrow> routine_add_timer r date w; Some (False, 0, w1) }"
| "selector_subscribe chans ctl r answer (EvSyscall is_read fd) w =
     event_syscall_subscribe EAGAIN is_read ctl r fd answer w"
| "selector_subscribe chans ctl r answer (EvAccept fd) w = event_syscall_subscribe EAGAIN True ctl r fd answer w"
| "selector_subscribe chans ctl r answer (EvConnect fd) w =
     event_syscall_subscribe EINPROGRESS False ctl r fd answer w"
| "selector_subscribe chans ctl r answer sel w =
     do { s \<leftarrow> selector_semaphore chans sel;
          (ready, w1) \<leftarrow> event_semaphore_subscribe r s w;
          Some (ready, 0, w1) }"

section \<open>Executing\<close>

text \<open>What the callback is called with: nothing, a return code, or a flag. \<^verbatim>\<open>errno\<close> is not part of it.\<close>

datatype callback = CbUnit | CbCode int | CbFlag bool

record 'a select_result =
  sr_callback :: callback
  sr_value :: "'a option"
  sr_channels :: "'a channel_impl list"
  sr_world :: world

text \<open>
  \<^verbatim>\<open>execute\<close>. \<open>data\<close> is what \<^verbatim>\<open>subscribe\<close> kept, \<open>rc\<close> the answer of a second system call and
  \<open>sockopt\<close> the answer of \<^verbatim>\<open>getsockopt\<close>, \<open>None\<close> when it fails and the selector throws.
\<close>

fun selector_execute ::
  "nat \<Rightarrow> event_type \<Rightarrow> bool \<Rightarrow> int \<Rightarrow> int \<Rightarrow> int option \<Rightarrow> 'a selector \<Rightarrow> 'a channel_impl list \<Rightarrow> world \<Rightarrow>
     (string + 'a select_result) option" where
  "selector_execute t type cancelled data rc sockopt (EvTimer date) chans w =
     Some (Inr \<lparr>sr_callback = CbUnit, sr_value = None, sr_channels = chans, sr_world = w\<rparr>)"
| "selector_execute t type cancelled data rc sockopt (EvSyscall is_read fd) chans w =
     Some (Inr \<lparr>sr_callback = CbCode (if cancelled then data else rc), sr_value = None, sr_channels = chans, sr_world = w\<rparr>)"
| "selector_execute t type cancelled data rc sockopt (EvAccept fd) chans w =
     Some (Inr \<lparr>sr_callback = CbCode (if cancelled then data else rc), sr_value = None, sr_channels = chans, sr_world = w\<rparr>)"
| "selector_execute t type cancelled data rc sockopt (EvConnect fd) chans w =
     (if cancelled then
        Some (Inr \<lparr>sr_callback = CbCode data, sr_value = None, sr_channels = chans, sr_world = w\<rparr>)
      else if type = ev_io_write then
        (case sockopt of
           None \<Rightarrow> Some (Inl ''getsockopt'')
         | Some err \<Rightarrow>
             Some (Inr \<lparr>sr_callback = CbCode (if err \<noteq> 0 then - 1 else 0), sr_value = None, sr_channels = chans, sr_world = w\<rparr>))
      else Some (Inr \<lparr>sr_callback = CbCode (- 1), sr_value = None, sr_channels = chans, sr_world = w\<rparr>))"
| "selector_execute t type cancelled data rc sockopt (EvLock s) chans w =
     Some (Inr \<lparr>sr_callback = CbUnit, sr_value = None, sr_channels = chans, sr_world = w\<rparr>)"
| "selector_execute t type cancelled data rc sockopt (EvChannelRead c) chans w =
     do { ch \<leftarrow> vec_get chans c;
          (v, ch1, w1) \<leftarrow> channel_consume_read t ch w;
          Some (Inr \<lparr>sr_callback = CbFlag (type = ev_sema_wait), sr_value = Some v, sr_channels = chans[c := ch1], sr_world = w1\<rparr>) }"
| "selector_execute t type cancelled data rc sockopt (EvChannelWrite c v) chans w =
     do { ch \<leftarrow> vec_get chans c;
          (ch1, w1) \<leftarrow> channel_consume_write t v ch w;
          Some (Inr \<lparr>sr_callback = CbFlag (type = ev_sema_wait), sr_value = None, sr_channels = chans[c := ch1], sr_world = w1\<rparr>) }"

section \<open>Selecting\<close>

text \<open>
  The loop over the subscribers: the index and data of the first selector that is ready,
  which ends the loop, or \<open>None\<close> when every selector is subscribed. Each step comes with the
  answer of its system call.
\<close>

fun select_subscribe ::
  "'a channel_impl list \<Rightarrow> int option \<Rightarrow> nat \<Rightarrow> nat \<Rightarrow> ('a selector \<times> int \<times> int) list \<Rightarrow> world \<Rightarrow>
     ((nat \<times> int) option \<times> world) option" where
  "select_subscribe chans ctl r index [] w = Some (None, w)"
| "select_subscribe chans ctl r index ((sel, answer) # sels) w =
     do { (cancel, data, w1) \<leftarrow> selector_subscribe chans ctl r answer sel w;
          if cancel then Some (Some (index, data), w1)
          else select_subscribe chans ctl r (Suc index) sels w1 }"

text \<open>\<^verbatim>\<open>select_any\<close> up to the call of the callback, or to the switch (\<open>None\<close>).\<close>

definition select_start ::
  "'a channel_impl list \<Rightarrow> int option \<Rightarrow> nat \<Rightarrow> ('a selector \<times> int \<times> int) list \<Rightarrow> world \<Rightarrow>
     ((nat \<times> int) option \<times> world) option" where
  "select_start chans ctl t sels w =
     do { r \<leftarrow> running_of t w;
          w1 \<leftarrow> routine_start_event_round r w;
          (found, w2) \<leftarrow> select_subscribe chans ctl r 0 sels w1;
          w3 \<leftarrow> (if found \<noteq> None then routine_cancel_event_round r w2 else routine_commit_event_round r w2);
          Some (found, w3) }"

text \<open>
  The callback of a select that did not wait, which is passed the type of the event that
  ended an earlier round, and of one that did.
\<close>

definition select_immediate ::
  "nat \<Rightarrow> int option \<Rightarrow> nat \<Rightarrow> int \<Rightarrow> ('a selector \<times> int \<times> int) list \<Rightarrow> 'a channel_impl list \<Rightarrow> world \<Rightarrow>
     (string + 'a select_result) option" where
  "select_immediate t sockopt index data sels chans w =
     do { r \<leftarrow> running_of t w; rt \<leftarrow> the_routine r w; (sel, answer) \<leftarrow> vec_get sels index;
          selector_execute t (r_happened_type rt) True data 0 sockopt sel chans w }"

definition select_finish ::
  "nat \<Rightarrow> int \<Rightarrow> int option \<Rightarrow> ('a selector \<times> int \<times> int) list \<Rightarrow> 'a channel_impl list \<Rightarrow> world \<Rightarrow>
     (string + 'a select_result) option" where
  "select_finish t rc sockopt sels chans w =
     do { r \<leftarrow> running_of t w; rt \<leftarrow> the_routine r w; (sel, answer) \<leftarrow> vec_get sels (r_happened_index rt);
          selector_execute t (r_happened_type rt) False 0 rc sockopt sel chans w }"

section \<open>Tickets\<close>

definition ticket_counts :: "world \<Rightarrow> int32 list" where
  "ticket_counts w = map s_counter (w_semas w)"

named_theorems tickets_kept \<open>operations that leave the counters of the semaphores alone\<close>

lemma ticket_counts_upd [simp]:
  "ticket_counts (upd_thread t f w) = ticket_counts w" "ticket_counts (upd_routine r g w) = ticket_counts w"
  "ticket_counts (w\<lparr>w_blocks := bs\<rparr>) = ticket_counts w"
  by (simp_all add: ticket_counts_def upd_thread_def upd_routine_def)

lemma ticket_counts_sema:
  assumes "s < length (w_semas w)"
  shows "ticket_counts (upd_sema s f w) = (ticket_counts w)[s := s_counter (f (w_semas w ! s))]"
  using assms by (simp add: ticket_counts_def upd_sema_def map_update)

lemma the_sema_Some: "the_sema s w = Some sm \<longleftrightarrow> s < length (w_semas w) \<and> sm = w_semas w ! s"
  by (auto simp: the_sema_def)

lemma ticket_counts_same:
  "s < length (w_semas w) \<Longrightarrow> (ticket_counts w)[s := s_counter (w_semas w ! s)] = ticket_counts w"
  by (simp add: ticket_counts_def list_update_same_conv)

lemma tickets_fetch_sub:
  assumes "sema_fetch_sub s w = Some (k, w')"
  shows "s < length (ticket_counts w) \<and> k = sint (ticket_counts w ! s) \<and>
    ticket_counts w' = (ticket_counts w)[s := ticket_counts w ! s - 1]"
  using assms by (auto simp: sema_fetch_sub_def the_sema_Some ticket_counts_sema dest!: bind_eq_Some_conv [THEN iffD1])
    (simp_all add: ticket_counts_def)

lemma tickets_fetch_add:
  assumes "sema_fetch_add s w = Some (k, w')"
  shows "s < length (ticket_counts w) \<and> ticket_counts w' = (ticket_counts w)[s := ticket_counts w ! s + 1]"
  using assms by (auto simp: sema_fetch_add_def the_sema_Some ticket_counts_sema dest!: bind_eq_Some_conv [THEN iffD1])
    (simp_all add: ticket_counts_def)

lemma tickets_queue [tickets_kept]:
  "semaphore_write s t i w = Some (k, w') \<Longrightarrow> ticket_counts w' = ticket_counts w"
  "semaphore_read s w = Some (m, w') \<Longrightarrow> ticket_counts w' = ticket_counts w"
  "semaphore_free s j w = Some (b, w') \<Longrightarrow> ticket_counts w' = ticket_counts w"
  by (auto simp: semaphore_write_def semaphore_read_def semaphore_free_def the_sema_Some ticket_counts_sema
    ticket_counts_same dest!: bind_eq_Some_conv [THEN iffD1])

lemma tickets_thread [tickets_kept]:
  "thread_register_semaphore_wait t slot w = Some (i, w') \<Longrightarrow> ticket_counts w' = ticket_counts w"
  "thread_register_timer t date slot w = Some w' \<Longrightarrow> ticket_counts w' = ticket_counts w"
  "thread_register_read ctl t fd slot w = Some w' \<Longrightarrow> ticket_counts w' = ticket_counts w"
  "thread_register_write ctl t fd slot w = Some w' \<Longrightarrow> ticket_counts w' = ticket_counts w"
  "thread_unregister_expired_slot t i w = Some w' \<Longrightarrow> ticket_counts w' = ticket_counts w"
  "thread_push_command t cmd w = Some w' \<Longrightarrow> ticket_counts w' = ticket_counts w"
  by (auto simp: thread_register_semaphore_wait_def thread_register_timer_def thread_register_read_def
    thread_register_write_def thread_unregister_expired_slot_def thread_push_command_def
    dest!: bind_eq_Some_conv [THEN iffD1] split: sum.splits)

lemma tickets_pop [tickets_kept]:
  assumes "pop_a_waiter s t w = Some (b, w')"
  shows "ticket_counts w' = ticket_counts w"
  using assms tickets_kept
  by (auto simp: pop_a_waiter_def dest!: bind_eq_Some_conv [THEN iffD1] split: option.splits prod.splits)

lemma tickets_rounds [tickets_kept]:
  "routine_start_event_round r w = Some w' \<Longrightarrow> ticket_counts w' = ticket_counts w"
  "routine_commit_event_round r w = Some w' \<Longrightarrow> ticket_counts w' = ticket_counts w"
  "ptr_release p w = Some (b, w') \<Longrightarrow> ticket_counts w' = ticket_counts w"
  "ptr_invalidate_all p w = Some w' \<Longrightarrow> ticket_counts w' = ticket_counts w"
  "ticket_counts (add_event r ev w) = ticket_counts w"
  "ticket_counts (set_event r i ev w) = ticket_counts w"
  by (auto simp: routine_start_event_round_def routine_commit_event_round_def ptr_release_def ptr_invalidate_all_def
    make_ptr_def add_event_def set_event_def dest!: bind_eq_Some_conv [THEN iffD1] split: option.splits block.splits)

lemma tickets_add [tickets_kept]:
  "routine_add_timer r date w = Some w' \<Longrightarrow> ticket_counts w' = ticket_counts w"
  "routine_add_read ctl r fd w = Some w' \<Longrightarrow> ticket_counts w' = ticket_counts w"
  "routine_add_write ctl r fd w = Some w' \<Longrightarrow> ticket_counts w' = ticket_counts w"
  by (auto simp: routine_add_timer_def routine_add_read_def routine_add_write_def tickets_kept
    dest!: bind_eq_Some_conv [THEN iffD1] tickets_thread)

text \<open>Joining the queue of a semaphore gives back the ticket that was taken to try.\<close>

lemma tickets_add_semaphore_wait:
  assumes "routine_add_semaphore_wait r s w = Some w'"
  shows "s < length (ticket_counts w) \<and> ticket_counts w' = (ticket_counts w)[s := ticket_counts w ! s + 1]"
  using assms
  by (auto simp: routine_add_semaphore_wait_def tickets_kept Let_def dest!: bind_eq_Some_conv [THEN iffD1]
    dest!: tickets_fetch_add tickets_queue tickets_thread tickets_pop split: if_splits prod.splits)

lemma tickets_expire [tickets_kept]:
  "dec_suspended t w = Some w' \<Longrightarrow> ticket_counts w' = ticket_counts w"
  by (auto simp: dec_suspended_def dest!: bind_eq_Some_conv [THEN iffD1])

lemma tickets_expire_event [tickets_kept]:
  assumes "expire_event t ev w = Some w'"
  shows "ticket_counts w' = ticket_counts w"
  using assms
  by (cases ev) (auto dest!: bind_eq_Some_conv [THEN iffD1] tickets_expire tickets_queue tickets_thread
    split: if_splits prod.splits)

lemma tickets_expire_events:
  "fold_opt (expire_event t) evs w = Some w' \<Longrightarrow> ticket_counts w' = ticket_counts w"
  by (induction evs arbitrary: w) (auto dest!: bind_eq_Some_conv [THEN iffD1] tickets_expire_event)

lemma tickets_cancel [tickets_kept]:
  assumes "routine_cancel_event_round r w = Some w'"
  shows "ticket_counts w' = ticket_counts w"
  using assms
  by (auto simp: routine_cancel_event_round_def dest!: bind_eq_Some_conv [THEN iffD1] tickets_expire_events tickets_rounds(1-4))

text \<open>The counters after one ticket was taken from \<open>taken\<close>.\<close>

definition take_ticket :: "nat option \<Rightarrow> int32 list \<Rightarrow> int32 list" where
  "take_ticket taken cs = (case taken of None \<Rightarrow> cs | Some s \<Rightarrow> cs[s := cs ! s - 1])"

lemma tickets_semaphore_subscribe:
  assumes "event_semaphore_subscribe r s w = Some (ready, w')"
  shows "ticket_counts w' = take_ticket (if ready then Some s else None) (ticket_counts w)"
  using assms
  by (auto simp: event_semaphore_subscribe_def take_ticket_def dest!: bind_eq_Some_conv [THEN iffD1] tickets_fetch_sub
    tickets_add_semaphore_wait split: if_splits)

lemma tickets_subscribe:
  assumes "selector_subscribe chans ctl r answer sel w = Some (ready, data, w')"
  shows "ticket_counts w' = take_ticket (if ready then selector_semaphore chans sel else None) (ticket_counts w)"
  using assms
  by (cases sel) (auto simp: event_syscall_subscribe_def take_ticket_def [of None] dest!: bind_eq_Some_conv [THEN iffD1]
    tickets_add tickets_semaphore_subscribe split: if_splits prod.splits)

lemma tickets_select_subscribe:
  assumes "select_subscribe chans ctl r index sels w = Some (found, w')"
  shows "case found of None \<Rightarrow> ticket_counts w' = ticket_counts w
    | Some (i, data) \<Rightarrow> index \<le> i \<and> i < index + length sels \<and>
        ticket_counts w' = take_ticket (selector_semaphore chans (fst (sels ! (i - index)))) (ticket_counts w)"
  using assms
proof (induction sels arbitrary: index w)
  case (Cons p sels)
  obtain sel answer where p: "p = (sel, answer)" by (metis surj_pair)
  from Cons.prems obtain cancel data w1 where
    sub: "selector_subscribe chans ctl r answer sel w = Some (cancel, data, w1)"
    and rest: "if cancel then found = Some (index, data) \<and> w' = w1
      else select_subscribe chans ctl r (Suc index) sels w1 = Some (found, w')"
    by (auto simp: p dest!: bind_eq_Some_conv [THEN iffD1] split: if_splits)
  note t = tickets_subscribe [OF sub]
  show ?case
  proof (cases cancel)
    case True
    with t rest show ?thesis by (auto simp: p)
  next
    case False
    with rest have "select_subscribe chans ctl r (Suc index) sels w1 = Some (found, w')" by simp
    from Cons.IH [OF this] t False show ?thesis
      by (auto simp: take_ticket_def [of None] nth_Cons' split: option.splits)
  qed
qed simp

lemma tickets_select_start:
  assumes "select_start chans ctl t sels w = Some (found, w')"
  shows "case found of None \<Rightarrow> ticket_counts w' = ticket_counts w
    | Some (i, data) \<Rightarrow> i < length sels \<and>
        ticket_counts w' = take_ticket (selector_semaphore chans (fst (sels ! i))) (ticket_counts w)"
proof -
  from assms obtain r w1 w2 where s: "routine_start_event_round r w = Some w1"
    "select_subscribe chans ctl r 0 sels w1 = Some (found, w2)"
    "(if found \<noteq> None then routine_cancel_event_round r w2 else routine_commit_event_round r w2) = Some w'"
    by (auto simp: select_start_def dest!: bind_eq_Some_conv [THEN iffD1])
  have "ticket_counts w1 = ticket_counts w" "ticket_counts w' = ticket_counts w2"
    using s(1,3) by (auto dest!: tickets_rounds(1-4) tickets_cancel split: if_splits)
  with tickets_select_subscribe [OF s(2)] show ?thesis by (auto split: option.splits)
qed

section \<open>Properties\<close>

text \<open>
  C22: a select takes exactly one ticket. Whatever selectors it waits on, in whatever order, and
  however many of them are locks or channels: if one is ready at once, its semaphore, and
  no other, loses one ticket; if none is and the routine is suspended, every semaphore has
  the tickets it had.
\<close>

theorem select_takes_one_ticket:
  assumes "select_start chans ctl t sels w = Some (found, w')"
  shows "case found of None \<Rightarrow> ticket_counts w' = ticket_counts w
    | Some (i, data) \<Rightarrow> i < length sels \<and>
        ticket_counts w' = take_ticket (selector_semaphore chans (fst (sels ! i))) (ticket_counts w)"
  by (rule tickets_select_start [OF assms])

definition select_example :: world where
  "select_example =
     \<lparr>w_routines = [routine_new\<lparr>r_status := running\<rparr>], w_blocks = [], w_semas = [semaphore_new 0, semaphore_new 3],
      w_threads = [(thread_new (netpoller_new 1 np_example_loop))\<lparr>t_running := Some 0\<rparr>], w_engine_queue = []\<rparr>"

lemmas select_eval = select_example_def select_start_def running_of_def the_thread_def the_routine_def the_sema_def
  routine_start_event_round_def make_ptr_def upd_routine_def upd_thread_def upd_sema_def routine_new_def thread_new_def
  semaphore_new_def event_semaphore_subscribe_def sema_fetch_sub_def sema_fetch_add_def routine_add_semaphore_wait_def
  add_event_def set_event_def thread_register_semaphore_wait_def alloc_slot_def routine_slot_empty_def
  semaphore_write_def semaphore_read_def semaphore_free_def pop_a_waiter_def routine_cancel_event_round_def
  dec_suspended_def thread_unregister_expired_slot_def ptr_release_def ptr_invalidate_all_def
  vectorized_queue_empty_def vectorized_queue_write_def vectorized_queue_read_def vectorized_queue_lazy_free_def
  vectorized_queue_free_def vectorized_queue_has_def vq_unlink_def vq_none_def vq_upd_def
  sparse_vector_empty_def sparse_vector_allocate_def sparse_vector_set_def sparse_vector_free_def sparse_vector_has_def
  thread_push_command_def thread_wakeUp_def netpoller_interrupt_def vec_get_def vec_set_def
  disabling_threshold_def disabled_standpoint_def Let_def

lemma select_example_eval:
  "\<exists>w'. select_start ([] :: nat channel_impl list) None 0 [(EvLock 0, 0, 0), (EvLock 1, 0, 0)] select_example = Some (Some (1, 0), w')"
  by (simp add: select_eval)

theorem select_takes_one_ticket_witness:
  "\<exists>w'. select_start ([] :: nat channel_impl list) None 0 [(EvLock 0, 0, 0), (EvLock 1, 0, 0)] select_example = Some (Some (1, 0), w') \<and>
     ticket_counts w' = [0, 2]"
proof -
  obtain w' where w: "select_start ([] :: nat channel_impl list) None 0 [(EvLock 0, 0, 0), (EvLock 1, 0, 0)] select_example = Some (Some (1, 0), w')"
    using select_example_eval by blast
  from select_takes_one_ticket [OF w] have "ticket_counts w' = [0, 2]"
    by (simp add: take_ticket_def ticket_counts_def select_example_def semaphore_new_def)
  with w show ?thesis by blast
qed


end
