(* ===== verification/Engine.thy ===== *)
theory Engine
  imports Scheduling
begin

unbundle bit_operations_syntax

text \<open>
  \<^verbatim>\<open>boson::engine\<close> (\<^verbatim>\<open>src/boson/boson/engine.h\<close>, \<^verbatim>\<open>src/boson/src/engine.cc\<close>) and the
  \<^verbatim>\<open>engine_proxy\<close> of a thread (\<^verbatim>\<open>src/boson/src/internal/thread.cc\<close>): the commands the
  threads send to the engine, the dispatch of new routines to the threads, and the end of
  the program. The queue of commands is \<open>w_engine_queue\<close>. Here an operation is one step; the
  counter \<^verbatim>\<open>command_pushers_\<close> and the interleavings of the producers are the subject of
  \<open>Engine_Protocol\<close>.
\<close>

section \<open>State\<close>

record thread_view =
  v_nb_routines :: size_t
  v_sent_end :: bool

text \<open>Thread ids index the list of views; \<open>e_max_nb_cores\<close> as a thread id means any thread.\<close>

record engine =
  e_nb_active :: size_t
  e_views :: "thread_view list"
  e_max_nb_cores :: nat
  e_next_thread_id :: nat
  e_next_routine_id :: size_t
  e_next_scheduled :: nat

definition engine_register_thread_id :: "engine \<Rightarrow> nat \<times> engine" where
  "engine_register_thread_id e = (e_next_thread_id e, e\<lparr>e_next_thread_id := Suc (e_next_thread_id e)\<rparr>)"

text \<open>
  The constructor: one thread per core, each with a poller of its own and the next id. The
  loops of the threads start then.
\<close>

fun engine_create_threads :: "netpoller list \<Rightarrow> engine \<Rightarrow> world \<Rightarrow> engine \<times> world" where
  "engine_create_threads [] e w = (e, w)"
| "engine_create_threads (p # ps) e w =
     (case engine_register_thread_id e of
        (i, e1) \<Rightarrow>
          engine_create_threads ps (e1\<lparr>e_views := e_views e1 @ [\<lparr>v_nb_routines = 0, v_sent_end = False\<rparr>]\<rparr>)
            (w\<lparr>w_threads := w_threads w @ [thread_new p]\<rparr>))"

definition world_empty :: world where
  "world_empty = \<lparr>w_routines = [], w_blocks = [], w_semas = [], w_threads = [], w_engine_queue = []\<rparr>"

definition engine_new :: "netpoller list \<Rightarrow> engine \<times> world" where
  "engine_new ps =
     engine_create_threads ps
       \<lparr>e_nb_active = of_nat (length ps), e_views = [], e_max_nb_cores = length ps, e_next_thread_id = 0,
        e_next_routine_id = 0, e_next_scheduled = 0\<rparr> world_empty"

section \<open>Sending commands\<close>

definition engine_push_command :: "engine_command \<Rightarrow> world \<Rightarrow> world" where
  "engine_push_command cmd w = w\<lparr>w_engine_queue := w_engine_queue w @ [cmd]\<rparr>"

definition get_new_routine_id :: "engine \<Rightarrow> size_t \<times> engine" where
  "get_new_routine_id e = (e_next_routine_id e, e\<lparr>e_next_routine_id := e_next_routine_id e + 1\<rparr>)"

text \<open>
  \<^verbatim>\<open>engine::start\<close> and \<^verbatim>\<open>start_routine_explicit\<close> create a routine and ask for the thread \<open>target\<close>;
  without an id they ask for \<open>e_max_nb_cores\<close>.
\<close>

definition new_routine :: "engine \<Rightarrow> world \<Rightarrow> nat \<times> engine \<times> world" where
  "new_routine e w =
     (case get_new_routine_id e of
        (_, e1) \<Rightarrow> (length (w_routines w), e1, w\<lparr>w_routines := w_routines w @ [routine_new]\<rparr>))"

definition engine_start_in :: "nat \<Rightarrow> engine \<Rightarrow> world \<Rightarrow> engine \<times> world" where
  "engine_start_in target e w =
     (case new_routine e w of
        (r, e1, w1) \<Rightarrow> (e1, engine_push_command (ec_add_routine (e_max_nb_cores e) target r) w1))"

definition engine_start :: "engine \<Rightarrow> world \<Rightarrow> engine \<times> world" where
  "engine_start e w = engine_start_in (e_max_nb_cores e) e w"

definition proxy_start_routine :: "nat \<Rightarrow> nat \<Rightarrow> world \<Rightarrow> world" where
  "proxy_start_routine target r w = engine_push_command (ec_add_routine target target r) w"

definition thread_start_routine_explicit :: "nat \<Rightarrow> engine \<Rightarrow> world \<Rightarrow> engine \<times> world" where
  "thread_start_routine_explicit target e w =
     (case new_routine e w of (r, e1, w1) \<Rightarrow> (e1, proxy_start_routine target r w1))"

definition thread_start_routine :: "engine \<Rightarrow> world \<Rightarrow> engine \<times> world" where
  "thread_start_routine e w = thread_start_routine_explicit (e_max_nb_cores e) e w"

section \<open>Executing commands\<close>

definition upd_view :: "nat \<Rightarrow> (thread_view \<Rightarrow> thread_view) \<Rightarrow> engine \<Rightarrow> engine" where
  "upd_view t f e = e\<lparr>e_views := (e_views e)[t := f (e_views e ! t)]\<rparr>"

text \<open>The target of a new routine: round robin for \<open>e_max_nb_cores\<close>, whose remainder is undefined for no core.\<close>

definition choose_thread :: "nat \<Rightarrow> engine \<Rightarrow> (nat \<times> engine) option" where
  "choose_thread target e =
     (if target = e_max_nb_cores e then
        (if e_max_nb_cores e = 0 then None
         else Some (e_next_scheduled e, e\<lparr>e_next_scheduled := Suc (e_next_scheduled e) mod e_max_nb_cores e\<rparr>))
      else Some (target, e))"

text \<open>One command; \<^verbatim>\<open>threads_.at\<close> throws on an id out of range, which ends the engine (\<open>None\<close>).\<close>

fun engine_execute_command :: "engine_command \<Rightarrow> engine \<Rightarrow> world \<Rightarrow> (engine \<times> world) option" where
  "engine_execute_command (ec_add_routine from target r) e w =
     do { (t, e1) \<leftarrow> choose_thread target e;
          if t < length (e_views e1) then
            do { w1 \<leftarrow> thread_push_command t (add_routine r) w;
                 Some (upd_view t (\<lambda>v. v\<lparr>v_nb_routines := v_nb_routines v + 1\<rparr>) e1, w1) }
          else None }"
| "engine_execute_command (ec_notify_idle from n) e w =
     (if from < length (e_views e) then Some (upd_view from (\<lambda>v. v\<lparr>v_nb_routines := of_nat n\<rparr>) e, w) else None)"
| "engine_execute_command (ec_notify_end from) e w = Some (e\<lparr>e_nb_active := e_nb_active e - 1\<rparr>, w)"

fun engine_execute_commands :: "nat \<Rightarrow> engine \<Rightarrow> world \<Rightarrow> (engine \<times> world) option" where
  "engine_execute_commands 0 e w = None"
| "engine_execute_commands (Suc n) e w =
     (case w_engine_queue w of
        [] \<Rightarrow> Some (e, w)
      | cmd # rest \<Rightarrow>
          do { (e1, w1) \<leftarrow> engine_execute_command cmd e (w\<lparr>w_engine_queue := rest\<rparr>);
               engine_execute_commands n e1 w1 })"

text \<open>When no routine remains in any view, every thread is told once to finish.\<close>

definition engine_send_end :: "nat \<Rightarrow> engine \<times> world \<Rightarrow> (engine \<times> world) option" where
  "engine_send_end t s =
     (case s of
        (e, w) \<Rightarrow>
          do { v \<leftarrow> vec_get (e_views e) t;
               if v_sent_end v then Some (e, w)
               else do { w1 \<leftarrow> thread_push_command t finish_thread w;
                         Some (upd_view t (\<lambda>v. v\<lparr>v_sent_end := True\<rparr>) e, w1) } })"

text \<open>
  One turn of \<^verbatim>\<open>wait_all_routines\<close>, up to the wait for the next command; the loop runs while
  \<open>e_nb_active\<close> is not zero.
\<close>

definition engine_turn :: "engine \<Rightarrow> world \<Rightarrow> (engine \<times> world) option" where
  "engine_turn e w =
     do { (e1, w1) \<leftarrow> engine_execute_commands (Suc (length (w_engine_queue w))) e w;
          if sum_list (map v_nb_routines (e_views e1)) = 0
          then fold_opt engine_send_end [0..<length (e_views e1)] (e1, w1)
          else Some (e1, w1) }"

section \<open>Events of the engine's own poller\<close>

definition event_thread :: "64 word \<Rightarrow> nat" where
  "event_thread data = unat (drop_bit 32 (0xffffffff00000000 AND data))"

definition event_index :: "64 word \<Rightarrow> nat" where
  "event_index data = unat (0x00000000ffffffff AND data)"

definition engine_read :: "int \<Rightarrow> 64 word \<Rightarrow> int \<Rightarrow> engine \<Rightarrow> world \<Rightarrow> world option" where
  "engine_read fd data status e w =
     (if event_thread data < length (e_views e)
      then thread_push_command (event_thread data) (fd_ready (event_index data) fd status True) w else None)"

definition engine_write :: "int \<Rightarrow> 64 word \<Rightarrow> int \<Rightarrow> engine \<Rightarrow> world \<Rightarrow> world option" where
  "engine_write fd data status e w =
     (if event_thread data < length (e_views e)
      then thread_push_command (event_thread data) (fd_ready (event_index data) fd status False) w else None)"

section \<open>Properties\<close>

lemma thread_push_command_engine_queue:
  "thread_push_command t cmd w = Some w' \<Longrightarrow> w_engine_queue w' = w_engine_queue w"
  by (auto simp: thread_push_command_def upd_thread_def dest!: bind_eq_Some_conv [THEN iffD1])

lemma engine_execute_command_queue:
  "engine_execute_command cmd e w = Some (e', w') \<Longrightarrow> w_engine_queue w' = w_engine_queue w"
  by (cases cmd) (auto dest!: bind_eq_Some_conv [THEN iffD1] thread_push_command_engine_queue split: if_splits)

text \<open>An engine whose views are the threads of the world, with the ids it can be asked for.\<close>

definition engine_wf :: "engine \<Rightarrow> world \<Rightarrow> bool" where
  "engine_wf e w \<longleftrightarrow> length (e_views e) = e_max_nb_cores e \<and> length (w_threads w) = e_max_nb_cores e \<and>
     e_next_scheduled e < e_max_nb_cores e"

fun command_ok :: "engine \<Rightarrow> engine_command \<Rightarrow> bool" where
  "command_ok e (ec_add_routine from target r) \<longleftrightarrow> target \<le> e_max_nb_cores e"
| "command_ok e (ec_notify_idle from n) \<longleftrightarrow> from < e_max_nb_cores e"
| "command_ok e (ec_notify_end from) \<longleftrightarrow> True"

lemma engine_wf_queue [simp]: "engine_wf e (w\<lparr>w_engine_queue := q\<rparr>) = engine_wf e w"
  by (simp add: engine_wf_def)

lemma choose_thread_Some:
  assumes "engine_wf e w" and "target \<le> e_max_nb_cores e"
  shows "\<exists>t next. choose_thread target e = Some (t, e\<lparr>e_next_scheduled := next\<rparr>) \<and> t < e_max_nb_cores e \<and>
    next < e_max_nb_cores e"
proof (cases "target = e_max_nb_cores e")
  case True
  with assms show ?thesis by (auto simp: choose_thread_def engine_wf_def)
next
  case False
  then have "choose_thread target e = Some (target, e\<lparr>e_next_scheduled := e_next_scheduled e\<rparr>)"
    by (simp add: choose_thread_def)
  with assms False show ?thesis by (metis engine_wf_def le_neq_implies_less)
qed

lemma engine_execute_command_Some:
  assumes "engine_wf e w" and "command_ok e cmd"
  shows "\<exists>e' w'. engine_execute_command cmd e w = Some (e', w') \<and> engine_wf e' w' \<and>
    e_max_nb_cores e' = e_max_nb_cores e \<and> w_engine_queue w' = w_engine_queue w"
proof (cases cmd)
  case (ec_add_routine sender target r)
  with assms obtain t n where t: "choose_thread target e = Some (t, e\<lparr>e_next_scheduled := n\<rparr>)" "t < e_max_nb_cores e"
    "n < e_max_nb_cores e"
    using choose_thread_Some by fastforce
  with assms thread_push_command_Some [of t w "add_routine r"] obtain w' where
    "thread_push_command t (add_routine r) w = Some w'" "length (w_threads w') = length (w_threads w)"
    "w_engine_queue w' = w_engine_queue w"
    by (auto simp: engine_wf_def)
  with t assms(1) ec_add_routine show ?thesis by (auto simp: engine_wf_def upd_view_def)
qed (use assms in \<open>auto simp: engine_wf_def upd_view_def\<close>)

lemma command_ok_cong: "e_max_nb_cores e' = e_max_nb_cores e \<Longrightarrow> command_ok e' cmd = command_ok e cmd"
  by (cases cmd) auto

lemma engine_commands_drained:
  assumes "engine_wf e w" and "\<forall>cmd \<in> set (w_engine_queue w). command_ok e cmd" and "length (w_engine_queue w) < n"
  shows "\<exists>e' w'. engine_execute_commands n e w = Some (e', w') \<and> w_engine_queue w' = [] \<and> engine_wf e' w' \<and>
    e_max_nb_cores e' = e_max_nb_cores e"
  using assms
proof (induction n arbitrary: e w)
  case (Suc n)
  show ?case
  proof (cases "w_engine_queue w")
    case Nil
    with Suc.prems show ?thesis by auto
  next
    case (Cons cmd rest)
    have "command_ok e cmd" using Suc.prems(2) Cons by simp
    from engine_execute_command_Some [OF _ this, of "w\<lparr>w_engine_queue := rest\<rparr>"] Suc.prems(1)
    obtain e1 w1 where 1: "engine_execute_command cmd e (w\<lparr>w_engine_queue := rest\<rparr>) = Some (e1, w1)"
      "engine_wf e1 w1" "e_max_nb_cores e1 = e_max_nb_cores e" "w_engine_queue w1 = rest"
      by auto
    have "\<forall>cmd \<in> set (w_engine_queue w1). command_ok e1 cmd" "length (w_engine_queue w1) < n"
      using Suc.prems(2,3) 1 Cons command_ok_cong [OF 1(3)] by auto
    from Suc.IH [OF 1(2) this] 1 Cons show ?thesis by auto
  qed
qed simp


lemma round_robin_shift:
  fixes k m :: nat
  shows "filter (\<lambda>i. (k + i) mod m = t) [0..<Suc n] =
    (if k mod m = t then [0] else []) @ map Suc (filter (\<lambda>i. (Suc k mod m + i) mod m = t) [0..<n])"
proof -
  have "[0..<Suc n] = 0 # map Suc [0..<n]" by (simp add: upt_conv_Cons map_Suc_upt del: upt_Suc)
  moreover have "(k + Suc i) mod m = (Suc k mod m + i) mod m" for i by (simp add: mod_simps)
  ultimately show ?thesis by (simp add: filter_map o_def del: upt_Suc)
qed

lemma round_robin:
  assumes "engine_wf e w" and "w_engine_queue w = map (ec_add_routine sender (e_max_nb_cores e)) rs" and "length rs < n"
  shows "\<exists>e' w'. engine_execute_commands n e w = Some (e', w') \<and>
    (\<forall>t < e_max_nb_cores e. thread_queue t w' = thread_queue t w @
       map (\<lambda>i. add_routine (rs ! i)) (filter (\<lambda>i. (e_next_scheduled e + i) mod e_max_nb_cores e = t) [0..<length rs]))"
  using assms
proof (induction rs arbitrary: e w n)
  case Nil
  then show ?case by (cases n) auto
next
  case (Cons r rs)
  let ?m = "e_max_nb_cores e" and ?k = "e_next_scheduled e" and ?w = "w\<lparr>w_engine_queue := map (ec_add_routine sender (e_max_nb_cores e)) rs\<rparr>"
  let ?e = "upd_view ?k (\<lambda>v. v\<lparr>v_nb_routines := v_nb_routines v + 1\<rparr>) (e\<lparr>e_next_scheduled := Suc ?k mod ?m\<rparr>)"
  from Cons.prems(3) obtain n' where n: "n = Suc n'" "length rs < n'" by (cases n) auto
  have wf: "?k < ?m" "length (w_threads w) = ?m" "length (e_views e) = ?m" using Cons.prems(1) by (auto simp: engine_wf_def)
  with thread_push_command_Some [of ?k ?w "add_routine r"] obtain w1 where w1: "thread_push_command ?k (add_routine r) ?w = Some w1"
    "length (w_threads w1) = ?m" "w_engine_queue w1 = map (ec_add_routine sender ?m) rs"
    "\<And>u. u < ?m \<Longrightarrow> thread_queue u w1 = thread_queue u w @ (if u = ?k then [add_routine r] else [])"
    by (auto simp: thread_queue_def)
  have "engine_wf ?e w1" "w_engine_queue w1 = map (ec_add_routine sender (e_max_nb_cores ?e)) rs"
    using wf w1 by (auto simp: engine_wf_def upd_view_def)
  from Cons.IH [OF this n(2)] obtain e' w' where IH: "engine_execute_commands n' ?e w1 = Some (e', w')"
    "\<And>t. t < ?m \<Longrightarrow> thread_queue t w' = thread_queue t w1 @
       map (\<lambda>i. add_routine (rs ! i)) (filter (\<lambda>i. (Suc ?k mod ?m + i) mod ?m = t) [0..<length rs])"
    by (auto simp: upd_view_def)
  have "engine_execute_commands n e w = Some (e', w')"
    using n Cons.prems(2) wf w1(1) IH(1) by (simp add: choose_thread_def)
  moreover have "thread_queue t w' = thread_queue t w @ map (\<lambda>i. add_routine ((r # rs) ! i))
      (filter (\<lambda>i. (?k + i) mod ?m = t) [0..<length (r # rs)])" if "t < ?m" for t
    using that wf IH(2) [OF that] w1(4) [OF that] by (auto simp: round_robin_shift o_def simp del: upt_Suc)
  ultimately show ?case by blast
qed

text \<open>
  C25: routines started without a thread are dealt to the threads in turn: the \<open>i\<close>-th of them goes
  to thread \<^verbatim>\<open>(next_scheduled_thread_ + i) % max_nb_cores_\<close>, so every thread gets its share, in
  the order of the starts, behind the commands it had already.
\<close>

theorem engine_round_robin:
  assumes "engine_wf e w" and "w_engine_queue w = map (ec_add_routine sender (e_max_nb_cores e)) rs"
  shows "\<exists>e' w'. engine_execute_commands (Suc (length (w_engine_queue w))) e w = Some (e', w') \<and>
    (\<forall>t < e_max_nb_cores e. thread_queue t w' = thread_queue t w @
       map (\<lambda>i. add_routine (rs ! i)) (filter (\<lambda>i. (e_next_scheduled e + i) mod e_max_nb_cores e = t) [0..<length rs]))"
  using round_robin [OF assms, of "Suc (length rs)"] assms(2) by (simp del: engine_execute_commands.simps)

text \<open>An engine with two threads and three routines to start.\<close>

definition engine_example :: "engine \<times> world" where
  "engine_example =
     (case engine_new [netpoller_new 1 np_example_loop, netpoller_new 1 np_example_loop] of
        (e, w) \<Rightarrow> (case engine_start e w of (e1, w1) \<Rightarrow> (case engine_start e1 w1 of (e2, w2) \<Rightarrow> engine_start e2 w2)))"

lemmas engine_example_defs = engine_example_def engine_new_def engine_register_thread_id_def world_empty_def
  engine_start_def engine_start_in_def new_routine_def get_new_routine_id_def engine_push_command_def

lemma engine_example_wf: "engine_wf (fst engine_example) (snd engine_example)"
  by (simp add: engine_example_defs engine_wf_def)

lemma engine_example_queue:
  "w_engine_queue (snd engine_example) = map (ec_add_routine 2 (e_max_nb_cores (fst engine_example))) [0, 1, 2]"
  by (simp add: engine_example_defs)

lemma engine_example_commands: "\<forall>cmd \<in> set (w_engine_queue (snd engine_example)). command_ok (fst engine_example) cmd"
  unfolding engine_example_queue by simp

lemma engine_example_sizes:
  "length (w_engine_queue (snd engine_example)) = 3" "e_max_nb_cores (fst engine_example) = 2"
  "e_next_scheduled (fst engine_example) = 0" "thread_queue 0 (snd engine_example) = []" "thread_queue 1 (snd engine_example) = []"
  by (simp_all add: engine_example_defs thread_queue_def thread_new_def)


theorem engine_round_robin_witness:
  "\<exists>e' w'. engine_execute_commands (Suc 3) (fst engine_example) (snd engine_example) = Some (e', w') \<and>
     thread_queue 0 w' = [add_routine 0, add_routine 2] \<and> thread_queue 1 w' = [add_routine 1]"
proof -
  obtain e' w' where w: "engine_execute_commands (Suc 3) (fst engine_example) (snd engine_example) = Some (e', w')"
    and q: "\<And>t. t < 2 \<Longrightarrow> thread_queue t w' = thread_queue t (snd engine_example) @
       map (\<lambda>i. add_routine ([0, 1, 2] ! i)) (filter (\<lambda>i. (0 + i) mod 2 = t) [0..<length [0, 1, 2 :: nat]])"
    using engine_round_robin [OF engine_example_wf engine_example_queue, unfolded engine_example_sizes] by blast
  have "[0..<length [0, 1, 2 :: nat]] = [0, 1, 2]" by (simp add: upt_rec)
  with w q [of 0] q [of 1] show ?thesis by (simp add: engine_example_sizes [unfolded One_nat_def])
qed

section \<open>The end of the program\<close>

text \<open>
  A program on one thread whose first routine starts a second, which starts a third. \<open>spawner\<close>
  is the code of the routines: the first two start another routine, and all of them return.
\<close>

definition spawner :: "engine \<Rightarrow> nat \<Rightarrow> world \<Rightarrow> world option" where
  "spawner e r w =
     Some (upd_routine r (\<lambda>rt. rt\<lparr>r_status := finished\<rparr>) (if r < 2 then snd (thread_start_routine e w) else w))"

text \<open>A turn of the thread: its commands, then its routines, then, once it is finished, the end of its loop.\<close>

definition thread_turn :: "engine \<Rightarrow> world \<Rightarrow> world option" where
  "thread_turn e w =
     do { w1 \<leftarrow> thread_handle_engine_event 5 0 w;
          (_, w2) \<leftarrow> thread_execute_scheduled_routines 5 (spawner e) 0 w1;
          th \<leftarrow> the_thread 0 w2;
          Some (if t_status th = t_finished then notify_end 0 w2 else w2) }"

text \<open>The engine and the thread take turns.\<close>

definition shutdown_run :: "(engine \<times> world) option" where
  "shutdown_run =
     (case engine_new [netpoller_new 1 np_example_loop] of
        (e, w) \<Rightarrow> (case engine_start e w of
          (e1, w1) \<Rightarrow>
            do { (e2, w2) \<leftarrow> engine_turn e1 w1; w3 \<leftarrow> thread_turn e2 w2;
                 (e4, w4) \<leftarrow> engine_turn e2 w3; w5 \<leftarrow> thread_turn e4 w4;
                 engine_turn e4 w5 }))"


end
