(* ===== verification/Mpsc.thy ===== *)
theory Mpsc
  imports Fifo_Queue "HOL-Library.Sublist"
begin

text \<open>
  \<^verbatim>\<open>queues::mpsc\<close> (\<^verbatim>\<open>src/boson/boson/queues/mpsc.h\<close>): the queue of the commands of a
  thread and of the engine, a linked list with many producers and one consumer. A producer
  swaps its node in as the head, then links the previous head to it; until it does, the
  nodes behind it are out of the consumer's reach. The nodes live in an explicit store, in
  which a deleted node stays as a hole, so that an access to it is an error.
\<close>

section \<open>Nodes and atomic operations\<close>

text \<open>The storage of a value: zeroed, holding a value, moved from, or destroyed by \<^verbatim>\<open>del\<close>.\<close>

datatype 'a cell_state = Zeroed | Holds 'a | MovedFrom | Destroyed

record 'a mpsc_node =
  n_data :: "'a cell_state"
  n_next :: "nat option"

record 'a mpsc =
  q_store :: "'a mpsc_node option list"
  q_head :: nat
  q_tail :: nat

definition mpsc_new :: "'a mpsc" where
  "mpsc_new = \<lparr>q_store = [Some \<lparr>n_data = Zeroed, n_next = None\<rparr>], q_head = 0, q_tail = 0\<rparr>"

definition the_node :: "nat \<Rightarrow> 'a mpsc \<Rightarrow> 'a mpsc_node option" where
  "the_node n q = Option.bind (vec_get (q_store q) n) (\<lambda>x. x)"

definition upd_node :: "nat \<Rightarrow> ('a mpsc_node \<Rightarrow> 'a mpsc_node) \<Rightarrow> 'a mpsc \<Rightarrow> 'a mpsc" where
  "upd_node n f q = q\<lparr>q_store := (q_store q)[n := map_option f (q_store q ! n)]\<rparr>"

text \<open>\<^verbatim>\<open>write\<close>: the new node, the exchange of the head, and the link.\<close>

definition mpsc_node_new :: "'a \<Rightarrow> 'a mpsc \<Rightarrow> nat \<times> 'a mpsc" where
  "mpsc_node_new v q = (length (q_store q), q\<lparr>q_store := q_store q @ [Some \<lparr>n_data = Holds v, n_next = None\<rparr>]\<rparr>)"

definition mpsc_exchange :: "nat \<Rightarrow> 'a mpsc \<Rightarrow> nat \<times> 'a mpsc" where
  "mpsc_exchange n q = (q_head q, q\<lparr>q_head := n\<rparr>)"

definition mpsc_link :: "nat \<Rightarrow> nat \<Rightarrow> 'a mpsc \<Rightarrow> 'a mpsc option" where
  "mpsc_link prev n q = do { _ \<leftarrow> the_node prev q; Some (upd_node prev (\<lambda>x. x\<lparr>n_next := Some n\<rparr>) q) }"

definition mpsc_write :: "'a \<Rightarrow> 'a mpsc \<Rightarrow> 'a mpsc option" where
  "mpsc_write v q =
     (case mpsc_node_new v q of (n, q1) \<Rightarrow> (case mpsc_exchange n q1 of (prev, q2) \<Rightarrow> mpsc_link prev n q2))"

text \<open>\<^verbatim>\<open>read\<close>: the load of the next node, the move of its value, the new tail, and the deletion of the old one.\<close>

definition mpsc_load_next :: "'a mpsc \<Rightarrow> nat option option" where
  "mpsc_load_next q = do { x \<leftarrow> the_node (q_tail q) q; Some (n_next x) }"

text \<open>\<^verbatim>\<open>del\<close> destroys the value that was moved from, unless it is a \<^verbatim>\<open>unique_ptr\<close>.\<close>

definition mpsc_take :: "bool \<Rightarrow> nat \<Rightarrow> 'a mpsc \<Rightarrow> ('a \<times> 'a mpsc) option" where
  "mpsc_take is_unique_ptr n q =
     do { x \<leftarrow> the_node n q;
          case n_data x of
            Holds v \<Rightarrow> Some (v, upd_node n (\<lambda>x. x\<lparr>n_data := (if is_unique_ptr then MovedFrom else Destroyed)\<rparr>) q)
          | _ \<Rightarrow> None }"

definition mpsc_advance :: "nat \<Rightarrow> 'a mpsc \<Rightarrow> nat \<times> 'a mpsc" where
  "mpsc_advance n q = (q_tail q, q\<lparr>q_tail := n\<rparr>)"

text \<open>\<^verbatim>\<open>delete\<close> runs the destructor of the node, hence of its value, whatever state the value is in.\<close>

definition mpsc_delete :: "nat \<Rightarrow> 'a mpsc \<Rightarrow> 'a mpsc option" where
  "mpsc_delete n q = do { _ \<leftarrow> the_node n q; Some (q\<lparr>q_store := (q_store q)[n := None]\<rparr>) }"

definition mpsc_read :: "bool \<Rightarrow> 'a mpsc \<Rightarrow> ('a option \<times> 'a mpsc) option" where
  "mpsc_read is_unique_ptr q =
     do { next \<leftarrow> mpsc_load_next q;
          case next of
            None \<Rightarrow> Some (None, q)
          | Some n \<Rightarrow>
              do { (v, q1) \<leftarrow> mpsc_take is_unique_ptr n q;
                   (case mpsc_advance n q1 of
                      (old, q2) \<Rightarrow> do { q3 \<leftarrow> mpsc_delete old q2; Some (Some v, q3) }) } }"

text \<open>The destructor reads until the queue is empty and deletes the last node; its fuel is the number of nodes.\<close>

fun mpsc_drain :: "bool \<Rightarrow> nat \<Rightarrow> 'a mpsc \<Rightarrow> 'a mpsc option" where
  "mpsc_drain u 0 q = None"
| "mpsc_drain u (Suc k) q =
     do { (r, q1) \<leftarrow> mpsc_read u q; case r of None \<Rightarrow> Some q1 | Some _ \<Rightarrow> mpsc_drain u k q1 }"

definition mpsc_destroy :: "bool \<Rightarrow> 'a mpsc \<Rightarrow> 'a mpsc option" where
  "mpsc_destroy u q = do { q1 \<leftarrow> mpsc_drain u (length (q_store q)) q; mpsc_delete (q_head q1) q1 }"

section \<open>Producers and a consumer\<close>

text \<open>
  The operations cut at their accesses to shared memory. \<open>ms_chain\<close> lists the nodes from the
  tail to the head in the order of the exchanges, \<open>ms_sent\<close> the values in that order, and
  \<open>ms_received\<close> what the consumer read.
\<close>

datatype 'a producer_pc = PIdle | PNew nat 'a | PSwapped nat nat

datatype consumer_pc = KIdle | KNext nat | KTaken nat | KDelete nat

record 'a mpsc_state =
  ms_q :: "'a mpsc"
  ms_producers :: "'a producer_pc list"
  ms_consumer :: consumer_pc
  ms_chain :: "nat list"
  ms_sent :: "'a list"
  ms_received :: "'a list"

definition mpsc_init :: "nat \<Rightarrow> 'a mpsc_state" where
  "mpsc_init np = \<lparr>ms_q = mpsc_new, ms_producers = replicate np PIdle, ms_consumer = KIdle, ms_chain = [0],
     ms_sent = [], ms_received = []\<rparr>"

definition p_at :: "nat \<Rightarrow> 'a producer_pc \<Rightarrow> 'a mpsc_state \<Rightarrow> bool" where
  "p_at p pc s \<longleftrightarrow> p < length (ms_producers s) \<and> ms_producers s ! p = pc"

definition p_goto :: "nat \<Rightarrow> 'a producer_pc \<Rightarrow> 'a mpsc_state \<Rightarrow> 'a mpsc_state" where
  "p_goto p pc s = s\<lparr>ms_producers := (ms_producers s)[p := pc]\<rparr>"

inductive mpsc_step :: "bool \<Rightarrow> 'a mpsc_state \<Rightarrow> 'a mpsc_state \<Rightarrow> bool" for u where
  p_new: "p_at p PIdle s \<Longrightarrow> mpsc_node_new v (ms_q s) = (n, q) \<Longrightarrow>
    mpsc_step u s (p_goto p (PNew n v) (s\<lparr>ms_q := q\<rparr>))"
| p_swap: "p_at p (PNew n v) s \<Longrightarrow> mpsc_exchange n (ms_q s) = (prev, q) \<Longrightarrow>
    mpsc_step u s (p_goto p (PSwapped n prev) (s\<lparr>ms_q := q, ms_chain := ms_chain s @ [n], ms_sent := ms_sent s @ [v]\<rparr>))"
| p_link: "p_at p (PSwapped n prev) s \<Longrightarrow> mpsc_link prev n (ms_q s) = Some q \<Longrightarrow>
    mpsc_step u s (p_goto p PIdle (s\<lparr>ms_q := q\<rparr>))"
| k_load: "ms_consumer s = KIdle \<Longrightarrow> mpsc_load_next (ms_q s) = Some (Some n) \<Longrightarrow>
    mpsc_step u s (s\<lparr>ms_consumer := KNext n\<rparr>)"
| k_take: "ms_consumer s = KNext n \<Longrightarrow> mpsc_take u n (ms_q s) = Some (v, q) \<Longrightarrow>
    mpsc_step u s (s\<lparr>ms_q := q, ms_consumer := KTaken n, ms_received := ms_received s @ [v]\<rparr>)"
| k_store: "ms_consumer s = KTaken n \<Longrightarrow> mpsc_advance n (ms_q s) = (old, q) \<Longrightarrow>
    mpsc_step u s (s\<lparr>ms_q := q, ms_consumer := KDelete old, ms_chain := tl (ms_chain s)\<rparr>)"
| k_delete: "ms_consumer s = KDelete n \<Longrightarrow> mpsc_delete n (ms_q s) = Some q \<Longrightarrow>
    mpsc_step u s (s\<lparr>ms_q := q, ms_consumer := KIdle\<rparr>)"

section \<open>The invariant\<close>

lemma the_node_upd: "the_node m (upd_node n f q) = (if m = n then map_option f (the_node n q) else the_node m q)"
  by (auto simp: the_node_def upd_node_def vec_get_def)

lemma the_node_new:
  assumes "mpsc_node_new v q = (n, q')"
  shows "the_node m q' = (if m = n then Some \<lparr>n_data = Holds v, n_next = None\<rparr> else the_node m q)"
    and "the_node n q = None" and "q_head q' = q_head q" "q_tail q' = q_tail q"
  using assms by (auto simp: the_node_def mpsc_node_new_def vec_get_def nth_append)

lemma the_node_delete:
  assumes "mpsc_delete n q = Some q'"
  shows "the_node m q' = (if m = n then None else the_node m q)" and "q_head q' = q_head q" "q_tail q' = q_tail q"
  using assms by (auto simp: the_node_def mpsc_delete_def vec_get_def nth_list_update dest!: bind_eq_Some_conv [THEN iffD1])

lemma the_node_ends [simp]:
  "the_node m (q\<lparr>q_head := h\<rparr>) = the_node m q" "the_node m (q\<lparr>q_tail := t\<rparr>) = the_node m q"
  "q_head (upd_node n f q) = q_head q" "q_tail (upd_node n f q) = q_tail q"
  by (simp_all add: the_node_def upd_node_def)

text \<open>
  The links of the chain: a node points to the next one, except where a producer has swapped
  and not linked yet; \<open>pend\<close> holds the pairs of such producers.
\<close>

definition links_ok :: "'a mpsc \<Rightarrow> (nat \<times> nat) set \<Rightarrow> nat list \<Rightarrow> bool" where
  "links_ok q pend ns \<longleftrightarrow>
     (\<forall>i. i < length ns \<longrightarrow> (\<exists>x. the_node (ns ! i) q = Some x \<and>
        n_next x = (if Suc i < length ns \<and> (ns ! Suc i, ns ! i) \<notin> pend then Some (ns ! Suc i) else None))) \<and>
     (\<forall>n prev. (n, prev) \<in> pend \<longrightarrow> (\<exists>i. Suc i < length ns \<and> ns ! i = prev \<and> ns ! Suc i = n))"

definition pending :: "'a mpsc_state \<Rightarrow> (nat \<times> nat) set" where
  "pending s = {(n, prev). \<exists>p. p_at p (PSwapped n prev) s}"

text \<open>The first node of the chain has no value of the queue; neither has the second once it was taken.\<close>

definition taken :: "consumer_pc \<Rightarrow> nat" where
  "taken k = (case k of KTaken n \<Rightarrow> 1 | _ \<Rightarrow> 0)"

definition data_ok :: "'a mpsc \<Rightarrow> nat \<Rightarrow> nat list \<Rightarrow> 'a list \<Rightarrow> bool" where
  "data_ok q k ns vs \<longleftrightarrow> length ns = Suc (length vs) \<and>
     (\<forall>i. k \<le> i \<and> i < length vs \<longrightarrow> map_option n_data (the_node (ns ! Suc i) q) = Some (Holds (vs ! i)))"

definition ends_ok :: "'a mpsc \<Rightarrow> nat list \<Rightarrow> bool" where
  "ends_ok q ns \<longleftrightarrow> ns \<noteq> [] \<and> hd ns = q_tail q \<and> last ns = q_head q \<and> distinct ns"

text \<open>The node of a producer that has not swapped yet is its own; a swapped node has one producer.\<close>

definition news_ok :: "'a mpsc_state \<Rightarrow> bool" where
  "news_ok s \<longleftrightarrow>
     (\<forall>p n v. p_at p (PNew n v) s \<longrightarrow> n \<notin> set (ms_chain s) \<and> ms_consumer s \<noteq> KDelete n \<and>
        the_node n (ms_q s) = Some \<lparr>n_data = Holds v, n_next = None\<rparr>)"

definition news_unique :: "'a mpsc_state \<Rightarrow> bool" where
  "news_unique s \<longleftrightarrow> (\<forall>p p' n v v'. p_at p (PNew n v) s \<longrightarrow> p_at p' (PNew n v') s \<longrightarrow> p = p')"

definition swaps_ok :: "'a mpsc_state \<Rightarrow> bool" where
  "swaps_ok s \<longleftrightarrow> (\<forall>p p' n prev. p_at p (PSwapped n prev) s \<longrightarrow> p_at p' (PSwapped n prev) s \<longrightarrow> p = p')"

definition next_ok :: "nat \<Rightarrow> (nat \<times> nat) set \<Rightarrow> nat list \<Rightarrow> bool" where
  "next_ok n pend ns \<longleftrightarrow> Suc 0 < length ns \<and> n = ns ! 1 \<and> (n, ns ! 0) \<notin> pend"

definition consumer_ok :: "'a mpsc_state \<Rightarrow> bool" where
  "consumer_ok s \<longleftrightarrow>
     (case ms_consumer s of
        KIdle \<Rightarrow> True
      | KNext n \<Rightarrow> next_ok n (pending s) (ms_chain s)
      | KTaken n \<Rightarrow> next_ok n (pending s) (ms_chain s)
      | KDelete n \<Rightarrow> n \<notin> set (ms_chain s) \<and> the_node n (ms_q s) \<noteq> None)"

definition values_ok :: "'a mpsc_state \<Rightarrow> bool" where
  "values_ok s \<longleftrightarrow>
     (\<exists>base vs. data_ok (ms_q s) (taken (ms_consumer s)) (ms_chain s) vs \<and>
        ms_sent s = base @ vs \<and> ms_received s = base @ take (taken (ms_consumer s)) vs)"

definition mpsc_inv :: "'a mpsc_state \<Rightarrow> bool" where
  "mpsc_inv s \<longleftrightarrow> ends_ok (ms_q s) (ms_chain s) \<and> links_ok (ms_q s) (pending s) (ms_chain s) \<and>
     news_ok s \<and> news_unique s \<and> swaps_ok s \<and> consumer_ok s \<and> values_ok s"

lemma mpsc_inv_init: "mpsc_inv (mpsc_init np)"
  by (auto simp: mpsc_inv_def ends_ok_def news_ok_def news_unique_def swaps_ok_def consumer_ok_def values_ok_def mpsc_init_def
    mpsc_new_def links_ok_def pending_def p_at_def taken_def data_ok_def the_node_def vec_get_def)

lemma links_ok_cong:
  assumes "links_ok q pend ns" and "\<And>m. m \<in> set ns \<Longrightarrow> map_option n_next (the_node m q') = map_option n_next (the_node m q)"
  shows "links_ok q' pend ns"
proof -
  have "\<exists>y. the_node (ns ! i) q' = Some y \<and> n_next y = n_next x" if "i < length ns" "the_node (ns ! i) q = Some x" for i x
    using assms(2) [of "ns ! i"] that by (auto simp: map_option_case split: option.splits)
  with assms(1) show ?thesis unfolding links_ok_def by metis
qed

lemma links_ok_pend:
  "links_ok q pend ns \<Longrightarrow> (n, prev) \<in> pend \<Longrightarrow> \<exists>i. Suc i < length ns \<and> ns ! i = prev \<and> ns ! Suc i = n"
  unfolding links_ok_def by blast

lemma links_ok_node:
  "links_ok q pend ns \<Longrightarrow> i < length ns \<Longrightarrow> \<exists>x. the_node (ns ! i) q = Some x \<and>
    n_next x = (if Suc i < length ns \<and> (ns ! Suc i, ns ! i) \<notin> pend then Some (ns ! Suc i) else None)"
  unfolding links_ok_def by blast

lemma links_ok_append:
  assumes "links_ok q pend ns" and "ns \<noteq> []" and "n \<notin> set ns" and "distinct ns" and "the_node n q = Some x" "n_next x = None"
  shows "links_ok q (insert (n, last ns) pend) (ns @ [n])"
proof -
  let ?ns = "ns @ [n]" and ?pend = "insert (n, last ns) pend"
  have "\<exists>y. the_node (?ns ! i) q = Some y \<and>
      n_next y = (if Suc i < length ?ns \<and> (?ns ! Suc i, ?ns ! i) \<notin> ?pend then Some (?ns ! Suc i) else None)"
    if "i < length ?ns" for i
  proof -
    consider "i = length ns" | "Suc i = length ns" | "Suc i < length ns" using \<open>i < length ?ns\<close> by force
    then show ?thesis
    proof cases
      case 2
      then have "?ns ! i = last ns" using assms(2) by (simp add: last_conv_nth nth_append flip: 2)
      moreover obtain y where "the_node (ns ! i) q = Some y" "n_next y = None"
        using links_ok_node [OF assms(1), of i] 2 by auto
      ultimately show ?thesis using 2 by (auto simp: nth_append)
    next
      case 3
      then have "?ns ! Suc i \<noteq> n" using assms(3) by (auto simp: nth_append)
      with 3 links_ok_node [OF assms(1), of i] show ?thesis by (auto simp: nth_append)
    qed (use assms in \<open>auto simp: nth_append\<close>)
  qed
  moreover have "\<exists>i. Suc i < length ?ns \<and> ?ns ! i = prev \<and> ?ns ! Suc i = m" if "(m, prev) \<in> ?pend" for m prev
  proof (cases "(m, prev) \<in> pend")
    case True
    with assms(1) obtain i where "Suc i < length ns" "ns ! i = prev" "ns ! Suc i = m" using links_ok_pend by blast
    then show ?thesis by (auto simp: nth_append intro!: exI [of _ i])
  next
    case False
    with that have "m = n" "prev = last ns" by auto
    with assms(2) show ?thesis by (auto simp: nth_append last_conv_nth intro!: exI [of _ "length ns - 1"])
  qed
  ultimately show ?thesis unfolding links_ok_def by blast
qed

lemma links_ok_link:
  assumes "links_ok q pend ns" and "distinct ns" and "(n, prev) \<in> pend"
  shows "links_ok (upd_node prev (\<lambda>x. x\<lparr>n_next := Some n\<rparr>) q) (pend - {(n, prev)}) ns"
proof -
  from assms(1,3) obtain j where j: "Suc j < length ns" "ns ! j = prev" "ns ! Suc j = n" using links_ok_pend by blast
  have eq: "ns ! i = prev \<longleftrightarrow> i = j" if "i < length ns" for i
    using that j assms(2) by (auto simp: nth_eq_iff_index_eq)
  have "\<exists>x. the_node (ns ! i) (upd_node prev (\<lambda>x. x\<lparr>n_next := Some n\<rparr>) q) = Some x \<and>
      n_next x = (if Suc i < length ns \<and> (ns ! Suc i, ns ! i) \<notin> pend - {(n, prev)} then Some (ns ! Suc i) else None)"
    if "i < length ns" for i
  proof -
    from assms(1) that obtain x where x: "the_node (ns ! i) q = Some x"
      "n_next x = (if Suc i < length ns \<and> (ns ! Suc i, ns ! i) \<notin> pend then Some (ns ! Suc i) else None)"
      unfolding links_ok_def by blast
    show ?thesis using x j eq [OF that] by (cases "i = j") (auto simp: the_node_upd)
  qed
  moreover have "\<exists>i. Suc i < length ns \<and> ns ! i = p \<and> ns ! Suc i = m" if "(m, p) \<in> pend - {(n, prev)}" for m p
    using that assms(1) by (auto simp: links_ok_def)
  ultimately show ?thesis unfolding links_ok_def by blast
qed

lemma links_ok_tl:
  assumes "links_ok q pend ns" and "Suc 0 < length ns" and "distinct ns" and "(ns ! 1, ns ! 0) \<notin> pend"
  shows "links_ok q pend (tl ns)"
proof -
  have "\<exists>i. Suc i < length (tl ns) \<and> tl ns ! i = p \<and> tl ns ! Suc i = m" if "(m, p) \<in> pend" for m p
  proof -
    from assms(1) that obtain i where i: "Suc i < length ns" "ns ! i = p" "ns ! Suc i = m" using links_ok_pend by blast
    with that assms(4) obtain j where "i = Suc j" by (cases i) auto
    with i show ?thesis by (auto simp: nth_tl intro!: exI [of _ j])
  qed
  moreover have "\<exists>x. the_node (tl ns ! i) q = Some x \<and>
      n_next x = (if Suc i < length (tl ns) \<and> (tl ns ! Suc i, tl ns ! i) \<notin> pend then Some (tl ns ! Suc i) else None)"
    if "i < length (tl ns)" for i
    using assms(1) that unfolding links_ok_def by (auto simp: nth_tl dest!: spec [of _ "Suc i"] simp del: length_tl)
      (auto simp: nth_tl)
  ultimately show ?thesis unfolding links_ok_def by blast
qed

lemma data_ok_cong:
  assumes "data_ok q k ns vs" and "\<And>m. m \<in> set ns \<Longrightarrow> map_option n_data (the_node m q') = map_option n_data (the_node m q)"
  shows "data_ok q' k ns vs"
  using assms by (auto simp: data_ok_def)

lemma data_ok_append:
  assumes "data_ok q k ns vs" and "the_node n q = Some x" "n_data x = Holds v" and "k \<le> length vs"
  shows "data_ok q k (ns @ [n]) (vs @ [v])"
  using assms by (auto simp: data_ok_def nth_append less_Suc_eq)

lemma data_ok_take:
  assumes "data_ok q 0 ns vs" and "distinct ns" and "Suc 0 < length ns"
  shows "data_ok (upd_node (ns ! 1) f q) 1 ns vs"
  using assms by (auto simp: data_ok_def the_node_upd nth_eq_iff_index_eq)

lemma data_ok_tl:
  assumes "data_ok q 1 ns vs" and "vs \<noteq> []"
  shows "data_ok q 0 (tl ns) (tl vs)"
  using assms by (auto simp: data_ok_def nth_tl)

lemma p_at_goto:
  "p_at p' pc' (p_goto p pc s) \<longleftrightarrow> (if p' = p then p < length (ms_producers s) \<and> pc' = pc else p_at p' pc' s)"
  by (auto simp: p_at_def p_goto_def nth_list_update)

lemma p_at_upd [simp]:
  "p_at p pc (s\<lparr>ms_q := q\<rparr>) = p_at p pc s" "p_at p pc (s\<lparr>ms_chain := c\<rparr>) = p_at p pc s"
  "p_at p pc (s\<lparr>ms_consumer := k\<rparr>) = p_at p pc s" "p_at p pc (s\<lparr>ms_sent := vs\<rparr>) = p_at p pc s"
  "p_at p pc (s\<lparr>ms_received := vs\<rparr>) = p_at p pc s"
  by (simp_all add: p_at_def)

lemma pending_upd [simp]:
  "pending (s\<lparr>ms_q := q\<rparr>) = pending s" "pending (s\<lparr>ms_chain := c\<rparr>) = pending s"
  "pending (s\<lparr>ms_consumer := k\<rparr>) = pending s" "pending (s\<lparr>ms_sent := vs\<rparr>) = pending s"
  "pending (s\<lparr>ms_received := vs\<rparr>) = pending s"
  by (simp_all add: pending_def)

lemma p_goto_sel [simp]:
  "ms_q (p_goto p pc s) = ms_q s" "ms_consumer (p_goto p pc s) = ms_consumer s" "ms_chain (p_goto p pc s) = ms_chain s"
  "ms_sent (p_goto p pc s) = ms_sent s" "ms_received (p_goto p pc s) = ms_received s"
  by (simp_all add: p_goto_def)

lemma p_at_unique: "p_at p pc s \<Longrightarrow> p_at p pc' s \<Longrightarrow> pc = pc'"
  by (simp add: p_at_def)

lemma p_at_bound: "p_at p pc s \<Longrightarrow> p < length (ms_producers s)"
  by (simp add: p_at_def)

lemma pending_new:
  assumes "p_at p PIdle s"
  shows "pending (p_goto p (PNew n v) s) = pending s"
proof -
  have "p' \<noteq> p" if "p_at p' (PSwapped a b) s" for p' a b using p_at_unique [OF assms] that by blast
  then show ?thesis by (auto simp: pending_def p_at_goto)
qed

lemma pending_swap:
  assumes "p_at p (PNew n v) s"
  shows "pending (p_goto p (PSwapped n prev) s) = insert (n, prev) (pending s)"
proof -
  have "p' \<noteq> p" if "p_at p' (PSwapped a b) s" for p' a b using p_at_unique [OF assms] that by blast
  then show ?thesis using p_at_bound [OF assms] by (auto simp: pending_def p_at_goto)
qed

lemma pending_linked:
  assumes "p_at p (PSwapped n prev) s" and "swaps_ok s"
  shows "pending (p_goto p PIdle s) = pending s - {(n, prev)}"
proof -
  have at: "p_at p' (PSwapped a b) (p_goto p PIdle s) \<longleftrightarrow> p' \<noteq> p \<and> p_at p' (PSwapped a b) s" for p' a b
    by (simp add: p_at_goto)
  have ex: "(\<exists>p'. p' \<noteq> p \<and> p_at p' (PSwapped a b) s) \<longleftrightarrow> (\<exists>p'. p_at p' (PSwapped a b) s) \<and> (a, b) \<noteq> (n, prev)" for a b
  proof (cases "(a, b) = (n, prev)")
    case True
    with assms show ?thesis unfolding swaps_ok_def by blast
  next
    case False
    then have "p' \<noteq> p" if "p_at p' (PSwapped a b) s" for p' using p_at_unique [OF assms(1)] that by blast
    with False show ?thesis by blast
  qed
  have "(a, b) \<in> pending (p_goto p PIdle s) \<longleftrightarrow> (a, b) \<in> pending s - {(n, prev)}" for a b
    using ex [of a b] by (simp add: pending_def at)
  then show ?thesis by (intro set_eqI) (metis surj_pair)
qed

lemma links_alive: "links_ok q pend ns \<Longrightarrow> m \<in> set ns \<Longrightarrow> the_node m q \<noteq> None"
  using links_ok_node by (metis in_set_conv_nth option.distinct(1))

lemma news_uniqueD: "news_unique s \<Longrightarrow> p_at p (PNew n v) s \<Longrightarrow> p_at p' (PNew n v') s \<Longrightarrow> p = p'"
  unfolding news_unique_def by blast

lemma news_uniqueI:
  "(\<And>p p' n v v'. p_at p (PNew n v) s \<Longrightarrow> p_at p' (PNew n v') s \<Longrightarrow> p = p') \<Longrightarrow> news_unique s"
  unfolding news_unique_def by blast

lemma values_okI:
  "data_ok (ms_q s) (taken (ms_consumer s)) (ms_chain s) vs \<Longrightarrow> ms_sent s = base @ vs \<Longrightarrow>
   ms_received s = base @ take (taken (ms_consumer s)) vs \<Longrightarrow> values_ok s"
  unfolding values_ok_def by blast

lemma mpsc_inv_p_new:
  assumes inv: "mpsc_inv s" and p: "p_at p PIdle s" and new: "mpsc_node_new v (ms_q s) = (n, q)"
  shows "mpsc_inv (p_goto p (PNew n v) (s\<lparr>ms_q := q\<rparr>))"
proof -
  let ?s = "p_goto p (PNew n v) (s\<lparr>ms_q := q\<rparr>)"
  note nn = the_node_new [OF new]
  have links: "links_ok (ms_q s) (pending s) (ms_chain s)" using inv by (simp add: mpsc_inv_def)
  have old: "the_node m q = the_node m (ms_q s)" if "the_node m (ms_q s) \<noteq> None" for m using nn(1,2) that by auto
  have same: "the_node m q = the_node m (ms_q s)" if "m \<in> set (ms_chain s)" for m
    using links_alive [OF links that] old by blast
  have pend: "pending ?s = pending s" using pending_new [of p "s\<lparr>ms_q := q\<rparr>"] p by simp
  have "links_ok q (pending s) (ms_chain s)" using links by (rule links_ok_cong) (simp add: same)
  moreover have "values_ok ?s"
    using inv data_ok_cong [of "ms_q s" _ "ms_chain s" _ q] same by (auto simp: mpsc_inv_def values_ok_def)
  moreover have "news_ok ?s"
  proof -
    have "n \<notin> set (ms_chain s)" using links_alive [OF links] nn(2) by blast
    moreover have "ms_consumer s \<noteq> KDelete n" using inv nn(2) by (auto simp: mpsc_inv_def consumer_ok_def)
    moreover have "m \<noteq> n" if "p_at p' (PNew m v') s" for p' m v'
      using inv that nn(2) by (auto simp: mpsc_inv_def news_ok_def)
    ultimately show ?thesis using inv nn(1) by (auto simp: mpsc_inv_def news_ok_def p_at_goto)
  qed
  moreover have "news_unique ?s"
  proof -
    have "m \<noteq> n" if "p_at p' (PNew m v') s" for p' m v'
      using inv that nn(2) by (auto simp: mpsc_inv_def news_ok_def)
    then show ?thesis using news_uniqueD [of s] inv by (intro news_uniqueI) (auto simp: mpsc_inv_def p_at_goto split: if_splits)
  qed
  moreover have "swaps_ok ?s" using inv by (auto simp: mpsc_inv_def swaps_ok_def p_at_goto)
  moreover have "consumer_ok ?s"
    using inv old pend by (auto simp: mpsc_inv_def consumer_ok_def split: consumer_pc.splits)
  ultimately show ?thesis using inv nn(3,4) pend by (simp add: mpsc_inv_def ends_ok_def)
qed

lemma mpsc_inv_p_swap:
  assumes inv: "mpsc_inv s" and p: "p_at p (PNew n v) s" and swap: "mpsc_exchange n (ms_q s) = (prev, q)"
  shows "mpsc_inv (p_goto p (PSwapped n prev) (s\<lparr>ms_q := q, ms_chain := ms_chain s @ [n], ms_sent := ms_sent s @ [v]\<rparr>))"
    (is "mpsc_inv ?s")
proof -
  have q: "q = (ms_q s)\<lparr>q_head := n\<rparr>" "prev = q_head (ms_q s)" using swap by (auto simp: mpsc_exchange_def)
  have ends: "ends_ok (ms_q s) (ms_chain s)" and links: "links_ok (ms_q s) (pending s) (ms_chain s)"
    and new: "n \<notin> set (ms_chain s)" "the_node n (ms_q s) = Some \<lparr>n_data = Holds v, n_next = None\<rparr>" "ms_consumer s \<noteq> KDelete n"
    using inv p by (auto simp: mpsc_inv_def news_ok_def)
  have pend: "pending ?s = insert (n, prev) (pending s)"
    using pending_swap [of p n v "s\<lparr>ms_q := q, ms_chain := ms_chain s @ [n], ms_sent := ms_sent s @ [v]\<rparr>"] p by simp
  have last: "prev = last (ms_chain s)" "ms_chain s \<noteq> []" "distinct (ms_chain s)" using ends q by (auto simp: ends_ok_def)
  have "ends_ok q (ms_chain s @ [n])" using ends new q by (auto simp: ends_ok_def)
  moreover have "links_ok q (insert (n, prev) (pending s)) (ms_chain s @ [n])"
    using links_ok_append [OF links last(2) new(1) last(3) new(2)] last(1) by (auto simp: q intro: links_ok_cong)
  moreover have u: "news_unique s" using inv by (simp add: mpsc_inv_def)
  moreover have "news_ok ?s"
    using inv q news_uniqueD [OF u p] by (auto simp: mpsc_inv_def news_ok_def p_at_goto)
  moreover have "news_unique ?s"
    using news_uniqueD [OF u] by (intro news_uniqueI) (auto simp: p_at_goto split: if_splits)
  moreover have "swaps_ok ?s"
  proof -
    have "(n, a) \<notin> pending s" for a using links_ok_pend [OF links] new(1) by (metis nth_mem)
    then have "\<not> p_at p' (PSwapped n a) s" for p' a by (auto simp: pending_def)
    then show ?thesis using inv by (auto simp: mpsc_inv_def swaps_ok_def p_at_goto)
  qed
  moreover have "consumer_ok ?s"
    using inv new(1,3) pend unfolding mpsc_inv_def consumer_ok_def next_ok_def
    by (auto simp: q nth_append split: consumer_pc.splits)
  moreover have "values_ok ?s"
  proof -
    from inv obtain base vs where d: "data_ok (ms_q s) (taken (ms_consumer s)) (ms_chain s) vs" "ms_sent s = base @ vs"
      "ms_received s = base @ take (taken (ms_consumer s)) vs"
      by (auto simp: mpsc_inv_def values_ok_def)
    have "consumer_ok s" using inv by (simp add: mpsc_inv_def)
    then have k: "taken (ms_consumer s) \<le> length vs"
      using d(1) by (simp add: consumer_ok_def next_ok_def data_ok_def taken_def Suc_le_eq split: consumer_pc.splits)
    from data_ok_append [OF d(1) new(2) _ k, of v] have "data_ok q (taken (ms_consumer s)) (ms_chain s @ [n]) (vs @ [v])"
      by (simp add: data_ok_def q)
    with d k show ?thesis by (intro values_okI [of _ "vs @ [v]" base]) simp_all
  qed
  ultimately show ?thesis using pend by (simp add: mpsc_inv_def)
qed

lemma mpsc_inv_p_link:
  assumes inv: "mpsc_inv s" and p: "p_at p (PSwapped n prev) s" and link: "mpsc_link prev n (ms_q s) = Some q"
  shows "mpsc_inv (p_goto p PIdle (s\<lparr>ms_q := q\<rparr>))" (is "mpsc_inv ?s")
proof -
  let ?f = "\<lambda>x. x\<lparr>n_next := Some n\<rparr>"
  have q: "q = upd_node prev ?f (ms_q s)" using link by (auto simp: mpsc_link_def dest!: bind_eq_Some_conv [THEN iffD1])
  have links: "links_ok (ms_q s) (pending s) (ms_chain s)" and d: "distinct (ms_chain s)" and sw: "swaps_ok s"
    using inv by (auto simp: mpsc_inv_def ends_ok_def)
  have mem: "(n, prev) \<in> pending s" using p by (auto simp: pending_def)
  with links_ok_pend [OF links] have prev: "prev \<in> set (ms_chain s)" by (metis Suc_lessD nth_mem)
  have pend: "pending ?s = pending s - {(n, prev)}"
    using pending_linked [of p n prev "s\<lparr>ms_q := q\<rparr>"] p sw by (simp add: swaps_ok_def)
  have "links_ok q (pending s - {(n, prev)}) (ms_chain s)" unfolding q by (rule links_ok_link [OF links d mem])
  moreover have "news_ok ?s"
    using inv prev by (auto simp: mpsc_inv_def news_ok_def p_at_goto q the_node_upd)
  moreover have "news_unique ?s"
    using news_uniqueD [of s] inv by (intro news_uniqueI) (auto simp: mpsc_inv_def p_at_goto split: if_splits)
  moreover have "swaps_ok ?s" using sw by (auto simp: swaps_ok_def p_at_goto)
  moreover have "consumer_ok ?s"
    using inv pend unfolding mpsc_inv_def consumer_ok_def next_ok_def
    by (auto simp: q the_node_upd split: consumer_pc.splits)
  moreover have "data_ok q k (ms_chain s) vs" if "data_ok (ms_q s) k (ms_chain s) vs" for k vs
    using that by (rule data_ok_cong) (auto simp: q the_node_upd option.map_comp o_def)
  then have "values_ok ?s" using inv by (auto simp: mpsc_inv_def values_ok_def)
  ultimately show ?thesis using inv pend by (simp add: mpsc_inv_def ends_ok_def q)
qed

lemma mpsc_inv_k_load:
  assumes inv: "mpsc_inv s" and "ms_consumer s = KIdle" and load: "mpsc_load_next (ms_q s) = Some (Some n)"
  shows "mpsc_inv (s\<lparr>ms_consumer := KNext n\<rparr>)"
proof -
  have links: "links_ok (ms_q s) (pending s) (ms_chain s)" and ends: "ends_ok (ms_q s) (ms_chain s)"
    using inv by (auto simp: mpsc_inv_def)
  then have "0 < length (ms_chain s)" "ms_chain s ! 0 = q_tail (ms_q s)" by (auto simp: ends_ok_def hd_conv_nth)
  with links_ok_node [OF links, of 0] load have "next_ok n (pending s) (ms_chain s)"
    by (auto simp: mpsc_load_next_def next_ok_def split: if_splits)
  then show ?thesis using inv assms(2)
    by (auto simp: mpsc_inv_def consumer_ok_def news_ok_def news_unique_def swaps_ok_def values_ok_def taken_def)
qed

lemma mpsc_inv_k_take:
  assumes inv: "mpsc_inv s" and k: "ms_consumer s = KNext n" and take: "mpsc_take u n (ms_q s) = Some (v, q)"
  shows "mpsc_inv (s\<lparr>ms_q := q, ms_consumer := KTaken n, ms_received := ms_received s @ [v]\<rparr>)" (is "mpsc_inv ?s")
proof -
  obtain x f where x: "the_node n (ms_q s) = Some x" "n_data x = Holds v" and q: "q = upd_node n f (ms_q s)"
    and f: "\<And>y. n_next (f y) = n_next y"
    using take by (auto simp: mpsc_take_def dest!: bind_eq_Some_conv [THEN iffD1] split: cell_state.splits)
  have parts: "links_ok (ms_q s) (pending s) (ms_chain s)" "distinct (ms_chain s)" "next_ok n (pending s) (ms_chain s)"
    using inv k by (auto simp: mpsc_inv_def ends_ok_def consumer_ok_def)
  then have n: "Suc 0 < length (ms_chain s)" "n = ms_chain s ! 1" "n \<in> set (ms_chain s)" by (auto simp: next_ok_def)
  have "links_ok q (pending s) (ms_chain s)"
    using parts(1) by (rule links_ok_cong) (auto simp: q the_node_upd f option.map_comp o_def)
  moreover have "news_ok ?s" using inv n(3) by (auto simp: mpsc_inv_def news_ok_def q the_node_upd)
  moreover have "values_ok ?s"
  proof -
    from inv k obtain base vs where d: "data_ok (ms_q s) 0 (ms_chain s) vs" "ms_sent s = base @ vs" "ms_received s = base"
      by (auto simp: mpsc_inv_def values_ok_def taken_def)
    have vs: "0 < length vs" "length (ms_chain s) = Suc (length vs)" using d(1) n(1) by (auto simp: data_ok_def)
    then have "map_option n_data (the_node (ms_chain s ! Suc 0) (ms_q s)) = Some (Holds (vs ! 0))"
      using d(1) by (simp add: data_ok_def)
    then have "vs ! 0 = v" using x n(2) by simp
    moreover have "data_ok q 1 (ms_chain s) vs" using data_ok_take [OF d(1) parts(2) n(1)] n(2) q by simp
    ultimately show ?thesis
      by (intro values_okI [of _ vs base]) (use d vs in \<open>simp_all add: taken_def take_Suc_conv_app_nth\<close>)
  qed
  ultimately show ?thesis using inv parts(3) by (simp add: mpsc_inv_def ends_ok_def q consumer_ok_def news_unique_def swaps_ok_def)
qed

lemma mpsc_inv_k_store:
  assumes inv: "mpsc_inv s" and k: "ms_consumer s = KTaken n" and adv: "mpsc_advance n (ms_q s) = (old, q)"
  shows "mpsc_inv (s\<lparr>ms_q := q, ms_consumer := KDelete old, ms_chain := tl (ms_chain s)\<rparr>)" (is "mpsc_inv ?s")
proof -
  have q: "q = (ms_q s)\<lparr>q_tail := n\<rparr>" "old = q_tail (ms_q s)" using adv by (auto simp: mpsc_advance_def)
  have parts: "links_ok (ms_q s) (pending s) (ms_chain s)" "ends_ok (ms_q s) (ms_chain s)" "next_ok n (pending s) (ms_chain s)"
    using inv k by (auto simp: mpsc_inv_def consumer_ok_def)
  then obtain r where c: "ms_chain s = old # n # r" "distinct (old # n # r)" "(n, old) \<notin> pending s"
    by (auto simp: next_ok_def ends_ok_def q Suc_less_eq2 length_Suc_conv neq_Nil_conv)
  have "ends_ok q (tl (ms_chain s))" using parts(2) c by (auto simp: ends_ok_def q)
  moreover have "links_ok q (pending s) (tl (ms_chain s))"
    using links_ok_tl [OF parts(1)] c by (auto simp: q intro: links_ok_cong)
  moreover have "the_node old (ms_q s) \<noteq> None" using links_alive [OF parts(1)] c by simp
  moreover have "news_ok ?s" using inv c by (auto simp: mpsc_inv_def news_ok_def q)
  moreover have "values_ok ?s"
  proof -
    from inv k obtain base vs where d: "data_ok (ms_q s) 1 (ms_chain s) vs" "ms_sent s = base @ vs" "ms_received s = base @ take 1 vs"
      by (auto simp: mpsc_inv_def values_ok_def taken_def)
    have "vs \<noteq> []" using d(1) c by (auto simp: data_ok_def)
    then obtain v vs' where "vs = v # vs'" by (cases vs) auto
    with data_ok_tl [OF d(1) \<open>vs \<noteq> []\<close>] d(2,3) show ?thesis
      by (auto simp: values_ok_def taken_def data_ok_def q intro!: exI [of _ "base @ [v]"] exI [of _ vs'])
  qed
  ultimately show ?thesis using inv c by (simp add: mpsc_inv_def consumer_ok_def news_unique_def swaps_ok_def q)
qed

lemma mpsc_inv_k_delete:
  assumes inv: "mpsc_inv s" and k: "ms_consumer s = KDelete n" and del: "mpsc_delete n (ms_q s) = Some q"
  shows "mpsc_inv (s\<lparr>ms_q := q, ms_consumer := KIdle\<rparr>)" (is "mpsc_inv ?s")
proof -
  note nd = the_node_delete [OF del]
  have n: "n \<notin> set (ms_chain s)" and links: "links_ok (ms_q s) (pending s) (ms_chain s)"
    using inv k by (auto simp: mpsc_inv_def consumer_ok_def)
  have same: "the_node m q = the_node m (ms_q s)" if "m \<in> set (ms_chain s)" for m using nd(1) n that by auto
  have "links_ok q (pending s) (ms_chain s)" using links by (rule links_ok_cong) (simp add: same)
  moreover have "news_ok ?s" using inv k nd(1) by (auto simp: mpsc_inv_def news_ok_def)
  moreover have "values_ok ?s"
    using inv k data_ok_cong [of "ms_q s" 0 "ms_chain s" _ q] same by (auto simp: mpsc_inv_def values_ok_def taken_def)
  ultimately show ?thesis using inv nd(2,3) by (simp add: mpsc_inv_def ends_ok_def consumer_ok_def news_unique_def swaps_ok_def)
qed

lemma mpsc_step_inv: "mpsc_step u s s' \<Longrightarrow> mpsc_inv s \<Longrightarrow> mpsc_inv s'"
  by (induction rule: mpsc_step.induct)
    (simp_all add: mpsc_inv_p_new mpsc_inv_p_swap mpsc_inv_p_link mpsc_inv_k_load mpsc_inv_k_take mpsc_inv_k_store mpsc_inv_k_delete)

abbreviation mpsc_reach :: "bool \<Rightarrow> nat \<Rightarrow> 'a mpsc_state \<Rightarrow> bool" where
  "mpsc_reach u np s \<equiv> (mpsc_step u)\<^sup>*\<^sup>* (mpsc_init np) s"

lemma mpsc_reach_inv: "mpsc_reach u np s \<Longrightarrow> mpsc_inv s"
  by (induction rule: rtranclp_induct) (auto simp: mpsc_inv_init intro: mpsc_step_inv)

section \<open>Properties\<close>

text \<open>
  What the step of a component needs of the store: the node it is about to access, if any, has
  not been deleted, and the value it is about to move is there.
\<close>

fun producer_safe :: "'a mpsc \<Rightarrow> 'a producer_pc \<Rightarrow> bool" where
  "producer_safe q (PSwapped n prev) \<longleftrightarrow> mpsc_link prev n q \<noteq> None"
| "producer_safe q _ \<longleftrightarrow> True"

fun consumer_safe :: "bool \<Rightarrow> 'a mpsc \<Rightarrow> consumer_pc \<Rightarrow> bool" where
  "consumer_safe u q KIdle \<longleftrightarrow> mpsc_load_next q \<noteq> None"
| "consumer_safe u q (KNext n) \<longleftrightarrow> mpsc_take u n q \<noteq> None"
| "consumer_safe u q (KTaken n) \<longleftrightarrow> True"
| "consumer_safe u q (KDelete n) \<longleftrightarrow> mpsc_delete n q \<noteq> None"

text \<open>
  C6: with any number of producers and one consumer the command queue loses nothing, duplicates
  nothing and keeps the order of the producers' exchanges, and no component ever touches a
  deleted node: in every reachable state what was received is the beginning of what was
  sent, and the next access of each producer and of the consumer is to a live node.
\<close>

theorem mpsc_fifo_memory_safe:
  assumes "mpsc_reach u np s"
  shows "prefix (ms_received s) (ms_sent s) \<and> list_all (producer_safe (ms_q s)) (ms_producers s) \<and>
    consumer_safe u (ms_q s) (ms_consumer s)"
proof -
  have inv: "mpsc_inv s" by (rule mpsc_reach_inv [OF assms])
  have links: "links_ok (ms_q s) (pending s) (ms_chain s)" and ends: "ends_ok (ms_q s) (ms_chain s)"
    using inv by (simp_all add: mpsc_inv_def)
  note alive = links_alive [OF links]
  have "\<exists>base vs k. ms_sent s = base @ vs \<and> ms_received s = base @ take k vs"
    using inv by (auto simp: mpsc_inv_def values_ok_def)
  then have "prefix (ms_received s) (ms_sent s)" by (auto simp: take_is_prefix)
  moreover have "producer_safe (ms_q s) pc" if "pc \<in> set (ms_producers s)" for pc
  proof (cases pc)
    case (PSwapped n prev)
    with that have "(n, prev) \<in> pending s" by (auto simp: pending_def p_at_def in_set_conv_nth)
    with links_ok_pend [OF links] have "prev \<in> set (ms_chain s)" by (metis Suc_lessD nth_mem)
    with alive [of prev] PSwapped show ?thesis by (auto simp: mpsc_link_def)
  qed auto
  moreover have "consumer_safe u (ms_q s) (ms_consumer s)"
  proof (cases "ms_consumer s")
    case KIdle
    moreover have "q_tail (ms_q s) \<in> set (ms_chain s)" using ends by (auto simp: ends_ok_def dest: hd_in_set)
    ultimately show ?thesis using alive [of "q_tail (ms_q s)"] by (auto simp: mpsc_load_next_def)
  next
    case (KNext n)
    with inv obtain base vs where d: "data_ok (ms_q s) 0 (ms_chain s) vs" and n: "next_ok n (pending s) (ms_chain s)"
      by (auto simp: mpsc_inv_def values_ok_def consumer_ok_def taken_def)
    then have "0 < length vs" by (auto simp: data_ok_def next_ok_def)
    with d n have "map_option n_data (the_node n (ms_q s)) = Some (Holds (vs ! 0))" by (simp add: data_ok_def next_ok_def)
    with KNext show ?thesis by (auto simp: mpsc_take_def)
  next
    case (KDelete n)
    with inv show ?thesis by (auto simp: mpsc_inv_def consumer_ok_def mpsc_delete_def)
  qed auto
  ultimately show ?thesis by (auto simp: list_all_iff)
qed

section \<open>Runs\<close>

text \<open>Schedules as lists of moves, to exhibit reachable states.\<close>

datatype 'a mpsc_act = AWrite nat 'a | AProducer nat | AConsumer

fun producer_move :: "nat \<Rightarrow> 'a producer_pc \<Rightarrow> 'a mpsc_state \<Rightarrow> 'a mpsc_state option" where
  "producer_move p PIdle s = None"
| "producer_move p (PNew n v) s =
     (case mpsc_exchange n (ms_q s) of
        (prev, q) \<Rightarrow> Some (p_goto p (PSwapped n prev)
          (s\<lparr>ms_q := q, ms_chain := ms_chain s @ [n], ms_sent := ms_sent s @ [v]\<rparr>)))"
| "producer_move p (PSwapped n prev) s =
     do { q \<leftarrow> mpsc_link prev n (ms_q s); Some (p_goto p PIdle (s\<lparr>ms_q := q\<rparr>)) }"

fun consumer_move :: "bool \<Rightarrow> consumer_pc \<Rightarrow> 'a mpsc_state \<Rightarrow> 'a mpsc_state option" where
  "consumer_move u KIdle s = do { next \<leftarrow> mpsc_load_next (ms_q s); n \<leftarrow> next; Some (s\<lparr>ms_consumer := KNext n\<rparr>) }"
| "consumer_move u (KNext n) s =
     do { (v, q) \<leftarrow> mpsc_take u n (ms_q s);
          Some (s\<lparr>ms_q := q, ms_consumer := KTaken n, ms_received := ms_received s @ [v]\<rparr>) }"
| "consumer_move u (KTaken n) s =
     (case mpsc_advance n (ms_q s) of
        (old, q) \<Rightarrow> Some (s\<lparr>ms_q := q, ms_consumer := KDelete old, ms_chain := tl (ms_chain s)\<rparr>))"
| "consumer_move u (KDelete n) s =
     do { q \<leftarrow> mpsc_delete n (ms_q s); Some (s\<lparr>ms_q := q, ms_consumer := KIdle\<rparr>) }"

fun mpsc_move :: "bool \<Rightarrow> 'a mpsc_act \<Rightarrow> 'a mpsc_state \<Rightarrow> 'a mpsc_state option" where
  "mpsc_move u (AWrite p v) s =
     (if p < length (ms_producers s) \<and> (case ms_producers s ! p of PIdle \<Rightarrow> True | _ \<Rightarrow> False) then
        (case mpsc_node_new v (ms_q s) of (n, q) \<Rightarrow> Some (p_goto p (PNew n v) (s\<lparr>ms_q := q\<rparr>)))
      else None)"
| "mpsc_move u (AProducer p) s = (if p < length (ms_producers s) then producer_move p (ms_producers s ! p) s else None)"
| "mpsc_move u AConsumer s = consumer_move u (ms_consumer s) s"

lemma producer_move_step: "p_at p pc s \<Longrightarrow> producer_move p pc s = Some s' \<Longrightarrow> mpsc_step u s s'"
  by (cases pc) (auto dest!: bind_eq_Some_conv [THEN iffD1] intro: mpsc_step.intros split: prod.splits)

lemma consumer_move_step: "ms_consumer s = pc \<Longrightarrow> consumer_move u pc s = Some s' \<Longrightarrow> mpsc_step u s s'"
  by (cases pc) (auto dest!: bind_eq_Some_conv [THEN iffD1] intro: mpsc_step.intros split: prod.splits)

lemma mpsc_move_step:
  assumes "mpsc_move u act s = Some s'"
  shows "mpsc_step u s s'"
proof (cases act)
  case (AWrite p v)
  with assms show ?thesis
    by (auto simp: p_at_def intro: mpsc_step.p_new split: if_splits prod.splits producer_pc.splits)
next
  case (AProducer p)
  with assms show ?thesis by (auto simp: p_at_def intro!: producer_move_step split: if_splits)
next
  case AConsumer
  with assms show ?thesis by (auto intro: consumer_move_step)
qed

lemma mpsc_run_reach: "fold_opt (mpsc_move u) acts s = Some s' \<Longrightarrow> (mpsc_step u)\<^sup>*\<^sup>* s s'"
proof (induction acts arbitrary: s)
  case (Cons act acts)
  then obtain s1 where "mpsc_move u act s = Some s1" "fold_opt (mpsc_move u) acts s1 = Some s'"
    by (auto dest!: bind_eq_Some_conv [THEN iffD1])
  with Cons.IH mpsc_move_step converse_rtranclp_into_rtranclp show ?case by metis
qed simp

text \<open>A producer's node is linked, another's is swapped in, and the consumer takes the first value.\<close>

definition mpsc_example :: "nat mpsc_state" where
  "mpsc_example =
     \<lparr>ms_q = \<lparr>q_store = [Some \<lparr>n_data = Zeroed, n_next = Some 1\<rparr>, Some \<lparr>n_data = MovedFrom, n_next = None\<rparr>,
               Some \<lparr>n_data = Holds 8, n_next = None\<rparr>], q_head = 2, q_tail = 0\<rparr>,
      ms_producers = [PIdle, PSwapped 2 1], ms_consumer = KTaken 1, ms_chain = [0, 1, 2], ms_sent = [7, 8], ms_received = [7]\<rparr>"

lemma mpsc_example_reach: "mpsc_reach True 2 mpsc_example"
  by (rule mpsc_run_reach [of _ "[AWrite 0 7, AProducer 0, AProducer 0, AWrite 1 8, AProducer 1, AConsumer, AConsumer]"])
    (simp add: mpsc_example_def mpsc_init_def mpsc_new_def mpsc_node_new_def mpsc_exchange_def mpsc_link_def
      mpsc_load_next_def mpsc_take_def the_node_def upd_node_def p_goto_def numeral_2_eq_2)

theorem mpsc_fifo_memory_safe_witness:
  "mpsc_reach True 2 mpsc_example \<and> prefix (ms_received mpsc_example) (ms_sent mpsc_example) \<and>
   ms_producers mpsc_example = [PIdle, PSwapped 2 1] \<and> list_all (producer_safe (ms_q mpsc_example)) (ms_producers mpsc_example)"
  using mpsc_fifo_memory_safe [OF mpsc_example_reach] mpsc_example_reach by (simp add: mpsc_example_def)

section \<open>One thread\<close>

text \<open>
  Used by one thread the queue is a first-in first-out queue in the sense of \<open>Fifo_Queue\<close>.
\<close>

definition mpsc_rep :: "'a mpsc \<Rightarrow> nat \<Rightarrow> 'a list \<Rightarrow> bool" where
  "mpsc_rep q k vs \<longleftrightarrow> (\<exists>ns. ends_ok q ns \<and> links_ok q {} ns \<and> data_ok q 0 ns vs)"

lemma mpsc_rep_new: "mpsc_rep mpsc_new 0 []"
  unfolding mpsc_rep_def
  by (rule exI [of _ "[0]"]) (simp add: mpsc_new_def ends_ok_def links_ok_def data_ok_def the_node_def)

lemma mpsc_write_rep:
  assumes "mpsc_rep q k vs"
  shows "\<exists>q'. mpsc_write v q = Some q' \<and> mpsc_rep q' (Suc k) (vs @ [v])"
proof -
  from assms obtain ns where ends: "ends_ok q ns" and links: "links_ok q {} ns" and data: "data_ok q 0 ns vs"
    unfolding mpsc_rep_def by blast
  obtain n q1 where new: "mpsc_node_new v q = (n, q1)" by fastforce
  let ?q2 = "q1\<lparr>q_head := n\<rparr>" and ?f = "\<lambda>x. x\<lparr>n_next := Some n\<rparr>"
  note nn = the_node_new [OF new]
  have n: "n \<notin> set ns" using links_alive [OF links] nn(2) by blast
  have same: "the_node m q1 = the_node m q" if "m \<in> set ns" for m using nn(1) n that by auto
  have ns: "ns \<noteq> []" "distinct ns" "last ns = q_head q1" "hd ns = q_tail q1" using ends nn(3,4) by (auto simp: ends_ok_def)
  have "links_ok q1 {} ns" using links by (rule links_ok_cong) (simp add: same)
  from links_ok_append [OF this ns(1) n ns(2)] nn(1) have l: "links_ok q1 {(n, q_head q1)} (ns @ [n])" by (simp add: ns(3))
  then have l': "links_ok ?q2 {(n, q_head q1)} (ns @ [n])" by (rule links_ok_cong) simp
  from links_ok_link [OF this] ns(2) n have "links_ok (upd_node (q_head q1) ?f ?q2) {} (ns @ [n])" by simp
  moreover have "data_ok q1 0 ns vs" using data by (rule data_ok_cong) (simp add: same)
  from data_ok_append [OF this, of n _ v] nn(1) have "data_ok q1 0 (ns @ [n]) (vs @ [v])" by simp
  then have "data_ok (upd_node (q_head q1) ?f ?q2) 0 (ns @ [n]) (vs @ [v])"
    by (rule data_ok_cong) (auto simp: the_node_upd option.map_comp o_def)
  moreover have "ends_ok (upd_node (q_head q1) ?f ?q2) (ns @ [n])" using ns n by (simp add: ends_ok_def)
  moreover have "mpsc_write v q = Some (upd_node (q_head q1) ?f ?q2)"
  proof -
    have "q_head q1 \<in> set (ns @ [n])" using ns by (metis last_in_set set_append UnCI)
    then obtain y where "the_node (q_head q1) q1 = Some y" using links_alive [OF l] by blast
    then show ?thesis by (simp add: mpsc_write_def new mpsc_exchange_def mpsc_link_def)
  qed
  ultimately show ?thesis unfolding mpsc_rep_def by blast
qed

lemma mpsc_read_rep:
  assumes "mpsc_rep q k (v # vs)"
  shows "\<exists>q'. mpsc_read u q = Some (Some v, q') \<and> mpsc_rep q' k vs"
proof -
  from assms obtain ns where ends: "ends_ok q ns" and links: "links_ok q {} ns" and data: "data_ok q 0 ns (v # vs)"
    unfolding mpsc_rep_def by blast
  from data have len: "length ns = Suc (Suc (length vs))" by (simp add: data_ok_def)
  then obtain old n r where ns: "ns = old # n # r" by (auto simp: length_Suc_conv)
  let ?f = "\<lambda>x. x\<lparr>n_data := (if u then MovedFrom else Destroyed)\<rparr>"
  let ?q1 = "upd_node n ?f q" and ?q2 = "(upd_node n ?f q)\<lparr>q_tail := n\<rparr>"
  have d: "distinct ns" "q_tail q = old" "q_head q = last ns" using ends by (auto simp: ends_ok_def ns)
  have ld: "mpsc_load_next q = Some (Some n)" using links_ok_node [OF links, of 0] d by (auto simp: mpsc_load_next_def ns)
  have "map_option n_data (the_node n q) = Some (Holds v)" using data by (auto simp: data_ok_def ns)
  then have take: "mpsc_take u n q = Some (v, ?q1)" by (auto simp: mpsc_take_def)
  have "the_node old ?q2 \<noteq> None" using links_alive [OF links, of old] d(1) by (auto simp: ns the_node_upd)
  then obtain q3 where del: "mpsc_delete old ?q2 = Some q3" by (auto simp: mpsc_delete_def)
  note nd = the_node_delete [OF del]
  have "links_ok ?q2 {} ns" using links by (rule links_ok_cong) (auto simp: the_node_upd option.map_comp o_def)
  then have "links_ok ?q2 {} (tl ns)" by (rule links_ok_tl) (use d(1) in \<open>auto simp: ns\<close>)
  then have "links_ok q3 {} (tl ns)" by (rule links_ok_cong) (use d(1) nd(1) in \<open>auto simp: ns\<close>)
  moreover have "data_ok ?q1 1 ns (v # vs)" using data_ok_take [OF data d(1), of ?f] by (simp add: ns)
  then have "data_ok ?q1 0 (tl ns) vs" using data_ok_tl by fastforce
  then have "data_ok q3 0 (tl ns) vs" by (rule data_ok_cong) (use d(1) nd(1) in \<open>auto simp: ns\<close>)
  moreover have "ends_ok q3 (tl ns)" using d nd(2,3) by (auto simp: ends_ok_def ns)
  moreover have "mpsc_read u q = Some (Some v, q3)" using ld take del d(2) by (simp add: mpsc_read_def mpsc_advance_def)
  ultimately show ?thesis unfolding mpsc_rep_def by blast
qed

lemma mpsc_read_empty_rep:
  assumes "mpsc_rep q k []"
  shows "\<exists>q'. mpsc_read u q = Some (None, q') \<and> mpsc_rep q' k []"
proof -
  from assms obtain ns where "ends_ok q ns" "links_ok q {} ns" "length ns = 1" unfolding mpsc_rep_def data_ok_def by auto
  then have "mpsc_read u q = Some (None, q)" using links_ok_node [of q "{}" ns 0]
    by (auto simp: mpsc_read_def mpsc_load_next_def ends_ok_def length_Suc_conv)
  with assms show ?thesis by blast
qed

interpretation mq: fifo_queue mpsc_write "mpsc_read u" mpsc_rep "\<lambda>k. True" for u
proof unfold_locales
  show "\<exists>q'. mpsc_write x q = Some q' \<and> mpsc_rep q' (Suc n) (xs @ [x])" if "mpsc_rep q n xs" for q n and xs :: "'a list" and x
    by (rule mpsc_write_rep [OF that])
  show "\<exists>q'. mpsc_read u q = Some (Some x, q') \<and> mpsc_rep q' n xs" if "mpsc_rep q n (x # xs)" for q n x and xs :: "'a list"
    by (rule mpsc_read_rep [OF that])
  show "\<exists>q'. mpsc_read u q = Some (None, q') \<and> mpsc_rep q' n ([] :: 'a list)" if "mpsc_rep q n ([] :: 'a list)" for q n
    by (rule mpsc_read_empty_rep [OF that])
qed

lemma mpsc_single_thread_fifo:
  "\<exists>q1 q2. fold_opt mpsc_write vs mpsc_new = Some q1 \<and>
     repeat_opt (Suc (length vs)) (mpsc_read u) q1 = Some (map Some vs @ [None], q2)"
  by (rule mq.write_read_all [OF mpsc_rep_new]) simp

end
