(* ===== verification/Engine_Protocol.thy ===== *)
theory Engine_Protocol
  imports Engine Mpsc
begin

text \<open>
  The handshake between the threads, which push commands, and the engine, which executes
  them and sleeps (\<^verbatim>\<open>push_command\<close>, \<^verbatim>\<open>execute_commands\<close> and \<^verbatim>\<open>wait_all_routines\<close> of
  \<^verbatim>\<open>src/boson/src/engine.cc\<close>), under interleaving. The queue enters by what \<open>Mpsc\<close> shows of
  it: commands in the order of the exchanges, each out of reach until its producer has
  linked it. The poller enters by what \<open>Netpoller\<close> shows of it: an interrupt makes the
  current or the next wait return.

  \<^verbatim>\<open>command_pushers_.fetch_add(std::memory_order_release)\<close> adds the number of the
  enumerator, which is 3; so does the subtraction.
\<close>

section \<open>Steps\<close>

definition memory_order_release :: size_t where
  "memory_order_release = 3"

datatype 'a pusher_pc = UIdle | UAdded 'a | USwapped 'a | ULinked

datatype engine_pc = EReading | EGot | EChecking | EOuter | EWaiting

text \<open>
  A queued command carries its producer and whether it is linked. \<open>es_interrupt\<close> is the
  pending interrupt of the poller; \<open>es_sent\<close> and \<open>es_executed\<close> record the commands.
\<close>

record 'a engine_state =
  es_pushers :: size_t
  es_queue :: "(nat \<times> 'a \<times> bool) list"
  es_interrupt :: bool
  es_threads :: "'a pusher_pc list"
  es_engine :: engine_pc
  es_sent :: "'a list"
  es_executed :: "'a list"

definition es_init :: "nat \<Rightarrow> 'a engine_state" where
  "es_init n = \<lparr>es_pushers = 0, es_queue = [], es_interrupt = False, es_threads = replicate n UIdle,
     es_engine = EReading, es_sent = [], es_executed = []\<rparr>"

definition u_at :: "nat \<Rightarrow> 'a pusher_pc \<Rightarrow> 'a engine_state \<Rightarrow> bool" where
  "u_at p pc s \<longleftrightarrow> p < length (es_threads s) \<and> es_threads s ! p = pc"

definition u_goto :: "nat \<Rightarrow> 'a pusher_pc \<Rightarrow> 'a engine_state \<Rightarrow> 'a engine_state" where
  "u_goto p pc s = s\<lparr>es_threads := (es_threads s)[p := pc]\<rparr>"

definition link_of :: "nat \<Rightarrow> nat \<times> 'a \<times> bool \<Rightarrow> nat \<times> 'a \<times> bool" where
  "link_of p e = (case e of (q, c, linked) \<Rightarrow> (q, c, linked \<or> q = p))"

inductive engine_step :: "'a engine_state \<Rightarrow> 'a engine_state \<Rightarrow> bool" where
  u_add: "u_at p UIdle s \<Longrightarrow>
    engine_step s (u_goto p (UAdded c) (s\<lparr>es_pushers := es_pushers s + memory_order_release\<rparr>))"
| u_swap: "u_at p (UAdded c) s \<Longrightarrow>
    engine_step s (u_goto p (USwapped c) (s\<lparr>es_queue := es_queue s @ [(p, c, False)], es_sent := es_sent s @ [c]\<rparr>))"
| u_link: "u_at p (USwapped c) s \<Longrightarrow>
    engine_step s (u_goto p ULinked (s\<lparr>es_queue := map (link_of p) (es_queue s)\<rparr>))"
| u_interrupt: "u_at p ULinked s \<Longrightarrow> engine_step s (u_goto p UIdle (s\<lparr>es_interrupt := True\<rparr>))"
| e_read: "es_engine s = EReading \<Longrightarrow> es_queue s = (p, c, True) # rest \<Longrightarrow>
    engine_step s (s\<lparr>es_queue := rest, es_engine := EGot, es_executed := es_executed s @ [c]\<rparr>)"
| e_read_nothing: "es_engine s = EReading \<Longrightarrow> es_queue s = [] \<or> (\<exists>p c rest. es_queue s = (p, c, False) # rest) \<Longrightarrow>
    engine_step s (s\<lparr>es_engine := EChecking\<rparr>)"
| e_sub: "es_engine s = EGot \<Longrightarrow>
    engine_step s (s\<lparr>es_pushers := es_pushers s - memory_order_release, es_engine := EReading\<rparr>)"
| e_check: "es_engine s = EChecking \<Longrightarrow>
    engine_step s (s\<lparr>es_engine := (if 0 < es_pushers s then EReading else EOuter)\<rparr>)"
| e_outer: "es_engine s = EOuter \<Longrightarrow>
    engine_step s (s\<lparr>es_engine := (if es_pushers s = 0 then EWaiting else EReading)\<rparr>)"
| e_wake: "es_engine s = EWaiting \<Longrightarrow> es_interrupt s \<Longrightarrow>
    engine_step s (s\<lparr>es_interrupt := False, es_engine := EOuter\<rparr>)"

abbreviation engine_reach :: "nat \<Rightarrow> 'a engine_state \<Rightarrow> bool" where
  "engine_reach n s \<equiv> engine_step\<^sup>*\<^sup>* (es_init n) s"

section \<open>The invariant\<close>

fun is_added :: "'a pusher_pc \<Rightarrow> bool" where
  "is_added (UAdded c) = True" | "is_added _ = False"

text \<open>A thread that has queued a command and not interrupted the engine yet.\<close>

fun will_interrupt :: "'a pusher_pc \<Rightarrow> bool" where
  "will_interrupt (USwapped c) = True" | "will_interrupt ULinked = True" | "will_interrupt _ = False"

definition nb_added :: "'a engine_state \<Rightarrow> nat" where
  "nb_added s = length (filter is_added (es_threads s))"

definition in_flight :: "'a engine_state \<Rightarrow> nat" where
  "in_flight s = length (es_queue s) + nb_added s + (if es_engine s = EGot then 1 else 0)"

definition interrupt_due :: "'a engine_state \<Rightarrow> bool" where
  "interrupt_due s \<longleftrightarrow> es_interrupt s \<or> (\<exists>pc \<in> set (es_threads s). will_interrupt pc)"

definition engine_inv :: "'a engine_state \<Rightarrow> bool" where
  "engine_inv s \<longleftrightarrow> es_pushers s = of_nat (3 * in_flight s) \<and>
     es_executed s @ map (fst \<circ> snd) (es_queue s) = es_sent s \<and>
     (es_engine s = EWaiting \<longrightarrow> es_queue s = [] \<or> interrupt_due s) \<and>
     (\<forall>p c. (p, c, False) \<in> set (es_queue s) \<longrightarrow> u_at p (USwapped c) s)"

lemma filter_update:
  assumes "i < length xs"
  shows "length (filter P (xs[i := x])) + (if P (xs ! i) then 1 else 0) = length (filter P xs) + (if P x then 1 else 0)"
  using assms
proof (induction xs arbitrary: i)
  case (Cons y ys)
  then show ?case by (cases i) (auto split: if_splits)
qed simp

lemma nb_added_goto:
  assumes "u_at p pc s"
  shows "nb_added (u_goto p pc' s) + (if is_added pc then 1 else 0) = nb_added s + (if is_added pc' then 1 else 0)"
  using assms filter_update [of p "es_threads s" is_added pc'] by (simp add: nb_added_def u_goto_def u_at_def)

lemma u_at_goto: "u_at q pc' (u_goto p pc s) \<longleftrightarrow> (if q = p then p < length (es_threads s) \<and> pc' = pc else u_at q pc' s)"
  by (auto simp: u_at_def u_goto_def nth_list_update)

lemma u_at_upd [simp]:
  "u_at p pc (s\<lparr>es_pushers := k\<rparr>) = u_at p pc s" "u_at p pc (s\<lparr>es_queue := q\<rparr>) = u_at p pc s"
  "u_at p pc (s\<lparr>es_interrupt := b\<rparr>) = u_at p pc s" "u_at p pc (s\<lparr>es_engine := e\<rparr>) = u_at p pc s"
  "u_at p pc (s\<lparr>es_sent := cs\<rparr>) = u_at p pc s" "u_at p pc (s\<lparr>es_executed := cs\<rparr>) = u_at p pc s"
  by (simp_all add: u_at_def)

lemma nb_added_upd [simp]:
  "nb_added (s\<lparr>es_pushers := k\<rparr>) = nb_added s" "nb_added (s\<lparr>es_queue := q\<rparr>) = nb_added s"
  "nb_added (s\<lparr>es_interrupt := b\<rparr>) = nb_added s" "nb_added (s\<lparr>es_engine := e\<rparr>) = nb_added s"
  "nb_added (s\<lparr>es_sent := cs\<rparr>) = nb_added s" "nb_added (s\<lparr>es_executed := cs\<rparr>) = nb_added s"
  by (simp_all add: nb_added_def)

lemma u_goto_sel [simp]:
  "es_pushers (u_goto p pc s) = es_pushers s" "es_queue (u_goto p pc s) = es_queue s"
  "es_interrupt (u_goto p pc s) = es_interrupt s" "es_engine (u_goto p pc s) = es_engine s"
  "es_sent (u_goto p pc s) = es_sent s" "es_executed (u_goto p pc s) = es_executed s"
  "length (es_threads (u_goto p pc s)) = length (es_threads s)"
  by (simp_all add: u_goto_def)

lemma interrupt_due_goto:
  assumes "u_at p pc s"
  shows "will_interrupt pc' \<Longrightarrow> interrupt_due (u_goto p pc' s)"
    and "\<not> will_interrupt pc \<Longrightarrow> interrupt_due s \<Longrightarrow> interrupt_due (u_goto p pc' s)"
    and "es_interrupt s \<Longrightarrow> interrupt_due (u_goto p pc' s)"
proof -
  have "\<exists>x \<in> set ((es_threads s)[p := pc']). will_interrupt x" if "y \<in> set (es_threads s)" "will_interrupt y" "\<not> will_interrupt pc" for y
  proof -
    from that(1) obtain i where i: "i < length (es_threads s)" "es_threads s ! i = y" by (auto simp: in_set_conv_nth)
    with that assms have "i \<noteq> p" by (auto simp: u_at_def)
    with i have "y \<in> set ((es_threads s)[p := pc'])" by (metis length_list_update nth_list_update_neq nth_mem)
    with that(2) show ?thesis by blast
  qed
  then show "\<not> will_interrupt pc \<Longrightarrow> interrupt_due s \<Longrightarrow> interrupt_due (u_goto p pc' s)"
    by (auto simp: interrupt_due_def u_goto_def)
qed (use assms in \<open>auto simp: interrupt_due_def u_at_def u_goto_def intro: set_update_memI\<close>)

lemma interrupt_due_upd [simp]:
  "interrupt_due (s\<lparr>es_pushers := k\<rparr>) = interrupt_due s" "interrupt_due (s\<lparr>es_queue := q\<rparr>) = interrupt_due s"
  "interrupt_due (s\<lparr>es_engine := e\<rparr>) = interrupt_due s" "interrupt_due (s\<lparr>es_sent := cs\<rparr>) = interrupt_due s"
  "interrupt_due (s\<lparr>es_executed := cs\<rparr>) = interrupt_due s"
  by (simp_all add: interrupt_due_def)

lemma link_of_simps [simp]:
  "fst \<circ> snd \<circ> link_of p = fst \<circ> snd"
  "(q, c, False) \<in> link_of p ` set es \<longleftrightarrow> q \<noteq> p \<and> (q, c, False) \<in> set es"
  by (auto simp: link_of_def image_iff fun_eq_iff split: prod.splits)

lemma in_flight_bound:
  assumes "engine_inv s"
  shows "in_flight s \<le> length (es_sent s) + length (es_threads s) + 1"
proof -
  have "length (es_queue s) \<le> length (es_sent s)" using assms by (auto simp: engine_inv_def dest: arg_cong [of _ _ length])
  moreover have "nb_added s \<le> length (es_threads s)" by (simp add: nb_added_def)
  ultimately show ?thesis by (simp add: in_flight_def)
qed

lemma pushers_zero:
  assumes "engine_inv s" and "3 * (length (es_sent s) + length (es_threads s) + 1) < 2 ^ 64"
  shows "es_pushers s = 0 \<longleftrightarrow> in_flight s = 0"
proof -
  have "3 * in_flight s < 2 ^ 64" using in_flight_bound [OF assms(1)] assms(2) by (meson le_less_trans mult_le_mono2)
  then have "(3 * in_flight s) mod 2 ^ 64 = 3 * in_flight s" by simp
  moreover have "(of_nat (3 * in_flight s) :: size_t) = 0 \<longleftrightarrow> (3 * in_flight s) mod 2 ^ 64 = 0"
    by (simp only: word_of_nat_eq_0_iff dvd_eq_mod_eq_0) simp
  ultimately show ?thesis using assms(1) by (simp add: engine_inv_def)
qed

lemma engine_inv_threads:
  assumes inv: "engine_inv s"
  shows "u_at p UIdle s \<Longrightarrow> engine_inv (u_goto p (UAdded c) (s\<lparr>es_pushers := es_pushers s + memory_order_release\<rparr>))"
    and "u_at p (UAdded c) s \<Longrightarrow>
      engine_inv (u_goto p (USwapped c) (s\<lparr>es_queue := es_queue s @ [(p, c, False)], es_sent := es_sent s @ [c]\<rparr>))"
    and "u_at p (USwapped c) s \<Longrightarrow> engine_inv (u_goto p ULinked (s\<lparr>es_queue := map (link_of p) (es_queue s)\<rparr>))"
    and "u_at p ULinked s \<Longrightarrow> engine_inv (u_goto p UIdle (s\<lparr>es_interrupt := True\<rparr>))"
proof -
  have unlinked: "pc = USwapped c'" if "u_at p pc s" "(p, c', False) \<in> set (es_queue s)" for pc c'
    using inv that by (auto simp: engine_inv_def u_at_def)
  {
    assume u: "u_at p UIdle s"
    let ?s = "s\<lparr>es_pushers := es_pushers s + memory_order_release\<rparr>"
    have "nb_added (u_goto p (UAdded c) ?s) = Suc (nb_added s)" using nb_added_goto [of p UIdle ?s "UAdded c"] u by simp
    then show "engine_inv (u_goto p (UAdded c) ?s)"
      using inv u unlinked [OF u] interrupt_due_goto(2) [of p UIdle ?s "UAdded c"]
      by (auto simp: engine_inv_def in_flight_def memory_order_release_def u_at_goto)
  next
    assume u: "u_at p (UAdded c) s"
    let ?s = "s\<lparr>es_queue := es_queue s @ [(p, c, False)], es_sent := es_sent s @ [c]\<rparr>"
    have "in_flight (u_goto p (USwapped c) ?s) = in_flight s"
      using nb_added_goto [of p "UAdded c" ?s "USwapped c"] u by (simp add: in_flight_def)
    moreover have "p < length (es_threads s)" using u by (simp add: u_at_def)
    ultimately show "engine_inv (u_goto p (USwapped c) ?s)"
      using inv u unlinked [OF u] interrupt_due_goto(1) [of p "UAdded c" ?s "USwapped c"]
      by (auto simp: engine_inv_def u_at_goto simp del: of_nat_mult)
  next
    assume u: "u_at p (USwapped c) s"
    let ?s = "s\<lparr>es_queue := map (link_of p) (es_queue s)\<rparr>"
    have "nb_added (u_goto p ULinked ?s) = nb_added s" using nb_added_goto [of p "USwapped c" ?s ULinked] u by simp
    then show "engine_inv (u_goto p ULinked ?s)"
      using inv u interrupt_due_goto(1) [of p "USwapped c" ?s ULinked]
      by (auto simp: engine_inv_def in_flight_def u_at_goto)
  next
    assume u: "u_at p ULinked s"
    let ?s = "s\<lparr>es_interrupt := True\<rparr>"
    have "nb_added (u_goto p UIdle ?s) = nb_added s" using nb_added_goto [of p ULinked ?s UIdle] u by simp
    then show "engine_inv (u_goto p UIdle ?s)"
      using inv u unlinked [OF u] interrupt_due_goto(3) [of p ULinked ?s UIdle]
      by (auto simp: engine_inv_def in_flight_def u_at_goto)
  }
qed

lemma engine_inv_engine:
  assumes inv: "engine_inv s" and bound: "3 * (length (es_sent s) + length (es_threads s) + 1) < 2 ^ 64"
  shows "es_engine s = EReading \<Longrightarrow> es_queue s = (p, c, True) # rest \<Longrightarrow>
      engine_inv (s\<lparr>es_queue := rest, es_engine := EGot, es_executed := es_executed s @ [c]\<rparr>)"
    and "es_engine s = EReading \<Longrightarrow> engine_inv (s\<lparr>es_engine := EChecking\<rparr>)"
    and "es_engine s = EGot \<Longrightarrow> engine_inv (s\<lparr>es_pushers := es_pushers s - memory_order_release, es_engine := EReading\<rparr>)"
    and "es_engine s = EChecking \<Longrightarrow> engine_inv (s\<lparr>es_engine := (if 0 < es_pushers s then EReading else EOuter)\<rparr>)"
    and "es_engine s = EOuter \<Longrightarrow> engine_inv (s\<lparr>es_engine := (if es_pushers s = 0 then EWaiting else EReading)\<rparr>)"
    and "es_engine s = EWaiting \<Longrightarrow> engine_inv (s\<lparr>es_interrupt := False, es_engine := EOuter\<rparr>)"
  using inv pushers_zero [OF inv bound] by (auto simp: engine_inv_def in_flight_def memory_order_release_def)

lemma engine_step_counts:
  assumes "engine_step s s'"
  shows "length (es_sent s) \<le> length (es_sent s') \<and> length (es_threads s') = length (es_threads s)"
  using assms by cases auto

lemma engine_step_inv:
  assumes "engine_step s s'" and inv: "engine_inv s" and "3 * (length (es_sent s) + length (es_threads s) + 1) < 2 ^ 64"
  shows "engine_inv s'"
proof -
  note threads = engine_inv_threads [OF inv] and engine = engine_inv_engine [OF inv assms(3)]
  from assms(1) show ?thesis by cases (simp_all add: threads engine del: One_nat_def)
qed

lemma engine_reach_inv:
  assumes "engine_reach n s" and "3 * (length (es_sent s) + n + 1) < 2 ^ 64"
  shows "engine_inv s \<and> length (es_threads s) = n"
  using assms
proof (induction rule: rtranclp_induct)
  case base
  show ?case by (simp add: engine_inv_def in_flight_def nb_added_def es_init_def)
next
  case (step s s')
  have c: "length (es_sent s) \<le> length (es_sent s')" "length (es_threads s') = length (es_threads s)"
    using engine_step_counts [OF step.hyps(2)] by auto
  then have "3 * (length (es_sent s) + n + 1) < 2 ^ 64"
    using step.prems by (meson add_le_mono1 le_less_trans mult_le_mono2)
  with step.IH engine_step_inv [OF step.hyps(2)] c show ?case by metis
qed

section \<open>Properties\<close>

text \<open>
  C7: the engine never sleeps on a command. In every reachable state the commands executed are,
  in order, the beginning of the commands sent; and when the engine waits for an event with
  no interrupt pending and every thread has finished its push, every command sent has been
  executed. The bound keeps \<^verbatim>\<open>command_pushers_\<close>, which counts in steps of 3, from wrapping.
\<close>

theorem engine_never_sleeps_on_a_command:
  assumes "engine_reach n s" and "3 * (length (es_sent s) + n + 1) < 2 ^ 64"
  shows "prefix (es_executed s) (es_sent s) \<and>
    (es_engine s = EWaiting \<and> \<not> es_interrupt s \<and> set (es_threads s) \<subseteq> {UIdle} \<longrightarrow> es_executed s = es_sent s)"
proof -
  have inv: "engine_inv s" using engine_reach_inv [OF assms] by simp
  then have "es_sent s = es_executed s @ map (fst \<circ> snd) (es_queue s)" by (simp add: engine_inv_def)
  moreover have "es_queue s = []" if "es_engine s = EWaiting" "\<not> es_interrupt s" "set (es_threads s) \<subseteq> {UIdle}"
    using inv that by (auto simp: engine_inv_def interrupt_due_def)
  ultimately show ?thesis by auto
qed

text \<open>A thread sends a command, which is executed, and the engine goes to sleep again after the interrupt.\<close>

definition es_example :: "nat engine_state" where
  "es_example = \<lparr>es_pushers = 0, es_queue = [], es_interrupt = False, es_threads = [UIdle], es_engine = EWaiting,
     es_sent = [5], es_executed = [5]\<rparr>"

lemma es_example_reach: "engine_reach 1 es_example"
proof -
  let ?s = "\<lambda>k q i u e sent ex. \<lparr>es_pushers = k, es_queue = q, es_interrupt = i, es_threads = [u], es_engine = e,
     es_sent = sent, es_executed = ex\<rparr> :: nat engine_state"
  note defs = u_at_def u_goto_def link_of_def memory_order_release_def
  have "engine_step\<^sup>*\<^sup>* (?s 0 [] False UIdle EReading [] []) (?s 3 [] False (UAdded 5) EReading [] [])"
    by (rule r_into_rtranclp) (use u_add [of 0 "?s 0 [] False UIdle EReading [] []" 5] in \<open>simp add: defs\<close>)
  also have "engine_step\<^sup>*\<^sup>* (?s 3 [] False (UAdded 5) EReading [] []) (?s 3 [(0, 5, False)] False (USwapped 5) EReading [5] [])"
    by (rule r_into_rtranclp) (use u_swap [of 0 5 "?s 3 [] False (UAdded 5) EReading [] []"] in \<open>simp add: defs\<close>)
  also have "engine_step\<^sup>*\<^sup>* (?s 3 [(0, 5, False)] False (USwapped 5) EReading [5] []) (?s 3 [(0, 5, True)] False ULinked EReading [5] [])"
    by (rule r_into_rtranclp) (use u_link [of 0 5 "?s 3 [(0, 5, False)] False (USwapped 5) EReading [5] []"] in \<open>simp add: defs\<close>)
  also have "engine_step\<^sup>*\<^sup>* (?s 3 [(0, 5, True)] False ULinked EReading [5] []) (?s 3 [(0, 5, True)] True UIdle EReading [5] [])"
    by (rule r_into_rtranclp) (use u_interrupt [of 0 "?s 3 [(0, 5, True)] False ULinked EReading [5] []"] in \<open>simp add: defs\<close>)
  also have "engine_step\<^sup>*\<^sup>* (?s 3 [(0, 5, True)] True UIdle EReading [5] []) (?s 3 [] True UIdle EGot [5] [5])"
    by (rule r_into_rtranclp) (use e_read [of "?s 3 [(0, 5, True)] True UIdle EReading [5] []" 0 5 "[]"] in \<open>simp\<close>)
  also have "engine_step\<^sup>*\<^sup>* (?s 3 [] True UIdle EGot [5] [5]) (?s 0 [] True UIdle EReading [5] [5])"
    by (rule r_into_rtranclp) (use e_sub [of "?s 3 [] True UIdle EGot [5] [5]"] in \<open>simp add: defs\<close>)
  also have "engine_step\<^sup>*\<^sup>* (?s 0 [] True UIdle EReading [5] [5]) (?s 0 [] True UIdle EChecking [5] [5])"
    by (rule r_into_rtranclp) (use e_read_nothing [of "?s 0 [] True UIdle EReading [5] [5]"] in \<open>simp\<close>)
  also have "engine_step\<^sup>*\<^sup>* (?s 0 [] True UIdle EChecking [5] [5]) (?s 0 [] True UIdle EOuter [5] [5])"
    by (rule r_into_rtranclp) (use e_check [of "?s 0 [] True UIdle EChecking [5] [5]"] in \<open>simp\<close>)
  also have "engine_step\<^sup>*\<^sup>* (?s 0 [] True UIdle EOuter [5] [5]) (?s 0 [] True UIdle EWaiting [5] [5])"
    by (rule r_into_rtranclp) (use e_outer [of "?s 0 [] True UIdle EOuter [5] [5]"] in \<open>simp\<close>)
  also have "engine_step\<^sup>*\<^sup>* (?s 0 [] True UIdle EWaiting [5] [5]) (?s 0 [] False UIdle EOuter [5] [5])"
    by (rule r_into_rtranclp) (use e_wake [of "?s 0 [] True UIdle EWaiting [5] [5]"] in \<open>simp\<close>)
  also have "engine_step\<^sup>*\<^sup>* (?s 0 [] False UIdle EOuter [5] [5]) es_example"
    by (rule r_into_rtranclp) (use e_outer [of "?s 0 [] False UIdle EOuter [5] [5]"] in \<open>simp add: es_example_def\<close>)
  finally show ?thesis by (simp add: es_init_def)
qed

theorem engine_never_sleeps_on_a_command_witness:
  "engine_reach 1 es_example \<and> es_engine es_example = EWaiting \<and> es_executed es_example = es_sent es_example"
  using engine_never_sleeps_on_a_command [OF es_example_reach] es_example_reach by (simp add: es_example_def)

end
