(* ===== verification/Weakrb.thy ===== *)
theory Weakrb
  imports Prelude "HOL-Library.Sublist"
begin

text \<open>
  \<^verbatim>\<open>queues::weakrb\<close> (\<^verbatim>\<open>src/boson/boson/queues/weakrb.h\<close>): a bounded queue with one producer
  and one consumer. Each side keeps a copy of the other's position, \<^verbatim>\<open>pfront_\<close> and
  \<^verbatim>\<open>cback_\<close>, and reloads it only when the copy says that the queue is full, or empty. The
  positions are \<^verbatim>\<open>size_t\<close> and wrap around.
\<close>

section \<open>Operations\<close>

record 'a weakrb =
  rb_front :: size_t
  rb_pfront :: size_t
  rb_back :: size_t
  rb_cback :: size_t
  rb_data :: "'a list"

definition weakrb_new :: "'a \<Rightarrow> nat \<Rightarrow> 'a weakrb" where
  "weakrb_new d capacity = \<lparr>rb_front = 0, rb_pfront = 0, rb_back = 0, rb_cback = 0, rb_data = replicate capacity d\<rparr>"

text \<open>The tests of \<^verbatim>\<open>write\<close> and \<^verbatim>\<open>read\<close>: \<^verbatim>\<open>pfront_ + size_ - back < 1\<close> and \<^verbatim>\<open>cback_ - front < 1\<close>.\<close>

definition rb_full :: "size_t \<Rightarrow> 'a weakrb \<Rightarrow> bool" where
  "rb_full pfront q \<longleftrightarrow> pfront + of_nat (length (rb_data q)) - rb_back q < 1"

definition rb_empty :: "size_t \<Rightarrow> 'a weakrb \<Rightarrow> bool" where
  "rb_empty cback q \<longleftrightarrow> cback - rb_front q < 1"

definition rb_store :: "'a \<Rightarrow> 'a weakrb \<Rightarrow> 'a weakrb" where
  "rb_store v q = q\<lparr>rb_data := (rb_data q)[ring_index (length (rb_data q)) (rb_back q) := v]\<rparr>"

definition rb_load :: "'a weakrb \<Rightarrow> 'a" where
  "rb_load q = rb_data q ! ring_index (length (rb_data q)) (rb_front q)"

text \<open>Both operations, run without interruption.\<close>

definition weakrb_write :: "'a \<Rightarrow> 'a weakrb \<Rightarrow> bool \<times> 'a weakrb" where
  "weakrb_write v q =
     (let q1 = (if rb_full (rb_pfront q) q then q\<lparr>rb_pfront := rb_front q\<rparr> else q) in
      if rb_full (rb_pfront q1) q1 then (False, q1)
      else (True, (rb_store v q1)\<lparr>rb_back := rb_back q1 + 1\<rparr>))"

definition weakrb_read :: "'a weakrb \<Rightarrow> 'a option \<times> 'a weakrb" where
  "weakrb_read q =
     (let q1 = (if rb_empty (rb_cback q) q then q\<lparr>rb_cback := rb_back q\<rparr> else q) in
      if rb_empty (rb_cback q1) q1 then (None, q1)
      else (Some (rb_load q1), q1\<lparr>rb_front := rb_front q1 + 1\<rparr>))"

section \<open>A producer and a consumer\<close>

text \<open>
  The operations cut at their accesses to the positions and the cells. A test that fails
  twice makes the operation return false, and the component is idle again.
\<close>

datatype 'a rb_writer = WReady | WReload 'a | WStore 'a | WPublish

datatype rb_reader = RReady | RReload | RLoad | RPublish

record 'a rb_state =
  rs_q :: "'a weakrb"
  rs_writer :: "'a rb_writer"
  rs_reader :: rb_reader
  rs_written :: "'a list"
  rs_read :: "'a list"

definition rb_init :: "'a \<Rightarrow> nat \<Rightarrow> 'a rb_state" where
  "rb_init d capacity = \<lparr>rs_q = weakrb_new d capacity, rs_writer = WReady, rs_reader = RReady, rs_written = [], rs_read = []\<rparr>"

inductive rb_step :: "'a rb_state \<Rightarrow> 'a rb_state \<Rightarrow> bool" where
  w_test: "rs_writer s = WReady \<Longrightarrow>
    rb_step s (s\<lparr>rs_writer := (if rb_full (rb_pfront (rs_q s)) (rs_q s) then WReload v else WStore v)\<rparr>)"
| w_reload: "rs_writer s = WReload v \<Longrightarrow> q = (rs_q s)\<lparr>rb_pfront := rb_front (rs_q s)\<rparr> \<Longrightarrow>
    rb_step s (s\<lparr>rs_q := q, rs_writer := (if rb_full (rb_pfront q) q then WReady else WStore v)\<rparr>)"
| w_store: "rs_writer s = WStore v \<Longrightarrow>
    rb_step s (s\<lparr>rs_q := rb_store v (rs_q s), rs_writer := WPublish, rs_written := rs_written s @ [v]\<rparr>)"
| w_publish: "rs_writer s = WPublish \<Longrightarrow>
    rb_step s (s\<lparr>rs_q := (rs_q s)\<lparr>rb_back := rb_back (rs_q s) + 1\<rparr>, rs_writer := WReady\<rparr>)"
| r_test: "rs_reader s = RReady \<Longrightarrow>
    rb_step s (s\<lparr>rs_reader := (if rb_empty (rb_cback (rs_q s)) (rs_q s) then RReload else RLoad)\<rparr>)"
| r_reload: "rs_reader s = RReload \<Longrightarrow> q = (rs_q s)\<lparr>rb_cback := rb_back (rs_q s)\<rparr> \<Longrightarrow>
    rb_step s (s\<lparr>rs_q := q, rs_reader := (if rb_empty (rb_cback q) q then RReady else RLoad)\<rparr>)"
| r_load: "rs_reader s = RLoad \<Longrightarrow>
    rb_step s (s\<lparr>rs_reader := RPublish, rs_read := rs_read s @ [rb_load (rs_q s)]\<rparr>)"
| r_publish: "rs_reader s = RPublish \<Longrightarrow>
    rb_step s (s\<lparr>rs_q := (rs_q s)\<lparr>rb_front := rb_front (rs_q s) + 1\<rparr>, rs_reader := RReady\<rparr>)"

abbreviation rb_reach :: "'a \<Rightarrow> nat \<Rightarrow> 'a rb_state \<Rightarrow> bool" where
  "rb_reach d capacity s \<equiv> rb_step\<^sup>*\<^sup>* (rb_init d capacity) s"

section \<open>The invariant\<close>

text \<open>
  The positions as numbers: \<open>f\<close> and \<open>b\<close> are the published ones, \<open>pf\<close> and \<open>cb\<close> the copies.
\<close>

definition rb_positions :: "nat \<Rightarrow> nat \<Rightarrow> nat \<Rightarrow> nat \<Rightarrow> nat \<Rightarrow> 'a weakrb \<Rightarrow> bool" where
  "rb_positions n f pf b cb q \<longleftrightarrow>
     rb_front q = of_nat f \<and> rb_pfront q = of_nat pf \<and> rb_back q = of_nat b \<and> rb_cback q = of_nat cb \<and>
     length (rb_data q) = n \<and> pf \<le> f \<and> f \<le> cb \<and> cb \<le> b \<and> b \<le> pf + n"

definition rb_inv :: "nat \<Rightarrow> nat \<Rightarrow> nat \<Rightarrow> nat \<Rightarrow> nat \<Rightarrow> 'a rb_state \<Rightarrow> bool" where
  "rb_inv n f pf b cb s \<longleftrightarrow> rb_positions n f pf b cb (rs_q s) \<and>
     length (rs_read s) = f + (if rs_reader s = RPublish then 1 else 0) \<and>
     length (rs_written s) = b + (if rs_writer s = WPublish then 1 else 0) \<and>
     (\<forall>v. rs_writer s = WStore v \<longrightarrow> b < pf + n) \<and> (rs_writer s = WPublish \<longrightarrow> b < pf + n) \<and>
     (rs_reader s \<in> {RLoad, RPublish} \<longrightarrow> f < cb) \<and>
     rs_read s = take (length (rs_read s)) (rs_written s) \<and>
     (\<forall>k. f \<le> k \<and> k < length (rs_written s) \<longrightarrow> rb_data (rs_q s) ! (k mod n) = rs_written s ! k)"

lemma word_below_one: "(of_nat k :: size_t) < 1 \<longleftrightarrow> k mod 2 ^ 64 = 0"
proof -
  have "(of_nat k :: size_t) < 1 \<longleftrightarrow> (of_nat k :: size_t) = 0" by (simp add: word_less_1)
  also have "\<dots> \<longleftrightarrow> k mod 2 ^ 64 = 0" by (simp only: word_of_nat_eq_0_iff dvd_eq_mod_eq_0) simp
  finally show ?thesis .
qed

lemma rb_full_iff:
  assumes "rb_positions n f pf b cb q" and "n < 2 ^ 64"
  shows "rb_full (rb_pfront q) q \<longleftrightarrow> b = pf + n"
proof -
  have "rb_pfront q + of_nat (length (rb_data q)) - rb_back q = of_nat (pf + n - b)"
    using assms(1) by (simp add: rb_positions_def of_nat_diff)
  moreover have "(pf + n - b) mod 2 ^ 64 = pf + n - b" using assms by (auto simp: rb_positions_def)
  ultimately show ?thesis using assms(1) word_below_one [of "pf + n - b"] by (auto simp: rb_full_def rb_positions_def)
qed

lemma rb_empty_iff:
  assumes "rb_positions n f pf b cb q" and "n < 2 ^ 64"
  shows "rb_empty (rb_cback q) q \<longleftrightarrow> f = cb"
proof -
  have "rb_cback q - rb_front q = of_nat (cb - f)" using assms(1) by (simp add: rb_positions_def of_nat_diff)
  moreover have "(cb - f) mod 2 ^ 64 = cb - f" using assms by (auto simp: rb_positions_def)
  ultimately show ?thesis using assms(1) word_below_one [of "cb - f"] by (auto simp: rb_empty_def rb_positions_def)
qed

lemma rb_inv_store:
  assumes inv: "rb_inv n f pf b cb s" and w: "rs_writer s = WStore v" and bound: "ring_bound n (Suc (length (rs_written s)))" and "0 < n"
  shows "rb_inv n f pf b cb (s\<lparr>rs_q := rb_store v (rs_q s), rs_writer := WPublish, rs_written := rs_written s @ [v]\<rparr>)"
proof -
  have b: "length (rs_written s) = b" "b < pf + n" "pf \<le> f" "rb_back (rs_q s) = of_nat b" "length (rb_data (rs_q s)) = n"
    using inv w by (auto simp: rb_inv_def rb_positions_def)
  then have cell: "ring_index n (rb_back (rs_q s)) = b mod n" using ring_index_of_nat [OF bound, of b] by simp
  have "(rb_data (rs_q s))[b mod n := v] ! (k mod n) = (rs_written s @ [v]) ! k" if "f \<le> k" "k < Suc b" for k
  proof (cases "k = b")
    case True
    with b \<open>0 < n\<close> show ?thesis by (simp add: nth_append)
  next
    case False
    with that b have "k mod n \<noteq> b mod n" by (intro mod_neq) auto
    with False that b inv show ?thesis by (simp add: rb_inv_def nth_append)
  qed
  moreover have "length (rs_read s) \<le> length (rs_written s)" using inv w by (auto simp: rb_inv_def rb_positions_def)
  ultimately show ?thesis
    using inv w b cell by (auto simp: rb_inv_def rb_positions_def rb_store_def)
qed

lemma rb_inv_load:
  assumes inv: "rb_inv n f pf b cb s" and r: "rs_reader s = RLoad" and bound: "ring_bound n (length (rs_written s))"
  shows "rb_inv n f pf b cb (s\<lparr>rs_reader := RPublish, rs_read := rs_read s @ [rb_load (rs_q s)]\<rparr>)"
proof -
  have f: "length (rs_read s) = f" "f < length (rs_written s)" "rb_front (rs_q s) = of_nat f" "length (rb_data (rs_q s)) = n"
    "rs_read s = take f (rs_written s)"
    using inv r by (auto simp: rb_inv_def rb_positions_def)
  then have "rb_load (rs_q s) = rs_written s ! f"
    using ring_index_of_nat [OF bound, of f] inv by (simp add: rb_load_def rb_inv_def)
  with f have "rs_read s @ [rb_load (rs_q s)] = take (Suc f) (rs_written s)" by (simp add: take_Suc_conv_app_nth)
  with inv r f show ?thesis by (auto simp: rb_inv_def)
qed

lemma rb_step_inv:
  assumes "rb_step s s'" and inv: "rb_inv n f pf b cb s" and "n < 2 ^ 64" and "0 < n" and bound: "ring_bound n (length (rs_written s'))"
  shows "\<exists>f pf b cb. rb_inv n f pf b cb s'"
proof -
  have pos: "rb_positions n f pf b cb (rs_q s)" using inv by (simp add: rb_inv_def)
  note tests = rb_full_iff [OF pos assms(3)] rb_empty_iff [OF pos assms(3)]
  from assms(1) show ?thesis
  proof cases
    case (w_test v)
    with inv tests have "rb_inv n f pf b cb s'" by (auto simp: rb_inv_def rb_positions_def)
    then show ?thesis by blast
  next
    case (w_reload v q)
    then have "rb_positions n f f b cb q" using pos by (auto simp: rb_positions_def)
    with w_reload inv rb_full_iff [OF this assms(3)] have "rb_inv n f f b cb s'" by (auto simp: rb_inv_def rb_positions_def)
    then show ?thesis by blast
  next
    case (w_store v)
    then have "rb_inv n f pf b cb s'" using rb_inv_store [OF inv w_store(2) _ assms(4)] bound by simp
    then show ?thesis by blast
  next
    case w_publish
    with inv have "rb_inv n f pf (Suc b) cb s'" by (auto simp: rb_inv_def rb_positions_def)
    then show ?thesis by blast
  next
    case r_test
    with inv tests have "rb_inv n f pf b cb s'" by (auto simp: rb_inv_def rb_positions_def)
    then show ?thesis by blast
  next
    case (r_reload q)
    then have "rb_positions n f pf b b q" using pos by (auto simp: rb_positions_def)
    with r_reload inv rb_empty_iff [OF this assms(3)] have "rb_inv n f pf b b s'" by (auto simp: rb_inv_def rb_positions_def)
    then show ?thesis by blast
  next
    case r_load
    then have "rb_inv n f pf b cb s'" using rb_inv_load [OF inv r_load(2)] bound by simp
    then show ?thesis by blast
  next
    case r_publish
    with inv have "rb_inv n (Suc f) pf b cb s'" by (auto simp: rb_inv_def rb_positions_def)
    then show ?thesis by blast
  qed
qed

lemma rb_step_written: "rb_step s s' \<Longrightarrow> length (rs_written s) \<le> length (rs_written s')"
  by (induction rule: rb_step.induct) auto

lemma rb_reach_inv:
  assumes "rb_reach d n s" and "ring_bound n (length (rs_written s))" and "0 < n" and "n < 2 ^ 64"
  shows "\<exists>f pf b cb. rb_inv n f pf b cb s"
  using assms
proof (induction rule: rtranclp_induct)
  case base
  have "rb_inv n 0 0 0 0 (rb_init d n)" by (simp add: rb_inv_def rb_positions_def rb_init_def weakrb_new_def)
  then show ?case by blast
next
  case (step s s')
  have "ring_bound n (length (rs_written s))"
    using ring_bound_mono [OF step.prems(1)] rb_step_written [OF step.hyps(2)] by blast
  with step.IH step.prems obtain f pf b cb where "rb_inv n f pf b cb s" by blast
  from rb_step_inv [OF step.hyps(2) this step.prems(3,2,1)] show ?case .
qed

section \<open>Properties\<close>

text \<open>
  C17: the ring buffer is a bounded first-in first-out queue for one producer and one consumer, in
  spite of the stale copies of the positions: what was read is the beginning of what was
  written, and no more than its capacity is ever in flight. As for channels, the bound asks
  that the capacity divides $2^{64}$ or that fewer than $2^{64}$ values were written.
\<close>

theorem weakrb_fifo:
  assumes "rb_reach d n s" and "ring_bound n (length (rs_written s))" and "0 < n" and "n < 2 ^ 64"
  shows "prefix (rs_read s) (rs_written s) \<and> length (rs_written s) \<le> length (rs_read s) + n"
proof -
  from rb_reach_inv [OF assms] obtain f pf b cb where inv: "rb_inv n f pf b cb s" by blast
  then have "rs_read s = take (length (rs_read s)) (rs_written s)" unfolding rb_inv_def by blast
  then have "prefix (rs_read s) (rs_written s)" by (metis take_is_prefix)
  moreover have "length (rs_written s) \<le> f + n" "f \<le> length (rs_read s)"
    using inv by (auto simp: rb_inv_def rb_positions_def split: if_splits)
  ultimately show ?thesis by simp
qed

text \<open>A value is written to a queue of two cells, and read after a reload of the consumer's copy.\<close>

definition rb_example :: "nat rb_state" where
  "rb_example =
     \<lparr>rs_q = \<lparr>rb_front = 0, rb_pfront = 0, rb_back = 1, rb_cback = 1, rb_data = [7, 0]\<rparr>,
      rs_writer = WReady, rs_reader = RPublish, rs_written = [7], rs_read = [7]\<rparr>"

lemma rb_example_reach: "rb_reach 0 2 rb_example"
proof -
  let ?s0 = "rb_init 0 2 :: nat rb_state"
  let ?s1 = "?s0\<lparr>rs_writer := WStore 7\<rparr>"
  let ?s2 = "?s1\<lparr>rs_q := rb_store 7 (rs_q ?s1), rs_writer := WPublish, rs_written := rs_written ?s1 @ [7]\<rparr>"
  let ?s3 = "?s2\<lparr>rs_q := (rs_q ?s2)\<lparr>rb_back := rb_back (rs_q ?s2) + 1\<rparr>, rs_writer := WReady\<rparr>"
  let ?s4 = "?s3\<lparr>rs_reader := RReload\<rparr>"
  let ?s5 = "?s4\<lparr>rs_q := (rs_q ?s4)\<lparr>rb_cback := rb_back (rs_q ?s4)\<rparr>, rs_reader := RLoad\<rparr>"
  note defs = rb_init_def weakrb_new_def rb_full_def rb_empty_def rb_store_def rb_load_def ring_index_def
  have "rb_step ?s0 ?s1" using w_test [of ?s0 7] by (simp add: defs)
  moreover have "rb_step ?s1 ?s2" using w_store [of ?s1 7] by simp
  moreover have "rb_step ?s2 ?s3" using w_publish [of ?s2] by simp
  moreover have "rb_step ?s3 ?s4" using r_test [of ?s3] by (simp add: defs)
  moreover have "rb_step ?s4 ?s5" using r_reload [of ?s4] by (simp add: defs)
  moreover have "rb_step ?s5 rb_example" using r_load [of ?s5] by (simp add: defs rb_example_def numeral_2_eq_2)
  ultimately show ?thesis by (meson converse_rtranclp_into_rtranclp rtranclp.rtrancl_refl)
qed

theorem weakrb_fifo_witness:
  "rb_reach 0 2 rb_example \<and> rs_written rb_example = [7] \<and> prefix (rs_read rb_example) (rs_written rb_example) \<and>
   length (rs_written rb_example) \<le> length (rs_read rb_example) + 2"
  using weakrb_fifo [OF rb_example_reach] rb_example_reach by (simp add: rb_example_def ring_bound_def)

end
