(* ===== verification/Type_List.thy ===== *)
theory Type_List
  imports Prelude
begin

text \<open>
  The compile-time computations of \<^verbatim>\<open>json_backbone::variant\<close>
  (\<^verbatim>\<open>src/boson/boson/external/json_backbone.hpp\<close>): the arithmetic on arrays, the storage a type
  asks for, and the choice of the alternative that a constructor call builds. What the
  compiler knows of a type is a record; whether a type can be constructed from a list of
  arguments is a parameter.
\<close>

section \<open>Arithmetic on arrays\<close>

function max_value :: "nat list \<Rightarrow> nat \<Rightarrow> nat \<Rightarrow> nat" where
  "max_value vals current_value current_index =
     (if length vals \<le> current_index then current_value
      else if current_value < vals ! current_index then max_value vals (vals ! current_index) (current_index + 1)
      else max_value vals current_value (current_index + 1))"
  by auto
termination by (relation "measure (\<lambda>(vals, c, i). length vals - i)") auto

function find_first :: "'a list \<Rightarrow> 'a \<Rightarrow> nat \<Rightarrow> nat" where
  "find_first vals value current_index =
     (if length vals \<le> current_index then length vals
      else if value = vals ! current_index then current_index
      else find_first vals value (current_index + 1))"
  by auto
termination by (relation "measure (\<lambda>(vals, v, i). length vals - i)") auto

function find_last :: "'a list \<Rightarrow> 'a \<Rightarrow> nat \<Rightarrow> nat" where
  "find_last vals value current_index =
     (if length vals \<le> current_index then length vals
      else if value = vals ! (length vals - current_index - 1) then length vals - current_index - 1
      else find_last vals value (current_index + 1))"
  by auto
termination by (relation "measure (\<lambda>(vals, v, i). length vals - i)") auto

function all_equals :: "'a list \<Rightarrow> 'a \<Rightarrow> nat \<Rightarrow> bool" where
  "all_equals vals current_value current_index =
     (if length vals \<le> current_index then True
      else if current_value = vals ! current_index then all_equals vals current_value (current_index + 1)
      else False)"
  by auto
termination by (relation "measure (\<lambda>(vals, v, i). length vals - i)") auto

declare max_value.simps [simp del] find_first.simps [simp del] find_last.simps [simp del] all_equals.simps [simp del]

lemma max_value_ge: "current_value \<le> max_value vals current_value i"
proof (induction vals current_value i rule: max_value.induct)
  case (1 vals c i)
  show ?case
  proof (cases "length vals \<le> i \<or> \<not> c < vals ! i")
    case True
    with 1 show ?thesis by (subst max_value.simps) auto
  next
    case False
    with 1 have "c \<le> max_value vals (vals ! i) (i + 1)" by simp
    with False show ?thesis by (subst max_value.simps) simp
  qed
qed

lemma max_value_elem: "i \<le> k \<Longrightarrow> k < length vals \<Longrightarrow> vals ! k \<le> max_value vals c i"
proof (induction vals c i rule: max_value.induct)
  case (1 vals c i)
  show ?case
  proof (cases "k = i")
    case True
    with "1.prems" max_value_ge [of "vals ! i" vals "i + 1"] max_value_ge [of c vals "i + 1"] show ?thesis
      by (subst max_value.simps) auto
  next
    case False
    with 1 show ?thesis by (subst max_value.simps) auto
  qed
qed

text \<open>What a search from the left returns, and that the result is determined by it.\<close>

definition first_at :: "'a list \<Rightarrow> 'a \<Rightarrow> nat \<Rightarrow> nat \<Rightarrow> bool" where
  "first_at vals v i k \<longleftrightarrow>
     i \<le> k \<and> k \<le> length vals \<and> (\<forall>j \<in> {i..<k}. vals ! j \<noteq> v) \<and> (k < length vals \<longrightarrow> vals ! k = v)"

lemma first_at_find: "i \<le> length vals \<Longrightarrow> first_at vals v i (find_first vals v i)"
proof (induction vals v i rule: find_first.induct)
  case (1 vals v i)
  show ?case
  proof (cases "length vals \<le> i \<or> v = vals ! i")
    case True
    with "1.prems" show ?thesis by (subst find_first.simps) (auto simp: first_at_def)
  next
    case False
    with 1 have "first_at vals v (i + 1) (find_first vals v (i + 1))" by simp
    moreover have "{i..<k} = insert i {i + 1..<k}" if "i + 1 \<le> k" for k using that by auto
    ultimately have "first_at vals v i (find_first vals v (i + 1))" using False by (auto simp: first_at_def)
    with False show ?thesis by (subst find_first.simps) simp
  qed
qed

lemma first_at_unique: "first_at vals v i k \<Longrightarrow> first_at vals v i l \<Longrightarrow> k = l"
proof (induction k l rule: linorder_less_wlog)
  case (less k l)
  then have "k \<in> {i..<l}" "k < length vals" by (auto simp: first_at_def)
  with less show ?case by (auto simp: first_at_def)
qed auto

lemma find_first_iff: "i \<le> length vals \<Longrightarrow> find_first vals v i = k \<longleftrightarrow> first_at vals v i k"
  using first_at_find first_at_unique by metis

lemma find_first_le [simp]: "find_first vals v 0 \<le> length vals"
  using first_at_find [of 0 vals v] by (simp add: first_at_def)

lemma find_first_hit: "find_first vals v 0 < length vals \<Longrightarrow> vals ! find_first vals v 0 = v"
  using first_at_find [of 0 vals v] by (simp add: first_at_def)

lemma find_first_unique:
  assumes "k < length vals" and "vals ! k = v" and "\<And>j. j < length vals \<Longrightarrow> vals ! j = v \<Longrightarrow> j = k"
  shows "find_first vals v 0 = k"
proof -
  have "\<forall>j \<in> {0..<k}. vals ! j \<noteq> v"
  proof
    fix j
    assume "j \<in> {0..<k}"
    with assms(1) assms(3) [of j] show "vals ! j \<noteq> v" by auto
  qed
  with assms(1,2) show ?thesis by (simp add: find_first_iff first_at_def)
qed

text \<open>The searches from both ends, and the test, against the obvious specifications.\<close>

lemma find_first_Cons:
  "i \<le> length vals \<Longrightarrow> find_first (x # vals) v (Suc i) = Suc (find_first vals v i)"
proof (induction vals v i rule: find_first.induct)
  case (1 vals v i)
  then show ?case by (subst (1 2) find_first.simps) auto
qed

lemma find_first_takeWhile: "find_first vals v 0 = length (takeWhile (\<lambda>x. x \<noteq> v) vals)"
proof (induction vals)
  case Nil
  show ?case by (subst find_first.simps) simp
next
  case (Cons a vals)
  with find_first_Cons [of 0 vals a v] show ?case by (subst find_first.simps) auto
qed

lemma all_equals_iff: "all_equals vals v i \<longleftrightarrow> (\<forall>j. i \<le> j \<and> j < length vals \<longrightarrow> vals ! j = v)"
proof (induction vals v i rule: all_equals.induct)
  case (1 vals v i)
  show ?case
  proof (cases "i < length vals \<and> v = vals ! i")
    case True
    with 1 have "all_equals vals v i \<longleftrightarrow> (\<forall>j. i + 1 \<le> j \<and> j < length vals \<longrightarrow> vals ! j = v)"
      by (subst all_equals.simps) auto
    with True show ?thesis by (metis Suc_eq_plus1 Suc_leI le_neq_implies_less le_SucI Suc_le_lessD less_imp_le)
  next
    case False
    then show ?thesis by (subst all_equals.simps) (auto dest: spec [of _ i])
  qed
qed

lemma find_last_rev:
  "i \<le> length vals \<Longrightarrow>
   find_last vals v i = (if find_first (rev vals) v i = length vals then length vals else length vals - find_first (rev vals) v i - 1)"
proof (induction vals v i rule: find_last.induct)
  case (1 vals v i)
  show ?case
  proof (cases "length vals \<le> i \<or> v = vals ! (length vals - i - 1)")
    case True
    with "1.prems" show ?thesis
      using find_first.simps [of "rev vals" v i] find_last.simps [of vals v i] by (auto simp: rev_nth)
  next
    case False
    then have "find_first (rev vals) v i = find_first (rev vals) v (i + 1)"
      by (subst find_first.simps) (auto simp: rev_nth)
    moreover from False have "find_last vals v i = find_last vals v (i + 1)" by (subst find_last.simps) auto
    ultimately show ?thesis using 1 False by simp
  qed
qed

section \<open>Types and their storage\<close>

text \<open>
  What the compiler knows of a type. \<open>ty_declared_small\<close> stands for a specialisation of
  \<^verbatim>\<open>is_small_type\<close> to true, \<open>ty_recursive\<close> for \<^verbatim>\<open>is_recursive\<close>. A pointer has 8 bytes.
\<close>

record ctype =
  ty_id :: nat
  ty_sizeof :: nat
  ty_declared_small :: bool
  ty_recursive :: bool
  ty_integral :: bool
  ty_arithmetic :: bool
  ty_signed :: bool
  ty_pointer :: bool
  ty_default_constructible :: bool

definition sizeof_pointer :: nat where
  "sizeof_pointer = 8"

definition is_small_type :: "ctype \<Rightarrow> bool" where
  "is_small_type t \<longleftrightarrow> ty_declared_small t \<or> ty_sizeof t \<le> sizeof_pointer"

definition is_small_type_impl :: "ctype \<Rightarrow> bool" where
  "is_small_type_impl t \<longleftrightarrow> (if ty_recursive t then False else is_small_type t)"

definition memory_footprint :: "ctype \<Rightarrow> nat" where
  "memory_footprint t =
     (if ty_recursive t then sizeof_pointer else if is_small_type_impl t then ty_sizeof t else sizeof_pointer)"

definition store_on_stack :: "nat \<Rightarrow> ctype \<Rightarrow> bool" where
  "store_on_stack mem_size t \<longleftrightarrow> is_small_type_impl t \<and> memory_footprint t \<le> mem_size"

definition min_memory_size :: "ctype list \<Rightarrow> nat" where
  "min_memory_size types = max_value (map memory_footprint types) 0 0"

definition memory_size :: "ctype list \<Rightarrow> nat" where
  "memory_size types =
     (let m = min_memory_size types in
      sizeof_pointer * (m div sizeof_pointer + (if m mod sizeof_pointer \<noteq> 0 then 1 else 0)))"

text \<open>The array of the variant is wide enough for each alternative, so exactly the small ones are kept in it.\<close>

lemma memory_footprint_le:
  assumes "t \<in> set types"
  shows "memory_footprint t \<le> memory_size types"
proof -
  obtain k where k: "k < length types" "types ! k = t" using assms by (auto simp: in_set_conv_nth)
  then have "memory_footprint t \<le> min_memory_size types"
    using max_value_elem [of 0 k "map memory_footprint types" 0] by (simp add: min_memory_size_def)
  also have "m \<le> 8 * (m div 8 + (if m mod 8 \<noteq> 0 then 1 else 0))" for m :: nat
    using div_mult_mod_eq [of m 8] mod_less_divisor [of 8 m] by (auto simp: algebra_simps)
  then have "min_memory_size types \<le> memory_size types" by (simp add: memory_size_def Let_def sizeof_pointer_def)
  finally show ?thesis .
qed

lemma store_on_stack_small: "t \<in> set types \<Longrightarrow> store_on_stack (memory_size types) t \<longleftrightarrow> is_small_type_impl t"
  using memory_footprint_le by (auto simp: store_on_stack_def)

section \<open>Choosing an alternative\<close>

text \<open>
  \<^verbatim>\<open>get_index\<close>: the index of a type in the list, or the number of types.
\<close>

definition get_index :: "ctype list \<Rightarrow> nat \<Rightarrow> nat" where
  "get_index types i = find_first (map (\<lambda>t. ty_id t = i) types) True 0"

text \<open>
  An argument: its type without reference, and whether it is an lvalue, whose deduced type
  \<^verbatim>\<open>Arg\<close> is then a reference. The traits \<^verbatim>\<open>is_integral\<close>, \<^verbatim>\<open>is_arithmetic\<close> and \<^verbatim>\<open>is_signed\<close>
  are false on references, while \<^verbatim>\<open>sizeof\<close> looks through them.
\<close>

record arg =
  arg_type :: ctype
  arg_lvalue :: bool

definition arg_integral :: "arg \<Rightarrow> bool" where
  "arg_integral a \<longleftrightarrow> \<not> arg_lvalue a \<and> ty_integral (arg_type a)"

definition arg_arithmetic :: "arg \<Rightarrow> bool" where
  "arg_arithmetic a \<longleftrightarrow> \<not> arg_lvalue a \<and> ty_arithmetic (arg_type a)"

definition arg_signed :: "arg \<Rightarrow> bool" where
  "arg_signed a \<longleftrightarrow> \<not> arg_lvalue a \<and> ty_signed (arg_type a)"

text \<open>
  \<^verbatim>\<open>select_constructible\<close> on a first argument \<open>a\<close> and the rest; \<open>con t\<close> tells whether \<open>t\<close> is
  constructible from all of them.
\<close>

definition first_type :: "(ctype \<Rightarrow> bool) \<Rightarrow> ctype list \<Rightarrow> nat" where
  "first_type p types = find_first (map p types) True 0"

definition index_first_same_value :: "(ctype \<Rightarrow> bool) \<Rightarrow> arg \<Rightarrow> ctype list \<Rightarrow> nat" where
  "index_first_same_value con a = first_type (\<lambda>t. ty_id (arg_type a) = ty_id t \<and> con t)"

definition index_first_integral_ssig_value :: "(ctype \<Rightarrow> bool) \<Rightarrow> arg \<Rightarrow> ctype list \<Rightarrow> nat" where
  "index_first_integral_ssig_value con a = first_type
     (\<lambda>t. ty_integral t \<and> ty_sizeof (arg_type a) \<le> memory_footprint t \<and> ty_signed t = arg_signed a \<and> con t)"

definition index_first_integral_value :: "(ctype \<Rightarrow> bool) \<Rightarrow> arg \<Rightarrow> ctype list \<Rightarrow> nat" where
  "index_first_integral_value con a = first_type
     (\<lambda>t. ty_integral t \<and> ty_sizeof (arg_type a) \<le> memory_footprint t \<and> con t)"

definition index_first_arithmetic_value :: "(ctype \<Rightarrow> bool) \<Rightarrow> arg \<Rightarrow> ctype list \<Rightarrow> nat" where
  "index_first_arithmetic_value con a = first_type
     (\<lambda>t. ty_arithmetic t \<and> \<not> ty_integral t \<and> ty_sizeof (arg_type a) \<le> memory_footprint t \<and> con t)"

definition index_first_ptrwise_value :: "(ctype \<Rightarrow> bool) \<Rightarrow> arg \<Rightarrow> bool \<Rightarrow> ctype list \<Rightarrow> nat" where
  "index_first_ptrwise_value con a single = first_type
     (\<lambda>t. \<not> (ty_integral t \<and> ty_pointer (arg_type a) \<and> single) \<and> con t)"

definition index_first_value :: "(ctype \<Rightarrow> bool) \<Rightarrow> ctype list \<Rightarrow> nat" where
  "index_first_value con = first_type con"

definition select_constructible :: "(ctype \<Rightarrow> arg list \<Rightarrow> bool) \<Rightarrow> arg \<Rightarrow> arg list \<Rightarrow> ctype list \<Rightarrow> nat" where
  "select_constructible constructible a rest types =
     (let n = length types; con = (\<lambda>t. constructible t (a # rest)); single = (rest = []) in
      if index_first_same_value con a types < n \<and> single then index_first_same_value con a types
      else if arg_integral a \<and> single \<and> index_first_integral_ssig_value con a types < n
        then index_first_integral_ssig_value con a types
      else if arg_integral a \<and> single \<and> index_first_integral_value con a types < n
        then index_first_integral_value con a types
      else if arg_arithmetic a \<and> single \<and> index_first_arithmetic_value con a types < n
        then index_first_arithmetic_value con a types
      else if index_first_ptrwise_value con a single types < n then index_first_ptrwise_value con a single types
      else index_first_value con types)"

definition select_default :: "ctype list \<Rightarrow> nat" where
  "select_default types = first_type (\<lambda>t. \<not> ty_recursive t \<and> ty_default_constructible t) types"

lemma first_type_hit: "first_type p types < length types \<Longrightarrow> p (types ! first_type p types)"
  using find_first_hit [of "map p types" True] by (simp add: first_type_def)

lemma first_type_le: "first_type p types \<le> length types"
  using find_first_le [of "map p types" True] by (simp add: first_type_def)

lemma first_type_unique:
  assumes "k < length types" and "p (types ! k)" and "\<And>j. j < length types \<Longrightarrow> p (types ! j) \<Longrightarrow> j = k"
  shows "first_type p types = k"
  unfolding first_type_def
proof (rule find_first_unique)
  show "k < length (map p types)" and "map p types ! k = True" using assms(1,2) by simp_all
  show "j = k" if "j < length (map p types)" "map p types ! j = True" for j using assms(3) [of j] that by simp
qed

lemma first_type_exists:
  assumes "t \<in> set types" and "p t"
  shows "first_type p types < length types"
proof (rule ccontr)
  assume "\<not> ?thesis"
  with first_type_le [of p types] have "first_type p types = length types" by linarith
  with first_at_find [of 0 "map p types" True] have "\<forall>j \<in> {0..<length types}. \<not> p (types ! j)"
    by (simp add: first_at_def first_type_def)
  with assms show False by (auto simp: in_set_conv_nth)
qed

lemma get_index_nth:
  assumes "distinct (map ty_id types)" and "k < length types"
  shows "get_index types (ty_id (types ! k)) = k"
  using assms first_type_unique [of k types "\<lambda>t. ty_id t = ty_id (types ! k)"]
  by (auto simp: get_index_def first_type_def distinct_conv_nth)

lemmas select_index_defs =
  index_first_same_value_def index_first_integral_ssig_value_def index_first_integral_value_def
  index_first_arithmetic_value_def index_first_ptrwise_value_def index_first_value_def

text \<open>
  The alternative that is chosen can be constructed from the arguments; one is found whenever
  some alternative can be; and a value of an alternative is kept as that alternative.
\<close>

lemma select_constructible_sound:
  "select_constructible constructible a rest types < length types \<Longrightarrow>
   constructible (types ! select_constructible constructible a rest types) (a # rest)"
  by (auto simp: select_constructible_def select_index_defs Let_def split: if_splits dest: first_type_hit)

lemma select_constructible_complete:
  "t \<in> set types \<Longrightarrow> constructible t (a # rest) \<Longrightarrow> select_constructible constructible a rest types < length types"
  using first_type_exists [of t types "\<lambda>t. constructible t (a # rest)"]
  by (auto simp: select_constructible_def index_first_value_def Let_def)

lemma select_constructible_same:
  assumes "distinct (map ty_id types)" and "k < length types" and "ty_id (arg_type a) = ty_id (types ! k)"
    and "constructible (types ! k) [a]"
  shows "select_constructible constructible a [] types = k"
proof -
  have "index_first_same_value (\<lambda>t. constructible t [a]) a types = k"
    unfolding index_first_same_value_def using assms by (intro first_type_unique) (auto simp: distinct_conv_nth)
  with assms(2) show ?thesis by (simp add: select_constructible_def Let_def)
qed

end
