(* ===== verification/Variant.thy ===== *)
theory Variant
  imports Type_List
begin

text \<open>
  \<^verbatim>\<open>json_backbone::variant\<close> (\<^verbatim>\<open>src/boson/boson/external/json_backbone.hpp\<close>), the tagged union
  the commands and the waited events of the runtime are kept in. Small alternatives are
  constructed in the array of the variant, the others on the heap; the heap is explicit, so
  that reading an object as another type, destroying it twice and leaking it can be stated.
  \<open>None\<close> is undefined behaviour. Constructors and assignments of the alternatives do not
  throw.
\<close>

section \<open>Data\<close>

text \<open>
  An instance of the template: the alternatives, and what the language defines for them:
  which are constructible from which arguments, the value of \<^verbatim>\<open>T(args...)\<close> and of
  \<^verbatim>\<open>T()\<close>, and what an object holds once it was moved from.
\<close>

record 'v vtypes =
  vt_types :: "ctype list"
  vt_constructible :: "ctype \<Rightarrow> arg list \<Rightarrow> bool"
  vt_construct :: "ctype \<Rightarrow> (arg \<times> 'v) list \<Rightarrow> 'v"
  vt_default :: "ctype \<Rightarrow> 'v"
  vt_moved :: "ctype \<Rightarrow> 'v \<Rightarrow> 'v"

text \<open>The array \<^verbatim>\<open>data_\<close>: nothing that may be read, an object of a type, or a pointer.\<close>

datatype 'v vdata = Raw | Inplace nat 'v | Ptr nat

record 'v variant =
  v_type :: nat
  v_data :: "'v vdata"

record 'v vheap =
  vh_objs :: "nat \<Rightarrow> (nat \<times> 'v) option"
  vh_next :: nat

definition type_at :: "'v vtypes \<Rightarrow> nat \<Rightarrow> ctype" where
  "type_at E i = vt_types E ! i"

definition on_stack :: "'v vtypes \<Rightarrow> nat \<Rightarrow> bool" where
  "on_stack E i \<longleftrightarrow> store_on_stack (memory_size (vt_types E)) (type_at E i)"

definition variant_init :: "'v vtypes \<Rightarrow> 'v variant" where
  "variant_init E = \<lparr>v_type = length (vt_types E), v_data = Raw\<rparr>"

section \<open>Operations\<close>

definition deleter_fp :: "'v vtypes \<Rightarrow> nat \<Rightarrow> 'v vdata \<Rightarrow> 'v vheap \<Rightarrow> ('v vdata \<times> 'v vheap) option" where
  "deleter_fp E i d h =
     (if on_stack E i then
        (case d of Inplace ty x \<Rightarrow> if ty = ty_id (type_at E i) then Some (Raw, h) else None | _ \<Rightarrow> None)
      else
        (case d of
           Ptr a \<Rightarrow> do { (ty, x) \<leftarrow> vh_objs h a;
                        if ty = ty_id (type_at E i) then Some (Raw, h\<lparr>vh_objs := (vh_objs h)(a := None)\<rparr>) else None }
         | _ \<Rightarrow> None))"

definition variant_clear :: "'v vtypes \<Rightarrow> 'v variant \<Rightarrow> 'v vheap \<Rightarrow> ('v variant \<times> 'v vheap) option" where
  "variant_clear E v h =
     (if v_type v < length (vt_types E) then
        do { (d, h1) \<leftarrow> deleter_fp E (v_type v) (v_data v) h; Some (v\<lparr>v_data := d\<rparr>, h1) }
      else Some (v, h))"

definition variant_allocate :: "'v vtypes \<Rightarrow> nat \<Rightarrow> 'v \<Rightarrow> 'v variant \<Rightarrow> 'v vheap \<Rightarrow> 'v variant \<times> 'v vheap" where
  "variant_allocate E i x v h =
     (if on_stack E i then (v\<lparr>v_data := Inplace (ty_id (type_at E i)) x\<rparr>, h)
      else (v\<lparr>v_data := Ptr (vh_next h)\<rparr>,
            h\<lparr>vh_objs := (vh_objs h)(vh_next h \<mapsto> (ty_id (type_at E i), x)), vh_next := vh_next h + 1\<rparr>))"

definition variant_create ::
  "'v vtypes \<Rightarrow> (arg \<times> 'v) list \<Rightarrow> 'v variant \<Rightarrow> 'v vheap \<Rightarrow> ('v variant \<times> 'v vheap) option" where
  "variant_create E args v h =
     (case args of
        [] \<Rightarrow> None
      | a # rest \<Rightarrow>
          let k = select_constructible (vt_constructible E) (fst a) (map fst rest) (vt_types E) in
          if k < length (vt_types E) then
            let i = get_index (vt_types E) (ty_id (type_at E k)) in
            Some (variant_allocate E i (vt_construct E (type_at E k) args) (v\<lparr>v_type := i\<rparr>) h)
          else None)"

text \<open>The object read as the alternative \<open>i\<close>, without a check, and the assignment to it.\<close>

definition variant_raw :: "'v vtypes \<Rightarrow> nat \<Rightarrow> 'v variant \<Rightarrow> 'v vheap \<Rightarrow> 'v option" where
  "variant_raw E i v h =
     (if on_stack E i then
        (case v_data v of Inplace ty x \<Rightarrow> if ty = ty_id (type_at E i) then Some x else None | _ \<Rightarrow> None)
      else
        (case v_data v of
           Ptr a \<Rightarrow> do { (ty, x) \<leftarrow> vh_objs h a; if ty = ty_id (type_at E i) then Some x else None }
         | _ \<Rightarrow> None))"

definition variant_raw_set :: "'v vtypes \<Rightarrow> nat \<Rightarrow> 'v \<Rightarrow> 'v variant \<Rightarrow> 'v vheap \<Rightarrow> ('v variant \<times> 'v vheap) option" where
  "variant_raw_set E i y v h =
     do { x \<leftarrow> variant_raw E i v h;
          case v_data v of
            Ptr a \<Rightarrow> Some (v, h\<lparr>vh_objs := (vh_objs h)(a \<mapsto> (ty_id (type_at E i), y))\<rparr>)
          | _ \<Rightarrow> Some (v\<lparr>v_data := Inplace (ty_id (type_at E i)) y\<rparr>, h) }"

definition variant_is :: "nat \<Rightarrow> 'v variant \<Rightarrow> bool" where
  "variant_is i v \<longleftrightarrow> v_type v = i"

datatype 'v access = Access 'v | Bad_variant_access

definition variant_get :: "'v vtypes \<Rightarrow> nat \<Rightarrow> 'v variant \<Rightarrow> 'v vheap \<Rightarrow> 'v access option" where
  "variant_get E i v h =
     (if variant_is i v then do { x \<leftarrow> variant_raw E i v h; Some (Access x) } else Some Bad_variant_access)"

text \<open>\<^verbatim>\<open>get() &&\<close>: the object is moved out.\<close>

definition variant_get_move ::
  "'v vtypes \<Rightarrow> nat \<Rightarrow> 'v variant \<Rightarrow> 'v vheap \<Rightarrow> ('v access \<times> 'v variant \<times> 'v vheap) option" where
  "variant_get_move E i v h =
     (if variant_is i v then
        do { x \<leftarrow> variant_raw E i v h;
             (v1, h1) \<leftarrow> variant_raw_set E i (vt_moved E (type_at E i) x) v h;
             Some (Access x, v1, h1) }
      else Some (Bad_variant_access, v, h))"

text \<open>An argument of the type of an alternative, an lvalue or an rvalue.\<close>

definition same_arg :: "'v vtypes \<Rightarrow> nat \<Rightarrow> bool \<Rightarrow> arg" where
  "same_arg E i lvalue = \<lparr>arg_type = type_at E i, arg_lvalue = lvalue\<rparr>"

definition copy_ctor_fp ::
  "'v vtypes \<Rightarrow> nat \<Rightarrow> 'v variant \<Rightarrow> 'v variant \<Rightarrow> 'v vheap \<Rightarrow> ('v variant \<times> 'v vheap) option" where
  "copy_ctor_fp E i self other h =
     do { x \<leftarrow> variant_raw E i other h; variant_create E [(same_arg E i True, x)] self h }"

definition move_ctor_fp ::
  "'v vtypes \<Rightarrow> nat \<Rightarrow> 'v variant \<Rightarrow> 'v variant \<Rightarrow> 'v vheap \<Rightarrow> ('v variant \<times> 'v variant \<times> 'v vheap) option" where
  "move_ctor_fp E i self other h =
     do { x \<leftarrow> variant_raw E i other h;
          (other1, h1) \<leftarrow> variant_raw_set E i (vt_moved E (type_at E i) x) other h;
          (self1, h2) \<leftarrow> variant_create E [(same_arg E i False, x)] self h1;
          Some (self1, other1, h2) }"

definition copy_assign_fp ::
  "'v vtypes \<Rightarrow> nat \<Rightarrow> 'v variant \<Rightarrow> 'v variant \<Rightarrow> 'v vheap \<Rightarrow> ('v variant \<times> 'v vheap) option" where
  "copy_assign_fp E i self other h =
     do { x \<leftarrow> variant_raw E i other h;
          if variant_is i self then variant_raw_set E i x self h else None }"

definition move_assign_fp ::
  "'v vtypes \<Rightarrow> nat \<Rightarrow> 'v variant \<Rightarrow> 'v variant \<Rightarrow> 'v vheap \<Rightarrow> ('v variant \<times> 'v variant \<times> 'v vheap) option" where
  "move_assign_fp E i self other h =
     do { x \<leftarrow> variant_raw E i other h;
          (other1, h1) \<leftarrow> variant_raw_set E i (vt_moved E (type_at E i) x) other h;
          if variant_is i self then do { (self1, h2) \<leftarrow> variant_raw_set E i x self h1; Some (self1, other1, h2) }
          else None }"

definition variant_default :: "'v vtypes \<Rightarrow> 'v vheap \<Rightarrow> ('v variant \<times> 'v vheap) option" where
  "variant_default E h =
     (let k = select_default (vt_types E) in
      if k < length (vt_types E) then variant_create E [(same_arg E k False, vt_default E (type_at E k))] (variant_init E) h
      else None)"

definition variant_from :: "'v vtypes \<Rightarrow> (arg \<times> 'v) list \<Rightarrow> 'v vheap \<Rightarrow> ('v variant \<times> 'v vheap) option" where
  "variant_from E args h = variant_create E args (variant_init E) h"

definition variant_copy :: "'v vtypes \<Rightarrow> 'v variant \<Rightarrow> 'v vheap \<Rightarrow> ('v variant \<times> 'v vheap) option" where
  "variant_copy E other h =
     (if v_type other < length (vt_types E) then copy_ctor_fp E (v_type other) (variant_init E) other h else None)"

definition variant_move :: "'v vtypes \<Rightarrow> 'v variant \<Rightarrow> 'v vheap \<Rightarrow> ('v variant \<times> 'v variant \<times> 'v vheap) option" where
  "variant_move E other h =
     (if v_type other < length (vt_types E) then move_ctor_fp E (v_type other) (variant_init E) other h else None)"

definition variant_destroy :: "'v vtypes \<Rightarrow> 'v variant \<Rightarrow> 'v vheap \<Rightarrow> 'v vheap option" where
  "variant_destroy E v h = do { (v1, h1) \<leftarrow> variant_clear E v h; Some h1 }"

definition variant_copy_assign ::
  "'v vtypes \<Rightarrow> 'v variant \<Rightarrow> 'v variant \<Rightarrow> 'v vheap \<Rightarrow> ('v variant \<times> 'v vheap) option" where
  "variant_copy_assign E v other h =
     (if length (vt_types E) \<le> v_type other then None
      else if v_type v = v_type other then copy_assign_fp E (v_type v) v other h
      else do { (v1, h1) \<leftarrow> variant_clear E v h; copy_ctor_fp E (v_type other) v1 other h1 })"

definition variant_move_assign ::
  "'v vtypes \<Rightarrow> 'v variant \<Rightarrow> 'v variant \<Rightarrow> 'v vheap \<Rightarrow> ('v variant \<times> 'v variant \<times> 'v vheap) option" where
  "variant_move_assign E v other h =
     (if length (vt_types E) \<le> v_type other then None
      else if v_type v = v_type other then move_assign_fp E (v_type v) v other h
      else do { (v1, h1) \<leftarrow> variant_clear E v h; move_ctor_fp E (v_type other) v1 other h1 })"

text \<open>Assignment of a value of the alternative \<open>i\<close>, and of a value convertible to one.\<close>

definition variant_assign ::
  "'v vtypes \<Rightarrow> nat \<Rightarrow> bool \<Rightarrow> 'v \<Rightarrow> 'v variant \<Rightarrow> 'v vheap \<Rightarrow> ('v variant \<times> 'v vheap) option" where
  "variant_assign E i lvalue x v h =
     (if v_type v = i then variant_raw_set E i x v h
      else do { (v1, h1) \<leftarrow> variant_clear E v h; variant_create E [(same_arg E i lvalue, x)] v1 h1 })"

definition variant_assign_convert ::
  "'v vtypes \<Rightarrow> arg \<Rightarrow> 'v \<Rightarrow> 'v variant \<Rightarrow> 'v vheap \<Rightarrow> ('v variant \<times> 'v vheap) option" where
  "variant_assign_convert E a x v h =
     (let k = select_constructible (vt_constructible E) a [] (vt_types E) in
      if k < length (vt_types E) then variant_assign E k False (vt_construct E (type_at E k) [(a, x)]) v h else None)"

text \<open>The comparisons, over those of the alternatives.\<close>

definition variant_equals ::
  "'v vtypes \<Rightarrow> (nat \<Rightarrow> 'v \<Rightarrow> 'v \<Rightarrow> bool) \<Rightarrow> 'v variant \<Rightarrow> 'v variant \<Rightarrow> 'v vheap \<Rightarrow> bool option" where
  "variant_equals E eq l r h =
     (if v_type l = v_type r then
        do { x \<leftarrow> variant_raw E (v_type l) l h; y \<leftarrow> variant_raw E (v_type l) r h; Some (eq (v_type l) x y) }
      else Some False)"

definition variant_equals_value ::
  "'v vtypes \<Rightarrow> (nat \<Rightarrow> 'v \<Rightarrow> 'v \<Rightarrow> bool) \<Rightarrow> 'v variant \<Rightarrow> nat \<Rightarrow> 'v \<Rightarrow> 'v vheap \<Rightarrow> bool option" where
  "variant_equals_value E eq l i y h =
     (if variant_is i l then do { x \<leftarrow> variant_raw E i l h; Some (eq i x y) } else Some False)"

definition variant_less ::
  "'v vtypes \<Rightarrow> (nat \<Rightarrow> 'v \<Rightarrow> 'v \<Rightarrow> bool) \<Rightarrow> 'v variant \<Rightarrow> 'v variant \<Rightarrow> 'v vheap \<Rightarrow> bool option" where
  "variant_less E lt l r h =
     (if v_type l = v_type r then
        do { x \<leftarrow> variant_raw E (v_type l) l h; y \<leftarrow> variant_raw E (v_type l) r h; Some (lt (v_type l) x y) }
      else Some (v_type l < v_type r))"

section \<open>What each operation does\<close>

text \<open>The heap cells a variant owns.\<close>

definition own :: "'v variant \<Rightarrow> nat set" where
  "own v = (case v_data v of Ptr a \<Rightarrow> {a} | _ \<Rightarrow> {})"

definition heap_fresh :: "'v vheap \<Rightarrow> bool" where
  "heap_fresh h \<longleftrightarrow> (\<forall>a. vh_objs h a \<noteq> None \<longrightarrow> a < vh_next h)"

definition same_outside :: "nat set \<Rightarrow> 'v vheap \<Rightarrow> 'v vheap \<Rightarrow> bool" where
  "same_outside A h h' \<longleftrightarrow> (\<forall>a. a \<notin> A \<longrightarrow> vh_objs h' a = vh_objs h a)"

lemma raw_own: "variant_raw E i v h = Some x \<Longrightarrow> a \<in> own v \<Longrightarrow> vh_objs h a \<noteq> None"
  by (auto simp: variant_raw_def own_def split: if_splits vdata.splits Option.bind_splits)

lemma raw_frame: "same_outside A h h' \<Longrightarrow> own v \<inter> A = {} \<Longrightarrow> variant_raw E i v h' = variant_raw E i v h"
  by (auto simp: variant_raw_def own_def same_outside_def split: vdata.splits)

lemma clear_ok:
  assumes "v_type v < length (vt_types E)" and "variant_raw E (v_type v) v h = Some x"
  shows "\<exists>v1 h1. variant_clear E v h = Some (v1, h1) \<and> own v1 = {} \<and> same_outside (own v) h h1 \<and>
    (\<forall>a \<in> own v. vh_objs h1 a = None) \<and> vh_next h1 = vh_next h"
  using assms
  by (auto simp: variant_clear_def deleter_fp_def variant_raw_def own_def same_outside_def
      split: if_splits vdata.splits Option.bind_splits)

lemma raw_set_ok:
  assumes "variant_raw E i v h = Some x"
  shows "\<exists>v1 h1. variant_raw_set E i y v h = Some (v1, h1) \<and> variant_raw E i v1 h1 = Some y \<and> own v1 = own v \<and>
    v_type v1 = v_type v \<and> same_outside (own v) h h1 \<and> vh_next h1 = vh_next h"
  using assms
  by (auto simp: variant_raw_set_def variant_raw_def own_def same_outside_def split: if_splits vdata.splits Option.bind_splits)

lemma allocate_ok:
  assumes "variant_allocate E i x v h = (v1, h1)"
  shows "variant_raw E i v1 h1 = Some x \<and> v_type v1 = v_type v \<and> own v1 \<subseteq> {vh_next h} \<and> same_outside (own v1) h h1 \<and>
    vh_next h \<le> vh_next h1 \<and> (\<forall>a \<in> own v1. a < vh_next h1)"
  using assms by (auto simp: variant_allocate_def variant_raw_def own_def same_outside_def split: if_splits)

section \<open>Instances\<close>

text \<open>
  What the language guarantees of an instance that compiles: the alternatives are pairwise
  different types, each can be constructed from an rvalue of itself, and constructing one
  from itself, where that is possible, gives the same value.
\<close>

definition variant_env :: "'v vtypes \<Rightarrow> bool" where
  "variant_env E \<longleftrightarrow> distinct (map ty_id (vt_types E)) \<and>
     (\<forall>i < length (vt_types E). vt_constructible E (type_at E i) [same_arg E i False] \<and>
        (\<forall>b x. vt_construct E (type_at E i) [(same_arg E i b, x)] = x))"

locale variant_instance =
  fixes E :: "'v vtypes"
  assumes env: "variant_env E"
begin

lemma create_same:
  assumes "i < length (vt_types E)" and "vt_constructible E (type_at E i) [same_arg E i b]"
  shows "\<exists>v1 h1. variant_create E [(same_arg E i b, x)] v h = Some (v1, h1) \<and> v_type v1 = i \<and>
    variant_raw E i v1 h1 = Some x \<and> own v1 \<subseteq> {vh_next h} \<and> same_outside (own v1) h h1 \<and>
    vh_next h \<le> vh_next h1 \<and> (\<forall>a \<in> own v1. a < vh_next h1)"
proof -
  have d: "distinct (map ty_id (vt_types E))" using env by (simp add: variant_env_def)
  have k: "select_constructible (vt_constructible E) (same_arg E i b) [] (vt_types E) = i"
    by (rule select_constructible_same [OF d assms(1)]) (use assms(2) in \<open>simp_all add: same_arg_def type_at_def\<close>)
  have i: "get_index (vt_types E) (ty_id (type_at E i)) = i"
    using get_index_nth [OF d assms(1)] by (simp add: type_at_def)
  have x: "vt_construct E (type_at E i) [(same_arg E i b, x)] = x" using env assms(1) by (simp add: variant_env_def)
  obtain v1 h1 where *: "variant_allocate E i x (v\<lparr>v_type := i\<rparr>) h = (v1, h1)" by fastforce
  then have "variant_create E [(same_arg E i b, x)] v h = Some (v1, h1)"
    using assms(1) by (simp add: variant_create_def k i x Let_def)
  with allocate_ok [OF *] show ?thesis by simp
qed

lemma create_any:
  assumes "args \<noteq> []" and "t \<in> set (vt_types E)" and "vt_constructible E t (map fst args)"
  shows "\<exists>i v1 h1 x. variant_create E args v h = Some (v1, h1) \<and> v_type v1 = i \<and> i < length (vt_types E) \<and>
    variant_raw E i v1 h1 = Some x \<and> own v1 \<subseteq> {vh_next h} \<and> same_outside (own v1) h h1 \<and>
    vh_next h \<le> vh_next h1 \<and> (\<forall>a \<in> own v1. a < vh_next h1)"
proof -
  obtain a rest where args: "args = a # rest" using assms(1) by (cases args) auto
  define k where "k = select_constructible (vt_constructible E) (fst a) (map fst rest) (vt_types E)"
  have k: "k < length (vt_types E)" unfolding k_def
    by (rule select_constructible_complete [OF assms(2)]) (use assms(3) args in simp)
  have d: "distinct (map ty_id (vt_types E))" using env by (simp add: variant_env_def)
  have i: "get_index (vt_types E) (ty_id (type_at E k)) = k" using get_index_nth [OF d k] by (simp add: type_at_def)
  obtain v1 h1 where *: "variant_allocate E k (vt_construct E (type_at E k) args) (v\<lparr>v_type := k\<rparr>) h = (v1, h1)"
    by fastforce
  then have "variant_create E args v h = Some (v1, h1)"
    using k by (simp add: variant_create_def args i k_def [symmetric] Let_def)
  with allocate_ok [OF *] k show ?thesis by simp
qed

end

section \<open>Programs\<close>

text \<open>Variables of one variant type, over the heap.\<close>

record 'v vstate =
  vs_vars :: "nat \<Rightarrow> 'v variant option"
  vs_heap :: "'v vheap"

definition vs_empty :: "'v vstate" where
  "vs_empty = \<lparr>vs_vars = (\<lambda>_. None), vs_heap = \<lparr>vh_objs = (\<lambda>_. None), vh_next = 0\<rparr>\<rparr>"

definition set_var :: "nat \<Rightarrow> 'v variant \<times> 'v vheap \<Rightarrow> 'v vstate \<Rightarrow> 'v vstate" where
  "set_var x p s = \<lparr>vs_vars = (vs_vars s)(x \<mapsto> fst p), vs_heap = snd p\<rparr>"

definition set_vars :: "nat \<Rightarrow> nat \<Rightarrow> 'v variant \<times> 'v variant \<times> 'v vheap \<Rightarrow> 'v vstate \<Rightarrow> 'v vstate" where
  "set_vars x y p s = (case p of (v, w, h) \<Rightarrow> \<lparr>vs_vars = (vs_vars s)(y \<mapsto> w, x \<mapsto> v), vs_heap = h\<rparr>)"

datatype 'v vop =
    VDefault nat
  | VFrom nat "(arg \<times> 'v) list"
  | VCopy nat nat
  | VMove nat nat
  | VDestroy nat
  | VCopyAssign nat nat
  | VMoveAssign nat nat
  | VAssign nat nat bool 'v
  | VConvert nat arg 'v

fun vexec :: "'v vtypes \<Rightarrow> 'v vop \<Rightarrow> 'v vstate \<Rightarrow> 'v vstate option" where
  "vexec E (VDefault x) s = do { p \<leftarrow> variant_default E (vs_heap s); Some (set_var x p s) }"
| "vexec E (VFrom x args) s = do { p \<leftarrow> variant_from E args (vs_heap s); Some (set_var x p s) }"
| "vexec E (VCopy x y) s = do { w \<leftarrow> vs_vars s y; p \<leftarrow> variant_copy E w (vs_heap s); Some (set_var x p s) }"
| "vexec E (VMove x y) s = do { w \<leftarrow> vs_vars s y; p \<leftarrow> variant_move E w (vs_heap s); Some (set_vars x y p s) }"
| "vexec E (VDestroy x) s =
     do { v \<leftarrow> vs_vars s x; h \<leftarrow> variant_destroy E v (vs_heap s); Some \<lparr>vs_vars = (vs_vars s)(x := None), vs_heap = h\<rparr> }"
| "vexec E (VCopyAssign x y) s =
     do { v \<leftarrow> vs_vars s x; w \<leftarrow> vs_vars s y; p \<leftarrow> variant_copy_assign E v w (vs_heap s); Some (set_var x p s) }"
| "vexec E (VMoveAssign x y) s =
     do { v \<leftarrow> vs_vars s x; w \<leftarrow> vs_vars s y; p \<leftarrow> variant_move_assign E v w (vs_heap s); Some (set_vars x y p s) }"
| "vexec E (VAssign x i b u) s =
     do { v \<leftarrow> vs_vars s x; p \<leftarrow> variant_assign E i b u v (vs_heap s); Some (set_var x p s) }"
| "vexec E (VConvert x a u) s =
     do { v \<leftarrow> vs_vars s x; p \<leftarrow> variant_assign_convert E a u v (vs_heap s); Some (set_var x p s) }"

text \<open>
  What a program that compiles may do: declare a variable that is not there, use one that is,
  copy alternatives that can be copied, construct where some alternative can be constructed.
\<close>

definition copyable :: "'v vtypes \<Rightarrow> bool" where
  "copyable E \<longleftrightarrow> (\<forall>i < length (vt_types E). vt_constructible E (type_at E i) [same_arg E i True])"

fun vlegal :: "'v vtypes \<Rightarrow> 'v vop \<Rightarrow> 'v vstate \<Rightarrow> bool" where
  "vlegal E (VDefault x) s \<longleftrightarrow> vs_vars s x = None \<and> select_default (vt_types E) < length (vt_types E)"
| "vlegal E (VFrom x args) s \<longleftrightarrow>
     vs_vars s x = None \<and> args \<noteq> [] \<and> (\<exists>t \<in> set (vt_types E). vt_constructible E t (map fst args))"
| "vlegal E (VCopy x y) s \<longleftrightarrow> vs_vars s x = None \<and> vs_vars s y \<noteq> None \<and> copyable E"
| "vlegal E (VMove x y) s \<longleftrightarrow> vs_vars s x = None \<and> vs_vars s y \<noteq> None"
| "vlegal E (VDestroy x) s \<longleftrightarrow> vs_vars s x \<noteq> None"
| "vlegal E (VCopyAssign x y) s \<longleftrightarrow> vs_vars s x \<noteq> None \<and> vs_vars s y \<noteq> None \<and> copyable E"
| "vlegal E (VMoveAssign x y) s \<longleftrightarrow> vs_vars s x \<noteq> None \<and> vs_vars s y \<noteq> None \<and> x \<noteq> y"
| "vlegal E (VAssign x i b u) s \<longleftrightarrow>
     vs_vars s x \<noteq> None \<and> i < length (vt_types E) \<and> vt_constructible E (type_at E i) [same_arg E i b]"
| "vlegal E (VConvert x a u) s \<longleftrightarrow>
     vs_vars s x \<noteq> None \<and> (\<exists>t \<in> set (vt_types E). vt_constructible E t [a])"

inductive vreach :: "'v vtypes \<Rightarrow> 'v vstate \<Rightarrow> bool" for E where
  start: "vreach E vs_empty"
| exec: "vreach E s \<Longrightarrow> vlegal E op s \<Longrightarrow> vexec E op s = Some s' \<Longrightarrow> vreach E s'"

section \<open>The invariant\<close>

text \<open>
  Each variable holds an object of the alternative its tag names, no two variables own the
  same heap cell, and every heap cell is owned.
\<close>

definition vok :: "'v vtypes \<Rightarrow> 'v variant \<Rightarrow> 'v vheap \<Rightarrow> bool" where
  "vok E v h \<longleftrightarrow> v_type v < length (vt_types E) \<and> variant_raw E (v_type v) v h \<noteq> None"

definition own_opt :: "'v variant option \<Rightarrow> nat set" where
  "own_opt vo = (case vo of None \<Rightarrow> {} | Some v \<Rightarrow> own v)"

definition vinv :: "'v vtypes \<Rightarrow> 'v vstate \<Rightarrow> bool" where
  "vinv E s \<longleftrightarrow>
     (\<forall>x v. vs_vars s x = Some v \<longrightarrow> vok E v (vs_heap s)) \<and>
     (\<forall>x y. x \<noteq> y \<longrightarrow> own_opt (vs_vars s x) \<inter> own_opt (vs_vars s y) = {}) \<and>
     (\<forall>a. vh_objs (vs_heap s) a \<noteq> None \<longrightarrow> (\<exists>x. a \<in> own_opt (vs_vars s x))) \<and>
     heap_fresh (vs_heap s)"

lemma own_opt_simps [simp]: "own_opt None = {}" "own_opt (Some v) = own v"
  by (simp_all add: own_opt_def)

lemma vinvD:
  assumes "vinv E s" and "vs_vars s x = Some v"
  shows "v_type v < length (vt_types E)" and "\<exists>u. variant_raw E (v_type v) v (vs_heap s) = Some u"
  using assms by (auto simp: vinv_def vok_def)

lemma vinv_disjoint:
  "vinv E s \<Longrightarrow> x \<noteq> y \<Longrightarrow> vs_vars s x = Some v \<Longrightarrow> vs_vars s y = Some w \<Longrightarrow> own v \<inter> own w = {}"
  unfolding vinv_def by (metis own_opt_simps(2))

lemma vinv_owned_live:
  assumes "vinv E s" and "a \<in> own_opt (vs_vars s x)"
  shows "vh_objs (vs_heap s) a \<noteq> None" and "a < vh_next (vs_heap s)"
proof -
  obtain v where v: "vs_vars s x = Some v" "a \<in> own v" using assms(2) by (cases "vs_vars s x") auto
  obtain u where u: "variant_raw E (v_type v) v (vs_heap s) = Some u" using vinvD(2) [OF assms(1) v(1)] by blast
  show live: "vh_objs (vs_heap s) a \<noteq> None" by (rule raw_own [OF u v(2)])
  from live assms(1) show "a < vh_next (vs_heap s)" by (auto simp: vinv_def heap_fresh_def)
qed

text \<open>Replacing what one variable holds, or adding or removing the variable.\<close>

lemma vinv_replace:
  assumes inv: "vinv E s"
    and out: "same_outside (own_opt (vs_vars s x) \<union> own_opt vo) (vs_heap s) h"
    and gone: "\<And>a. a \<in> own_opt (vs_vars s x) \<Longrightarrow> a \<notin> own_opt vo \<Longrightarrow> vh_objs h a = None"
    and new: "own_opt vo \<subseteq> own_opt (vs_vars s x) \<union> {vh_next (vs_heap s)..}"
    and ok: "\<And>v. vo = Some v \<Longrightarrow> vok E v h"
    and up: "vh_next (vs_heap s) \<le> vh_next h" "\<And>a. a \<in> own_opt vo \<Longrightarrow> a < vh_next h"
  shows "vinv E \<lparr>vs_vars = (vs_vars s)(x := vo), vs_heap = h\<rparr>"
proof -
  have live: "vh_objs (vs_heap s) a \<noteq> None" "a < vh_next (vs_heap s)" if "a \<in> own_opt (vs_vars s y)" for a y
    using vinv_owned_live [OF inv that] by auto
  have sep: "own_opt (vs_vars s y) \<inter> own_opt (vs_vars s z) = {}" if "y \<noteq> z" for y z
    using inv that by (simp add: vinv_def)
  have disj: "own_opt (vs_vars s y) \<inter> own_opt vo = {}" if "y \<noteq> x" for y
    using new sep [OF that] live(2) [of _ y] by fastforce
  have kept: "vok E v h" if "y \<noteq> x" "vs_vars s y = Some v" for y v
  proof -
    have "own v \<inter> (own_opt (vs_vars s x) \<union> own_opt vo) = {}" using sep [OF that(1)] disj [OF that(1)] that(2) by auto
    from raw_frame [OF out this] inv that show ?thesis by (auto simp: vinv_def vok_def)
  qed
  have cells: "\<exists>y. a \<in> own_opt (((vs_vars s)(x := vo)) y)" if a: "vh_objs h a \<noteq> None" for a
  proof (cases "a \<in> own_opt vo")
    case False
    with gone [of a] a have "a \<notin> own_opt (vs_vars s x)" by auto
    with False out a have "vh_objs (vs_heap s) a \<noteq> None" by (simp add: same_outside_def)
    with inv obtain y where "a \<in> own_opt (vs_vars s y)" unfolding vinv_def by blast
    with \<open>a \<notin> own_opt (vs_vars s x)\<close> show ?thesis by (intro exI [of _ y]) auto
  qed (auto intro: exI [of _ x])
  have "heap_fresh h"
    unfolding heap_fresh_def
  proof (intro allI impI)
    fix a
    assume "vh_objs h a \<noteq> None"
    from cells [OF this] obtain y where "a \<in> own_opt (((vs_vars s)(x := vo)) y)" by blast
    with up live(2) [of a y] show "a < vh_next h" by (fastforce split: if_splits)
  qed
  moreover have "own_opt (((vs_vars s)(x := vo)) y) \<inter> own_opt (((vs_vars s)(x := vo)) z) = {}" if "y \<noteq> z" for y z
    using that sep [of y z] disj [of y] disj [of z] by (cases "y = x"; cases "z = x") auto
  moreover have "vok E v h" if "((vs_vars s)(x := vo)) y = Some v" for y v
    using that kept [of y v] ok [of v] by (cases "y = x") auto
  ultimately show ?thesis using cells by (simp add: vinv_def)
qed

lemma same_outside_trans: "same_outside A h h1 \<Longrightarrow> same_outside B h1 h2 \<Longrightarrow> same_outside (A \<union> B) h h2"
  by (simp add: same_outside_def)

lemma same_outside_mono: "same_outside A h h1 \<Longrightarrow> A \<subseteq> B \<Longrightarrow> same_outside B h h1"
  by (auto simp: same_outside_def)

text \<open>
  A result that is acceptable for a variable which holds \<open>vo\<close> (or is not there): it has an
  object of the alternative \<open>i\<close> with the value \<open>u\<close>, owns its old cell, a new one or none,
  and the cells it owned before and does not own any more are free.
\<close>

definition replaces ::
  "'v vtypes \<Rightarrow> 'v variant option \<Rightarrow> 'v vheap \<Rightarrow> nat \<Rightarrow> 'v \<Rightarrow> 'v variant \<Rightarrow> 'v vheap \<Rightarrow> bool" where
  "replaces E vo h i u v1 h1 \<longleftrightarrow>
     i < length (vt_types E) \<and> v_type v1 = i \<and> variant_raw E i v1 h1 = Some u \<and>
     same_outside (own_opt vo \<union> own v1) h h1 \<and> (\<forall>a \<in> own_opt vo - own v1. vh_objs h1 a = None) \<and>
     own v1 \<subseteq> own_opt vo \<union> {vh_next h} \<and> vh_next h \<le> vh_next h1 \<and> (\<forall>a \<in> own v1. a < vh_next h1)"

lemma vinv_replaces:
  assumes "vinv E s" and "replaces E (vs_vars s x) (vs_heap s) i u v1 h1"
  shows "vinv E (set_var x (v1, h1) s)"
  unfolding set_var_def fst_conv snd_conv
  by (rule vinv_replace [OF assms(1)]) (use assms(2) in \<open>auto simp: replaces_def vok_def\<close>)

lemma replaces_step:
  assumes "vinv E s" and "\<exists>v1 h1. f = Some (v1, h1) \<and> replaces E (vs_vars s x) (vs_heap s) i u v1 h1"
  shows "\<exists>s'. do { p \<leftarrow> f; Some (set_var x p s) } = Some s' \<and> vinv E s'"
  using vinv_replaces [OF assms(1)] assms(2) by auto

lemma replaces_raw_set:
  assumes "vinv E s" and "vs_vars s x = Some v" and "v_type v = i"
  shows "\<exists>v1 h1. variant_raw_set E i y v (vs_heap s) = Some (v1, h1) \<and> replaces E (vs_vars s x) (vs_heap s) i y v1 h1"
proof -
  obtain u where u: "variant_raw E i v (vs_heap s) = Some u" using vinvD(2) [OF assms(1,2)] assms(3) by auto
  have i: "i < length (vt_types E)" using vinvD(1) [OF assms(1,2)] assms(3) by simp
  have "a < vh_next (vs_heap s)" if "a \<in> own v" for a using vinv_owned_live(2) [OF assms(1), of a x] that assms(2) by simp
  with raw_set_ok [OF u, of y] i assms(2,3) show ?thesis by (fastforce simp: replaces_def)
qed

context variant_instance
begin

lemma replaces_create_new:
  assumes "vs_vars s x = None" and "i < length (vt_types E)" and "vt_constructible E (type_at E i) [same_arg E i b]"
  shows "\<exists>v1 h1. variant_create E [(same_arg E i b, u)] v (vs_heap s) = Some (v1, h1) \<and>
    replaces E (vs_vars s x) (vs_heap s) i u v1 h1"
  using create_same [OF assms(2,3), of u v "vs_heap s"] assms(1,2) by (fastforce simp: replaces_def)

lemma replaces_create_any:
  assumes "vs_vars s x = None" and "args \<noteq> []" and "t \<in> set (vt_types E)" and "vt_constructible E t (map fst args)"
  shows "\<exists>i u v1 h1. variant_create E args v (vs_heap s) = Some (v1, h1) \<and>
    replaces E (vs_vars s x) (vs_heap s) i u v1 h1"
  using create_any [OF assms(2-4), of v "vs_heap s"] assms(1) by (fastforce simp: replaces_def)

text \<open>Destroying what a variable holds and constructing another alternative in its place.\<close>

lemma replaces_clear_create:
  assumes "vinv E s" and v: "vs_vars s x = Some v" and i: "i < length (vt_types E)"
    and c: "vt_constructible E (type_at E i) [same_arg E i b]"
  shows "\<exists>v0 h0 v1 h1. variant_clear E v (vs_heap s) = Some (v0, h0) \<and> same_outside (own v) (vs_heap s) h0 \<and>
    variant_create E [(same_arg E i b, u)] v0 h0 = Some (v1, h1) \<and> replaces E (vs_vars s x) (vs_heap s) i u v1 h1"
proof -
  obtain w where w: "variant_raw E (v_type v) v (vs_heap s) = Some w" using vinvD(2) [OF assms(1) v] by auto
  obtain v0 h0 where 0: "variant_clear E v (vs_heap s) = Some (v0, h0)" "same_outside (own v) (vs_heap s) h0"
      "\<forall>a \<in> own v. vh_objs h0 a = None" "vh_next h0 = vh_next (vs_heap s)"
    using clear_ok [OF vinvD(1) [OF assms(1) v] w] by auto
  obtain v1 h1 where 1: "variant_create E [(same_arg E i b, u)] v0 h0 = Some (v1, h1)" "v_type v1 = i"
      "variant_raw E i v1 h1 = Some u" "own v1 \<subseteq> {vh_next h0}" "same_outside (own v1) h0 h1" "vh_next h0 \<le> vh_next h1"
      "\<forall>a \<in> own v1. a < vh_next h1"
    using create_same [OF i c] by blast
  have "vh_objs h1 a = None" if "a \<in> own v" "a \<notin> own v1" for a using 0(3) 1(5) that by (simp add: same_outside_def)
  with 0 1 i v have "replaces E (vs_vars s x) (vs_heap s) i u v1 h1"
    using same_outside_trans [OF 0(2) 1(5)] by (auto simp: replaces_def)
  with 0 1 show ?thesis by blast
qed

end

text \<open>Every operation a program may do succeeds and keeps the invariant.\<close>

context variant_instance
begin

lemma rvalue_constructible: "i < length (vt_types E) \<Longrightarrow> vt_constructible E (type_at E i) [same_arg E i False]"
  using env by (simp add: variant_env_def)

lemma assign_replaces:
  assumes "vinv E s" and "vs_vars s x = Some v" and "i < length (vt_types E)"
    and "vt_constructible E (type_at E i) [same_arg E i b]"
  shows "\<exists>v1 h1. variant_assign E i b u v (vs_heap s) = Some (v1, h1) \<and> replaces E (vs_vars s x) (vs_heap s) i u v1 h1"
proof (cases "v_type v = i")
  case True
  with replaces_raw_set [OF assms(1,2) True, of u] show ?thesis by (simp add: variant_assign_def)
next
  case False
  with replaces_clear_create [OF assms, of u] show ?thesis by (auto simp: variant_assign_def)
qed

lemma copy_assign_replaces:
  assumes inv: "vinv E s" and x: "vs_vars s x = Some v" and y: "vs_vars s y = Some w" and c: "copyable E"
    and u: "variant_raw E (v_type w) w (vs_heap s) = Some u"
  shows "\<exists>v1 h1. variant_copy_assign E v w (vs_heap s) = Some (v1, h1) \<and>
    replaces E (vs_vars s x) (vs_heap s) (v_type w) u v1 h1"
proof (cases "v_type v = v_type w")
  case True
  with replaces_raw_set [OF inv x True, of u] u vinvD(1) [OF inv y] show ?thesis
    by (auto simp: variant_copy_assign_def copy_assign_fp_def variant_is_def)
next
  case False
  have i: "v_type w < length (vt_types E)" by (rule vinvD(1) [OF inv y])
  with c have con: "vt_constructible E (type_at E (v_type w)) [same_arg E (v_type w) True]" by (simp add: copyable_def)
  obtain v0 h0 v1 h1 where *: "variant_clear E v (vs_heap s) = Some (v0, h0)" "same_outside (own v) (vs_heap s) h0"
      "variant_create E [(same_arg E (v_type w) True, u)] v0 h0 = Some (v1, h1)"
      "replaces E (vs_vars s x) (vs_heap s) (v_type w) u v1 h1"
    using replaces_clear_create [OF inv x i con] by blast
  have "x \<noteq> y" using False x y by auto
  then have "own w \<inter> own v = {}" using vinv_disjoint [OF inv _ y x] by blast
  from raw_frame [OF *(2) this] u have "variant_raw E (v_type w) w h0 = Some u" by simp
  with * False i show ?thesis by (simp add: variant_copy_assign_def copy_ctor_fp_def)
qed

lemma clear_vinv:
  assumes inv: "vinv E s" and v: "vs_vars s x = Some v"
  shows "\<exists>v0 h0. variant_clear E v (vs_heap s) = Some (v0, h0) \<and> same_outside (own v) (vs_heap s) h0 \<and>
    vinv E \<lparr>vs_vars = (vs_vars s)(x := None), vs_heap = h0\<rparr>"
proof -
  obtain w where w: "variant_raw E (v_type v) v (vs_heap s) = Some w" using vinvD(2) [OF inv v] by auto
  obtain v0 h0 where 0: "variant_clear E v (vs_heap s) = Some (v0, h0)" "same_outside (own v) (vs_heap s) h0"
      "\<forall>a \<in> own v. vh_objs h0 a = None" "vh_next h0 = vh_next (vs_heap s)"
    using clear_ok [OF vinvD(1) [OF inv v] w] by auto
  have "vinv E \<lparr>vs_vars = (vs_vars s)(x := None), vs_heap = h0\<rparr>"
    by (rule vinv_replace [OF inv]) (use 0 v in auto)
  with 0 show ?thesis by blast
qed

text \<open>Moving out of a variable leaves it with an object of the same alternative.\<close>

lemma move_out:
  assumes inv: "vinv E s" and y: "vs_vars s y = Some w"
  shows "\<exists>u w1 h1. variant_raw E (v_type w) w (vs_heap s) = Some u \<and>
    variant_raw_set E (v_type w) (vt_moved E (type_at E (v_type w)) u) w (vs_heap s) = Some (w1, h1) \<and>
    vinv E (set_var y (w1, h1) s)"
proof -
  obtain u where u: "variant_raw E (v_type w) w (vs_heap s) = Some u" using vinvD(2) [OF inv y] by auto
  with replaces_raw_set [OF inv y refl] vinv_replaces [OF inv] show ?thesis by blast
qed

lemma move_ctor_vinv:
  assumes inv: "vinv E s" and x: "vs_vars s x = None" and y: "vs_vars s y = Some w"
  shows "\<exists>p. move_ctor_fp E (v_type w) v w (vs_heap s) = Some p \<and> vinv E (set_vars x y p s)"
proof -
  obtain u w1 h1 where 1: "variant_raw E (v_type w) w (vs_heap s) = Some u"
      "variant_raw_set E (v_type w) (vt_moved E (type_at E (v_type w)) u) w (vs_heap s) = Some (w1, h1)"
      "vinv E (set_var y (w1, h1) s)"
    using move_out [OF inv y] by blast
  have i: "v_type w < length (vt_types E)" by (rule vinvD(1) [OF inv y])
  have "vs_vars (set_var y (w1, h1) s) x = None" using x y by (auto simp: set_var_def)
  from replaces_create_new [OF this i rvalue_constructible [OF i], of u v]
  obtain v1 h2 where 2: "variant_create E [(same_arg E (v_type w) False, u)] v h1 = Some (v1, h2)"
      "replaces E (vs_vars (set_var y (w1, h1) s) x) (vs_heap (set_var y (w1, h1) s)) (v_type w) u v1 h2"
    by (auto simp: set_var_def)
  from vinv_replaces [OF 1(3) 2(2)] have "vinv E (set_vars x y (v1, w1, h2) s)"
    by (simp add: set_var_def set_vars_def)
  with 1 2 show ?thesis by (simp add: move_ctor_fp_def)
qed

lemma move_assign_vinv:
  assumes inv: "vinv E s" and x: "vs_vars s x = Some v" and y: "vs_vars s y = Some w" and xy: "x \<noteq> y"
  shows "\<exists>p. variant_move_assign E v w (vs_heap s) = Some p \<and> vinv E (set_vars x y p s)"
proof (cases "v_type v = v_type w")
  case True
  obtain u w1 h1 where 1: "variant_raw E (v_type w) w (vs_heap s) = Some u"
      "variant_raw_set E (v_type w) (vt_moved E (type_at E (v_type w)) u) w (vs_heap s) = Some (w1, h1)"
      "vinv E (set_var y (w1, h1) s)"
    using move_out [OF inv y] by blast
  have "vs_vars (set_var y (w1, h1) s) x = Some v" using x xy by (simp add: set_var_def)
  from replaces_raw_set [OF 1(3) this True, of u] obtain v1 h2 where
    2: "variant_raw_set E (v_type w) u v h1 = Some (v1, h2)"
      "replaces E (vs_vars (set_var y (w1, h1) s) x) (vs_heap (set_var y (w1, h1) s)) (v_type w) u v1 h2"
    by (auto simp: set_var_def)
  from vinv_replaces [OF 1(3) 2(2)] have "vinv E (set_vars x y (v1, w1, h2) s)"
    by (simp add: set_var_def set_vars_def)
  with 1 2 True vinvD(1) [OF inv y] show ?thesis
    by (simp add: variant_move_assign_def move_assign_fp_def variant_is_def)
next
  case False
  obtain v0 h0 where 0: "variant_clear E v (vs_heap s) = Some (v0, h0)"
      "vinv E \<lparr>vs_vars = (vs_vars s)(x := None), vs_heap = h0\<rparr>"
    using clear_vinv [OF inv x] by blast
  from move_ctor_vinv [OF 0(2), of x y w v0] xy y obtain p where
    "move_ctor_fp E (v_type w) v0 w h0 = Some p" "vinv E (set_vars x y p s)"
    by (auto simp: set_vars_def fun_upd_twist)
  with 0 False vinvD(1) [OF inv y] show ?thesis by (simp add: variant_move_assign_def)
qed

lemma vexec_vinv:
  assumes inv: "vinv E s" and legal: "vlegal E op s"
  shows "\<exists>s'. vexec E op s = Some s' \<and> vinv E s'"
proof (cases op)
  case (VDefault x)
  define k where "k = select_default (vt_types E)"
  have k: "k < length (vt_types E)" and x: "vs_vars s x = None" using legal VDefault by (simp_all add: k_def)
  have "variant_default E (vs_heap s) =
      variant_create E [(same_arg E k False, vt_default E (type_at E k))] (variant_init E) (vs_heap s)"
    using k by (simp add: variant_default_def k_def Let_def)
  with replaces_step [OF inv replaces_create_new [OF x k rvalue_constructible [OF k]]] VDefault show ?thesis by simp
next
  case (VFrom x args)
  with legal obtain t where "vs_vars s x = None" "args \<noteq> []" "t \<in> set (vt_types E)" "vt_constructible E t (map fst args)"
    by auto
  from replaces_create_any [OF this, of "variant_init E"] replaces_step [OF inv] VFrom show ?thesis
    by (simp add: variant_from_def) blast
next
  case (VCopy x y)
  with legal obtain w where x: "vs_vars s x = None" and y: "vs_vars s y = Some w" and c: "copyable E" by auto
  obtain u where u: "variant_raw E (v_type w) w (vs_heap s) = Some u" using vinvD(2) [OF inv y] by auto
  have i: "v_type w < length (vt_types E)" by (rule vinvD(1) [OF inv y])
  with c have "vt_constructible E (type_at E (v_type w)) [same_arg E (v_type w) True]" by (simp add: copyable_def)
  from replaces_step [OF inv replaces_create_new [OF x i this], of u "variant_init E"] VCopy y u i show ?thesis
    by (simp add: variant_copy_def copy_ctor_fp_def)
next
  case (VMove x y)
  with legal obtain w where x: "vs_vars s x = None" and y: "vs_vars s y = Some w" by auto
  from move_ctor_vinv [OF inv x y, of "variant_init E"] VMove y vinvD(1) [OF inv y] show ?thesis
    by (auto simp: variant_move_def)
next
  case (VDestroy x)
  with legal obtain v where "vs_vars s x = Some v" by auto
  with clear_vinv [OF inv this] VDestroy show ?thesis by (auto simp: variant_destroy_def)
next
  case (VCopyAssign x y)
  with legal obtain v w where x: "vs_vars s x = Some v" and y: "vs_vars s y = Some w" and c: "copyable E" by auto
  obtain u where "variant_raw E (v_type w) w (vs_heap s) = Some u" using vinvD(2) [OF inv y] by auto
  from replaces_step [OF inv copy_assign_replaces [OF inv x y c this]] VCopyAssign x y show ?thesis by simp
next
  case (VMoveAssign x y)
  with legal obtain v w where x: "vs_vars s x = Some v" and y: "vs_vars s y = Some w" and "x \<noteq> y" by auto
  from move_assign_vinv [OF inv this] VMoveAssign x y show ?thesis by auto
next
  case (VAssign x i b u)
  with legal obtain v where x: "vs_vars s x = Some v" and i: "i < length (vt_types E)"
    and c: "vt_constructible E (type_at E i) [same_arg E i b]" by auto
  from replaces_step [OF inv assign_replaces [OF inv x i c]] VAssign x show ?thesis by simp
next
  case (VConvert x a u)
  with legal obtain v where x: "vs_vars s x = Some v" by auto
  define k where "k = select_constructible (vt_constructible E) a [] (vt_types E)"
  have k: "k < length (vt_types E)" using legal VConvert select_constructible_complete by (fastforce simp: k_def)
  from replaces_step [OF inv assign_replaces [OF inv x k rvalue_constructible [OF k]]] VConvert x k show ?thesis
    by (simp add: variant_assign_convert_def k_def [symmetric])
qed

lemma vreach_vinv: "vreach E s \<Longrightarrow> vinv E s"
proof (induction rule: vreach.induct)
  case start
  show ?case by (simp add: vinv_def vs_empty_def heap_fresh_def)
next
  case (exec s op s')
  with vexec_vinv [OF exec.IH exec.hyps(2)] show ?case by simp
qed

lemma replaces_others:
  assumes inv: "vinv E s" and r: "replaces E (vs_vars s x) (vs_heap s) i u v1 h1" and y: "vs_vars s y = Some w" "y \<noteq> x"
  shows "variant_raw E j w h1 = variant_raw E j w (vs_heap s)"
proof -
  have "own w \<inter> own_opt (vs_vars s x) = {}" using inv y unfolding vinv_def by (metis own_opt_simps(2))
  moreover have "a < vh_next (vs_heap s)" if "a \<in> own w" for a using vinv_owned_live(2) [OF inv, of a y] that y by simp
  then have "own w \<inter> own v1 \<subseteq> own_opt (vs_vars s x)" using r by (fastforce simp: replaces_def)
  ultimately have "own w \<inter> (own_opt (vs_vars s x) \<union> own v1) = {}" by blast
  moreover have "same_outside (own_opt (vs_vars s x) \<union> own v1) (vs_heap s) h1" using r by (simp add: replaces_def)
  ultimately show ?thesis by (rule raw_frame [rotated])
qed

end

text \<open>
  A variant seen as the pair of its tag and its value: the comparisons are equality of pairs,
  and the lexicographic order when the alternatives are compared by \<open>lt\<close>.
\<close>

definition variant_view :: "'v vtypes \<Rightarrow> 'v variant \<Rightarrow> 'v vheap \<Rightarrow> nat \<times> 'v" where
  "variant_view E v h = (v_type v, the (variant_raw E (v_type v) v h))"

lemma variant_equals_view:
  assumes "vok E l h" and "vok E r h"
  shows "variant_equals E (\<lambda>_. (=)) l r h = Some (variant_view E l h = variant_view E r h)"
  using assms by (auto simp: vok_def variant_equals_def variant_view_def)

lemma variant_less_view:
  assumes "vok E l h" and "vok E r h"
  shows "variant_less E lt l r h = Some (case (variant_view E l h, variant_view E r h) of
      ((i, x), (j, y)) \<Rightarrow> i < j \<or> i = j \<and> lt i x y)"
  using assms by (auto simp: vok_def variant_less_def variant_view_def)

lemma variant_equals_value_view:
  assumes "vok E l h"
  shows "variant_equals_value E (\<lambda>_. (=)) l i y h = Some (variant_view E l h = (i, y))"
  using assms by (auto simp: vok_def variant_equals_value_def variant_view_def variant_is_def)

section \<open>The instance of the waited events\<close>

text \<open>
  \<^verbatim>\<open>routine_waiting_data\<close> of \<^verbatim>\<open>src/boson/boson/internal/routine.h\<close> on a 64-bit platform: a null
  pointer, the two integers, and the data of an io event, a timer and a semaphore, of which
  the first two are declared small. Integers convert to each other; everything else is
  constructed from itself. A value is the list of its fields.
\<close>

definition plain_type :: "nat \<Rightarrow> nat \<Rightarrow> bool \<Rightarrow> ctype" where
  "plain_type i sz small =
     \<lparr>ty_id = i, ty_sizeof = sz, ty_declared_small = small, ty_recursive = False, ty_integral = False,
      ty_arithmetic = False, ty_signed = False, ty_pointer = False, ty_default_constructible = True\<rparr>"

definition integral_type :: "nat \<Rightarrow> nat \<Rightarrow> bool \<Rightarrow> ctype" where
  "integral_type i sz sg =
     (plain_type i sz False)\<lparr>ty_integral := True, ty_arithmetic := True, ty_signed := sg\<rparr>"

definition waiting_types :: "ctype list" where
  "waiting_types =
     [plain_type 0 8 False, integral_type 1 4 True, integral_type 2 8 False,
      plain_type 3 16 True, plain_type 4 16 True, plain_type 5 24 False]"

definition waiting_constructible :: "ctype \<Rightarrow> arg list \<Rightarrow> bool" where
  "waiting_constructible t args =
     (case args of
        [a] \<Rightarrow> ty_id (arg_type a) = ty_id t \<or> ty_integral (arg_type a) \<and> ty_integral t
      | _ \<Rightarrow> False)"

definition routine_waiting_data :: "int list vtypes" where
  "routine_waiting_data =
     \<lparr>vt_types = waiting_types, vt_constructible = waiting_constructible,
      vt_construct = (\<lambda>t args. snd (hd args)), vt_default = (\<lambda>t. [0]), vt_moved = (\<lambda>t x. x)\<rparr>"

lemmas waiting_defs =
  routine_waiting_data_def waiting_types_def waiting_constructible_def plain_type_def integral_type_def
  same_arg_def type_at_def

interpretation waiting_data: variant_instance routine_waiting_data
  by unfold_locales (auto simp: variant_env_def waiting_defs less_Suc_eq numeral_eq_Suc)

text \<open>Only the data of a semaphore wait is on the heap; the array has 16 bytes.\<close>

lemma waiting_memory_size: "memory_size (vt_types routine_waiting_data) = 16"
  by (simp add: waiting_defs memory_size_def min_memory_size_def memory_footprint_def is_small_type_impl_def
      is_small_type_def sizeof_pointer_def max_value.simps Let_def)

lemma waiting_on_stack: "i < 6 \<Longrightarrow> on_stack routine_waiting_data i \<longleftrightarrow> i < 5"
  using waiting_memory_size
  by (auto simp: on_stack_def store_on_stack_def memory_footprint_def is_small_type_impl_def is_small_type_def
      sizeof_pointer_def waiting_defs less_Suc_eq numeral_eq_Suc)

text \<open>
  The rules for integers are read from a type that is a reference when the argument is an lvalue,
  so they only apply to rvalues: a signed 2-byte integer that is an lvalue becomes the first
  alternative an integer converts to, whatever its sign, here \<^verbatim>\<open>size_t\<close> of a list that has it first.
\<close>

lemma select_lvalue_integer:
  "select_constructible waiting_constructible \<lparr>arg_type = integral_type 9 2 True, arg_lvalue = lv\<rparr> []
     [integral_type 2 8 False, integral_type 1 4 True] = (if lv then 0 else 1)"
  by (simp add: select_constructible_def select_index_defs first_type_def find_first_takeWhile waiting_defs
      memory_footprint_def is_small_type_impl_def is_small_type_def sizeof_pointer_def arg_signed_def arg_integral_def
      arg_arithmetic_def Let_def)

section \<open>Properties\<close>



text \<open>
  C12: what is assigned is what is read. After a value of an alternative was assigned to a
  variant, whatever it held before, \<^verbatim>\<open>get\<close> of that alternative returns the value, \<^verbatim>\<open>get\<close> of every
  other one throws \<^verbatim>\<open>bad_variant_access\<close>, and all other variants read as before.
\<close>

theorem variant_assign_get:
  assumes "variant_env E" and "vreach E s" and "vs_vars s x = Some v" and "i < length (vt_types E)"
  shows "\<exists>s' v'. vexec E (VAssign x i False u) s = Some s' \<and> vs_vars s' x = Some v' \<and>
    (\<forall>j. variant_get E j v' (vs_heap s') = Some (if j = i then Access u else Bad_variant_access)) \<and>
    (\<forall>y w j. y \<noteq> x \<and> vs_vars s y = Some w \<longrightarrow>
       vs_vars s' y = Some w \<and> variant_get E j w (vs_heap s') = variant_get E j w (vs_heap s))"
proof -
  have I: "variant_instance E" by (rule variant_instance.intro [OF assms(1)])
  have inv: "vinv E s" by (rule variant_instance.vreach_vinv [OF I assms(2)])
  obtain v1 h1 where *: "variant_assign E i False u v (vs_heap s) = Some (v1, h1)"
      "replaces E (vs_vars s x) (vs_heap s) i u v1 h1"
    using variant_instance.assign_replaces [OF I inv assms(3,4) variant_instance.rvalue_constructible [OF I assms(4)]]
    by blast
  have "variant_raw E j w h1 = variant_raw E j w (vs_heap s)" if "y \<noteq> x" "vs_vars s y = Some w" for y w j
    by (rule variant_instance.replaces_others [OF I inv *(2) that(2,1)])
  with * assms(3) show ?thesis by (auto simp: set_var_def variant_get_def variant_is_def replaces_def)
qed

text \<open>A variant with one semaphore wait, and the same after a timer was assigned to it.\<close>

definition variant_example :: "int list vstate" where
  "variant_example =
     \<lparr>vs_vars = [0 \<mapsto> \<lparr>v_type = 5, v_data = Ptr 0\<rparr>],
      vs_heap = \<lparr>vh_objs = [0 \<mapsto> (5, [1, 2, 3])], vh_next = 1\<rparr>\<rparr>"

lemma variant_example_reach: "vreach routine_waiting_data variant_example"
proof (rule vreach.exec [OF vreach.start, of _ "VFrom 0 [(same_arg routine_waiting_data 5 False, [1, 2, 3])]"])
  show "vlegal routine_waiting_data (VFrom 0 [(same_arg routine_waiting_data 5 False, [1, 2, 3])]) vs_empty"
    by (simp add: vs_empty_def waiting_defs)
  have "select_constructible waiting_constructible (same_arg routine_waiting_data 5 False) [] waiting_types = 5"
    by (simp add: select_constructible_def select_index_defs first_type_def find_first_takeWhile waiting_defs Let_def)
  moreover have "get_index waiting_types 5 = 5"
    by (simp add: get_index_def find_first_takeWhile waiting_types_def plain_type_def integral_type_def)
  ultimately show "vexec routine_waiting_data (VFrom 0 [(same_arg routine_waiting_data 5 False, [1, 2, 3])]) vs_empty =
      Some variant_example"
    using waiting_on_stack [of 5]
    by (simp add: variant_from_def variant_create_def variant_init_def variant_allocate_def variant_example_def
        vs_empty_def set_var_def routine_waiting_data_def type_at_def waiting_types_def plain_type_def Let_def fun_eq_iff)
qed

theorem variant_assign_get_witness:
  "\<exists>s' v'. vexec routine_waiting_data (VAssign 0 4 False [7, 8]) variant_example = Some s' \<and> vs_vars s' 0 = Some v' \<and>
     variant_get routine_waiting_data 4 v' (vs_heap s') = Some (Access [7, 8]) \<and>
     variant_get routine_waiting_data 5 v' (vs_heap s') = Some Bad_variant_access"
proof -
  have "vs_vars variant_example 0 = Some \<lparr>v_type = 5, v_data = Ptr 0\<rparr>" by (simp add: variant_example_def)
  moreover have "4 < length (vt_types routine_waiting_data)" by (simp add: waiting_defs)
  ultimately obtain s' v' where "vexec routine_waiting_data (VAssign 0 4 False [7, 8]) variant_example = Some s'"
      "vs_vars s' 0 = Some v'"
      "\<forall>j. variant_get routine_waiting_data j v' (vs_heap s') = Some (if j = 4 then Access [7, 8] else Bad_variant_access)"
    using variant_assign_get [OF waiting_data.env variant_example_reach] by blast
  then show ?thesis by auto
qed

end
