(* ===== verification/Shared_Buffers.thy ===== *)
theory Shared_Buffers
  imports Prelude
begin

text \<open>
  The shared buffers of a thread (\<^verbatim>\<open>thread::get_shared_buffer\<close> in
  \<^verbatim>\<open>src/boson/src/internal/thread.cc\<close>, \<^verbatim>\<open>shared_buffer_storage\<close> in
  \<^verbatim>\<open>src/boson/boson/internal/thread.h\<close>) and \<^verbatim>\<open>shared_buffer\<close>
  (\<^verbatim>\<open>src/boson/boson/shared_buffer.h\<close>): one buffer per size, allocated at its first use and
  freed with the thread. No other operation of a thread touches them, so they are a state
  of their own. \<^verbatim>\<open>malloc\<close> is the heap below: it succeeds and returns a new address.
\<close>

record buffer_heap =
  bh_size :: "nat \<rightharpoonup> nat"
  bh_next :: nat

record shared_buffers =
  sb_buffers :: "nat \<rightharpoonup> nat"
  sb_heap :: buffer_heap

definition heap_malloc :: "nat \<Rightarrow> buffer_heap \<Rightarrow> nat \<times> buffer_heap" where
  "heap_malloc n h = (bh_next h, h\<lparr>bh_size := (bh_size h)(bh_next h \<mapsto> n), bh_next := bh_next h + 1\<rparr>)"

definition heap_free :: "nat \<Rightarrow> buffer_heap \<Rightarrow> buffer_heap option" where
  "heap_free a h = (if bh_size h a = None then None else Some (h\<lparr>bh_size := (bh_size h)(a := None)\<rparr>))"

definition shared_buffers_new :: shared_buffers where
  "shared_buffers_new = \<lparr>sb_buffers = Map.empty, sb_heap = \<lparr>bh_size = Map.empty, bh_next = 0\<rparr>\<rparr>"

definition shared_buffer_storage_new :: "nat \<Rightarrow> shared_buffers \<Rightarrow> nat \<times> shared_buffers" where
  "shared_buffer_storage_new init_size s =
     (case heap_malloc init_size (sb_heap s) of
        (a, h) \<Rightarrow> (a, s\<lparr>sb_buffers := (sb_buffers s)(init_size \<mapsto> a), sb_heap := h\<rparr>))"

definition get_shared_buffer :: "nat \<Rightarrow> shared_buffers \<Rightarrow> nat \<times> shared_buffers" where
  "get_shared_buffer minimum_size s =
     (case sb_buffers s minimum_size of
        Some a \<Rightarrow> (a, s)
      | None \<Rightarrow> shared_buffer_storage_new minimum_size s)"

text \<open>The destruction of the map, size by size.\<close>

fun shared_buffers_destroy :: "nat list \<Rightarrow> shared_buffers \<Rightarrow> shared_buffers option" where
  "shared_buffers_destroy [] s = Some s"
| "shared_buffers_destroy (n # ns) s =
     (case sb_buffers s n of
        None \<Rightarrow> None
      | Some a \<Rightarrow>
          do { h \<leftarrow> heap_free a (sb_heap s);
               shared_buffers_destroy ns (s\<lparr>sb_buffers := (sb_buffers s)(n := None), sb_heap := h\<rparr>) })"

section \<open>Invariant\<close>

text \<open>Every buffer is allocated with the size it is filed under, and every allocation is filed under its size.\<close>

definition sb_inv :: "shared_buffers \<Rightarrow> bool" where
  "sb_inv s \<longleftrightarrow>
     (\<forall>n a. sb_buffers s n = Some a \<longleftrightarrow> bh_size (sb_heap s) a = Some n) \<and>
     (\<forall>a. bh_size (sb_heap s) a \<noteq> None \<longrightarrow> a < bh_next (sb_heap s))"

lemma sb_inv_new: "sb_inv shared_buffers_new"
  by (simp add: sb_inv_def shared_buffers_new_def)

text \<open>
  A buffer has the size it was asked for and stays where it is: asking for another size leaves it
  alone, asking for its size again returns the same one, and buffers of different sizes are different.
\<close>

lemma get_shared_buffer_ok:
  assumes "sb_inv s" and "get_shared_buffer n s = (a, s')"
  shows "sb_inv s' \<and> bh_size (sb_heap s') a = Some n \<and> get_shared_buffer n s' = (a, s') \<and> sb_buffers s \<subseteq>\<^sub>m sb_buffers s'"
proof (cases "sb_buffers s n")
  case None
  have fresh: "bh_size (sb_heap s) (bh_next (sb_heap s)) = None" using assms(1) by (force simp: sb_inv_def)
  have s': "a = bh_next (sb_heap s)"
      "s' = s\<lparr>sb_buffers := (sb_buffers s)(n \<mapsto> a), sb_heap := (sb_heap s)\<lparr>bh_size := (bh_size (sb_heap s))(a \<mapsto> n), bh_next := a + 1\<rparr>\<rparr>"
    using assms(2) None by (auto simp: get_shared_buffer_def shared_buffer_storage_new_def heap_malloc_def)
  have "bh_size (sb_heap s) b \<noteq> Some n" for b using assms(1) None by (metis option.simps(3) sb_inv_def)
  with assms(1) fresh have "sb_inv s'" by (auto simp: sb_inv_def s' less_Suc_eq)
  with None show ?thesis by (auto simp: s' get_shared_buffer_def map_le_def)
next
  case (Some b)
  then have "b = a" and "s' = s" using assms(2) by (simp_all add: get_shared_buffer_def)
  moreover have "bh_size (sb_heap s) a = Some n" using Some \<open>b = a\<close> assms(1) unfolding sb_inv_def by blast
  ultimately show ?thesis using Some assms by (simp add: get_shared_buffer_def)
qed

lemma shared_buffers_distinct:
  assumes "sb_inv s" and "sb_buffers s m = Some a" and "sb_buffers s n = Some b" and "m \<noteq> n"
  shows "a \<noteq> b"
  using assms by (metis option.inject sb_inv_def)

text \<open>Destroying the thread frees each buffer once and leaves none.\<close>

lemma shared_buffers_destroy_ok:
  assumes "sb_inv s" and "distinct ns" and "set ns = dom (sb_buffers s)"
  shows "\<exists>s'. shared_buffers_destroy ns s = Some s' \<and> bh_size (sb_heap s') = Map.empty"
  using assms
proof (induction ns arbitrary: s)
  case Nil
  then have "bh_size (sb_heap s) a \<noteq> Some n" for a n by (metis domIff empty_iff list.set(1) option.simps(3) sb_inv_def)
  then have "bh_size (sb_heap s) a = None" for a by (cases "bh_size (sb_heap s) a") auto
  then show ?case by auto
next
  case (Cons n ns)
  then obtain a where a: "sb_buffers s n = Some a" by (auto simp: dom_def set_eq_iff)
  with Cons.prems(1) have h: "bh_size (sb_heap s) a = Some n" by (simp add: sb_inv_def)
  define s1 where "s1 = s\<lparr>sb_buffers := (sb_buffers s)(n := None), sb_heap := (sb_heap s)\<lparr>bh_size := (bh_size (sb_heap s))(a := None)\<rparr>\<rparr>"
  have "(sb_buffers s1 m = Some b) = (bh_size (sb_heap s1) b = Some m)" for m b
    using Cons.prems(1) a h by (simp add: s1_def sb_inv_def) (metis option.inject)
  then have "sb_inv s1" using Cons.prems(1) by (simp add: sb_inv_def s1_def)
  moreover have "set ns = dom (sb_buffers s1)" using Cons.prems(2,3) by (auto simp: s1_def)
  ultimately obtain s' where "shared_buffers_destroy ns s1 = Some s'" "bh_size (sb_heap s') = Map.empty"
    using Cons.IH [of s1] Cons.prems(2) by auto
  with a h show ?case by (simp add: heap_free_def s1_def)
qed

end
