(* ===== verification/Semaphore_Wakeups.thy ===== *)
theory Semaphore_Wakeups
  imports Semaphore
begin

text \<open>
  The composition of \<open>Semaphore\<close> with the queue of waiters and the command queues of the
  threads: which commands \<^verbatim>\<open>post\<close> and \<^verbatim>\<open>disable\<close> send, and in which order.
\<close>

section \<open>Reading the waiters\<close>

lemma semaphore_read_waiter:
  assumes "the_sema s w = Some sm" and "vq_links (s_waiters sm) ((i, v) # es) fs"
  shows "\<exists>q. semaphore_read s w = Some (Some v, upd_sema s (\<lambda>sm. sm\<lparr>s_waiters := q\<rparr>) w) \<and> vq_links q es (i # fs)"
  using vq_read_links [OF assms(2)] assms(1) by (auto simp: semaphore_read_def)

lemma semaphore_read_none:
  assumes "the_sema s w = Some sm" and "vq_links (s_waiters sm) [] fs"
  shows "semaphore_read s w = Some (None, upd_sema s (\<lambda>sm'. sm'\<lparr>s_waiters := s_waiters sm\<rparr>) w)"
  using vq_read_empty [OF assms(2)] assms(1) by (simp add: semaphore_read_def)

lemma upd_sema_access:
  "the_sema s w = Some sm \<Longrightarrow> the_sema s (upd_sema s f w) = Some (f sm)"
  "w_threads (upd_sema s f w) = w_threads w" "thread_queue t (upd_sema s f w) = thread_queue t w"
  by (auto simp: the_sema_def upd_sema_def thread_queue_def)

lemma thread_push_command_sema: "thread_push_command t cmd w = Some w' \<Longrightarrow> the_sema s w' = the_sema s w"
  by (auto simp: thread_push_command_def upd_thread_def the_sema_def dest!: bind_eq_Some_conv [THEN iffD1])

section \<open>The commands a semaphore sends\<close>

text \<open>The commands for the waiters of a thread, oldest first.\<close>

definition wakeups :: "nat \<Rightarrow> nat \<Rightarrow> (nat \<times> nat \<times> nat) list \<Rightarrow> thread_command list" where
  "wakeups s t es = map (\<lambda>(i, t', index). schedule_waiting_routine s index) (filter (\<lambda>(i, t', index). t' = t) es)"

lemma wakeups_simps [simp]:
  "wakeups s t [] = []"
  "wakeups s t ((i, u, index) # es) = (if u = t then schedule_waiting_routine s index # wakeups s t es else wakeups s t es)"
  by (simp_all add: wakeups_def)

lemma wake_one:
  assumes "the_sema s w = Some sm" and "vq_links (s_waiters sm) ((i, u, index) # es) fs" and "u < length (w_threads w)"
  shows "\<exists>w1 w2 q. semaphore_read s w = Some (Some (u, index), w1) \<and>
    thread_push_command u (schedule_waiting_routine s index) w1 = Some w2 \<and> vq_links q es (i # fs) \<and>
    the_sema s w2 = Some (sm\<lparr>s_waiters := q\<rparr>) \<and> length (w_threads w2) = length (w_threads w) \<and>
    (\<forall>t < length (w_threads w). thread_queue t w2 = thread_queue t w @ (if t = u then [schedule_waiting_routine s index] else []))"
proof -
  obtain q where q: "semaphore_read s w = Some (Some (u, index), upd_sema s (\<lambda>sm. sm\<lparr>s_waiters := q\<rparr>) w)" "vq_links q es (i # fs)"
    using semaphore_read_waiter [OF assms(1,2)] by blast
  let ?w1 = "upd_sema s (\<lambda>sm. sm\<lparr>s_waiters := q\<rparr>) w"
  have "u < length (w_threads ?w1)" using assms(3) by (simp add: upd_sema_access)
  from thread_push_command_Some [OF this, of "schedule_waiting_routine s index"] obtain w2 where
    w2: "thread_push_command u (schedule_waiting_routine s index) ?w1 = Some w2" "length (w_threads w2) = length (w_threads w)"
      "\<forall>t < length (w_threads w). thread_queue t w2 = thread_queue t w @ (if t = u then [schedule_waiting_routine s index] else [])"
    by (auto simp: upd_sema_access)
  have "the_sema s w2 = Some (sm\<lparr>s_waiters := q\<rparr>)"
    using thread_push_command_sema [OF w2(1)] upd_sema_access(1) [OF assms(1)] by simp
  with q w2 show ?thesis by blast
qed

text \<open>A post that finds a waiter sends the oldest one back to its thread.\<close>

lemma semaphore_post_wakes_oldest:
  assumes "the_sema s w = Some sm" and "vq_links (s_waiters sm) ((i, u, index) # es) fs" and "u < length (w_threads w)"
    and "0 \<le> sint (s_counter sm)" and "sint (s_counter sm) \<le> disabling_threshold"
  shows "\<exists>w'. semaphore_post s current w = Some (sema_ok, w') \<and>
    (\<forall>t < length (w_threads w). thread_queue t w' = thread_queue t w @ (if t = u then [schedule_waiting_routine s index] else []))"
proof -
  let ?w = "upd_sema s (\<lambda>sm. sm\<lparr>s_counter := s_counter sm + 1\<rparr>) w"
  have "sema_fetch_add s w = Some (sint (s_counter sm), ?w)" using assms(1) by (simp add: sema_fetch_add_def)
  moreover have "the_sema s ?w = Some (sm\<lparr>s_counter := s_counter sm + 1\<rparr>)" using upd_sema_access(1) [OF assms(1)] .
  moreover have "vq_links (s_waiters (sm\<lparr>s_counter := s_counter sm + 1\<rparr>)) ((i, u, index) # es) fs" using assms(2) by simp
  moreover have "u < length (w_threads ?w)" using assms(3) by (simp add: upd_sema_access)
  ultimately show ?thesis
    using wake_one [of s ?w "sm\<lparr>s_counter := s_counter sm + 1\<rparr>" i u index es fs] assms(4,5)
    by (auto simp: semaphore_post_def pop_a_waiter_def upd_sema_access)
qed

lemma wake_all_waiters_ok:
  assumes "the_sema s w = Some sm" and "vq_links (s_waiters sm) es fs" and "\<forall>(i, u, index) \<in> set es. u < length (w_threads w)"
    and "length es < n"
  shows "\<exists>w' sm' fs'. wake_all_waiters n s w = Some w' \<and> the_sema s w' = Some sm' \<and> s_counter sm' = s_counter sm \<and>
    vq_links (s_waiters sm') [] fs' \<and>
    (\<forall>t < length (w_threads w). thread_queue t w' = thread_queue t w @ wakeups s t es)"
  using assms
proof (induction es arbitrary: n w sm fs)
  case Nil
  then obtain n' where "n = Suc n'" by (cases n) auto
  with Nil semaphore_read_none [of s w sm fs] upd_sema_access(1) [of s w sm] show ?case by (auto simp: upd_sema_access(2,3))
next
  case (Cons e es)
  obtain i u index where e: "e = (i, u, index)" by (cases e)
  obtain n' where n: "n = Suc n'" "length es < n'" using Cons.prems(4) by (cases n) auto
  from wake_one [of s w sm i u index es fs] Cons.prems e obtain w1 w2 q where
    1: "semaphore_read s w = Some (Some (u, index), w1)" "thread_push_command u (schedule_waiting_routine s index) w1 = Some w2"
      "vq_links q es (i # fs)" "the_sema s w2 = Some (sm\<lparr>s_waiters := q\<rparr>)" "length (w_threads w2) = length (w_threads w)"
      "\<forall>t < length (w_threads w). thread_queue t w2 = thread_queue t w @ (if t = u then [schedule_waiting_routine s index] else [])"
    by auto
  have "\<forall>(i, u, index) \<in> set es. u < length (w_threads w2)" using Cons.prems(3) 1(5) by auto
  moreover have "vq_links (s_waiters (sm\<lparr>s_waiters := q\<rparr>)) es (i # fs)" using 1(3) by simp
  ultimately obtain w' sm' fs' where
    2: "wake_all_waiters n' s w2 = Some w'" "the_sema s w' = Some sm'" "s_counter sm' = s_counter sm"
      "vq_links (s_waiters sm') [] fs'" "\<forall>t < length (w_threads w2). thread_queue t w' = thread_queue t w2 @ wakeups s t es"
    using Cons.IH [OF 1(4) _ _ n(2), of "i # fs"] by auto
  have "\<forall>t < length (w_threads w). thread_queue t w' = thread_queue t w @ wakeups s t (e # es)" using 1(5,6) 2(5) e by auto
  with 1 2 n show ?case by auto
qed

text \<open>
  C32: \<^verbatim>\<open>disable\<close> ends and wakes everyone. Whatever routines wait in the queue of a semaphore, the
  loop of \<^verbatim>\<open>disable\<close> comes to its end, the counter is at the disabled standpoint, no waiter is left
  in the queue, and every thread has received, after the commands it already had, one command
  per waiter of its own in the order in which they had queued.
\<close>

theorem semaphore_disable_wakes_all:
  assumes "the_sema s w = Some sm" and "vq_links (s_waiters sm) es fs"
    and "\<forall>(i, u, index) \<in> set es. u < length (w_threads w)"
  shows "\<exists>w' sm'. semaphore_disable s w = Some w' \<and> the_sema s w' = Some sm' \<and> s_counter sm' = disabled_standpoint \<and>
    vectorized_queue_read (s_waiters sm') = Some (None, s_waiters sm') \<and>
    (\<forall>t < length (w_threads w). thread_queue t w' = thread_queue t w @ wakeups s t es)"
proof -
  let ?w = "upd_sema s (\<lambda>sm. sm\<lparr>s_counter := disabled_standpoint\<rparr>) w" and ?sm = "sm\<lparr>s_counter := disabled_standpoint\<rparr>"
  have sm: "the_sema s ?w = Some ?sm" by (rule upd_sema_access(1) [OF assms(1)])
  have d: "distinct (map fst es)" and sub: "set (map fst es) \<subseteq> {..<length (vq_data (s_waiters sm))}"
    using assms(2) by (auto simp: vq_links_def)
  have "length es = card (set (map fst es))" using distinct_card [OF d] by simp
  also have "\<dots> \<le> card {..<length (vq_data (s_waiters sm))}" by (rule card_mono [OF finite_lessThan sub])
  finally have "length es < Suc (length (vq_data (s_waiters sm)))" by simp
  moreover have "vq_links (s_waiters ?sm) es fs" "\<forall>(i, u, index) \<in> set es. u < length (w_threads ?w)"
    using assms(2,3) by (simp_all add: upd_sema_access)
  ultimately obtain w' sm' fs' where
    *: "wake_all_waiters (Suc (length (vq_data (s_waiters sm)))) s ?w = Some w'" "the_sema s w' = Some sm'"
      "s_counter sm' = disabled_standpoint" "vq_links (s_waiters sm') [] fs'"
      "\<forall>t < length (w_threads w). thread_queue t w' = thread_queue t w @ wakeups s t es"
    using wake_all_waiters_ok [OF sm, of es fs] by (fastforce simp: upd_sema_access simp del: wake_all_waiters.simps)
  have "semaphore_disable s w = Some w'" using assms(1) *(1) by (simp add: semaphore_disable_def del: wake_all_waiters.simps)
  with * vq_read_empty [OF *(4)] show ?thesis by blast
qed

text \<open>A semaphore with two waiters of two threads.\<close>

definition wakeup_queue :: "(nat \<times> nat) vectorized_queue" where
  "wakeup_queue =
     \<lparr>vq_data = [\<lparr>vc_value = Some (0, 4), vc_previous = vq_none, vc_next = 1\<rparr>,
                 \<lparr>vc_value = Some (1, 5), vc_previous = 0, vc_next = vq_none\<rparr>],
      vq_first_free_cell = vq_none, vq_head = 0, vq_tail = 1\<rparr>"

definition wakeup_example :: world where
  "wakeup_example = \<lparr>w_routines = [], w_blocks = [], w_semas = [\<lparr>s_waiters = wakeup_queue, s_counter = 0, s_alive = True\<rparr>],
     w_threads = [thread_new np_example, thread_new np_example], w_engine_queue = []\<rparr>"

lemma wakeup_queue_links: "vq_links wakeup_queue [(0, 0, 4), (1, 1, 5)] []"
proof -
  have "2 \<le> vq_none" by (simp add: vq_none_def)
  then show ?thesis by (auto simp: vq_links_def wakeup_queue_def lessThan_Suc numeral_2_eq_2)
qed

theorem semaphore_disable_wakes_all_witness:
  "\<exists>w'. semaphore_disable 0 wakeup_example = Some w' \<and>
     thread_queue 0 w' = [schedule_waiting_routine 0 4] \<and> thread_queue 1 w' = [schedule_waiting_routine 0 5]"
proof -
  have sm: "the_sema 0 wakeup_example = Some \<lparr>s_waiters = wakeup_queue, s_counter = 0, s_alive = True\<rparr>"
    by (simp add: the_sema_def wakeup_example_def)
  have len: "length (w_threads wakeup_example) = 2" by (simp add: wakeup_example_def)
  have "thread_queue 0 wakeup_example = []" "thread_queue 1 wakeup_example = []"
    by (simp_all add: thread_queue_def wakeup_example_def thread_new_def)
  moreover have "vq_links (s_waiters \<lparr>s_waiters = wakeup_queue, s_counter = 0, s_alive = True\<rparr>) [(0, 0, 4), (1, 1, 5)] []"
    using wakeup_queue_links by simp
  moreover have "\<forall>(i, u, index) \<in> set [(0, 0, 4), (1, 1, 5 :: nat)]. u < length (w_threads wakeup_example)"
    by (simp add: len)
  ultimately show ?thesis using semaphore_disable_wakes_all [OF sm, of "[(0, 0, 4), (1, 1, 5)]" "[]"] by (auto simp: len)
qed

end
