(* ===== verification/Command_Loop.thy ===== *)
theory Command_Loop
  imports Event_Rounds Semaphore_Wakeups
begin

text \<open>
  The loop of a thread over its commands, \<^verbatim>\<open>thread::handle_engine_event\<close>
  (\<^verbatim>\<open>src/boson/src/internal/thread.cc\<close>), with the semaphores and the slots it works on. Handling
  a command can send another one: a waiter that was woken for nothing passes the wake-up
  on. The invariant says which slots the commands and the waiters of the thread refer to;
  with it the loop comes to its end and none of its assertions fails.
\<close>

section \<open>What the commands refer to\<close>

text \<open>The slots named by the commands of a thread, and by its waiters in a semaphore.\<close>

definition cmd_slots :: "thread_command list \<Rightarrow> nat list" where
  "cmd_slots cmds = concat (map (\<lambda>c. case c of schedule_waiting_routine s i \<Rightarrow> [i] | _ \<Rightarrow> []) cmds)"

definition waiter_slots :: "nat \<Rightarrow> (nat \<times> nat) list \<Rightarrow> nat list" where
  "waiter_slots t xs = map snd (filter (\<lambda>(u, i). u = t) xs)"

lemma cmd_slots_simps [simp]:
  "cmd_slots [] = []" "cmd_slots (schedule_waiting_routine s i # cs) = i # cmd_slots cs" "cmd_slots (add_routine r # cs) = cmd_slots cs"
  "cmd_slots (finish_thread # cs) = cmd_slots cs" "cmd_slots (cs @ ds) = cmd_slots cs @ cmd_slots ds"
  by (simp_all add: cmd_slots_def)

lemma waiter_slots_simps [simp]:
  "waiter_slots t [] = []" "waiter_slots t ((u, i) # xs) = (if u = t then i # waiter_slots t xs else waiter_slots t xs)"
  "waiter_slots t (xs @ ys) = waiter_slots t xs @ waiter_slots t ys"
  by (simp_all add: waiter_slots_def)

text \<open>The list of the waiters of a semaphore.\<close>

definition sema_holds :: "semaphore \<Rightarrow> (nat \<times> nat) list \<Rightarrow> bool" where
  "sema_holds sm xs \<longleftrightarrow> (\<exists>es fs. vq_links (s_waiters sm) es fs \<and> map snd es = xs)"

text \<open>A slot of thread \<open>t\<close> that a command may name: allocated, and stale or of a routine in its round.\<close>

definition waiting :: "nat \<Rightarrow> nat option \<Rightarrow> world \<Rightarrow> bool" where
  "waiting t p w \<longleftrightarrow> (\<exists>r rt. ptr_get p w = Some r \<and> the_routine r w = Some rt \<and> r_thread rt = t \<and> ptr_get (r_current_ptr rt) w = Some r)"

definition slot_ok :: "nat \<Rightarrow> world \<Rightarrow> nat \<Rightarrow> bool" where
  "slot_ok t w i \<longleftrightarrow> (\<exists>th slot. the_thread t w = Some th \<and> sparse_vector_get i (t_slots th) = Some slot \<and>
     (\<forall>b. slot_ptr slot = Some b \<longrightarrow> b < length (w_blocks w)) \<and>
     (ptr_valid (slot_ptr slot) w \<longrightarrow> waiting t (slot_ptr slot) w))"

definition slots_wf :: "nat \<Rightarrow> world \<Rightarrow> bool" where
  "slots_wf t w \<longleftrightarrow> (\<exists>th n fs. the_thread t w = Some th \<and> sparse_vector_rep (t_slots th) n fs)"

fun cmd_ok :: "world \<Rightarrow> thread_command \<Rightarrow> bool" where
  "cmd_ok w (add_routine r) \<longleftrightarrow> (\<exists>rt. the_routine r w = Some rt \<and> r_status rt \<in> {yielding, is_new, sema_event_candidate})"
| "cmd_ok w (schedule_waiting_routine s i) \<longleftrightarrow> s < length (w_semas w)"
| "cmd_ok w finish_thread \<longleftrightarrow> True"
| "cmd_ok w (fd_ready i fd st rd) \<longleftrightarrow> False"

text \<open>
  The invariant: \<open>W\<close> lists the waiters of each semaphore, \<open>refs\<close> the slots that the command being
  handled names.
\<close>

definition cmds_wf :: "nat \<Rightarrow> (nat \<times> nat) list list \<Rightarrow> nat list \<Rightarrow> world \<Rightarrow> bool" where
  "cmds_wf t W refs w \<longleftrightarrow>
     slots_wf t w \<and> list_all2 sema_holds (w_semas w) W \<and> (\<forall>(u, i) \<in> set (concat W). u < length (w_threads w)) \<and>
     list_all (cmd_ok w) (thread_queue t w) \<and> distinct (refs @ cmd_slots (thread_queue t w) @ waiter_slots t (concat W)) \<and>
     (\<forall>i \<in> set (refs @ cmd_slots (thread_queue t w) @ waiter_slots t (concat W)). slot_ok t w i)"

text \<open>The count of pending commands, less the commands that are there.\<close>

definition pending_excess :: "nat \<Rightarrow> world \<Rightarrow> size_t" where
  "pending_excess t w = t_nb_pending (w_threads w ! t) - of_nat (length (thread_queue t w))"

section \<open>Steps that keep the slots\<close>

text \<open>
  \<open>quiet t w w'\<close>: a step that leaves the slots of thread \<open>t\<close>, the semaphores and the queue of the
  thread alone; it may add blocks, and turn a routine into a candidate.
\<close>

definition quiet :: "nat \<Rightarrow> world \<Rightarrow> world \<Rightarrow> bool" where
  "quiet t w w' \<longleftrightarrow>
     (\<exists>bs. w_blocks w' = w_blocks w @ bs) \<and> w_semas w' = w_semas w \<and> length (w_threads w') = length (w_threads w) \<and>
     (\<forall>r rt. the_routine r w = Some rt \<longrightarrow> (\<exists>rt'. the_routine r w' = Some rt' \<and> r_thread rt' = r_thread rt \<and>
        r_current_ptr rt' = r_current_ptr rt \<and> (r_status rt' = r_status rt \<or> r_status rt' = sema_event_candidate))) \<and>
     (\<forall>th. the_thread t w = Some th \<longrightarrow> (\<exists>th'. the_thread t w' = Some th' \<and> t_slots th' = t_slots th \<and>
        t_engine_queue th' = t_engine_queue th \<and> t_nb_pending th' = t_nb_pending th))"

lemma ptr_get_append: "ptr_get p w = Some r \<Longrightarrow> w_blocks w' = w_blocks w @ bs \<Longrightarrow> ptr_get p w' = Some r"
  by (cases p) (auto simp: ptr_get_def vec_get_def nth_append split: if_splits)

lemma ptr_valid_append: "(\<forall>b. p = Some b \<longrightarrow> b < length (w_blocks w)) \<Longrightarrow> w_blocks w' = w_blocks w @ bs \<Longrightarrow> ptr_valid p w' = ptr_valid p w"
  by (cases p) (auto simp: ptr_valid_def nth_append)

lemma quiet_waiting:
  assumes "quiet t w w'" and "waiting t p w"
  shows "waiting t p w'"
proof -
  from assms(2) obtain r rt where r: "ptr_get p w = Some r" "the_routine r w = Some rt" "r_thread rt = t" "ptr_get (r_current_ptr rt) w = Some r"
    by (auto simp: waiting_def)
  from assms(1) obtain bs where bs: "w_blocks w' = w_blocks w @ bs" by (auto simp: quiet_def)
  from assms(1) r(2) obtain rt' where "the_routine r w' = Some rt'" "r_thread rt' = t" "r_current_ptr rt' = r_current_ptr rt"
    using r(3) unfolding quiet_def by metis
  with r ptr_get_append [OF _ bs] show ?thesis unfolding waiting_def by metis
qed

lemma quiet_slot_ok:
  assumes "quiet t w w'" and "slot_ok t w i"
  shows "slot_ok t w' i"
proof -
  from assms(2) obtain th slot where s: "the_thread t w = Some th" "sparse_vector_get i (t_slots th) = Some slot"
    "\<forall>b. slot_ptr slot = Some b \<longrightarrow> b < length (w_blocks w)" "ptr_valid (slot_ptr slot) w \<Longrightarrow> waiting t (slot_ptr slot) w"
    by (auto simp: slot_ok_def)
  from assms(1) obtain bs where bs: "w_blocks w' = w_blocks w @ bs" by (auto simp: quiet_def)
  from assms(1) s(1) obtain th' where th': "the_thread t w' = Some th'" "t_slots th' = t_slots th" unfolding quiet_def by metis
  have "\<forall>b. slot_ptr slot = Some b \<longrightarrow> b < length (w_blocks w')" using s(3) bs by auto
  moreover have "waiting t (slot_ptr slot) w'" if "ptr_valid (slot_ptr slot) w'"
    using quiet_waiting [OF assms(1) s(4)] that ptr_valid_append [OF s(3) bs] by simp
  ultimately show ?thesis unfolding slot_ok_def using th' s(2) by auto
qed

lemma quiet_cmd_ok: "quiet t w w' \<Longrightarrow> cmd_ok w c \<Longrightarrow> cmd_ok w' c"
  by (cases c) (auto simp: quiet_def; metis)+

lemma quiet_queue:
  assumes "quiet t w w'" and "slots_wf t w"
  shows "thread_queue t w' = thread_queue t w" and "pending_excess t w' = pending_excess t w"
  using assms by (auto simp: quiet_def slots_wf_def the_thread_def thread_queue_def pending_excess_def)

lemma quiet_cmds_wf:
  assumes q: "quiet t w w'" and w: "cmds_wf t W (refs @ refs') w"
  shows "cmds_wf t W refs' w'"
proof -
  have s: "slots_wf t w" using w by (simp add: cmds_wf_def)
  have "slots_wf t w'" using q s unfolding quiet_def slots_wf_def by metis
  moreover have "list_all (cmd_ok w') (thread_queue t w)" using w quiet_cmd_ok [OF q] by (auto simp: cmds_wf_def list_all_iff)
  moreover have "w_semas w' = w_semas w" "length (w_threads w') = length (w_threads w)" using q by (auto simp: quiet_def)
  ultimately show ?thesis using w quiet_slot_ok [OF q] quiet_queue [OF q s] by (auto simp: cmds_wf_def)
qed

section \<open>The commands one by one\<close>

lemma ptr_cong:
  "w_blocks w' = w_blocks w \<Longrightarrow> ptr_get p w' = ptr_get p w" "w_blocks w' = w_blocks w \<Longrightarrow> ptr_valid p w' = ptr_valid p w"
  by (simp_all add: ptr_get_def ptr_valid_def cong: option.case_cong)

lemma upd_blocks [simp]: "w_blocks (upd_thread t f w) = w_blocks w" "w_blocks (upd_routine r g w) = w_blocks w" "w_blocks (upd_sema s h w) = w_blocks w"
  by (simp_all add: upd_thread_def upd_routine_def upd_sema_def)

lemma handle_add_routine:
  assumes w: "cmds_wf t W refs w" and r: "cmd_ok w (add_routine r)"
  obtains w' where "handle_command t (add_routine r) w = Some w'" and "quiet t w w'"
proof -
  from r obtain rt where rt: "the_routine r w = Some rt" "r_status rt \<in> {yielding, is_new, sema_event_candidate}" by auto
  from w obtain th where th: "the_thread t w = Some th" by (auto simp: cmds_wf_def slots_wf_def)
  let ?w = "w\<lparr>w_blocks := w_blocks w @ [Owner (Some r)]\<rparr>"
  let ?slot = "\<lparr>slot_ptr = Some (length (w_blocks w)), slot_event_index = 0\<rparr>"
  have "handle_command t (add_routine r) w = Some (upd_thread t (\<lambda>th. th\<lparr>t_scheduled := t_scheduled th @ [?slot]\<rparr>) ?w)"
    using th rt by (auto simp: make_ptr_def thread_schedule_routine_def ptr_get_def)
  moreover have "quiet t w (upd_thread t (\<lambda>th. th\<lparr>t_scheduled := t_scheduled th @ [?slot]\<rparr>) ?w)"
    using th by (auto simp: quiet_def the_thread_upd) (simp_all add: upd_thread_def)
  ultimately show thesis by (rule that)
qed

lemma handle_finish:
  assumes w: "cmds_wf t W refs w"
  obtains w' where "handle_command t finish_thread w = Some w'" and "quiet t w w'"
proof -
  from w obtain th where th: "the_thread t w = Some th" by (auto simp: cmds_wf_def slots_wf_def)
  have "quiet t w (upd_thread t (\<lambda>th. th\<lparr>t_status := t_finishing\<rparr>) w)"
    using th by (auto simp: quiet_def the_thread_upd) (simp_all add: upd_thread_def)
  then show thesis using that by simp
qed

text \<open>A command for a routine that is still in its round makes it a candidate.\<close>

lemma handle_schedule_valid:
  assumes th: "the_thread t w = Some th" and slot: "sparse_vector_get i (t_slots th) = Some slot" "ptr_valid (slot_ptr slot) w"
    and wait: "waiting t (slot_ptr slot) w"
  obtains w' where "handle_command t (schedule_waiting_routine s i) w = Some w'" and "quiet t w w'"
proof -
  from wait obtain r rt where r: "ptr_get (slot_ptr slot) w = Some r" "the_routine r w = Some rt" "r_thread rt = t" "ptr_get (r_current_ptr rt) w = Some r"
    by (auto simp: waiting_def)
  let ?w = "upd_routine r (\<lambda>rt. rt\<lparr>r_status := sema_event_candidate\<rparr>) w"
  let ?slot = "\<lparr>slot_ptr = r_current_ptr rt, slot_event_index = slot_event_index slot\<rparr>"
  let ?f = "\<lambda>th. th\<lparr>t_scheduled := t_scheduled th @ [?slot]\<rparr>"
  have "ptr_get (r_current_ptr rt) ?w = Some r" using r(4) ptr_cong(1) [of ?w w] by simp
  then have "handle_command t (schedule_waiting_routine s i) w = Some (upd_thread t ?f ?w)"
    using th slot r by (simp add: routine_set_as_semaphore_event_candidate_def thread_schedule_routine_def the_routine_upd)
  moreover have "quiet t w (upd_thread t ?f ?w)"
    using th r by (auto simp: quiet_def the_thread_upd the_routine_upd) (simp_all add: upd_thread_def upd_routine_def)
  ultimately show thesis by (rule that)
qed

lemma slot_ok_free:
  assumes w: "slots_wf t w" and i: "slot_ok t w i"
  obtains w' where "thread_unregister_expired_slot t i w = Some w'" and "slots_wf t w'" and "\<And>j. j \<noteq> i \<Longrightarrow> slot_ok t w j \<Longrightarrow> slot_ok t w' j"
    and "w_semas w' = w_semas w" and "length (w_threads w') = length (w_threads w)" and "thread_queue t w' = thread_queue t w"
    and "pending_excess t w' = pending_excess t w" and "w_routines w' = w_routines w"
proof -
  from w obtain th n fs where th: "the_thread t w = Some th" "sparse_vector_rep (t_slots th) n fs" by (auto simp: slots_wf_def)
  have get: "sparse_vector_get j v = (if j \<in> live_cells n gs then Some (sv_data v ! j) else None)" if "sparse_vector_rep v n gs" for j gs and v :: "routine_slot sparse_vector"
    using that sparse_vector_has_live [OF that, of j] by (auto simp: sparse_vector_get_def sparse_vector_has_def)
  from i th(1) have "i \<in> live_cells n fs" using get [OF th(2), of i] by (auto simp: slot_ok_def split: if_splits)
  with sparse_vector_free_live [OF sparse_vector_repD [OF th(2)], of i] sparse_vector_rep_release [OF th(2), of i] obtain v
    where v: "sparse_vector_free i (t_slots th) = Some v" "sparse_vector_rep v n (i # fs)" "sv_data v = sv_data (t_slots th)" by auto
  let ?w = "upd_thread t (\<lambda>th. th\<lparr>t_slots := v\<rparr>) w"
  have t: "the_thread t ?w = Some (th\<lparr>t_slots := v\<rparr>)" using th(1) by (simp add: the_thread_upd)
  have "thread_unregister_expired_slot t i w = Some ?w" using th(1) v(1) by (simp add: thread_unregister_expired_slot_def)
  moreover have "slots_wf t ?w" using t v(2) by (auto simp: slots_wf_def)
  moreover have "slot_ok t ?w j" if "j \<noteq> i" "slot_ok t w j" for j
  proof -
    from that(2) th(1) obtain slot where slot: "sparse_vector_get j (t_slots th) = Some slot"
      "\<forall>b. slot_ptr slot = Some b \<longrightarrow> b < length (w_blocks w)" "ptr_valid (slot_ptr slot) w \<longrightarrow> waiting t (slot_ptr slot) w"
      by (auto simp: slot_ok_def)
    then have "sparse_vector_get j v = Some slot" using get [OF th(2), of j] get [OF v(2), of j] v(3) that(1) by (auto split: if_splits)
    moreover have "waiting t p ?w = waiting t p w" "ptr_valid p ?w = ptr_valid p w" for p
      by (simp_all add: waiting_def ptr_cong [of ?w w])
    ultimately show ?thesis unfolding slot_ok_def using t slot(2,3) by auto
  qed
  moreover have "t < length (w_threads w)" using th(1) by (simp add: the_thread_def)
  ultimately show thesis using that [of ?w] th(1) by (simp add: upd_thread_def thread_queue_def pending_excess_def)
qed

lemma slot_ok_cong:
  assumes "the_thread t w = Some th" and "the_thread t w' = Some th'" and "t_slots th' = t_slots th"
    and "w_blocks w' = w_blocks w" and "w_routines w' = w_routines w"
  shows "slot_ok t w' i = slot_ok t w i"
  using assms ptr_cong [OF assms(4)] by (simp add: slot_ok_def waiting_def the_routine_def)

lemma push_world:
  assumes "u < length (w_threads w)"
  shows "\<exists>p. thread_push_command u cmd w = Some (upd_thread u (\<lambda>th. th\<lparr>t_nb_pending := t_nb_pending th + 1,
    t_engine_queue := t_engine_queue th @ [cmd], t_poller := p\<rparr>) w)"
proof -
  let ?th = "(w_threads w ! u)\<lparr>t_nb_pending := t_nb_pending (w_threads w ! u) + 1,
    t_engine_queue := t_engine_queue (w_threads w ! u) @ [cmd]\<rparr>"
  obtain p where "thread_wakeUp ?th = Some (?th\<lparr>t_poller := p\<rparr>)" using thread_wakeUp_Some by blast
  with assms have "thread_push_command u cmd w = Some (upd_thread u (\<lambda>th. th\<lparr>t_nb_pending := t_nb_pending th + 1,
    t_engine_queue := t_engine_queue th @ [cmd], t_poller := p\<rparr>) w)"
    by (simp add: thread_push_command_def the_thread_def upd_thread_def)
  then show ?thesis ..
qed

lemma pop_a_waiter_wf:
  assumes w: "cmds_wf t W refs w" and s: "s < length (w_semas w)"
  obtains w' W' where "pop_a_waiter s t w = Some (True, w')" and "cmds_wf t W' refs w'"
    and "length (thread_queue t w') + length (concat W') \<le> length (thread_queue t w) + length (concat W)"
    and "pending_excess t w' = pending_excess t w"
proof -
  define sm where "sm = w_semas w ! s"
  have sm: "the_sema s w = Some sm" using s by (simp add: the_sema_def sm_def)
  have all: "list_all2 sema_holds (w_semas w) W" using w by (simp add: cmds_wf_def)
  then have s': "s < length W" "sema_holds sm (W ! s)" using s by (auto simp: sm_def list_all2_conv_all_nth)
  then obtain es fs where es: "vq_links (s_waiters sm) es fs" "map snd es = W ! s" by (auto simp: sema_holds_def)
  show thesis
  proof (cases es)
    case Nil
    have "upd_sema s (\<lambda>sm'. sm'\<lparr>s_waiters := s_waiters sm\<rparr>) w = w" by (simp add: upd_sema_def sm_def)
    with semaphore_read_none [OF sm, of fs] es(1) Nil have "pop_a_waiter s t w = Some (True, w)" by (simp add: pop_a_waiter_def)
    with w that show thesis by blast
  next
    case (Cons e es')
    obtain i u index where e: "e = (i, u, index)" by (cases e)
    from semaphore_read_waiter [OF sm, of i "(u, index)" es' fs] es(1) Cons e obtain q
      where q: "semaphore_read s w = Some (Some (u, index), upd_sema s (\<lambda>sm. sm\<lparr>s_waiters := q\<rparr>) w)" "vq_links q es' (i # fs)" by auto
    let ?w1 = "upd_sema s (\<lambda>sm. sm\<lparr>s_waiters := q\<rparr>) w"
    let ?cmd = "schedule_waiting_routine s index"
    obtain A B where W: "W = A @ W ! s # B" "length A = s" using s'(1) id_take_nth_drop [OF s'(1)] by (metis length_take less_imp_le_nat min.absorb2)
    let ?xs = "map snd es'"
    have Ws: "W ! s = (u, index) # ?xs" using es(2) Cons e by simp
    have cW: "concat W = concat A @ (u, index) # ?xs @ concat B" by (subst W(1)) (simp add: Ws)
    have cW': "concat (W[s := ?xs]) = concat A @ ?xs @ concat B" by (subst W(1)) (simp add: W(2) [symmetric])
    have u: "u < length (w_threads w)" using w cW by (auto simp: cmds_wf_def)
    then obtain p where push: "thread_push_command u ?cmd ?w1 = Some (upd_thread u (\<lambda>th. th\<lparr>t_nb_pending := t_nb_pending th + 1,
        t_engine_queue := t_engine_queue th @ [?cmd], t_poller := p\<rparr>) ?w1)"
      using push_world [of u ?w1 ?cmd] by (auto simp: upd_sema_access)
    let ?f = "\<lambda>th. th\<lparr>t_nb_pending := t_nb_pending th + 1, t_engine_queue := t_engine_queue th @ [?cmd], t_poller := p\<rparr>"
    let ?w2 = "upd_thread u ?f ?w1"
    have pop: "pop_a_waiter s t w = Some (True, ?w2)" using q(1) push by (simp add: pop_a_waiter_def)
    from w obtain th n gs where th: "the_thread t w = Some th" "sparse_vector_rep (t_slots th) n gs" by (auto simp: cmds_wf_def slots_wf_def)
    let ?th = "if u = t then ?f th else th"
    have th2: "the_thread t ?w2 = Some ?th" "t_slots ?th = t_slots th" using th(1) by (auto simp: the_thread_upd)
    have "sema_holds (sm\<lparr>s_waiters := q\<rparr>) ?xs" using q(2) by (auto simp: sema_holds_def)
    then have semas: "list_all2 sema_holds (w_semas ?w2) (W[s := ?xs])"
      using list_all2_update_cong [OF all, of "sm\<lparr>s_waiters := q\<rparr>" ?xs s] by (simp add: upd_thread_def upd_sema_def sm_def)
    have queue: "thread_queue t ?w2 = thread_queue t w @ (if u = t then [?cmd] else [])"
      using th(1) u by (auto simp: thread_queue_def upd_thread_def upd_sema_def the_thread_def)
    have ok: "slot_ok t ?w2 j = slot_ok t w j" for j
      using slot_ok_cong [OF th(1) th2] by (simp add: upd_thread_def upd_sema_def)
    have cmds: "list_all (cmd_ok ?w2) (thread_queue t ?w2)"
    proof -
      have "cmd_ok ?w2 c = cmd_ok w c" for c by (cases c) (simp_all add: upd_thread_def upd_sema_def the_routine_def)
      then have same: "cmd_ok ?w2 = cmd_ok w" by blast
      show ?thesis unfolding queue same using w s by (simp add: cmds_wf_def)
    qed
    have "cmds_wf t (W[s := ?xs]) refs ?w2"
      using w th th2 semas cmds unfolding cmds_wf_def cW cW' queue ok by (auto simp: slots_wf_def upd_thread_def upd_sema_def)
    moreover have "length (thread_queue t ?w2) + length (concat (W[s := ?xs])) \<le> length (thread_queue t w) + length (concat W)"
      unfolding cW cW' queue by simp
    moreover have "pending_excess t ?w2 = pending_excess t w"
      using th(1) u by (cases "u = t") (auto simp: pending_excess_def thread_queue_def upd_thread_def upd_sema_def the_thread_def)
    ultimately show thesis using that [OF pop] by blast
  qed
qed

section \<open>The loop\<close>

lemma handle_command_wf:
  assumes w: "cmds_wf t W (cmd_slots [cmd]) w" and cmd: "cmd_ok w cmd"
  shows "\<exists>w' W'. handle_command t cmd w = Some w' \<and> cmds_wf t W' [] w' \<and>
    length (thread_queue t w') + length (concat W') \<le> length (thread_queue t w) + length (concat W) \<and>
    pending_excess t w' = pending_excess t w"
proof -
  have wf: "slots_wf t w" using w by (simp add: cmds_wf_def)
  have quietly: ?thesis if "handle_command t cmd w = Some w'" "quiet t w w'" for w'
    using that quiet_cmds_wf [OF that(2), of W "cmd_slots [cmd]" "[]"] quiet_queue [OF that(2) wf] w by auto
  show ?thesis
  proof (cases cmd)
    case (add_routine r)
    with handle_add_routine [OF w, of r] cmd quietly show ?thesis by blast
  next
    case finish_thread
    with handle_finish [OF w] quietly show ?thesis by blast
  next
    case (schedule_waiting_routine s i)
    from w wf obtain th slot where slot: "the_thread t w = Some th" "sparse_vector_get i (t_slots th) = Some slot"
      "ptr_valid (slot_ptr slot) w \<Longrightarrow> waiting t (slot_ptr slot) w" by (auto simp: cmds_wf_def schedule_waiting_routine slot_ok_def)
    show ?thesis
    proof (cases "ptr_valid (slot_ptr slot) w")
      case True
      from handle_schedule_valid [OF slot(1,2) True slot(3) [OF True]] quietly schedule_waiting_routine show ?thesis by blast
    next
      case False
      from cmd schedule_waiting_routine have s: "s < length (w_semas w)" by simp
      obtain w1 W1 where w1: "(if s_alive (w_semas w ! s) then do { (_, w1) \<leftarrow> pop_a_waiter s t w; Some w1 } else Some w) = Some w1"
        "cmds_wf t W1 [i] w1" "length (thread_queue t w1) + length (concat W1) \<le> length (thread_queue t w) + length (concat W)"
        "pending_excess t w1 = pending_excess t w"
      proof (cases "s_alive (w_semas w ! s)")
        case True
        from pop_a_waiter_wf [OF w s] obtain w1 W1 where "pop_a_waiter s t w = Some (True, w1)" "cmds_wf t W1 (cmd_slots [cmd]) w1"
          "length (thread_queue t w1) + length (concat W1) \<le> length (thread_queue t w) + length (concat W)"
          "pending_excess t w1 = pending_excess t w" by blast
        with that [of w1 W1] True schedule_waiting_routine show thesis by simp
      next
        case False
        with that [of w W] w schedule_waiting_routine show thesis by simp
      qed
      have "slots_wf t w1" "slot_ok t w1 i" using w1(2) by (auto simp: cmds_wf_def)
      from slot_ok_free [OF this] obtain w2 where w2: "thread_unregister_expired_slot t i w1 = Some w2" "slots_wf t w2"
        "\<And>j. j \<noteq> i \<Longrightarrow> slot_ok t w1 j \<Longrightarrow> slot_ok t w2 j" "w_semas w2 = w_semas w1" "length (w_threads w2) = length (w_threads w1)"
        "thread_queue t w2 = thread_queue t w1" "pending_excess t w2 = pending_excess t w1" "w_routines w2 = w_routines w1" by metis
      have "cmd_ok w2 c = cmd_ok w1 c" for c by (cases c) (simp_all add: w2(4,8) the_routine_def)
      then have "list_all (cmd_ok w2) (thread_queue t w1)" using w1(2) by (auto simp: cmds_wf_def list_all_iff)
      moreover have "\<forall>j \<in> set (cmd_slots (thread_queue t w1) @ waiter_slots t (concat W1)). slot_ok t w2 j"
      proof
        fix j assume j: "j \<in> set (cmd_slots (thread_queue t w1) @ waiter_slots t (concat W1))"
        then have "j \<noteq> i" "slot_ok t w1 j" using w1(2) by (auto simp: cmds_wf_def)
        then show "slot_ok t w2 j" by (rule w2(3))
      qed
      ultimately have "cmds_wf t W1 [] w2" using w1(2) w2(2,4,5,6) by (simp add: cmds_wf_def)
      moreover have "handle_command t cmd w = Some w2"
        using slot(1,2) False w1(1) w2(1) s by (auto simp: schedule_waiting_routine the_sema_def)
      ultimately show ?thesis using w1(3,4) w2(6,7) by auto
    qed
  next
    case (fd_ready i fd st rd)
    with cmd show ?thesis by simp
  qed
qed

lemma take_command:
  assumes w: "cmds_wf t W [] w" and q: "thread_queue t w = cmd # rest"
  defines "w0 \<equiv> upd_thread t (\<lambda>th. th\<lparr>t_engine_queue := rest, t_nb_pending := t_nb_pending th - 1\<rparr>) w"
  shows "cmds_wf t W (cmd_slots [cmd]) w0" and "cmd_ok w0 cmd" and "thread_queue t w0 = rest" and "pending_excess t w0 = pending_excess t w"
proof -
  from w obtain th n fs where th: "the_thread t w = Some th" "sparse_vector_rep (t_slots th) n fs" by (auto simp: cmds_wf_def slots_wf_def)
  have t: "the_thread t w0 = Some (th\<lparr>t_engine_queue := rest, t_nb_pending := t_nb_pending th - 1\<rparr>)" using th by (simp add: w0_def the_thread_upd)
  have ok: "cmd_ok w0 c = cmd_ok w c" for c by (cases c) (simp_all add: w0_def upd_thread_def the_routine_def)
  have slots: "slot_ok t w0 i = slot_ok t w i" for i using slot_ok_cong [OF th(1) t] by (simp add: w0_def upd_thread_def)
  show queue: "thread_queue t w0 = rest" using th(1) by (simp add: w0_def thread_queue_def upd_thread_def the_thread_def)
  show "cmd_ok w0 cmd" using w q ok by (simp add: cmds_wf_def)
  show "pending_excess t w0 = pending_excess t w" using th(1) q by (auto simp: pending_excess_def thread_queue_def w0_def upd_thread_def the_thread_def)
  have "cmd_slots (cmd # rest) = cmd_slots [cmd] @ cmd_slots rest" by (simp add: cmd_slots_def)
  moreover have "list_all (cmd_ok w0) rest" using w q ok by (auto simp: cmds_wf_def list_all_iff)
  moreover have "slots_wf t w0" using t th(2) by (auto simp: slots_wf_def)
  moreover have "w_semas w0 = w_semas w" "length (w_threads w0) = length (w_threads w)" by (simp_all add: w0_def upd_thread_def)
  ultimately show "cmds_wf t W (cmd_slots [cmd]) w0" using w unfolding cmds_wf_def q queue slots by simp
qed

lemma handle_engine_event_ok:
  assumes "cmds_wf t W [] w" and "length (thread_queue t w) + length (concat W) < n"
  shows "\<exists>w' W'. thread_handle_engine_event n t w = Some w' \<and> cmds_wf t W' [] w' \<and> thread_queue t w' = [] \<and>
    pending_excess t w' = pending_excess t w"
  using assms
proof (induction n arbitrary: w W)
  case (Suc n)
  from Suc.prems(1) obtain th where th: "the_thread t w = Some th" by (auto simp: cmds_wf_def slots_wf_def)
  then have q: "thread_queue t w = t_engine_queue th" by (simp add: thread_queue_def the_thread_def)
  show ?case
  proof (cases "t_engine_queue th")
    case Nil
    with th q Suc.prems(1) show ?thesis by auto
  next
    case (Cons cmd rest)
    note take = take_command [OF Suc.prems(1) q [unfolded Cons]]
    from handle_command_wf [OF take(1,2)] obtain w1 W1 where w1:
      "handle_command t cmd (upd_thread t (\<lambda>th. th\<lparr>t_engine_queue := rest, t_nb_pending := t_nb_pending th - 1\<rparr>) w) = Some w1"
      "cmds_wf t W1 [] w1" "length (thread_queue t w1) + length (concat W1) \<le> length rest + length (concat W)"
      "pending_excess t w1 = pending_excess t w" unfolding take(3,4) by blast
    have "length (thread_queue t w1) + length (concat W1) < n" using w1(3) Suc.prems(2) q Cons by simp
    from Suc.IH [OF w1(2) this] w1 th Cons show ?thesis by auto
  qed
qed simp

section \<open>Properties\<close>


text \<open>
  A thread with a stale slot 0, a slot 1 of a routine that waits on semaphore 0, a command
  to wake slot 0 and one to add a routine.
\<close>

definition loop_example_queue :: "(nat \<times> nat) vectorized_queue" where
  "loop_example_queue = \<lparr>vq_data = [\<lparr>vc_value = Some (0, 1), vc_previous = vq_none, vc_next = vq_none\<rparr>],
     vq_first_free_cell = vq_none, vq_head = 0, vq_tail = 0\<rparr>"

definition loop_example_thread :: thread where
  "loop_example_thread = (thread_new np_example)\<lparr>t_engine_queue := [schedule_waiting_routine 0 0, add_routine 1], t_nb_pending := 2,
     t_slots := \<lparr>sv_data = [\<lparr>slot_ptr = Some 0, slot_event_index = 0\<rparr>, \<lparr>slot_ptr = Some 1, slot_event_index = 0\<rparr>],
       sv_free_cells = [-1, -1], sv_first_free_cell = -1, sv_last_free_cell = -1\<rparr>\<rparr>"

definition loop_example :: world where
  "loop_example =
     \<lparr>w_routines = [routine_new\<lparr>r_status := wait_events, r_current_ptr := Some 1\<rparr>, routine_new],
      w_blocks = [Invalidated, Owner (Some 0)],
      w_semas = [\<lparr>s_waiters = loop_example_queue, s_counter = 0, s_alive = True\<rparr>],
      w_threads = [loop_example_thread], w_engine_queue = []\<rparr>"

lemma loop_example_wf: "cmds_wf 0 [[(0, 1)]] [] loop_example"
proof -
  have "vq_links loop_example_queue [(0, 0, 1)] []" by (auto simp: vq_links_def loop_example_queue_def vq_none_def)
  then have semas: "list_all2 sema_holds (w_semas loop_example) [[(0, 1)]]" by (auto simp: loop_example_def sema_holds_def)
  have th: "the_thread 0 loop_example = Some loop_example_thread" by (simp add: the_thread_def loop_example_def)
  have "2 \<le> sparse_vector_limit" by (simp add: sparse_vector_limit_def)
  then have "sparse_vector_rep (t_slots loop_example_thread) 2 []"
    by (auto simp: loop_example_thread_def sparse_vector_rep_def sparse_vector_links_def less_Suc_eq numeral_2_eq_2)
  then have wf: "slots_wf 0 loop_example" using th by (auto simp: slots_wf_def)
  have get: "sparse_vector_get i (t_slots loop_example_thread) = Some \<lparr>slot_ptr = Some i, slot_event_index = 0\<rparr>" if "i < 2" for i
    using that by (auto simp: loop_example_thread_def sparse_vector_get_def sparse_vector_has_def less_Suc_eq numeral_2_eq_2)
  have "slot_ok 0 loop_example i" if "i < 2" for i
    unfolding slot_ok_def using th get [OF that] that
    by (auto simp: loop_example_def waiting_def ptr_valid_def ptr_get_def the_routine_def routine_new_def less_Suc_eq numeral_2_eq_2)
  moreover have "thread_queue 0 loop_example = [schedule_waiting_routine 0 0, add_routine 1]"
    by (simp add: thread_queue_def loop_example_def loop_example_thread_def)
  ultimately show ?thesis using wf semas
    by (simp add: cmds_wf_def the_routine_def) (simp add: loop_example_def routine_new_def the_routine_def)
qed


end
