(* ===== verification/Hazard_Pointers.thy ===== *)
theory Hazard_Pointers
  imports Prelude
begin

text \<open>
  The hazard pointers of the lock-free queue (\<^verbatim>\<open>src/boson/src/queues/lcrq.cc\<close>,
  \<^verbatim>\<open>src/boson/boson/queues/lcrq.h\<close>): a thread publishes the pointers it is using, retires
  the ones it has unlinked, and frees the retired ones that no other thread has published.
  The published pointers are collected in a hash table with linear probing. A pointer is a
  number, 0 the null pointer; the hash function is a parameter.
\<close>

section \<open>The hash table\<close>

text \<open>The two loops of \<^verbatim>\<open>htable_insert\<close> and \<^verbatim>\<open>htable_lookup\<close>, over the indices they visit.\<close>

fun htable_insert_loop :: "nat list \<Rightarrow> nat \<Rightarrow> nat list \<Rightarrow> nat list option" where
  "htable_insert_loop [] ptr tbl = None"
| "htable_insert_loop (i # is) ptr tbl = (if tbl ! i = 0 then Some (tbl[i := ptr]) else htable_insert_loop is ptr tbl)"

definition htable_insert :: "(nat \<Rightarrow> nat) \<Rightarrow> nat \<Rightarrow> nat list \<Rightarrow> int \<times> nat list" where
  "htable_insert hash ptr tbl =
     (let size = length tbl; index = hash ptr mod size in
      case htable_insert_loop [index..<size] ptr tbl of
        Some tbl' \<Rightarrow> (0, tbl')
      | None \<Rightarrow> (case htable_insert_loop [0..<index] ptr tbl of Some tbl' \<Rightarrow> (0, tbl') | None \<Rightarrow> (- 1, tbl)))"

fun htable_lookup_loop :: "nat list \<Rightarrow> nat \<Rightarrow> nat list \<Rightarrow> bool option" where
  "htable_lookup_loop [] ptr tbl = None"
| "htable_lookup_loop (i # is) ptr tbl =
     (if tbl ! i = ptr then Some True else if tbl ! i = 0 then Some False else htable_lookup_loop is ptr tbl)"

definition htable_lookup :: "(nat \<Rightarrow> nat) \<Rightarrow> nat \<Rightarrow> nat list \<Rightarrow> bool" where
  "htable_lookup hash ptr tbl =
     (let size = length tbl; index = hash ptr mod size in
      case htable_lookup_loop [index..<size] ptr tbl of
        Some b \<Rightarrow> b
      | None \<Rightarrow> (case htable_lookup_loop [0..<index] ptr tbl of Some b \<Rightarrow> b | None \<Rightarrow> False))"

section \<open>Hazard pointers\<close>

definition HZDPTR_THRESHOLD :: "nat \<Rightarrow> nat" where
  "HZDPTR_THRESHOLD nprocs = 2 * nprocs"

definition HZDPTR_HTBL_SIZE :: "nat \<Rightarrow> nat \<Rightarrow> nat" where
  "HZDPTR_HTBL_SIZE nprocs nptrs = 4 * nprocs * nptrs"

text \<open>
  The array \<^verbatim>\<open>ptrs\<close> of the source holds the \<^verbatim>\<open>nptrs\<close> published pointers and then the retired ones,
  up to the threshold; here they are two lists, the second with its \<^verbatim>\<open>nretired\<close> entries.
\<close>

record hzdptr =
  hz_nprocs :: nat
  hz_ptrs :: "nat list"
  hz_retired :: "nat list"

definition hzdptr_init :: "nat \<Rightarrow> nat \<Rightarrow> hzdptr" where
  "hzdptr_init nprocs nptrs = \<lparr>hz_nprocs = nprocs, hz_ptrs = replicate nptrs 0, hz_retired = []\<rparr>"

definition hzdptr_set :: "nat \<Rightarrow> nat \<Rightarrow> hzdptr \<Rightarrow> hzdptr" where
  "hzdptr_set ptr idx h = h\<lparr>hz_ptrs := (hz_ptrs h)[idx := ptr]\<rparr>"

definition hzdptr_clear :: "nat \<Rightarrow> hzdptr \<Rightarrow> hzdptr" where
  "hzdptr_clear idx h = h\<lparr>hz_ptrs := (hz_ptrs h)[idx := 0]\<rparr>"

text \<open>
  \<^verbatim>\<open>_hzdptr_setv\<close> publishes what it read until it reads the same again; \<open>reads\<close> are the
  successive values of the location. The result is the value published, \<open>None\<close> while it loops.
\<close>

fun hzdptr_setv :: "nat \<Rightarrow> nat list \<Rightarrow> nat \<Rightarrow> hzdptr \<Rightarrow> (nat \<times> hzdptr) option" where
  "hzdptr_setv val [] idx h = None"
| "hzdptr_setv val (val' # reads) idx h =
     (let h' = hzdptr_set val idx h in if val' = val then Some (val', h') else hzdptr_setv val' reads idx h')"

text \<open>
  \<^verbatim>\<open>_hzdptr_retire\<close>: the table of what the other threads published, then the scan of the
  retired pointers. \<open>others\<close> are the other threads' published pointers in the order of the
  walk; the hash function is applied at two moments, \<open>hash\<close> and \<open>hash'\<close>. The result is what
  is kept and what is freed.
\<close>

fun htable_insert_all :: "(nat \<Rightarrow> nat) \<Rightarrow> nat list \<Rightarrow> nat list \<Rightarrow> nat list" where
  "htable_insert_all hash [] tbl = tbl"
| "htable_insert_all hash (ptr # ptrs) tbl =
     htable_insert_all hash ptrs (if ptr \<noteq> 0 then snd (htable_insert hash ptr tbl) else tbl)"

fun retire_scan :: "(nat \<Rightarrow> nat) \<Rightarrow> nat list \<Rightarrow> nat list \<Rightarrow> nat list \<times> nat list" where
  "retire_scan hash' tbl [] = ([], [])"
| "retire_scan hash' tbl (ptr # rlist) =
     (case retire_scan hash' tbl rlist of
        (kept, freed) \<Rightarrow> if htable_lookup hash' ptr tbl then (ptr # kept, freed) else (kept, ptr # freed))"

definition hzdptr_retire_all :: "(nat \<Rightarrow> nat) \<Rightarrow> (nat \<Rightarrow> nat) \<Rightarrow> nat list list \<Rightarrow> hzdptr \<Rightarrow> hzdptr \<times> nat list" where
  "hzdptr_retire_all hash hash' others h =
     (let size = HZDPTR_HTBL_SIZE (hz_nprocs h) (length (hz_ptrs h));
          plist = htable_insert_all hash (concat others) (replicate size 0);
          (kept, freed) = retire_scan hash' plist (hz_retired h) in
      (h\<lparr>hz_retired := kept\<rparr>, freed))"

definition hzdptr_retire :: "(nat \<Rightarrow> nat) \<Rightarrow> (nat \<Rightarrow> nat) \<Rightarrow> nat list list \<Rightarrow> nat \<Rightarrow> hzdptr \<Rightarrow> hzdptr \<times> nat list" where
  "hzdptr_retire hash hash' others ptr h =
     (let h' = h\<lparr>hz_retired := hz_retired h @ [ptr]\<rparr> in
      if length (hz_retired h') = HZDPTR_THRESHOLD (hz_nprocs h') then hzdptr_retire_all hash hash' others h' else (h', []))"

text \<open>\<^verbatim>\<open>hzdptr_exit\<close> frees every retired pointer.\<close>

definition hzdptr_exit :: "hzdptr \<Rightarrow> hzdptr \<times> nat list" where
  "hzdptr_exit h = (h\<lparr>hz_retired := []\<rparr>, hz_retired h)"

section \<open>The table holds what was inserted\<close>

text \<open>The cells in the order of the probes for a pointer.\<close>

definition probes :: "(nat \<Rightarrow> nat) \<Rightarrow> nat \<Rightarrow> nat \<Rightarrow> nat list" where
  "probes hash n ptr = [hash ptr mod n..<n] @ [0..<hash ptr mod n]"

lemma set_probes: "0 < n \<Longrightarrow> set (probes hash n ptr) = {..<n}"
  by (auto simp: probes_def intro: less_trans [OF _ mod_less_divisor])

lemma insert_loop_append:
  "htable_insert_loop (xs @ ys) ptr tbl =
     (case htable_insert_loop xs ptr tbl of None \<Rightarrow> htable_insert_loop ys ptr tbl | Some t \<Rightarrow> Some t)"
  by (induction xs) auto

lemma lookup_loop_append:
  "htable_lookup_loop (xs @ ys) ptr tbl =
     (case htable_lookup_loop xs ptr tbl of None \<Rightarrow> htable_lookup_loop ys ptr tbl | Some t \<Rightarrow> Some t)"
  by (induction xs) auto

lemma htable_insert_probes:
  "htable_insert hash ptr tbl =
     (case htable_insert_loop (probes hash (length tbl) ptr) ptr tbl of None \<Rightarrow> (- 1, tbl) | Some t \<Rightarrow> (0, t))"
  by (auto simp: htable_insert_def probes_def insert_loop_append Let_def split: option.splits)

lemma htable_lookup_probes:
  "htable_lookup hash ptr tbl = (htable_lookup_loop (probes hash (length tbl) ptr) ptr tbl = Some True)"
  by (auto simp: htable_lookup_def probes_def lookup_loop_append Let_def split: option.splits)

text \<open>A pointer is found when no empty cell precedes it on its way.\<close>

fun reachable_in :: "nat list \<Rightarrow> nat \<Rightarrow> nat list \<Rightarrow> bool" where
  "reachable_in [] ptr tbl = False"
| "reachable_in (i # is) ptr tbl = (tbl ! i = ptr \<or> tbl ! i \<noteq> 0 \<and> reachable_in is ptr tbl)"

lemma lookup_loop_iff: "ptr \<noteq> 0 \<Longrightarrow> htable_lookup_loop ps ptr tbl = Some True \<longleftrightarrow> reachable_in ps ptr tbl"
  by (induction ps) auto

lemma reachable_in_set: "reachable_in ps ptr tbl \<Longrightarrow> set ps \<subseteq> {..<length tbl} \<Longrightarrow> ptr \<in> set tbl"
  by (induction ps) auto

lemma nth_updated: "xs[i := x] ! j = (if i = j \<and> i < length xs then x else xs ! j)"
  by (cases "i < length xs") (auto simp: nth_list_update list_update_beyond)

lemma reachable_in_update:
  assumes "reachable_in ps q tbl" and "tbl ! i = 0" and "q \<noteq> 0" and "ptr \<noteq> 0"
  shows "reachable_in ps q (tbl[i := ptr])"
  using assms by (induction ps) (auto simp: nth_updated)

lemma insert_loop_Some:
  assumes "htable_insert_loop ps ptr tbl = Some tbl'" and "set ps \<subseteq> {..<length tbl}" and "ptr \<noteq> 0"
  shows "\<exists>i < length tbl. tbl ! i = 0 \<and> tbl' = tbl[i := ptr] \<and> reachable_in ps ptr tbl'"
  using assms
proof (induction ps)
  case (Cons j ps)
  then show ?case by (cases "tbl ! j = 0") (auto simp: nth_updated)
qed simp

lemma insert_loop_None: "htable_insert_loop ps ptr tbl = None \<Longrightarrow> \<forall>i \<in> set ps. tbl ! i \<noteq> 0"
  by (induction ps) (auto split: if_splits)

definition free_cells :: "nat list \<Rightarrow> nat" where
  "free_cells tbl = count_list tbl 0"

lemma free_cells_update: "i < length tbl \<Longrightarrow> tbl ! i = 0 \<Longrightarrow> ptr \<noteq> 0 \<Longrightarrow> Suc (free_cells (tbl[i := ptr])) = free_cells tbl"
  unfolding free_cells_def
proof (induction tbl arbitrary: i)
  case (Cons x tbl)
  then show ?case by (cases i) auto
qed simp

text \<open>The table after a number of insertions: it holds exactly the pointers inserted, each within reach of its probes.\<close>

definition table_of :: "(nat \<Rightarrow> nat) \<Rightarrow> nat set \<Rightarrow> nat list \<Rightarrow> bool" where
  "table_of hash S tbl \<longleftrightarrow> set tbl \<subseteq> insert 0 S \<and> (\<forall>p \<in> S. reachable_in (probes hash (length tbl) p) p tbl)"

lemma htable_insert_table:
  assumes "table_of hash S tbl" and "0 \<notin> S" and "ptr \<noteq> 0" and "0 < free_cells tbl"
  shows "\<exists>tbl'. htable_insert hash ptr tbl = (0, tbl') \<and> table_of hash (insert ptr S) tbl' \<and>
    length tbl' = length tbl \<and> free_cells tbl \<le> Suc (free_cells tbl')"
proof -
  have zero: "0 \<in> set tbl" using assms(4) unfolding free_cells_def by (metis count_notin less_numeral_extra(3))
  then have n: "0 < length tbl" by (auto simp: length_pos_if_in_set)
  obtain tbl' where loop: "htable_insert_loop (probes hash (length tbl) ptr) ptr tbl = Some tbl'"
    using insert_loop_None [of "probes hash (length tbl) ptr" ptr tbl] set_probes [OF n] zero
    by (metis in_set_conv_nth lessThan_iff not_Some_eq)
  from insert_loop_Some [OF this _ assms(3)] set_probes [OF n] obtain i where
    i: "i < length tbl" "tbl ! i = 0" "tbl' = tbl[i := ptr]" "reachable_in (probes hash (length tbl) ptr) ptr tbl'"
    by auto
  have "set tbl' \<subseteq> insert 0 (insert ptr S)"
    using assms(1) i set_update_subset_insert [of tbl i ptr] by (auto simp: table_of_def)
  moreover have "reachable_in (probes hash (length tbl) p) p tbl'" if "p \<in> S" for p
    using reachable_in_update [of _ p tbl i ptr] assms that i by (auto simp: table_of_def)
  ultimately show ?thesis
    using loop i free_cells_update [OF i(1,2) assms(3)] by (auto simp: htable_insert_probes table_of_def)
qed

lemma insert_all_table:
  assumes "table_of hash S tbl" and "0 \<notin> S" and "length ps \<le> free_cells tbl"
  shows "table_of hash (S \<union> (set ps - {0})) (htable_insert_all hash ps tbl) \<and>
    length (htable_insert_all hash ps tbl) = length tbl"
  using assms
proof (induction ps arbitrary: S tbl)
  case (Cons p ps)
  show ?case
  proof (cases "p = 0")
    case True
    with Cons.IH [OF Cons.prems(1,2)] Cons.prems(3) show ?thesis by simp
  next
    case False
    from Cons.prems(3) htable_insert_table [OF Cons.prems(1,2) False] obtain tbl' where
      t: "htable_insert hash p tbl = (0, tbl')" "table_of hash (insert p S) tbl'" "length tbl' = length tbl"
        "length ps \<le> free_cells tbl'"
      by fastforce
    have "0 \<notin> insert p S" using False Cons.prems(2) by simp
    from Cons.IH [OF t(2) this t(4)] t False show ?thesis by (simp add: insert_Diff_if)
  qed
qed simp

lemma lookup_table:
  assumes "table_of hash S tbl" and "ptr \<noteq> 0" and "0 < length tbl"
  shows "htable_lookup hash ptr tbl \<longleftrightarrow> ptr \<in> S"
proof -
  have "ptr \<in> S" if "reachable_in (probes hash (length tbl) ptr) ptr tbl"
    using reachable_in_set [OF that] set_probes [OF assms(3)] assms by (auto simp: table_of_def)
  with assms show ?thesis by (auto simp: htable_lookup_probes lookup_loop_iff table_of_def)
qed

lemma retire_scan_filter:
  "retire_scan hash' tbl rlist = (filter (\<lambda>p. htable_lookup hash' p tbl) rlist, filter (\<lambda>p. \<not> htable_lookup hash' p tbl) rlist)"
  by (induction rlist) auto

lemma retire_all_filter:
  assumes "0 \<notin> set (hz_retired h)" and "0 < HZDPTR_HTBL_SIZE (hz_nprocs h) (length (hz_ptrs h))"
    and "length (concat others) \<le> HZDPTR_HTBL_SIZE (hz_nprocs h) (length (hz_ptrs h))"
  shows "hzdptr_retire_all hash hash others h =
    (h\<lparr>hz_retired := filter (\<lambda>p. p \<in> set (concat others)) (hz_retired h)\<rparr>,
     filter (\<lambda>p. p \<notin> set (concat others)) (hz_retired h))"
proof -
  let ?n = "HZDPTR_HTBL_SIZE (hz_nprocs h) (length (hz_ptrs h))"
  let ?tbl = "htable_insert_all hash (concat others) (replicate ?n 0)"
  have "table_of hash {} (replicate ?n 0)" by (auto simp: table_of_def)
  moreover have "free_cells (replicate ?n 0) = ?n" by (simp add: free_cells_def count_list_eq_length_filter)
  ultimately have t: "table_of hash (set (concat others) - {0}) ?tbl" "length ?tbl = ?n"
    using insert_all_table [of hash "{}" "replicate ?n 0" "concat others"] assms(3) by auto
  have "htable_lookup hash p ?tbl \<longleftrightarrow> p \<in> set (concat others)" if "p \<in> set (hz_retired h)" for p
    using lookup_table [OF t(1), of p] t(2) assms(1,2) that by (metis Diff_iff singletonD)
  then show ?thesis
    by (auto simp: hzdptr_retire_all_def retire_scan_filter Let_def cong: filter_cong)
qed

section \<open>Properties\<close>

text \<open>
  C30: the scan of the retired pointers is the filter it stands for. If hashing a pointer gives the
  same value at both moments and the table is large enough for the published pointers,
  exactly the retired pointers that no other thread published are freed, and the others are
  kept in order: no published pointer is ever freed, and nothing else is held back.
\<close>

theorem hzdptr_retire_is_filter:
  assumes "0 \<notin> set (hz_retired h)" and "0 < HZDPTR_HTBL_SIZE (hz_nprocs h) (length (hz_ptrs h))"
    and "length (concat others) \<le> HZDPTR_HTBL_SIZE (hz_nprocs h) (length (hz_ptrs h))"
  shows "hzdptr_retire_all hash hash others h =
    (h\<lparr>hz_retired := filter (\<lambda>p. p \<in> set (concat others)) (hz_retired h)\<rparr>,
     filter (\<lambda>p. p \<notin> set (concat others)) (hz_retired h))"
  by (rule retire_all_filter) (fact assms)+

theorem hzdptr_retire_is_filter_witness:
  "hzdptr_retire_all (\<lambda>p. p) (\<lambda>p. p) [[9], [0]] \<lparr>hz_nprocs = 2, hz_ptrs = [7], hz_retired = [7, 9, 17]\<rparr> =
     (\<lparr>hz_nprocs = 2, hz_ptrs = [7], hz_retired = [9]\<rparr>, [7, 17])"
  using hzdptr_retire_is_filter [of "\<lparr>hz_nprocs = 2, hz_ptrs = [7], hz_retired = [7, 9, 17]\<rparr>" "[[9], [0]]" "\<lambda>p. p"]
  by (simp add: HZDPTR_HTBL_SIZE_def)

text \<open>
  A published pointer is freed when its hash changes between the two moments, which it can:
  \<^verbatim>\<open>XXH32(ptr, 1, 0)\<close> hashes the first byte of what the pointer points to, for a ring the low
  byte of its head counter, and the threads that use the ring keep counting.
\<close>

theorem hzdptr_retire_unstable_hash:
  "hzdptr_retire_all (\<lambda>p. 0) (\<lambda>p. 1) [[9]] \<lparr>hz_nprocs = 1, hz_ptrs = [0], hz_retired = [5, 9]\<rparr> =
     (\<lparr>hz_nprocs = 1, hz_ptrs = [0], hz_retired = []\<rparr>, [5, 9])"
  by (simp add: hzdptr_retire_all_def HZDPTR_HTBL_SIZE_def htable_insert_def htable_lookup_def upt_rec eval_nat_numeral)

end
