(* ===== verification/Lcrq.thy ===== *)
theory Lcrq
  imports Fifo_Queue Hazard_Pointers "HOL-Library.Multiset"
begin

text \<open>
  \<^verbatim>\<open>queues::lcrq\<close> (\<^verbatim>\<open>src/boson/boson/queues/lcrq.h\<close>, \<^verbatim>\<open>src/boson/src/queues/lcrq.cc\<close>): a linked list
  of rings of \<^verbatim>\<open>RING_SIZE\<close> cells. A position counts up for ever, its low bits select the cell, and
  each cell carries the position it is for; bit 63 of a cell's position marks it unsafe, bit 63
  of a ring's tail marks the ring closed. An enqueuer that finds its ring full closes it and links
  a new one; a dequeuer that finds its ring empty moves on to the next one and retires the old
  ring through its hazard pointer.

  The operations are modelled as one thread runs them with no other in between, on 64-bit words:
  the atomic read-modify-write instructions of \<^verbatim>\<open>primitives.h\<close> are applied at once, a compare and
  swap still compares. A pointer is a number, 0 the null pointer; pointer \<open>p\<close> is the \<open>p\<close>th ring
  allocated, and a freed ring cannot be accessed any more.
\<close>

unbundle bit_operations_syntax

section \<open>Words of the cells and of the tail\<close>

definition RING_SIZE :: size_t where
  "RING_SIZE = push_bit 12 1"

definition unsafe_bit :: size_t where
  "unsafe_bit = push_bit 63 1"

definition is_empty :: "size_t \<Rightarrow> bool" where
  "is_empty v \<longleftrightarrow> v = - 1"

definition node_index :: "size_t \<Rightarrow> size_t" where
  "node_index i = i AND NOT unsafe_bit"

definition set_unsafe :: "size_t \<Rightarrow> size_t" where
  "set_unsafe i = i OR unsafe_bit"

definition node_unsafe :: "size_t \<Rightarrow> size_t" where
  "node_unsafe i = i AND unsafe_bit"

definition tail_index :: "size_t \<Rightarrow> size_t" where
  "tail_index t = t AND NOT unsafe_bit"

definition crq_is_closed :: "size_t \<Rightarrow> bool" where
  "crq_is_closed t \<longleftrightarrow> t AND unsafe_bit \<noteq> 0"

text \<open>The cell of a position: \<^verbatim>\<open>t & (RING_SIZE - 1)\<close>.\<close>

definition ring_cell :: "size_t \<Rightarrow> nat" where
  "ring_cell t = unat (t AND (RING_SIZE - 1))"

section \<open>Rings\<close>

record ring_node =
  rn_val :: size_t
  rn_idx :: size_t

record ring_queue =
  rq_head :: size_t
  rq_tail :: size_t
  rq_next :: nat
  rq_array :: "ring_node list"

definition init_ring :: ring_queue where
  "init_ring =
     \<lparr>rq_head = 0, rq_tail = 0, rq_next = 0, rq_array = map (\<lambda>i. \<lparr>rn_val = - 1, rn_idx = of_nat i\<rparr>) [0..<unat RING_SIZE]\<rparr>"

text \<open>Compare both words of a cell with what was read, and store both.\<close>

definition CAS2 :: "nat \<Rightarrow> size_t \<Rightarrow> size_t \<Rightarrow> size_t \<Rightarrow> size_t \<Rightarrow> ring_queue \<Rightarrow> ring_queue option" where
  "CAS2 c val idx val' idx' r =
     (if rq_array r ! c = \<lparr>rn_val = val, rn_idx = idx\<rparr>
      then Some (r\<lparr>rq_array := (rq_array r)[c := \<lparr>rn_val = val', rn_idx = idx'\<rparr>]\<rparr>) else None)"

text \<open>\<^verbatim>\<open>BTAS\<close> sets the bit and tells whether it was clear.\<close>

definition BTAS_tail :: "ring_queue \<Rightarrow> bool \<times> ring_queue" where
  "BTAS_tail r = (\<not> crq_is_closed (rq_tail r), r\<lparr>rq_tail := set_unsafe (rq_tail r)\<rparr>)"

definition close_crq :: "size_t \<Rightarrow> nat \<Rightarrow> ring_queue \<Rightarrow> bool \<times> ring_queue" where
  "close_crq t tries r =
     (let tt = t + 1 in
      if tries < 10 then (if rq_tail r = tt then (True, r\<lparr>rq_tail := set_unsafe tt\<rparr>) else (False, r))
      else BTAS_tail r)"

text \<open>
  One attempt of \<^verbatim>\<open>lcrq_put\<close> to store at its position \<open>t\<close>, the old tail, in an open ring: stored,
  the ring was closed, or try again.
\<close>

datatype put_outcome = Stored | Closed | Again nat

definition put_cell :: "size_t \<Rightarrow> size_t \<Rightarrow> ring_queue \<Rightarrow> ring_queue option" where
  "put_cell arg t r =
     (let c = ring_cell t; idx = rn_idx (rq_array r ! c); val = rn_val (rq_array r ! c) in
      if is_empty val \<and> node_index idx \<le> t \<and> (node_unsafe idx = 0 \<or> sint (rq_head r) < sint t)
      then CAS2 c val idx arg t r else None)"

definition put_ring :: "size_t \<Rightarrow> nat \<Rightarrow> size_t \<Rightarrow> ring_queue \<Rightarrow> put_outcome \<times> ring_queue" where
  "put_ring arg try_close t r =
     (case put_cell arg t r of
        Some r' \<Rightarrow> (Stored, r')
      | None \<Rightarrow>
          if sint (t - rq_head r) \<ge> sint RING_SIZE
          then (case close_crq t (Suc try_close) r of
                  (True, r') \<Rightarrow> (Closed, r')
                | (False, r') \<Rightarrow> (Again (Suc try_close), r'))
          else (Again try_close, r))"

text \<open>
  One turn of the inner loop of \<^verbatim>\<open>lcrq_get\<close> at position \<open>h\<close>: a value, the end of the loop, or
  another turn with the counter and the remembered tail.
\<close>

datatype cell_outcome = Got size_t | Break | Spin nat size_t

definition get_cell_turn :: "size_t \<Rightarrow> nat \<Rightarrow> size_t \<Rightarrow> ring_queue \<Rightarrow> cell_outcome \<times> ring_queue" where
  "get_cell_turn h rounds tt r =
     (let c = ring_cell h; cell_idx = rn_idx (rq_array r ! c); unsafe = node_unsafe cell_idx;
          idx = node_index cell_idx; val = rn_val (rq_array r ! c) in
      if idx > h then (Break, r)
      else if \<not> is_empty val then
        if idx = h then
          (case CAS2 c val cell_idx (- 1) ((unsafe OR h) + RING_SIZE) r of Some r' \<Rightarrow> (Got val, r') | None \<Rightarrow> (Spin rounds tt, r))
        else
          (case CAS2 c val cell_idx val (set_unsafe idx) r of Some r' \<Rightarrow> (Break, r') | None \<Rightarrow> (Spin rounds tt, r))
      else
        let tt = (if rounds mod 2 ^ 10 = 0 then rq_tail r else tt); t = tail_index tt in
        if unsafe \<noteq> 0 then
          (case CAS2 c val cell_idx val ((unsafe OR h) + RING_SIZE) r of Some r' \<Rightarrow> (Break, r') | None \<Rightarrow> (Spin rounds tt, r))
        else if t < h + 1 \<or> rounds > 200000 \<or> crq_is_closed tt then
          (case CAS2 c val idx val (h + RING_SIZE) r of
             Some r' \<Rightarrow> (Break, if rounds > 200000 \<and> tt > RING_SIZE then snd (BTAS_tail r') else r')
           | None \<Rightarrow> (Spin rounds tt, r))
        else (Spin (Suc rounds) tt, r))"

partial_function (option) get_cell :: "size_t \<Rightarrow> nat \<Rightarrow> size_t \<Rightarrow> ring_queue \<Rightarrow> (size_t option \<times> ring_queue) option" where
  "get_cell h rounds tt r =
     (case get_cell_turn h rounds tt r of (res, r') \<Rightarrow>
       (case res of Got val \<Rightarrow> Some (Some val, r') | Break \<Rightarrow> Some (None, r') | Spin n t \<Rightarrow> get_cell h n t r'))"

text \<open>The repair of a tail that the dequeuers overtook.\<close>

definition fix_state :: "ring_queue \<Rightarrow> ring_queue" where
  "fix_state r = (if rq_head r > rq_tail r then r\<lparr>rq_tail := rq_head r\<rparr> else r)"

section \<open>The queue\<close>

record lcrq_handle =
  hd_next :: nat
  hd_hzdptr :: hzdptr

text \<open>
  The members of the class and of \<^verbatim>\<open>queue_t\<close>, with the rings allocated so far and the pointers
  freed. \<open>lq_hzds\<close> is the circular list of the hazard pointers, by processor, from \<^verbatim>\<open>_tail\<close> on.
\<close>

record lcrq =
  lq_rings :: "ring_queue list"
  lq_freed :: "nat list"
  lq_head :: nat
  lq_tail :: nat
  lq_nprocs :: nat
  lq_hds :: "lcrq_handle option list"
  lq_hzds :: "nat list"

definition lcrq_new :: "nat \<Rightarrow> lcrq" where
  "lcrq_new nprocs =
     \<lparr>lq_rings = [init_ring], lq_freed = [], lq_head = 1, lq_tail = 1, lq_nprocs = nprocs,
      lq_hds = replicate (nprocs + 1) None, lq_hzds = []\<rparr>"

definition hzdptr_enlist :: "nat \<Rightarrow> nat list \<Rightarrow> nat list" where
  "hzdptr_enlist i hzds = (case hzds of [] \<Rightarrow> [i] | tail # rest \<Rightarrow> tail # i # rest)"

definition get_handle :: "nat \<Rightarrow> lcrq \<Rightarrow> lcrq option" where
  "get_handle i q =
     do { hdl \<leftarrow> vec_get (lq_hds q) i;
          Some (case hdl of
                  Some _ \<Rightarrow> q
                | None \<Rightarrow> q\<lparr>lq_hds := (lq_hds q)[i := Some \<lparr>hd_next = 0, hd_hzdptr = hzdptr_init (lq_nprocs q) 1\<rparr>],
                             lq_hzds := hzdptr_enlist i (lq_hzds q)\<rparr>) }"

text \<open>Access through a ring pointer and through the handle of a processor.\<close>

definition ring_at :: "nat \<Rightarrow> lcrq \<Rightarrow> ring_queue option" where
  "ring_at p q = (if p = 0 \<or> p \<in> set (lq_freed q) then None else vec_get (lq_rings q) (p - 1))"

definition ring_set :: "nat \<Rightarrow> ring_queue \<Rightarrow> lcrq \<Rightarrow> lcrq" where
  "ring_set p r q = q\<lparr>lq_rings := (lq_rings q)[p - 1 := r]\<rparr>"

definition handle_at :: "nat \<Rightarrow> lcrq \<Rightarrow> lcrq_handle option" where
  "handle_at i q = Option.bind (vec_get (lq_hds q) i) (\<lambda>h. h)"

definition handle_set :: "nat \<Rightarrow> lcrq_handle \<Rightarrow> lcrq \<Rightarrow> lcrq" where
  "handle_set i hdl q = q\<lparr>lq_hds := (lq_hds q)[i := Some hdl]\<rparr>"

text \<open>\<^verbatim>\<open>hzdptr_setv\<close> on a location that keeps its value.\<close>

definition protect :: "nat \<Rightarrow> nat \<Rightarrow> lcrq \<Rightarrow> (nat \<times> lcrq) option" where
  "protect i p q =
     do { hdl \<leftarrow> handle_at i q;
          (p', h) \<leftarrow> hzdptr_setv p [p] 0 (hd_hzdptr hdl);
          Some (p', handle_set i (hdl\<lparr>hd_hzdptr := h\<rparr>) q) }"

text \<open>\<^verbatim>\<open>alloc\<close>: a new ring with the value in its first cell, linked behind \<open>rq\<close>; whether it was.\<close>

definition put_alloc :: "nat \<Rightarrow> size_t \<Rightarrow> nat \<Rightarrow> lcrq \<Rightarrow> (bool \<times> lcrq) option" where
  "put_alloc i arg rq q =
     do { hdl \<leftarrow> handle_at i q;
          let (nrq, q) = (if hd_next hdl = 0 then (Suc (length (lq_rings q)), q\<lparr>lq_rings := lq_rings q @ [init_ring]\<rparr>)
                          else (hd_next hdl, q));
          n \<leftarrow> ring_at nrq q;
          let q = ring_set nrq (n\<lparr>rq_tail := 1, rq_array := (rq_array n)[0 := \<lparr>rn_val = arg, rn_idx = 0\<rparr>]\<rparr>) q;
          r \<leftarrow> ring_at rq q;
          if rq_next r = 0
          then let q = ring_set rq (r\<lparr>rq_next := nrq\<rparr>) q;
                   q = (if lq_tail q = rq then q\<lparr>lq_tail := nrq\<rparr> else q) in
               Some (True, handle_set i (hdl\<lparr>hd_next := 0\<rparr>) q)
          else Some (False, q) }"

text \<open>One turn of \<^verbatim>\<open>lcrq_put\<close>: the value is in the queue (\<open>None\<close>), or try again with the counter.\<close>

definition put_turn :: "nat \<Rightarrow> size_t \<Rightarrow> nat \<Rightarrow> lcrq \<Rightarrow> (nat option \<times> lcrq) option" where
  "put_turn i arg try_close q =
     do { (rq, q) \<leftarrow> protect i (lq_tail q) q;
          r \<leftarrow> ring_at rq q;
          if rq_next r \<noteq> 0
          then Some (Some try_close, if lq_tail q = rq then q\<lparr>lq_tail := rq_next r\<rparr> else q)
          else
            let t = rq_tail r; r = r\<lparr>rq_tail := t + 1\<rparr>;
                (res, r) = (if crq_is_closed t then (Closed, r) else put_ring arg try_close t r);
                q = ring_set rq r q in
            (case res of
               Stored \<Rightarrow> Some (None, q)
             | Again n \<Rightarrow> Some (Some n, q)
             | Closed \<Rightarrow>
                 do { (ok, q) \<leftarrow> put_alloc i arg rq q;
                      Some (if ok then None else Some (if crq_is_closed t then try_close else Suc try_close), q) }) }"

partial_function (option) lcrq_put :: "nat \<Rightarrow> size_t \<Rightarrow> nat \<Rightarrow> lcrq \<Rightarrow> lcrq option" where
  "lcrq_put i arg try_close q =
     Option.bind (put_turn i arg try_close q)
       (\<lambda>x. case x of (res, q') \<Rightarrow> (case res of None \<Rightarrow> Some q' | Some n \<Rightarrow> lcrq_put i arg n q'))"

text \<open>
  \<^verbatim>\<open>hzdptr_retire\<close> in the queue. The hash is taken of the first byte of the ring, the low byte of
  its head; the other hazard pointers are visited from the next of the list on.
\<close>

definition other_hzds :: "nat \<Rightarrow> lcrq \<Rightarrow> nat list list" where
  "other_hzds i q =
     map (\<lambda>j. case handle_at j q of Some hdl \<Rightarrow> hz_ptrs (hd_hzdptr hdl) | None \<Rightarrow> [])
       (tl (dropWhile (\<lambda>j. j \<noteq> i) (lq_hzds q)) @ takeWhile (\<lambda>j. j \<noteq> i) (lq_hzds q))"

definition ring_hash :: "(8 word \<Rightarrow> nat) \<Rightarrow> lcrq \<Rightarrow> nat \<Rightarrow> nat" where
  "ring_hash xxh32 q p = (case vec_get (lq_rings q) (p - 1) of Some r \<Rightarrow> xxh32 (ucast (rq_head r)) | None \<Rightarrow> 0)"

definition retire_ring :: "(8 word \<Rightarrow> nat) \<Rightarrow> nat \<Rightarrow> nat \<Rightarrow> lcrq \<Rightarrow> lcrq option" where
  "retire_ring xxh32 i p q =
     do { hdl \<leftarrow> handle_at i q;
          let (h, freed) = hzdptr_retire (ring_hash xxh32 q) (ring_hash xxh32 q) (other_hzds i q) p (hd_hzdptr hdl);
          Some ((handle_set i (hdl\<lparr>hd_hzdptr := h\<rparr>) q)\<lparr>lq_freed := lq_freed q @ freed\<rparr>) }"

text \<open>One turn of \<^verbatim>\<open>lcrq_get\<close>: the result, or try again (\<open>None\<close>).\<close>

definition get_turn :: "(8 word \<Rightarrow> nat) \<Rightarrow> nat \<Rightarrow> lcrq \<Rightarrow> (size_t option \<times> lcrq) option" where
  "get_turn xxh32 i q =
     do { (rq, q) \<leftarrow> protect i (lq_head q) q;
          r \<leftarrow> ring_at rq q;
          let h = rq_head r;
          (res, r) \<leftarrow> get_cell h 0 0 (r\<lparr>rq_head := h + 1\<rparr>);
          let q = ring_set rq r q;
          (case res of
             Some val \<Rightarrow> Some (Some val, q)
           | None \<Rightarrow>
               if tail_index (rq_tail r) \<le> h + 1 then
                 let r = fix_state r; q = ring_set rq r q in
                 if rq_next r = 0 then Some (Some (- 1), q)
                 else if tail_index (rq_tail r) \<le> h + 1 \<and> lq_head q = rq then
                   do { q \<leftarrow> retire_ring xxh32 i rq (q\<lparr>lq_head := rq_next r\<rparr>); Some (None, q) }
                 else Some (None, q)
               else Some (None, q)) }"

partial_function (option) lcrq_get :: "(8 word \<Rightarrow> nat) \<Rightarrow> nat \<Rightarrow> lcrq \<Rightarrow> (size_t \<times> lcrq) option" where
  "lcrq_get xxh32 i q =
     Option.bind (get_turn xxh32 i q)
       (\<lambda>x. case x of (res, q') \<Rightarrow> (case res of Some val \<Rightarrow> Some (val, q') | None \<Rightarrow> lcrq_get xxh32 i q'))"

definition lcrq_write :: "nat \<Rightarrow> size_t \<Rightarrow> lcrq \<Rightarrow> lcrq option" where
  "lcrq_write proc_id data q =
     (if proc_id < lq_nprocs q then Option.bind (get_handle proc_id q) (lcrq_put proc_id data 0) else None)"

definition lcrq_read :: "(8 word \<Rightarrow> nat) \<Rightarrow> nat \<Rightarrow> lcrq \<Rightarrow> (size_t \<times> lcrq) option" where
  "lcrq_read xxh32 proc_id q =
     (if proc_id < lq_nprocs q
      then do { q \<leftarrow> get_handle proc_id q;
                (result, q) \<leftarrow> lcrq_get xxh32 proc_id q;
                Some (if result = - 1 then 0 else result, q) }
      else None)"

section \<open>Positions and words\<close>

text \<open>The positions that the flags in bit 63 leave room for.\<close>

definition pos_ok :: "nat \<Rightarrow> bool" where
  "pos_ok p \<longleftrightarrow> p < 2 ^ 63"

definition ring_len :: nat where
  "ring_len = 2 ^ 12"

lemma pos_unat: "pos_ok p \<Longrightarrow> unat (of_nat p :: size_t) = p"
  by (simp only: pos_ok_def unsigned_of_nat take_bit_eq_mod) simp

lemma pos_less: "pos_ok p \<Longrightarrow> pos_ok k \<Longrightarrow> (of_nat p :: size_t) < of_nat k \<longleftrightarrow> p < k"
  by (simp add: word_less_nat_alt pos_unat)

lemma pos_le: "pos_ok p \<Longrightarrow> pos_ok k \<Longrightarrow> (of_nat p :: size_t) \<le> of_nat k \<longleftrightarrow> p \<le> k"
  by (simp add: word_le_nat_alt pos_unat)

lemma pos_eq: "pos_ok p \<Longrightarrow> pos_ok k \<Longrightarrow> (of_nat p :: size_t) = of_nat k \<longleftrightarrow> p = k"
  by (metis pos_unat)

lemma pos_bit: "pos_ok p \<Longrightarrow> \<not> bit (of_nat p :: size_t) 63"
proof -
  assume "pos_ok p"
  then have "take_bit 63 p = p" by (simp add: pos_ok_def take_bit_nat_eq_self)
  then have "\<not> bit p 63" by (metis bit_take_bit_iff less_irrefl)
  then show ?thesis by (simp add: bit_of_nat_iff_bit unsigned_of_nat bit_simps)
qed

lemma pos_sint: "pos_ok p \<Longrightarrow> sint (of_nat p :: size_t) = int p"
  by (simp add: pos_ok_def signed_of_nat signed_take_bit_int_eq_self)

lemma bit_unsafe_bit: "bit unsafe_bit n \<longleftrightarrow> n = 63"
  using bit_push_bit_iff [of 63 "1 :: size_t" n] bit_imp_le_length [of unsafe_bit n] by (auto simp only: unsafe_bit_def bit_1_iff) auto

lemma pos_flags:
  assumes "pos_ok p"
  shows "node_unsafe (of_nat p) = 0" "node_index (of_nat p) = of_nat p" "tail_index (of_nat p) = of_nat p"
    "\<not> crq_is_closed (of_nat p)" "tail_index (set_unsafe (of_nat p)) = of_nat p"
proof -
  have a: "of_nat p AND unsafe_bit = 0" by (rule bit_eqI) (use pos_bit [OF assms] in \<open>auto simp: bit_simps bit_unsafe_bit\<close>)
  have b: "of_nat p AND NOT unsafe_bit = of_nat p"
    by (rule bit_eqI) (use pos_bit [OF assms] in \<open>auto simp: bit_simps bit_unsafe_bit\<close>)
  have c: "(of_nat p OR unsafe_bit) AND NOT unsafe_bit = of_nat p"
    by (rule bit_eqI) (use pos_bit [OF assms] in \<open>auto simp: bit_simps bit_unsafe_bit\<close>)
  from a b c show "node_unsafe (of_nat p) = 0" "node_index (of_nat p) = of_nat p" "tail_index (of_nat p) = of_nat p"
    "\<not> crq_is_closed (of_nat p)" "tail_index (set_unsafe (of_nat p)) = of_nat p"
    by (simp_all add: node_unsafe_def node_index_def tail_index_def crq_is_closed_def set_unsafe_def)
qed

lemma set_unsafe_closed: "crq_is_closed (set_unsafe t)"
proof -
  have "bit (set_unsafe t AND unsafe_bit) 63" by (simp add: set_unsafe_def bit_simps bit_unsafe_bit)
  then show ?thesis by (auto simp: crq_is_closed_def)
qed

lemma RING_SIZE_ring_len: "RING_SIZE = of_nat ring_len"
  by (simp add: RING_SIZE_def ring_len_def push_bit_eq_mult)

lemma pos_ring_cell: "pos_ok p \<Longrightarrow> ring_cell (of_nat p) = p mod ring_len"
proof -
  assume p: "pos_ok p"
  have "RING_SIZE - 1 = mask 12" by (simp add: RING_SIZE_def push_bit_eq_mult mask_eq_exp_minus_1)
  then have "of_nat p AND (RING_SIZE - 1) = (take_bit 12 (of_nat p) :: size_t)" by (simp add: take_bit_eq_mask)
  then have "ring_cell (of_nat p) = take_bit 12 (unat (of_nat p :: size_t))"
    by (simp only: ring_cell_def unsigned_take_bit_eq)
  then show ?thesis using pos_unat [OF p] by (simp only: ring_len_def take_bit_eq_mod)
qed
lemma set_unsafe_greater: "pos_ok p \<Longrightarrow> \<not> set_unsafe t < of_nat p"
proof
  assume p: "pos_ok p" and l: "set_unsafe t < of_nat p"
  then have "pos_ok (unat (set_unsafe t))" by (simp add: word_less_nat_alt pos_unat) (simp add: pos_ok_def)
  from pos_flags(4) [OF this] set_unsafe_closed show False by simp
qed
section \<open>What a ring holds\<close>

abbreviation cell :: "ring_queue \<Rightarrow> nat \<Rightarrow> ring_node" where
  "cell r p \<equiv> rq_array r ! (p mod ring_len)"

text \<open>
  \<open>ring_holds closed h xs r\<close>: the next position to read is \<open>h\<close> and the ring holds \<open>xs\<close> from there on.
  The other cells are empty and carry a position that is not past the one they wait for; the
  tail of a closed ring counts the attempt that found it full.
\<close>

definition ring_holds :: "bool \<Rightarrow> nat \<Rightarrow> size_t list \<Rightarrow> ring_queue \<Rightarrow> bool" where
  "ring_holds closed h xs r \<longleftrightarrow>
     length (rq_array r) = ring_len \<and> length xs \<le> ring_len \<and> - 1 \<notin> set xs \<and> rq_head r = of_nat h \<and>
     rq_tail r = (if closed then set_unsafe (of_nat (Suc (h + length xs))) else of_nat (h + length xs)) \<and>
     (\<forall>j < length xs. cell r (h + j) = \<lparr>rn_val = xs ! j, rn_idx = of_nat (h + j)\<rparr>) \<and>
     (\<forall>p. h + length xs \<le> p \<and> p < h + ring_len \<longrightarrow> (\<exists>i \<le> p. cell r p = \<lparr>rn_val = - 1, rn_idx = of_nat i\<rparr>))"

lemma ring_len_pos [simp]: "0 < ring_len"
  by (simp add: ring_len_def)

lemma mod_window:
  "h \<le> p \<Longrightarrow> p < h + ring_len \<Longrightarrow> h \<le> k \<Longrightarrow> k < h + ring_len \<Longrightarrow> p mod ring_len = k mod ring_len \<longleftrightarrow> p = k"
  using mod_neq [of p k ring_len] mod_neq [of k p ring_len] by (cases p k rule: linorder_cases) (auto simp: less_diff_conv2)

lemma ring_holds_cell:
  "ring_holds closed h xs r \<Longrightarrow> j < length xs \<Longrightarrow> cell r (h + j) = \<lparr>rn_val = xs ! j, rn_idx = of_nat (h + j)\<rparr>"
  by (simp add: ring_holds_def)

lemma pos_ok_mono: "pos_ok p \<Longrightarrow> k \<le> p \<Longrightarrow> pos_ok k"
  by (simp add: pos_ok_def)

lemma ring_holds_init: "ring_holds False 0 [] init_ring"
proof -
  have "unat RING_SIZE = ring_len" by (simp add: RING_SIZE_ring_len pos_unat pos_ok_def ring_len_def)
  then show ?thesis by (auto simp: ring_holds_def init_ring_def)
qed

lemma put_ring_room:
  assumes r: "ring_holds False h xs r" and room: "length xs < ring_len" and arg: "arg \<noteq> - 1"
    and pos: "pos_ok (h + length xs)"
  obtains r' where "put_ring arg k (rq_tail r) (r\<lparr>rq_tail := rq_tail r + 1\<rparr>) = (Stored, r')"
    and "ring_holds False h (xs @ [arg]) r'" and "rq_next r' = rq_next r"
proof -
  define t where "t = h + length xs"
  define r' where "r' = r\<lparr>rq_tail := of_nat (Suc t), rq_array := (rq_array r)[t mod ring_len := \<lparr>rn_val = arg, rn_idx = of_nat t\<rparr>]\<rparr>"
  have t: "rq_tail r = of_nat t" "pos_ok t" "length (rq_array r) = ring_len" using r pos by (auto simp: ring_holds_def t_def)
  obtain i where i: "i \<le> t" "cell r t = \<lparr>rn_val = - 1, rn_idx = of_nat i\<rparr>"
    using r room by (auto simp: ring_holds_def t_def)
  have "put_ring arg k (rq_tail r) (r\<lparr>rq_tail := rq_tail r + 1\<rparr>) = (Stored, r')"
    using t i pos_ok_mono [OF t(2) i(1)]
    by (simp add: put_ring_def put_cell_def CAS2_def is_empty_def pos_flags pos_le pos_ring_cell Let_def r'_def add.commute)
  moreover have "ring_holds False h (xs @ [arg]) r'"
  proof -
    have "cell r' (h + j) = \<lparr>rn_val = (xs @ [arg]) ! j, rn_idx = of_nat (h + j)\<rparr>" if "j < length (xs @ [arg])" for j
      using r room that t(3) mod_window [of h t "h + j"] by (auto simp: r'_def nth_list_update ring_holds_def t_def nth_append)
    moreover have "\<exists>i\<le>p. cell r' p = \<lparr>rn_val = - 1, rn_idx = of_nat i\<rparr>" if "Suc t \<le> p" "p < h + ring_len" for p
      using r that t(3) mod_window [of h t p] by (auto simp: r'_def nth_list_update ring_holds_def t_def)
    ultimately show ?thesis using r arg room by (auto simp: ring_holds_def r'_def t_def)
  qed
  moreover have "rq_next r' = rq_next r" by (simp add: r'_def)
  ultimately show thesis by (rule that)
qed

lemma put_ring_full:
  assumes r: "ring_holds False h xs r" and full: "length xs = ring_len" and k: "k < 9"
    and pos: "pos_ok (h + length xs)"
  obtains r' where "put_ring arg k (rq_tail r) (r\<lparr>rq_tail := rq_tail r + 1\<rparr>) = (Closed, r')"
    and "ring_holds True h xs r'" and "rq_next r' = rq_next r"
proof -
  define t where "t = h + length xs"
  define r' where "r' = r\<lparr>rq_tail := set_unsafe (of_nat (Suc t))\<rparr>"
  have t: "rq_tail r = of_nat t" "pos_ok t" "rq_head r = of_nat h" using r pos by (auto simp: ring_holds_def t_def)
  have "cell r t = cell r (h + 0)" by (simp add: t_def full)
  also have "\<dots> = \<lparr>rn_val = xs ! 0, rn_idx = of_nat (h + 0)\<rparr>" using full by (intro ring_holds_cell [OF r]) simp
  finally have "rn_val (cell r t) = xs ! 0" by simp
  moreover have "xs ! 0 \<in> set xs" using full by simp
  ultimately have c: "rn_val (cell r t) \<noteq> - 1" using r by (auto simp: ring_holds_def)
  have "(of_nat t :: size_t) - of_nat h = RING_SIZE" by (simp add: t_def full RING_SIZE_ring_len)
  with t c k have "put_ring arg k (rq_tail r) (r\<lparr>rq_tail := rq_tail r + 1\<rparr>) = (Closed, r')"
    by (simp add: put_ring_def put_cell_def is_empty_def pos_ring_cell Let_def r'_def close_crq_def add.commute)
  moreover have "ring_holds True h xs r'" using r by (simp add: ring_holds_def r'_def t_def)
  moreover have "rq_next r' = rq_next r" by (simp add: r'_def)
  ultimately show thesis by (rule that)
qed

lemma get_cell_ends:
  "get_cell_turn h rounds tt r = (Got val, r') \<Longrightarrow> get_cell h rounds tt r = Some (Some val, r')"
  "get_cell_turn h rounds tt r = (Break, r') \<Longrightarrow> get_cell h rounds tt r = Some (None, r')"
  by (subst get_cell.simps; simp)+

lemma get_cell_some:
  assumes r: "ring_holds b h (x # xs) r" and pos: "pos_ok (h + ring_len)"
  obtains r' where "get_cell (rq_head r) 0 0 (r\<lparr>rq_head := rq_head r + 1\<rparr>) = Some (Some x, r')"
    and "ring_holds b (Suc h) xs r'" and "rq_next r' = rq_next r"
proof -
  define r' where "r' = r\<lparr>rq_head := of_nat (Suc h), rq_array := (rq_array r)[h mod ring_len := \<lparr>rn_val = - 1, rn_idx = of_nat (h + ring_len)\<rparr>]\<rparr>"
  have t: "rq_head r = of_nat h" "pos_ok h" "length (rq_array r) = ring_len" "x \<noteq> - 1"
    using r pos pos_ok_mono [OF pos] by (auto simp: ring_holds_def)
  have "cell r (h + 0) = \<lparr>rn_val = (x # xs) ! 0, rn_idx = of_nat (h + 0)\<rparr>" by (rule ring_holds_cell [OF r]) simp
  then have "get_cell_turn (rq_head r) 0 0 (r\<lparr>rq_head := rq_head r + 1\<rparr>) = (Got x, r')"
    using t by (simp add: get_cell_turn_def CAS2_def is_empty_def pos_flags pos_ring_cell Let_def r'_def RING_SIZE_ring_len add.commute)
  note get_cell_ends(1) [OF this]
  moreover have "ring_holds b (Suc h) xs r'"
  proof -
    have "cell r' (Suc h + j) = \<lparr>rn_val = xs ! j, rn_idx = of_nat (Suc h + j)\<rparr>" if "j < length xs" for j
    proof -
      have "cell r (h + Suc j) = \<lparr>rn_val = (x # xs) ! Suc j, rn_idx = of_nat (h + Suc j)\<rparr>"
        using that by (intro ring_holds_cell [OF r]) simp
      then show ?thesis using r that t(3) mod_window [of h h "h + Suc j"] by (auto simp: r'_def nth_list_update ring_holds_def)
    qed
    moreover have "\<exists>i\<le>p. cell r' p = \<lparr>rn_val = - 1, rn_idx = of_nat i\<rparr>" if "Suc h + length xs \<le> p" "p < Suc h + ring_len" for p
    proof (cases "p = h + ring_len")
      case True
      then show ?thesis using t(3) by (auto simp: r'_def)
    next
      case False
      then show ?thesis using r that t(3) mod_window [of h h p] by (auto simp: r'_def nth_list_update ring_holds_def)
    qed
    ultimately show ?thesis using r by (auto simp: ring_holds_def r'_def)
  qed
  moreover have "rq_next r' = rq_next r" by (simp add: r'_def)
  ultimately show thesis by (rule that)
qed

text \<open>The first step of a read that finds the ring empty, open or closed.\<close>

lemma get_cell_none:
  assumes r: "ring_holds b h [] r" and pos: "pos_ok (h + ring_len)"
  shows "get_cell (rq_head r) 0 0 (r\<lparr>rq_head := rq_head r + 1\<rparr>) =
    Some (None, r\<lparr>rq_head := of_nat (Suc h),
      rq_array := (rq_array r)[h mod ring_len := \<lparr>rn_val = - 1, rn_idx = of_nat (h + ring_len)\<rparr>]\<rparr>)"
proof -
  have t: "rq_head r = of_nat h" "pos_ok h" "pos_ok (Suc h)"
    using r pos pos_ok_mono [OF pos] by (auto simp: ring_holds_def Suc_le_eq)
  have tail: "tail_index (rq_tail r) < of_nat h + 1 \<or> crq_is_closed (rq_tail r)"
    using r t pos_less [of h "Suc h"] by (cases b) (auto simp: ring_holds_def pos_flags set_unsafe_closed add.commute)
  obtain i where i: "i \<le> h" "cell r h = \<lparr>rn_val = - 1, rn_idx = of_nat i\<rparr>"
    using r by (auto simp: ring_holds_def)
  then have "get_cell_turn (rq_head r) 0 0 (r\<lparr>rq_head := rq_head r + 1\<rparr>) = (Break, r\<lparr>rq_head := of_nat (Suc h),
      rq_array := (rq_array r)[h mod ring_len := \<lparr>rn_val = - 1, rn_idx = of_nat (h + ring_len)\<rparr>]\<rparr>)"
    using t tail pos_ok_mono [OF t(2) i(1)] pos_less [of h i]
    by (simp add: get_cell_turn_def CAS2_def is_empty_def pos_flags pos_ring_cell Let_def RING_SIZE_ring_len add.commute)
  then show ?thesis by (rule get_cell_ends(2))
qed

section \<open>Giving up on a position\<close>

lemma node_index_safe: "node_unsafe i = 0 \<Longrightarrow> node_index i = i"
proof (rule bit_eqI)
  fix n assume "node_unsafe i = 0"
  then have "\<not> bit (node_unsafe i) n" by simp
  then show "bit (node_index i) n = bit i n"
    by (auto simp: node_index_def node_unsafe_def bit_simps bit_unsafe_bit dest: bit_imp_le_length)
qed

lemma node_unsafe_cases: "node_unsafe i \<noteq> 0 \<Longrightarrow> node_unsafe i = unsafe_bit"
proof -
  assume "node_unsafe i \<noteq> 0"
  moreover have "node_unsafe i = 0" if "\<not> bit i 63"
    by (rule bit_eqI) (use that in \<open>auto simp: node_unsafe_def bit_simps bit_unsafe_bit\<close>)
  ultimately have "bit i 63" by blast
  then show ?thesis by (intro bit_eqI) (auto simp: node_unsafe_def bit_simps bit_unsafe_bit)
qed

lemma unsafe_add:
  assumes "pos_ok (p + ring_len)"
  shows "node_index ((unsafe_bit OR of_nat p) + RING_SIZE) = of_nat (p + ring_len)"
proof -
  have p: "pos_ok p" using pos_ok_mono [OF assms] by simp
  have or_add: "unsafe_bit OR of_nat k = unsafe_bit + of_nat k" if "pos_ok k" for k
    by (rule disjunctive_add_eq_or [symmetric])
      (use pos_flags(1) [OF that] in \<open>simp add: node_unsafe_def ac_simps\<close>)
  have "(unsafe_bit OR of_nat p) + RING_SIZE = set_unsafe (of_nat (p + ring_len))"
    using or_add [OF p] or_add [OF assms] by (simp add: set_unsafe_def RING_SIZE_ring_len ac_simps)
  then show ?thesis using pos_flags(5) [OF assms] by (simp add: node_index_def tail_index_def)
qed

lemma CAS2_fresh: "CAS2 c (rn_val (rq_array r ! c)) (rn_idx (rq_array r ! c)) v i r =
    Some (r\<lparr>rq_array := (rq_array r)[c := \<lparr>rn_val = v, rn_idx = i\<rparr>]\<rparr>)"
  by (simp add: CAS2_def)

lemma get_cell_turn_spin:
  assumes "get_cell_turn h rounds tt r = (Spin n t, r')"
  shows "n = Suc rounds \<and> rounds \<le> 200000 \<and> r' = r"
  using assms by (auto simp: get_cell_turn_def Let_def node_index_safe CAS2_fresh split: if_splits)

text \<open>A cell that no enqueuer at position \<open>p\<close> accepts any more.\<close>

definition spoiled :: "nat \<Rightarrow> ring_queue \<Rightarrow> bool" where
  "spoiled p r \<longleftrightarrow> \<not> is_empty (rn_val (cell r p)) \<or> of_nat p < node_index (rn_idx (cell r p))"

lemma get_cell_turn_break_cell:
  assumes "get_cell_turn h rounds tt r = (Break, r')"
  shows "h < node_index (rn_idx (rq_array r ! ring_cell h)) \<and> r' = r \<or>
    \<not> is_empty (rn_val (rq_array r ! ring_cell h)) \<and>
      rq_array r' = (rq_array r)[ring_cell h := \<lparr>rn_val = rn_val (rq_array r ! ring_cell h), rn_idx = set_unsafe (node_index (rn_idx (rq_array r ! ring_cell h)))\<rparr>] \<or>
    rq_array r' = (rq_array r)[ring_cell h := \<lparr>rn_val = rn_val (rq_array r ! ring_cell h), rn_idx = h + RING_SIZE\<rparr>] \<or>
    rq_array r' = (rq_array r)[ring_cell h := \<lparr>rn_val = rn_val (rq_array r ! ring_cell h), rn_idx = (unsafe_bit OR h) + RING_SIZE\<rparr>]"
  using assms by (auto simp: get_cell_turn_def Let_def node_index_safe CAS2_fresh BTAS_tail_def node_unsafe_cases split: if_splits)

lemma get_cell_turn_break:
  assumes pos: "pos_ok (p + ring_len)" and len: "length (rq_array r) = ring_len"
    and turn: "get_cell_turn (of_nat p) rounds tt r = (Break, r')"
  shows "spoiled p r'"
proof -
  have p: "pos_ok p" using pos_ok_mono [OF pos] by simp
  have less: "(of_nat p :: size_t) < of_nat (p + ring_len)" using pos_less [OF p pos] by simp
  have n: "node_index (of_nat p + RING_SIZE) = of_nat (p + ring_len)"
    using pos_flags(2) [OF pos] by (simp add: RING_SIZE_ring_len)
  from get_cell_turn_break_cell [OF turn] show ?thesis
    unfolding pos_ring_cell [OF p] spoiled_def using len less unsafe_add [OF pos] n by auto
qed

lemma get_cell_total:
  assumes "pos_ok (p + ring_len)" and "length (rq_array r) = ring_len"
  shows "\<exists>res r'. get_cell (of_nat p) rounds tt r = Some (res, r') \<and> (res = None \<longrightarrow> spoiled p r')"
proof (induction "200001 - rounds" arbitrary: rounds tt rule: less_induct)
  case less
  obtain res r' where turn: "get_cell_turn (of_nat p) rounds tt r = (res, r')" by fastforce
  show ?case
  proof (cases res)
    case (Spin n t)
    with turn get_cell_turn_spin have n: "n = Suc rounds" "rounds \<le> 200000" "r' = r" by blast+
    then have "get_cell (of_nat p) rounds tt r = get_cell (of_nat p) n t r"
      using turn Spin by (subst get_cell.simps) simp
    with less [of n t] n show ?thesis by simp
  next
    case Break
    with turn get_cell_turn_break [OF assms] show ?thesis by (auto simp: get_cell_ends)
  qed (use turn in \<open>auto simp: get_cell_ends\<close>)
qed

text \<open>
  A dequeuer never waits for ever, and what it gives up on is lost to nobody. Whatever
  is in the ring, the loop of \<^verbatim>\<open>lcrq_get\<close> over the cell of its position ends, also when an enqueuer
  has taken the position and does not store; and if it ends without a value, the cell refuses
  an enqueuer that comes late to this position, so the enqueuer goes on to another
  position and no value is left behind the head.
\<close>

theorem abandoned_position_refuses:
  assumes "p + 2 ^ 12 < 2 ^ 63" and "length (rq_array r) = 2 ^ 12"
  shows "\<exists>res r'. get_cell (of_nat p) 0 0 r = Some (res, r') \<and> (res = None \<longrightarrow> put_cell arg (of_nat p) r' = None)"
proof -
  have pos: "pos_ok (p + ring_len)" "length (rq_array r) = ring_len" using assms by (simp_all add: pos_ok_def ring_len_def)
  then have p: "ring_cell (of_nat p) = p mod ring_len" using pos_ok_mono [OF pos(1), of p] pos_ring_cell by simp
  have "put_cell arg (of_nat p) r' = None" if "spoiled p r'" for r'
    using that p by (auto simp: spoiled_def put_cell_def Let_def)
  with get_cell_total [OF pos, of 0 0] show ?thesis by blast
qed

theorem abandoned_position_refuses_witness:
  "length (rq_array (init_ring\<lparr>rq_tail := 1\<rparr>)) = 2 ^ 12 \<and>
   (\<exists>res r'. get_cell (of_nat 0) 0 0 (init_ring\<lparr>rq_tail := 1\<rparr>) = Some (res, r') \<and>
      (case res of None \<Rightarrow> put_cell 5 (of_nat 0) r' = None | Some _ \<Rightarrow> True))"
proof -
  have "length (rq_array (init_ring\<lparr>rq_tail := 1\<rparr>)) = 2 ^ 12" using ring_holds_init by (simp add: ring_holds_def ring_len_def)
  with abandoned_position_refuses [of 0 "init_ring\<lparr>rq_tail := 1\<rparr>" 5] show ?thesis by (fastforce split: option.splits)
qed

end
