(* ===== verification/Lcrq_Queue.thy ===== *)
theory Lcrq_Queue
  imports Lcrq
begin

text \<open>
  The correctness of \<^verbatim>\<open>queues::lcrq\<close>: what the linked rings hold together, the rings that were
  unlinked, and the proof that writes and reads are those of a queue.
\<close>

section \<open>Retired and freed rings\<close>

definition retired_by :: "lcrq_handle option \<Rightarrow> nat multiset" where
  "retired_by hdl = (case hdl of Some h \<Rightarrow> mset (hz_retired (hd_hzdptr h)) | None \<Rightarrow> {#})"

text \<open>The first \<open>a\<close> rings were unlinked: each of them is retired in one handle or freed, once.\<close>

definition mem_ok :: "nat \<Rightarrow> lcrq \<Rightarrow> bool" where
  "mem_ok a q \<longleftrightarrow> length (lq_hds q) = Suc (lq_nprocs q) \<and>
     (\<forall>hdl. Some hdl \<in> set (lq_hds q) \<longrightarrow> hd_next hdl = 0) \<and>
     (\<Sum>hdl\<in>#mset (lq_hds q). retired_by hdl) + mset (lq_freed q) = mset [1..<Suc a]"

lemma mem_ok_cong:
  "lq_hds q' = lq_hds q \<Longrightarrow> lq_nprocs q' = lq_nprocs q \<Longrightarrow> lq_freed q' = lq_freed q \<Longrightarrow> mem_ok a q' = mem_ok a q"
  by (simp add: mem_ok_def)

lemma mem_ok_freed: "mem_ok a q \<Longrightarrow> p \<in> set (lq_freed q) \<Longrightarrow> p \<le> a"
proof -
  assume "mem_ok a q" and "p \<in> set (lq_freed q)"
  then have "p \<in># mset [1..<Suc a]" unfolding mem_ok_def by (metis set_mset_mset union_iff)
  then show "p \<le> a" by auto
qed

lemma sum_retired_update:
  assumes "i < length hds"
  shows "(\<Sum>hdl\<in>#mset (hds[i := x]). retired_by hdl) + retired_by (hds ! i) =
    (\<Sum>hdl\<in>#mset hds. retired_by hdl) + retired_by x"
proof -
  have "mset hds = add_mset (hds ! i) (mset hds - {#hds ! i#})" using assms by simp
  then have "(\<Sum>hdl\<in>#mset hds. retired_by hdl) = retired_by (hds ! i) + (\<Sum>hdl\<in>#mset hds - {#hds ! i#}. retired_by hdl)"
    by (metis image_mset_add_mset sum_mset.insert)
  with assms show ?thesis by (simp add: mset_update)
qed

lemma mset_exchange: "A + R = B + R' \<Longrightarrow> R' + F = R + M \<Longrightarrow> A + F = B + (M :: 'a multiset)"
proof (rule multiset_eqI)
  fix x assume "A + R = B + R'" and "R' + F = R + M"
  then have "count (A + R) x = count (B + R') x" and "count (R' + F) x = count (R + M) x" by simp_all
  then show "count (A + F) x = count (B + M) x" by simp
qed

lemma handle_at_iff: "handle_at i q = Some hdl \<longleftrightarrow> i < length (lq_hds q) \<and> lq_hds q ! i = Some hdl"
  by (auto simp: handle_at_def vec_get_def)

lemma mem_ok_handle:
  assumes q: "mem_ok a q" and i: "handle_at i q = Some hdl" and n: "hd_next hdl' = 0"
    and r: "mset (hz_retired (hd_hzdptr hdl')) + mset fr = mset (hz_retired (hd_hzdptr hdl)) + M"
    and a: "mset [1..<Suc a'] = mset [1..<Suc a] + M"
    and q': "lq_hds q' = (lq_hds q)[i := Some hdl']" "lq_nprocs q' = lq_nprocs q" "lq_freed q' = lq_freed q @ fr"
  shows "mem_ok a' q'"
proof -
  let ?S = "\<lambda>hds. \<Sum>hdl\<in>#mset hds. retired_by hdl"
  from i have i': "i < length (lq_hds q)" "lq_hds q ! i = Some hdl" by (simp_all add: handle_at_iff)
  from sum_retired_update [OF i'(1), of "Some hdl'"] i'(2)
  have "?S (lq_hds q') + mset (hz_retired (hd_hzdptr hdl)) = ?S (lq_hds q) + mset (hz_retired (hd_hzdptr hdl'))"
    by (simp add: q' retired_by_def)
  note mset_exchange [OF this r]
  then have sum: "?S (lq_hds q') + mset (lq_freed q') = (?S (lq_hds q) + mset (lq_freed q)) + M"
    by (simp add: q' ac_simps)
  have "hd_next h = 0" if "Some h \<in> set (lq_hds q')" for h
    using that q n set_update_subset_insert [of "lq_hds q" i "Some hdl'"] by (auto simp: q' mem_ok_def)
  then show ?thesis using q a sum by (simp add: mem_ok_def q')
qed

lemma get_handle_ok:
  assumes q: "mem_ok a q" and i: "i \<le> lq_nprocs q"
  obtains q' hdl where "get_handle i q = Some q'" and "handle_at i q' = Some hdl" and "mem_ok a q'"
    and "lq_rings q' = lq_rings q" and "lq_head q' = lq_head q" and "lq_tail q' = lq_tail q" and "lq_nprocs q' = lq_nprocs q"
proof (cases "lq_hds q ! i")
  case (Some hdl)
  with q i that [of q hdl] show thesis by (simp add: get_handle_def handle_at_iff mem_ok_def)
next
  case None
  let ?h = "\<lparr>hd_next = 0, hd_hzdptr = hzdptr_init (lq_nprocs q) 1\<rparr>"
  let ?q = "q\<lparr>lq_hds := (lq_hds q)[i := Some ?h], lq_hzds := hzdptr_enlist i (lq_hzds q)\<rparr>"
  have i': "i < length (lq_hds q)" using q i by (simp add: mem_ok_def)
  have "retired_by (Some ?h) = {#}" "retired_by (lq_hds q ! i) = {#}" by (simp_all add: retired_by_def hzdptr_init_def None)
  with sum_retired_update [OF i', of "Some ?h"]
  have "(\<Sum>hdl\<in>#mset (lq_hds ?q). retired_by hdl) = (\<Sum>hdl\<in>#mset (lq_hds q). retired_by hdl)" by simp
  moreover have "hd_next h = 0" if "Some h \<in> set (lq_hds ?q)" for h
    using that q set_update_subset_insert [of "lq_hds q" i "Some ?h"] by (auto simp: mem_ok_def)
  ultimately have "mem_ok a ?q" using q by (simp add: mem_ok_def)
  moreover have "get_handle i q = Some ?q" using i' None by (simp add: get_handle_def)
  moreover have "handle_at i ?q = Some ?h" using i' by (simp add: handle_at_iff)
  ultimately show thesis using that [of ?q ?h] by simp
qed

lemma protect_ok:
  assumes q: "mem_ok a q" and i: "handle_at i q = Some hdl"
  obtains q' hdl' where "protect i p q = Some (p, q')" and "handle_at i q' = Some hdl'" and "mem_ok a q'"
    and "lq_rings q' = lq_rings q" and "lq_head q' = lq_head q" and "lq_tail q' = lq_tail q" and "lq_nprocs q' = lq_nprocs q"
proof -
  let ?h = "hdl\<lparr>hd_hzdptr := hzdptr_set p 0 (hd_hzdptr hdl)\<rparr>"
  let ?q = "handle_set i ?h q"
  have "hd_next hdl = 0" using q i by (metis handle_at_iff mem_ok_def nth_mem)
  with mem_ok_handle [OF q i, of ?h "[]" "{#}" a ?q] have "mem_ok a ?q" by (simp add: handle_set_def hzdptr_set_def)
  moreover have "protect i p q = Some (p, ?q)" using i by (simp add: protect_def Let_def)
  moreover have "handle_at i ?q = Some ?h" using i by (simp add: handle_at_iff handle_set_def)
  ultimately show thesis using that [of ?q ?h] by (simp add: handle_set_def)
qed

lemma hzdptr_retire_mset:
  assumes "hzdptr_retire hash hash' others p h = (h', fr)"
  shows "mset (hz_retired h') + mset fr = mset (hz_retired h) + {#p#}"
proof -
  have "mset (filter P xs) + mset (filter (\<lambda>x. \<not> P x) xs) = mset xs" for P and xs :: "nat list"
    by (induction xs) auto
  then show ?thesis using assms
    by (auto simp: hzdptr_retire_def hzdptr_retire_all_def retire_scan_filter Let_def split: if_splits)
qed

lemma retire_ring_ok:
  assumes q: "mem_ok a q" and i: "handle_at i q = Some hdl"
  obtains q' hdl' where "retire_ring xxh32 i (Suc a) q = Some q'" and "handle_at i q' = Some hdl'" and "mem_ok (Suc a) q'"
    and "lq_rings q' = lq_rings q" and "lq_head q' = lq_head q" and "lq_tail q' = lq_tail q" and "lq_nprocs q' = lq_nprocs q"
proof -
  obtain h fr where h: "hzdptr_retire (ring_hash xxh32 q) (ring_hash xxh32 q) (other_hzds i q) (Suc a) (hd_hzdptr hdl) = (h, fr)"
    by fastforce
  let ?h = "hdl\<lparr>hd_hzdptr := h\<rparr>"
  let ?q = "(handle_set i ?h q)\<lparr>lq_freed := lq_freed q @ fr\<rparr>"
  have "hd_next hdl = 0" using q i by (metis handle_at_iff mem_ok_def nth_mem)
  with mem_ok_handle [OF q i, of ?h fr "{#Suc a#}" "Suc a" ?q] hzdptr_retire_mset [OF h]
  have "mem_ok (Suc a) ?q" by (simp add: handle_set_def)
  moreover have "retire_ring xxh32 i (Suc a) q = Some ?q" using i h by (simp add: retire_ring_def)
  moreover have "handle_at i ?q = Some ?h" using i by (simp add: handle_at_iff handle_set_def)
  ultimately show thesis using that [of ?q ?h] by (simp add: handle_set_def)
qed

section \<open>What the queue holds\<close>

text \<open>
  The rings from pointer \<open>p\<close> on that are closed, each linked to the next, and their elements; no
  position of them is past \<open>n\<close>.
\<close>

fun closed_rings :: "nat \<Rightarrow> nat \<Rightarrow> ring_queue list \<Rightarrow> size_t list \<Rightarrow> bool" where
  "closed_rings n p [] zs \<longleftrightarrow> zs = []"
| "closed_rings n p (m # ms) zs \<longleftrightarrow>
     (\<exists>h ys zs'. zs = ys @ zs' \<and> rq_next m = Suc p \<and> ring_holds True h ys m \<and> h + length ys \<le> n \<and> closed_rings n (Suc p) ms zs')"

definition lcrq_parts :: "lcrq \<Rightarrow> nat \<Rightarrow> ring_queue list \<Rightarrow> ring_queue list \<Rightarrow> ring_queue \<Rightarrow> size_t list \<Rightarrow> nat \<Rightarrow> size_t list \<Rightarrow> bool" where
  "lcrq_parts q n pre mid l zs h ys \<longleftrightarrow>
     lq_rings q = pre @ mid @ [l] \<and> lq_head q = Suc (length pre) \<and> lq_tail q = length (lq_rings q) \<and>
     closed_rings n (Suc (length pre)) mid zs \<and> rq_next l = 0 \<and> ring_holds False h ys l \<and> h + length ys \<le> n \<and>
     mem_ok (length pre) q"

definition lcrq_rep :: "nat \<Rightarrow> lcrq \<Rightarrow> nat \<Rightarrow> size_t list \<Rightarrow> bool" where
  "lcrq_rep nprocs q n xs \<longleftrightarrow> lq_nprocs q = nprocs \<and> (\<exists>pre mid l zs h ys. lcrq_parts q n pre mid l zs h ys \<and> xs = zs @ ys)"

definition lcrq_within :: "nat \<Rightarrow> bool" where
  "lcrq_within n \<longleftrightarrow> pos_ok (n + ring_len)"

lemma closed_rings_mono: "closed_rings n p ms zs \<Longrightarrow> n \<le> k \<Longrightarrow> closed_rings k p ms zs"
proof (induction ms arbitrary: p zs)
  case (Cons m ms)
  from Cons.prems(1) obtain h ys zs' where m: "zs = ys @ zs'" "rq_next m = Suc p" "ring_holds True h ys m"
    "h + length ys \<le> n" "closed_rings n (Suc p) ms zs'" by auto
  moreover have "h + length ys \<le> k" using m(4) Cons.prems(2) by simp
  ultimately show ?case using Cons.IH [OF m(5) Cons.prems(2)] by auto
qed simp

lemma closed_rings_snoc:
  "closed_rings n p ms zs \<Longrightarrow> rq_next m = Suc (p + length ms) \<Longrightarrow> ring_holds True h ys m \<Longrightarrow> h + length ys \<le> n \<Longrightarrow>
   closed_rings n p (ms @ [m]) (zs @ ys)"
proof (induction ms arbitrary: p zs)
  case (Cons m' ms)
  from Cons.prems(1) obtain h' ys' zs' where m': "zs = ys' @ zs'" "rq_next m' = Suc p" "ring_holds True h' ys' m'"
    "h' + length ys' \<le> n" "closed_rings n (Suc p) ms zs'" by auto
  with Cons.IH [OF m'(5)] Cons.prems show ?case by auto
qed auto

lemma ring_at_append:
  assumes "mem_ok a q" and "lq_rings q = as @ r # bs" and "a \<le> length as"
  shows "ring_at (Suc (length as)) q = Some r"
  using assms mem_ok_freed [OF assms(1), of "Suc (length as)"] by (auto simp: ring_at_def)

lemma ring_set_append:
  "lq_rings q = as @ r # bs \<Longrightarrow> lq_rings (ring_set (Suc (length as)) r' q) = as @ r' # bs"
  by (simp add: ring_set_def)

lemma ring_set_access [simp]:
  "lq_hds (ring_set p r q) = lq_hds q" "lq_freed (ring_set p r q) = lq_freed q" "lq_head (ring_set p r q) = lq_head q"
  "lq_tail (ring_set p r q) = lq_tail q" "lq_nprocs (ring_set p r q) = lq_nprocs q" "mem_ok a (ring_set p r q) = mem_ok a q"
  "handle_at i (ring_set p r q) = handle_at i q"
  by (simp_all add: ring_set_def mem_ok_def handle_at_def)

lemma mem_ok_links [simp]:
  "mem_ok a (q\<lparr>lq_rings := rs\<rparr>) = mem_ok a q" "mem_ok a (q\<lparr>lq_tail := t\<rparr>) = mem_ok a q" "mem_ok a (q\<lparr>lq_head := t\<rparr>) = mem_ok a q"
  "handle_at i (q\<lparr>lq_rings := rs\<rparr>) = handle_at i q" "handle_at i (q\<lparr>lq_tail := t\<rparr>) = handle_at i q" "handle_at i (q\<lparr>lq_head := t\<rparr>) = handle_at i q"
  by (simp_all add: mem_ok_def handle_at_def)

lemma put_turn_step:
  assumes q: "mem_ok a q" and i: "handle_at i q = Some hdl" and rs: "lq_rings q = ms @ [l]" "lq_tail q = Suc (length ms)" "a \<le> length ms"
    and l: "rq_next l = 0" "\<not> crq_is_closed (rq_tail l)" "put_ring arg k (rq_tail l) (l\<lparr>rq_tail := rq_tail l + 1\<rparr>) = (res, l')"
  obtains q' hdl' where "put_turn i arg k q = (case res of
      Stored \<Rightarrow> Some (None, q') | Again n \<Rightarrow> Some (Some n, q')
    | Closed \<Rightarrow> do { (ok, q) \<leftarrow> put_alloc i arg (Suc (length ms)) q'; Some (if ok then None else Some (Suc k), q) })"
    and "handle_at i q' = Some hdl'" and "mem_ok a q'" and "lq_rings q' = ms @ [l']"
    and "lq_head q' = lq_head q" and "lq_tail q' = lq_tail q" and "lq_nprocs q' = lq_nprocs q"
proof -
  obtain q1 hdl' where q1: "protect i (lq_tail q) q = Some (lq_tail q, q1)" "handle_at i q1 = Some hdl'" "mem_ok a q1"
    "lq_rings q1 = lq_rings q" "lq_head q1 = lq_head q" "lq_tail q1 = lq_tail q" "lq_nprocs q1 = lq_nprocs q"
    using protect_ok [OF q i] by blast
  let ?q = "ring_set (Suc (length ms)) l' q1"
  have "ring_at (lq_tail q) q1 = Some l" using ring_at_append [OF q1(3), of ms l "[]"] q1 rs by simp
  then have "put_turn i arg k q = (case res of
      Stored \<Rightarrow> Some (None, ?q) | Again n \<Rightarrow> Some (Some n, ?q)
    | Closed \<Rightarrow> do { (ok, q) \<leftarrow> put_alloc i arg (Suc (length ms)) ?q; Some (if ok then None else Some (Suc k), q) })"
    using q1 rs l by (auto simp: put_turn_def Let_def split: put_outcome.splits)
  then show thesis using that [of ?q hdl'] q1 rs ring_set_append [of q1 ms l "[]" l'] by simp
qed

lemma put_alloc_ok:
  assumes q: "mem_ok a q" and i: "handle_at i q = Some hdl" and rs: "lq_rings q = ms @ [l]" "lq_tail q = Suc (length ms)" "a \<le> length ms"
    and l: "rq_next l = 0"
  obtains q' nrq where "put_alloc i arg (Suc (length ms)) q = Some (True, q')" and "mem_ok a q'"
    and "lq_rings q' = ms @ [l\<lparr>rq_next := Suc (Suc (length ms))\<rparr>, nrq]"
    and "nrq = init_ring\<lparr>rq_tail := 1, rq_array := (rq_array init_ring)[0 := \<lparr>rn_val = arg, rn_idx = 0\<rparr>]\<rparr>"
    and "lq_head q' = lq_head q" and "lq_tail q' = Suc (Suc (length ms))" and "lq_nprocs q' = lq_nprocs q"
proof -
  define n where "n = init_ring\<lparr>rq_tail := 1, rq_array := (rq_array init_ring)[0 := \<lparr>rn_val = arg, rn_idx = 0\<rparr>]\<rparr>"
  define q1 where "q1 = q\<lparr>lq_rings := ms @ [l, init_ring]\<rparr>"
  define q2 where "q2 = ring_set (Suc (Suc (length ms))) n q1"
  define q3 where "q3 = (ring_set (Suc (length ms)) (l\<lparr>rq_next := Suc (Suc (length ms))\<rparr>) q2)\<lparr>lq_tail := Suc (Suc (length ms))\<rparr>"
  have m: "mem_ok a q1" "mem_ok a q2" "mem_ok a q3" using q by (simp_all add: q1_def q2_def q3_def)
  have "hd_next hdl = 0" using q i by (metis handle_at_iff mem_ok_def nth_mem)
  moreover have "ring_at (Suc (Suc (length ms))) q1 = Some init_ring"
    using ring_at_append [OF m(1), of "ms @ [l]" init_ring "[]"] rs by (simp add: q1_def)
  moreover have r2: "lq_rings q2 = ms @ [l, n]" using ring_set_append [of q1 "ms @ [l]" init_ring "[]" n] by (simp add: q2_def q1_def)
  moreover have "ring_at (Suc (length ms)) q2 = Some l" using ring_at_append [OF m(2) r2] rs by simp
  ultimately have "put_alloc i arg (Suc (length ms)) q = Some (True, handle_set i (hdl\<lparr>hd_next := 0\<rparr>) q3)"
    using i rs l by (simp add: put_alloc_def Let_def q3_def q2_def q1_def n_def)
  moreover have "mem_ok a (handle_set i (hdl\<lparr>hd_next := 0\<rparr>) q3)"
    using i mem_ok_handle [OF m(3), of i hdl "hdl\<lparr>hd_next := 0\<rparr>" "[]" "{#}" a]
    by (simp add: handle_set_def q3_def q2_def q1_def)
  moreover have "lq_rings q3 = ms @ [l\<lparr>rq_next := Suc (Suc (length ms))\<rparr>, n]" using ring_set_append [OF r2] by (simp add: q3_def)
  ultimately show thesis using that [of "handle_set i (hdl\<lparr>hd_next := 0\<rparr>) q3" n]
    by (simp add: handle_set_def n_def) (simp add: q3_def q2_def q1_def)
qed

section \<open>Writing and reading\<close>

lemma lcrq_put_done: "put_turn i arg k q = Some (None, q') \<Longrightarrow> lcrq_put i arg k q = Some q'"
  by (subst lcrq_put.simps) simp

lemma lcrq_get_done: "get_turn xxh32 i q = Some (Some v, q') \<Longrightarrow> lcrq_get xxh32 i q = Some (v, q')"
  by (subst lcrq_get.simps) simp

lemma lcrq_get_again: "get_turn xxh32 i q = Some (None, q') \<Longrightarrow> lcrq_get xxh32 i q = lcrq_get xxh32 i q'"
  by (subst lcrq_get.simps) simp

lemma lcrq_within_pos: "lcrq_within n \<Longrightarrow> k \<le> n + ring_len \<Longrightarrow> pos_ok k"
  by (auto simp: lcrq_within_def intro: pos_ok_mono)

lemma ring_holds_solo:
  assumes "arg \<noteq> - 1"
  shows "ring_holds False 0 [arg] (init_ring\<lparr>rq_tail := 1, rq_array := (rq_array init_ring)[0 := \<lparr>rn_val = arg, rn_idx = 0\<rparr>]\<rparr>)"
  using assms ring_holds_init by (auto simp: ring_holds_def nth_list_update Suc_le_eq)

lemma ring_holds_next [simp]: "ring_holds b h xs (r\<lparr>rq_next := p\<rparr>) = ring_holds b h xs r"
  by (simp add: ring_holds_def)

text \<open>One turn is enough to store a value, in the last ring or in a new one.\<close>

lemma lcrq_put_parts:
  assumes q: "lcrq_parts q n pre mid l zs h ys" and n: "lcrq_within n" and i: "handle_at i q = Some hdl" and arg: "arg \<noteq> - 1"
  shows "\<exists>q' mid' l' zs' h' ys'. lcrq_put i arg 0 q = Some q' \<and> lcrq_parts q' (Suc n) pre mid' l' zs' h' ys' \<and>
    zs' @ ys' = zs @ ys @ [arg] \<and> lq_nprocs q' = lq_nprocs q"
proof -
  from q have parts: "lq_rings q = (pre @ mid) @ [l]" "lq_head q = Suc (length pre)" "lq_tail q = Suc (length (pre @ mid))"
    "closed_rings n (Suc (length pre)) mid zs" "rq_next l = 0" "ring_holds False h ys l" "h + length ys \<le> n" "mem_ok (length pre) q"
    by (auto simp: lcrq_parts_def)
  have pos: "pos_ok (h + length ys)" using lcrq_within_pos [OF n] parts(7) by simp
  have mid: "closed_rings (Suc n) (Suc (length pre)) mid zs" using closed_rings_mono [OF parts(4)] by simp
  have open_ring: "\<not> crq_is_closed (rq_tail l)" using parts(6) pos_flags(4) [OF pos] by (simp add: ring_holds_def)
  note step = put_turn_step [OF parts(8) i parts(1,3) _ parts(5) open_ring]
  show ?thesis
  proof (cases "length ys < ring_len")
    case True
    obtain l' where l': "put_ring arg 0 (rq_tail l) (l\<lparr>rq_tail := rq_tail l + 1\<rparr>) = (Stored, l')"
      "ring_holds False h (ys @ [arg]) l'" "rq_next l' = rq_next l"
      using put_ring_room [OF parts(6) True arg pos] by blast
    from step [OF _ l'(1)] obtain q' where q': "put_turn i arg 0 q = Some (None, q')" "mem_ok (length pre) q'"
      "lq_rings q' = (pre @ mid) @ [l']" "lq_head q' = lq_head q" "lq_tail q' = lq_tail q" "lq_nprocs q' = lq_nprocs q" by auto
    have "lcrq_parts q' (Suc n) pre mid l' zs h (ys @ [arg])"
      using q' l' parts mid by (simp add: lcrq_parts_def)
    with lcrq_put_done [OF q'(1)] q'(6) show ?thesis by fastforce
  next
    case False
    then have full: "length ys = ring_len" using parts(6) by (simp add: ring_holds_def)
    obtain l' where l': "put_ring arg 0 (rq_tail l) (l\<lparr>rq_tail := rq_tail l + 1\<rparr>) = (Closed, l')"
      "ring_holds True h ys l'" "rq_next l' = rq_next l"
      using put_ring_full [OF parts(6) full _ pos, of 0 arg] by auto
    from step [OF _ l'(1)] obtain q1 hdl1 where q1: "put_turn i arg 0 q = do { (ok, q) \<leftarrow> put_alloc i arg (Suc (length (pre @ mid))) q1; Some (if ok then None else Some (Suc 0), q) }"
      "handle_at i q1 = Some hdl1" "mem_ok (length pre) q1"
      "lq_rings q1 = (pre @ mid) @ [l']" "lq_head q1 = lq_head q" "lq_tail q1 = lq_tail q" "lq_nprocs q1 = lq_nprocs q" by auto
    have "lq_tail q1 = Suc (length (pre @ mid))" "length pre \<le> length (pre @ mid)" "rq_next l' = 0"
      using q1(6) parts(3,5) l'(3) by simp_all
    from put_alloc_ok [OF q1(3,2,4) this, of arg] obtain q' nrq where q': "put_alloc i arg (Suc (length (pre @ mid))) q1 = Some (True, q')"
      "mem_ok (length pre) q'" "lq_rings q' = (pre @ mid) @ [l'\<lparr>rq_next := Suc (Suc (length (pre @ mid)))\<rparr>, nrq]"
      "nrq = init_ring\<lparr>rq_tail := 1, rq_array := (rq_array init_ring)[0 := \<lparr>rn_val = arg, rn_idx = 0\<rparr>]\<rparr>"
      "lq_head q' = lq_head q1" "lq_tail q' = Suc (Suc (length (pre @ mid)))" "lq_nprocs q' = lq_nprocs q1" by blast
    have nrq: "ring_holds False 0 [arg] nrq" "rq_next nrq = 0" using ring_holds_solo [OF arg] q'(4) by (auto simp: init_ring_def)
    have "closed_rings (Suc n) (Suc (length pre)) (mid @ [l'\<lparr>rq_next := Suc (Suc (length (pre @ mid)))\<rparr>]) (zs @ ys)"
      using closed_rings_snoc [OF mid, of _ h ys] l'(2) parts(7) by simp
    then have "lcrq_parts q' (Suc n) pre (mid @ [l'\<lparr>rq_next := Suc (Suc (length (pre @ mid)))\<rparr>]) nrq (zs @ ys) 0 [arg]"
      using q' q1 parts nrq by (simp add: lcrq_parts_def)
    moreover have "lcrq_put i arg 0 q = Some q'" using q1(1) q'(1) by (intro lcrq_put_done) simp
    moreover have "lq_nprocs q' = lq_nprocs q" using q'(7) q1(7) by simp
    ultimately show ?thesis by (metis append_assoc)
  qed
qed

text \<open>The common beginning of a turn of a read, and its three ends.\<close>

lemma get_turn_step:
  assumes q: "mem_ok a q" and i: "handle_at i q = Some hdl" and rs: "lq_rings q = pre @ r # post" "lq_head q = Suc (length pre)" "a \<le> length pre"
    and r: "get_cell (rq_head r) 0 0 (r\<lparr>rq_head := rq_head r + 1\<rparr>) = Some (res, r')"
  obtains q' hdl' where "get_turn xxh32 i q = (case res of
             Some val \<Rightarrow> Some (Some val, q')
           | None \<Rightarrow>
               if tail_index (rq_tail r') \<le> rq_head r + 1 then
                 let q = ring_set (lq_head q') (fix_state r') q' in
                 if rq_next r' = 0 then Some (Some (- 1), q)
                 else if tail_index (rq_tail (fix_state r')) \<le> rq_head r + 1 then
                   do { q \<leftarrow> retire_ring xxh32 i (lq_head q') (q\<lparr>lq_head := rq_next r'\<rparr>); Some (None, q) }
                 else Some (None, q)
               else Some (None, q'))"
    and "handle_at i q' = Some hdl'" and "mem_ok a q'" and "lq_rings q' = pre @ r' # post"
    and "lq_head q' = lq_head q" and "lq_tail q' = lq_tail q" and "lq_nprocs q' = lq_nprocs q"
proof -
  obtain q1 hdl' where q1: "protect i (lq_head q) q = Some (lq_head q, q1)" "handle_at i q1 = Some hdl'" "mem_ok a q1"
    "lq_rings q1 = lq_rings q" "lq_head q1 = lq_head q" "lq_tail q1 = lq_tail q" "lq_nprocs q1 = lq_nprocs q"
    using protect_ok [OF q i] by blast
  let ?q = "ring_set (Suc (length pre)) r' q1"
  have "ring_at (lq_head q) q1 = Some r" using ring_at_append [OF q1(3), of pre r post] q1 rs by simp
  moreover have "rq_next (fix_state r') = rq_next r'" by (simp add: fix_state_def)
  ultimately show thesis
    by (intro that [of ?q hdl']) (use q1 rs r ring_set_append [of q1 pre r post r'] in \<open>auto simp: get_turn_def Let_def split: option.splits\<close>)
qed

lemma get_turn_some:
  assumes q: "mem_ok a q" and i: "handle_at i q = Some hdl" and rs: "lq_rings q = pre @ r # post" "lq_head q = Suc (length pre)" "a \<le> length pre"
    and r: "ring_holds b h (x # ys) r" and pos: "pos_ok (h + ring_len)"
  obtains q' r' where "get_turn xxh32 i q = Some (Some x, q')" and "mem_ok a q'" and "lq_rings q' = pre @ r' # post"
    and "ring_holds b (Suc h) ys r'" and "rq_next r' = rq_next r"
    and "lq_head q' = lq_head q" and "lq_tail q' = lq_tail q" and "lq_nprocs q' = lq_nprocs q"
proof -
  obtain r' where r': "get_cell (rq_head r) 0 0 (r\<lparr>rq_head := rq_head r + 1\<rparr>) = Some (Some x, r')"
    "ring_holds b (Suc h) ys r'" "rq_next r' = rq_next r" using get_cell_some [OF r pos] by blast
  from get_turn_step [OF q i rs r'(1), of xxh32] r'(2,3) show thesis using that by auto
qed

lemma get_turn_empty:
  assumes q: "mem_ok a q" and i: "handle_at i q = Some hdl" and rs: "lq_rings q = pre @ [r]" "lq_head q = Suc (length pre)" "a \<le> length pre"
    and r: "ring_holds False h [] r" "rq_next r = 0" and pos: "pos_ok (h + ring_len)"
  obtains q' r' where "get_turn xxh32 i q = Some (Some (- 1), q')" and "mem_ok a q'" and "lq_rings q' = pre @ [r']"
    and "ring_holds False (Suc h) [] r'" and "rq_next r' = 0"
    and "lq_head q' = lq_head q" and "lq_tail q' = lq_tail q" and "lq_nprocs q' = lq_nprocs q"
proof -
  define r1 where "r1 = r\<lparr>rq_head := of_nat (Suc h),
      rq_array := (rq_array r)[h mod ring_len := \<lparr>rn_val = - 1, rn_idx = of_nat (h + ring_len)\<rparr>]\<rparr>"
  define r2 where "r2 = r1\<lparr>rq_tail := of_nat (Suc h)\<rparr>"
  have h: "pos_ok h" "pos_ok (Suc h)" using pos_ok_mono [OF pos] by (auto simp: Suc_le_eq)
  have head: "rq_head r = of_nat h" "rq_tail r = of_nat h" "length (rq_array r) = ring_len" using r by (auto simp: ring_holds_def)
  have fixed: "fix_state r1 = r2" using h pos_less [of h "Suc h"] head by (simp add: fix_state_def r1_def r2_def)
  have tail: "tail_index (rq_tail r1) \<le> rq_head r + 1"
    using h pos_le [of h "Suc h"] head by (simp add: r1_def pos_flags add.commute)
  have next0: "rq_next r1 = 0" using r(2) by (simp add: r1_def)
  have "get_cell (rq_head r) 0 0 (r\<lparr>rq_head := rq_head r + 1\<rparr>) = Some (None, r1)"
    using get_cell_none [OF r(1) pos] by (simp add: r1_def)
  from get_turn_step [OF q i rs this, of xxh32] fixed tail next0 obtain q1
    where q1: "get_turn xxh32 i q = Some (Some (- 1), ring_set (lq_head q1) r2 q1)" "mem_ok a q1" "lq_rings q1 = pre @ [r1]"
      "lq_head q1 = lq_head q" "lq_tail q1 = lq_tail q" "lq_nprocs q1 = lq_nprocs q" by auto
  have "ring_holds False (Suc h) [] r2"
  proof -
    have "\<exists>i\<le>p. cell r2 p = \<lparr>rn_val = - 1, rn_idx = of_nat i\<rparr>" if "Suc h \<le> p" "p < Suc h + ring_len" for p
    proof (cases "p = h + ring_len")
      case True
      then show ?thesis using head by (auto simp: r2_def r1_def)
    next
      case False
      then show ?thesis using r(1) that head mod_window [of h h p] by (auto simp: r2_def r1_def nth_list_update ring_holds_def)
    qed
    then show ?thesis using head by (simp add: ring_holds_def r2_def r1_def)
  qed
  moreover have "lq_rings (ring_set (lq_head q1) r2 q1) = pre @ [r2]"
    using ring_set_append [OF q1(3), of r2] q1(4) rs(2) by simp
  moreover have "rq_next r2 = 0" using next0 by (simp add: r2_def)
  ultimately show thesis using that [OF q1(1)] q1 by simp
qed

lemma get_turn_drop:
  assumes q: "mem_ok (length pre) q" and i: "handle_at i q = Some hdl" and rs: "lq_rings q = pre @ r # post" "lq_head q = Suc (length pre)"
    and r: "ring_holds True h [] r" "rq_next r = Suc (Suc (length pre))" and pos: "pos_ok (h + ring_len)"
  obtains q' r' hdl' where "get_turn xxh32 i q = Some (None, q')" and "handle_at i q' = Some hdl'" and "mem_ok (Suc (length pre)) q'"
    and "lq_rings q' = pre @ r' # post"
    and "lq_head q' = Suc (Suc (length pre))" and "lq_tail q' = lq_tail q" and "lq_nprocs q' = lq_nprocs q"
proof -
  define r1 where "r1 = r\<lparr>rq_head := of_nat (Suc h),
      rq_array := (rq_array r)[h mod ring_len := \<lparr>rn_val = - 1, rn_idx = of_nat (h + ring_len)\<rparr>]\<rparr>"
  have h: "pos_ok h" "pos_ok (Suc h)" using pos_ok_mono [OF pos] by (auto simp: Suc_le_eq)
  have head: "rq_head r = of_nat h" "rq_tail r = set_unsafe (of_nat (Suc h))" using r by (auto simp: ring_holds_def)
  have fixed: "fix_state r1 = r1"
    using set_unsafe_greater [OF h(2)] head by (simp add: fix_state_def r1_def)
  have tail: "tail_index (rq_tail r1) \<le> rq_head r + 1"
    using head pos_flags(5) [OF h(2)] by (simp add: r1_def add.commute)
  have next1: "rq_next r1 = Suc (Suc (length pre))" using r(2) by (simp add: r1_def)
  have "get_cell (rq_head r) 0 0 (r\<lparr>rq_head := rq_head r + 1\<rparr>) = Some (None, r1)"
    using get_cell_none [OF r(1) pos] by (simp add: r1_def)
  from get_turn_step [OF q i rs _ this, of xxh32] fixed tail next1 rs obtain q1 hdl1
    where q1: "get_turn xxh32 i q = do { q \<leftarrow> retire_ring xxh32 i (Suc (length pre)) ((ring_set (Suc (length pre)) r1 q1)\<lparr>lq_head := Suc (Suc (length pre))\<rparr>); Some (None, q) }"
      "handle_at i q1 = Some hdl1" "mem_ok (length pre) q1" "lq_rings q1 = pre @ r1 # post"
      "lq_head q1 = lq_head q" "lq_tail q1 = lq_tail q" "lq_nprocs q1 = lq_nprocs q" by auto
  let ?q = "(ring_set (Suc (length pre)) r1 q1)\<lparr>lq_head := Suc (Suc (length pre))\<rparr>"
  have "mem_ok (length pre) ?q" "handle_at i ?q = Some hdl1" using q1 by simp_all
  from retire_ring_ok [OF this, of xxh32] obtain q2 hdl2 where q2: "retire_ring xxh32 i (Suc (length pre)) ?q = Some q2"
    "handle_at i q2 = Some hdl2" "mem_ok (Suc (length pre)) q2" "lq_rings q2 = lq_rings ?q" "lq_head q2 = lq_head ?q" "lq_tail q2 = lq_tail ?q"
    "lq_nprocs q2 = lq_nprocs ?q" by blast
  then show thesis using that [of q2 hdl2 r1] q1 ring_set_append [OF q1(4), of r1] by simp
qed

text \<open>A read walks over the rings that were emptied and stops at the first element, or at the last ring.\<close>

lemma lcrq_get_parts:
  assumes q: "lcrq_parts q n pre mid l zs h ys" and n: "lcrq_within n" and i: "handle_at i q = Some hdl"
  shows "\<exists>v q' pre' mid' l' zs' h' ys'. lcrq_get xxh32 i q = Some (v, q') \<and> lcrq_parts q' (Suc n) pre' mid' l' zs' h' ys' \<and>
    lq_nprocs q' = lq_nprocs q \<and> (if zs @ ys = [] then v = - 1 \<and> zs' @ ys' = [] \<and> mid' = [] else v # zs' @ ys' = zs @ ys)"
  using q i
proof (induction mid arbitrary: q pre zs hdl)
  case Nil
  from Nil(1) have parts: "lq_rings q = pre @ [l]" "lq_head q = Suc (length pre)" "lq_tail q = Suc (length pre)" "zs = []"
    "rq_next l = 0" "ring_holds False h ys l" "h + length ys \<le> n" "mem_ok (length pre) q" by (auto simp: lcrq_parts_def)
  have pos: "pos_ok (h + ring_len)" using lcrq_within_pos [OF n] parts(7) by simp
  show ?case
  proof (cases ys)
    case Nil
    with parts(6) have "ring_holds False h [] l" by simp
    from get_turn_empty [OF parts(8) \<open>handle_at i q = Some hdl\<close> parts(1,2) order_refl this parts(5) pos, of xxh32] obtain q' l'
      where q': "get_turn xxh32 i q = Some (Some (- 1), q')" "mem_ok (length pre) q'" "lq_rings q' = pre @ [l']"
        "ring_holds False (Suc h) [] l'" "rq_next l' = 0" "lq_head q' = lq_head q" "lq_tail q' = lq_tail q" "lq_nprocs q' = lq_nprocs q" by blast
    then have "lcrq_parts q' (Suc n) pre [] l' [] (Suc h) []" using parts by (simp add: lcrq_parts_def)
    with lcrq_get_done [OF q'(1)] q'(8) Nil parts(4) show ?thesis by fastforce
  next
    case (Cons x ys')
    with parts(6) have "ring_holds False h (x # ys') l" by simp
    from get_turn_some [OF parts(8) \<open>handle_at i q = Some hdl\<close> parts(1,2) order_refl this pos, of xxh32] obtain q' l'
      where q': "get_turn xxh32 i q = Some (Some x, q')" "mem_ok (length pre) q'" "lq_rings q' = pre @ [l']"
        "ring_holds False (Suc h) ys' l'" "rq_next l' = rq_next l" "lq_head q' = lq_head q" "lq_tail q' = lq_tail q" "lq_nprocs q' = lq_nprocs q" by blast
    then have "lcrq_parts q' (Suc n) pre [] l' [] (Suc h) ys'" using parts Cons by (simp add: lcrq_parts_def)
    with lcrq_get_done [OF q'(1)] q'(8) Cons parts(4) show ?thesis by fastforce
  qed
next
  case (Cons m ms)
  from Cons.prems(1) obtain hm ym zm where parts: "lq_rings q = pre @ m # ms @ [l]" "lq_head q = Suc (length pre)"
    "lq_tail q = length (lq_rings q)" "zs = ym @ zm" "rq_next m = Suc (Suc (length pre))" "ring_holds True hm ym m" "hm + length ym \<le> n"
    "closed_rings n (Suc (Suc (length pre))) ms zm"
    "rq_next l = 0" "ring_holds False h ys l" "h + length ys \<le> n" "mem_ok (length pre) q" by (auto simp: lcrq_parts_def)
  have pos: "pos_ok (hm + ring_len)" using lcrq_within_pos [OF n] parts(7) by simp
  show ?case
  proof (cases ym)
    case Nil
    with parts(6) have "ring_holds True hm [] m" by simp
    from get_turn_drop [OF parts(12) Cons.prems(2) parts(1,2) this parts(5) pos, of xxh32] obtain q' m' hdl'
      where q': "get_turn xxh32 i q = Some (None, q')" "handle_at i q' = Some hdl'" "mem_ok (Suc (length pre)) q'"
        "lq_rings q' = pre @ m' # ms @ [l]" "lq_head q' = Suc (Suc (length pre))" "lq_tail q' = lq_tail q" "lq_nprocs q' = lq_nprocs q" by blast
    have "lcrq_parts q' n (pre @ [m']) ms l zm h ys" using q' parts by (simp add: lcrq_parts_def)
    from Cons.IH [OF this q'(2)] show ?thesis
      unfolding lcrq_get_again [OF q'(1)] q'(7) parts(4) Nil append_Nil .
  next
    case (Cons x ym')
    with parts(6) have "ring_holds True hm (x # ym') m" by simp
    from get_turn_some [OF parts(12) Cons.prems(2) parts(1,2) order_refl this pos, of xxh32] obtain q' m'
      where q': "get_turn xxh32 i q = Some (Some x, q')" "mem_ok (length pre) q'" "lq_rings q' = pre @ m' # ms @ [l]"
        "ring_holds True (Suc hm) ym' m'" "rq_next m' = rq_next m" "lq_head q' = lq_head q" "lq_tail q' = lq_tail q" "lq_nprocs q' = lq_nprocs q" by blast
    have "closed_rings (Suc n) (Suc (length pre)) (m' # ms) (ym' @ zm)"
      using q' parts Cons closed_rings_mono [OF parts(8), of "Suc n"] by fastforce
    then have "lcrq_parts q' (Suc n) pre (m' # ms) l (ym' @ zm) h ys" using q' parts by (simp add: lcrq_parts_def)
    with lcrq_get_done [OF q'(1)] q'(8) Cons parts(4) show ?thesis by fastforce
  qed
qed

lemma lcrq_rep_new: "lcrq_rep nprocs (lcrq_new nprocs) 0 []"
proof -
  have "(\<Sum>hdl\<in>#mset (replicate k None). retired_by hdl) = {#}" for k
    by (induction k) (simp_all add: retired_by_def)
  from this [of "Suc nprocs"] have "mem_ok 0 (lcrq_new nprocs)" by (simp add: mem_ok_def lcrq_new_def)
  then have "lcrq_parts (lcrq_new nprocs) 0 [] [] init_ring [] 0 []"
    using ring_holds_init by (simp add: lcrq_parts_def lcrq_new_def init_ring_def)
  moreover have "lq_nprocs (lcrq_new nprocs) = nprocs" by (simp add: lcrq_new_def)
  ultimately show ?thesis unfolding lcrq_rep_def by blast
qed

lemma get_handle_parts:
  assumes q: "lcrq_parts q n pre mid l zs h ys" and i: "i \<le> lq_nprocs q"
  obtains q' hdl where "get_handle i q = Some q'" and "handle_at i q' = Some hdl" and "lcrq_parts q' n pre mid l zs h ys"
    and "lq_nprocs q' = lq_nprocs q"
proof -
  have "mem_ok (length pre) q" using q by (simp add: lcrq_parts_def)
  from get_handle_ok [OF this i] obtain q' hdl where q': "get_handle i q = Some q'" "handle_at i q' = Some hdl" "mem_ok (length pre) q'"
    "lq_rings q' = lq_rings q" "lq_head q' = lq_head q" "lq_tail q' = lq_tail q" "lq_nprocs q' = lq_nprocs q" by blast
  then show thesis using that [of q' hdl] q by (simp add: lcrq_parts_def)
qed

lemma lcrq_write_rep:
  assumes q: "lcrq_rep nprocs q n xs" and n: "lcrq_within n" and i: "i < nprocs" and v: "v \<noteq> - 1"
  shows "\<exists>q'. lcrq_write i v q = Some q' \<and> lcrq_rep nprocs q' (Suc n) (xs @ [v])"
proof -
  from q obtain pre mid l zs h ys where parts: "lcrq_parts q n pre mid l zs h ys" "xs = zs @ ys" "lq_nprocs q = nprocs"
    by (auto simp: lcrq_rep_def)
  from i parts(3) have "i \<le> lq_nprocs q" by simp
  from get_handle_parts [OF parts(1) this] obtain q1 hdl where q1: "get_handle i q = Some q1" "handle_at i q1 = Some hdl"
    "lcrq_parts q1 n pre mid l zs h ys" "lq_nprocs q1 = lq_nprocs q" by blast
  from lcrq_put_parts [OF q1(3) n q1(2) v] obtain q' mid' l' zs' h' ys' where q': "lcrq_put i v 0 q1 = Some q'"
    "lcrq_parts q' (Suc n) pre mid' l' zs' h' ys'" "zs' @ ys' = zs @ ys @ [v]" "lq_nprocs q' = lq_nprocs q1" by blast
  have "lcrq_rep nprocs q' (Suc n) (xs @ [v])"
    unfolding lcrq_rep_def using q' q1(4) parts(2,3) by (metis append_assoc)
  with q'(1) q1(1) i parts(3) show ?thesis by (simp add: lcrq_write_def)
qed

lemma closed_rings_storable: "closed_rings n p ms zs \<Longrightarrow> - 1 \<notin> set zs"
  by (induction ms arbitrary: p zs) (auto simp: ring_holds_def)

lemma lcrq_rep_storable: "lcrq_rep nprocs q n xs \<Longrightarrow> - 1 \<notin> set xs"
  by (auto simp: lcrq_rep_def lcrq_parts_def ring_holds_def dest: closed_rings_storable)

lemma lcrq_read_rep:
  assumes q: "lcrq_rep nprocs q n xs" and n: "lcrq_within n" and i: "i < nprocs"
  shows "\<exists>q'. lcrq_read xxh32 i q = Some (if xs = [] then 0 else hd xs, q') \<and> lcrq_rep nprocs q' (Suc n) (tl xs)"
proof -
  from q obtain pre mid l zs h ys where parts: "lcrq_parts q n pre mid l zs h ys" "xs = zs @ ys" "lq_nprocs q = nprocs"
    by (auto simp: lcrq_rep_def)
  have nm: "- 1 \<notin> set xs" using q by (rule lcrq_rep_storable)
  from i parts(3) have "i \<le> lq_nprocs q" by simp
  from get_handle_parts [OF parts(1) this] obtain q1 hdl where q1: "get_handle i q = Some q1" "handle_at i q1 = Some hdl"
    "lcrq_parts q1 n pre mid l zs h ys" "lq_nprocs q1 = lq_nprocs q" by blast
  from lcrq_get_parts [OF q1(3) n q1(2), of xxh32] obtain v q' pre' mid' l' zs' h' ys' where q': "lcrq_get xxh32 i q1 = Some (v, q')"
    "lcrq_parts q' (Suc n) pre' mid' l' zs' h' ys'" "lq_nprocs q' = lq_nprocs q1"
    "if xs = [] then v = - 1 \<and> zs' @ ys' = [] \<and> mid' = [] else v # zs' @ ys' = xs" unfolding parts(2) by blast
  have "tl xs = zs' @ ys'" using q'(4) by (cases xs) auto
  then have "lcrq_rep nprocs q' (Suc n) (tl xs)" unfolding lcrq_rep_def using q'(2,3) q1(4) parts(3) by metis
  moreover have "v = (if xs = [] then - 1 else hd xs)" using q'(4) by (auto split: if_splits)
  ultimately show ?thesis using q'(1) q1(1) i parts(3) nm by (cases xs) (auto simp: lcrq_read_def)
qed

text \<open>\<^verbatim>\<open>read\<close> reports an empty queue by a null pointer.\<close>

definition lcrq_read_opt :: "(8 word \<Rightarrow> nat) \<Rightarrow> nat \<Rightarrow> lcrq \<Rightarrow> (size_t option \<times> lcrq) option" where
  "lcrq_read_opt xxh32 i q = map_option (\<lambda>(v, q'). (if v = 0 then None else Some v, q')) (lcrq_read xxh32 i q)"

interpretation lq: shared_queue lcrq_write "lcrq_read_opt xxh32" "\<lambda>q n xs. lcrq_rep nprocs q n xs \<and> 0 \<notin> set xs"
  lcrq_within "\<lambda>i. i < nprocs" "\<lambda>v. v \<noteq> 0 \<and> v \<noteq> - 1" for xxh32 nprocs
proof (unfold_locales, goal_cases)
  case (1 q n xs i x)
  then show ?case using lcrq_write_rep [of nprocs q n xs i x] by auto
next
  case (2 q n x xs i)
  then show ?case using lcrq_read_rep [of nprocs q n "x # xs" i xxh32] by (auto simp: lcrq_read_opt_def)
next
  case (3 q n i)
  then show ?case using lcrq_read_rep [of nprocs q n "[]" i xxh32] by (auto simp: lcrq_read_opt_def)
qed

lemma lcrq_within_run: "k < 2 ^ 62 \<Longrightarrow> lcrq_within k"
  by (simp add: lcrq_within_def pos_ok_def ring_len_def)

lemma lcrq_run:
  assumes "list_all (op_ok (\<lambda>i. i < nprocs) (\<lambda>v. v \<noteq> 0 \<and> v \<noteq> - 1)) ops" and "length ops < 2 ^ 62"
  shows "\<exists>q. run_queue lcrq_write (lcrq_read_opt xxh32) ops (lcrq_new nprocs) = Some (fst (spec_run ops []), q) \<and>
    lcrq_rep nprocs q (length ops) (snd (spec_run ops []))"
proof -
  have "lcrq_within (0 + k)" if "k < length ops" for k using lcrq_within_run [of k] that assms(2) by simp
  from lq.run_refines [OF _ assms(1) this, of "lcrq_new nprocs" "[]" xxh32] lcrq_rep_new show ?thesis by auto
qed

section \<open>Properties\<close>

text \<open>
  C18: the queue of rings is a FIFO queue. From a new queue, any sequence of fewer than \<open>2 ^ 62\<close> writes
  and reads by any of the processors, of pointers that are neither null nor all ones,
  returns from every call, never accesses a freed ring, and each read returns what a queue of
  the values would: the oldest one not yet read, or null if there is none. Closing
  full rings, linking new ones and retiring emptied ones is not visible.
\<close>

theorem lcrq_is_queue:
  assumes "list_all (op_ok (\<lambda>i. i < nprocs) (\<lambda>v. v \<noteq> 0 \<and> v \<noteq> - 1)) ops" and "length ops < 2 ^ 62"
  shows "\<exists>q. run_queue lcrq_write (lcrq_read_opt xxh32) ops (lcrq_new nprocs) = Some (fst (spec_run ops []), q)"
  using lcrq_run [OF assms, of xxh32] by blast

theorem lcrq_is_queue_witness:
  "\<exists>q. run_queue lcrq_write (lcrq_read_opt (\<lambda>b. unat b)) [Get 1, Put 0 5, Put 1 7, Get 1, Get 0, Get 0] (lcrq_new 2) =
     Some ([None, Some 5, Some 7, None], q)"
  using lcrq_is_queue [of 2 "[Get 1, Put 0 5, Put 1 7, Get 1, Get 0, Get 0]" "\<lambda>b. unat b"] by simp

end
