(* ===== verification/Lcrq_Memory.thy ===== *)
theory Lcrq_Memory
  imports Lcrq_Queue
begin

text \<open>
  The memory of \<^verbatim>\<open>queues::lcrq\<close>: the destructor (\<^verbatim>\<open>lcrq::~lcrq\<close> in \<^verbatim>\<open>src/boson/src/queues/lcrq.cc\<close>), the
  invariant that no handle protects a freed ring, and the account of the rings at the end.
\<close>

section \<open>The destructor\<close>

text \<open>What the class allocates: rings, the array of a hazard pointer, handles, and its two structures.\<close>

datatype address = Ring_at nat | Ptrs_of nat | Handle_of nat | Queue_struct | Hds_array

partial_function (option) lcrq_drain :: "(8 word \<Rightarrow> nat) \<Rightarrow> lcrq \<Rightarrow> lcrq option" where
  "lcrq_drain xxh32 q =
     Option.bind (Option.bind (get_handle (lq_nprocs q) q) (lcrq_get xxh32 (lq_nprocs q)))
       (\<lambda>x. case x of (data, q') \<Rightarrow> if data = - 1 then Some q' else lcrq_drain xxh32 q')"

text \<open>
  The list of what to free, without repetition. The null pointer is in it from the beginning,
  and freeing it does nothing: it is left out. The walk from \<^verbatim>\<open>_tail\<close> stops before the last
  hazard pointer of the circular list.
\<close>

definition free_insert :: "address \<Rightarrow> address list \<Rightarrow> address list" where
  "free_insert ptr to_free = (if ptr \<in> set to_free then to_free else to_free @ [ptr])"

definition published :: "lcrq_handle \<Rightarrow> address list" where
  "published hdl = map Ring_at (filter (\<lambda>p. p \<noteq> 0) (hz_ptrs (hd_hzdptr hdl)))"

definition lcrq_to_free :: "lcrq \<Rightarrow> address list" where
  "lcrq_to_free q =
     fold free_insert
       (concat (map (\<lambda>j. case handle_at j q of Some hdl \<Rightarrow> published hdl @ [Ptrs_of j] | None \<Rightarrow> []) (butlast (lq_hzds q))) @
        concat (map (\<lambda>j. case handle_at j q of Some hdl \<Rightarrow> Ptrs_of j # published hdl @ [Handle_of j] | None \<Rightarrow> [])
          [0..<Suc (lq_nprocs q)])) []"

definition lcrq_delete :: "(8 word \<Rightarrow> nat) \<Rightarrow> lcrq \<Rightarrow> (address list \<times> lcrq) option" where
  "lcrq_delete xxh32 q =
     do { q \<leftarrow> get_handle (lq_nprocs q) q;
          q \<leftarrow> lcrq_put (lq_nprocs q) 0 0 q;
          q \<leftarrow> lcrq_drain xxh32 q;
          Some (lcrq_to_free q @ [Queue_struct, Hds_array], q) }"

section \<open>No handle protects a freed ring\<close>

definition handle_ok :: "bool \<Rightarrow> nat list \<Rightarrow> nat \<Rightarrow> lcrq_handle \<Rightarrow> bool" where
  "handle_ok safe freed nprocs hdl \<longleftrightarrow>
     hz_nprocs (hd_hzdptr hdl) = nprocs \<and> 0 \<notin> set (hz_retired (hd_hzdptr hdl)) \<and>
     (\<exists>p. hz_ptrs (hd_hzdptr hdl) = [p] \<and> (safe \<longrightarrow> p \<notin> set freed))"

text \<open>The handle of a processor that is in the middle of a read may be excepted.\<close>

definition pub_ok :: "nat set \<Rightarrow> lcrq \<Rightarrow> bool" where
  "pub_ok E q \<longleftrightarrow>
     0 < lq_nprocs q \<and> length (lq_hds q) = Suc (lq_nprocs q) \<and> 0 \<notin> set (lq_freed q) \<and> distinct (lq_hzds q) \<and>
     set (lq_hzds q) = {j. \<exists>hdl. handle_at j q = Some hdl} \<and>
     (\<forall>j hdl. handle_at j q = Some hdl \<longrightarrow> handle_ok (j \<notin> E) (lq_freed q) (lq_nprocs q) hdl)"

lemma pub_okD: "pub_ok E q \<Longrightarrow> handle_at j q = Some hdl \<Longrightarrow> handle_ok (j \<notin> E) (lq_freed q) (lq_nprocs q) hdl"
  by (simp add: pub_ok_def)

lemma handle_ok_weaken: "handle_ok s fr n hdl \<Longrightarrow> (s' \<Longrightarrow> s) \<Longrightarrow> handle_ok s' fr n hdl"
  by (auto simp: handle_ok_def)

lemma handle_ok_length: "handle_ok s fr n hdl \<Longrightarrow> length (hz_ptrs (hd_hzdptr hdl)) = 1"
  by (auto simp: handle_ok_def)

lemma pub_ok_cong:
  "lq_hds q' = lq_hds q \<Longrightarrow> lq_hzds q' = lq_hzds q \<Longrightarrow> lq_freed q' = lq_freed q \<Longrightarrow> lq_nprocs q' = lq_nprocs q \<Longrightarrow> pub_ok E q' = pub_ok E q"
  by (simp add: pub_ok_def handle_at_def)

lemma pub_ok_links [simp]:
  "pub_ok E (ring_set p r q) = pub_ok E q" "pub_ok E (q\<lparr>lq_rings := rs\<rparr>) = pub_ok E q" "pub_ok E (q\<lparr>lq_tail := t\<rparr>) = pub_ok E q"
  "pub_ok E (q\<lparr>lq_head := t\<rparr>) = pub_ok E q"
  by (intro pub_ok_cong; simp add: ring_set_def)+

lemma handle_at_set: "i < length (lq_hds q) \<Longrightarrow> handle_at j (handle_set i hdl q) = (if j = i then Some hdl else handle_at j q)"
  by (simp add: handle_at_def handle_set_def vec_get_def)

lemma pub_ok_handle_set:
  assumes "pub_ok E q" and "handle_at i q = Some hdl" and "handle_ok (i \<notin> E') (lq_freed q) (lq_nprocs q) hdl'" and "E - {i} \<subseteq> E'"
  shows "pub_ok E' (handle_set i hdl' q)"
proof -
  have i: "i < length (lq_hds q)" using assms(2) by (simp add: handle_at_iff)
  have sel: "lq_hzds (handle_set i hdl' q) = lq_hzds q" "lq_freed (handle_set i hdl' q) = lq_freed q"
    "lq_nprocs (handle_set i hdl' q) = lq_nprocs q" "length (lq_hds (handle_set i hdl' q)) = length (lq_hds q)"
    by (simp_all add: handle_set_def)
  have "handle_ok (j \<notin> E') (lq_freed q) (lq_nprocs q) h" if "handle_at j q = Some h" "j \<noteq> i" for j h
    by (rule handle_ok_weaken [OF pub_okD [OF assms(1) that(1)]]) (use assms(4) that(2) in auto)
  then show ?thesis using assms(1,2,3) unfolding pub_ok_def sel handle_at_set [OF i] by auto
qed

lemma pub_ok_weaken: "pub_ok {} q \<Longrightarrow> pub_ok E q"
proof -
  assume q: "pub_ok {} q"
  have "handle_ok (j \<notin> E) (lq_freed q) (lq_nprocs q) h" if "handle_at j q = Some h" for j h
    by (rule handle_ok_weaken [OF pub_okD [OF q that]]) simp
  with q show ?thesis by (simp add: pub_ok_def)
qed

lemma get_handle_pub:
  assumes "get_handle i q = Some q'" and "pub_ok E q"
  shows "pub_ok E q'"
proof (cases "handle_at i q")
  case None
  let ?h = "\<lparr>hd_next = 0, hd_hzdptr = hzdptr_init (lq_nprocs q) 1\<rparr>"
  from assms(1) None have i: "i < length (lq_hds q)" "lq_hds q ! i = None"
    and q': "q' = (handle_set i ?h q)\<lparr>lq_hzds := hzdptr_enlist i (lq_hzds q)\<rparr>"
    by (auto simp: get_handle_def handle_at_def vec_get_def handle_set_def split: option.splits if_splits)
  have h: "handle_at j q' = (if j = i then Some ?h else handle_at j q)" for j
    using handle_at_set [OF i(1), of j ?h] by (simp add: q' handle_at_def)
  have "set (hzdptr_enlist i (lq_hzds q)) = insert i (set (lq_hzds q))" "distinct (hzdptr_enlist i (lq_hzds q)) \<longleftrightarrow> distinct (i # lq_hzds q)"
    by (auto simp: hzdptr_enlist_def split: list.splits)
  moreover have "i \<notin> set (lq_hzds q)" using assms(2) None by (auto simp: pub_ok_def)
  moreover have "handle_ok (i \<notin> E) (lq_freed q) (lq_nprocs q) ?h" using assms(2) by (simp add: handle_ok_def hzdptr_init_def pub_ok_def)
  moreover have "lq_hzds q' = hzdptr_enlist i (lq_hzds q)" "lq_freed q' = lq_freed q" "lq_nprocs q' = lq_nprocs q" "length (lq_hds q') = length (lq_hds q)"
    by (simp_all add: q' handle_set_def)
  ultimately show ?thesis using assms(2) unfolding pub_ok_def h by auto
next
  case (Some h)
  with assms show ?thesis by (simp add: get_handle_def handle_at_iff)
qed

lemma protect_pub:
  assumes "protect i p q = Some (p', q')" and "pub_ok E q" and "E \<subseteq> {i}"
  shows "p' = p" and "pub_ok {i} q'" and "lq_freed q' = lq_freed q" and "p \<notin> set (lq_freed q) \<Longrightarrow> pub_ok {} q'"
proof -
  from assms(1) obtain hdl where hdl: "handle_at i q = Some hdl"
    and q': "p' = p" "q' = handle_set i (hdl\<lparr>hd_hzdptr := hzdptr_set p 0 (hd_hzdptr hdl)\<rparr>) q"
    by (auto simp: protect_def Let_def split: Option.bind_splits)
  from q' show "p' = p" "lq_freed q' = lq_freed q" by (simp_all add: handle_set_def)
  have h: "handle_ok (i \<notin> E) (lq_freed q) (lq_nprocs q) hdl" using assms(2) hdl by (simp add: pub_ok_def)
  show "pub_ok {i} q'" unfolding q'(2)
    by (rule pub_ok_handle_set [OF assms(2) hdl]) (use h assms(3) in \<open>auto simp: handle_ok_def hzdptr_set_def\<close>)
  show "pub_ok {} q'" if "p \<notin> set (lq_freed q)" unfolding q'(2)
    by (rule pub_ok_handle_set [OF assms(2) hdl]) (use h assms(3) that in \<open>auto simp: handle_ok_def hzdptr_set_def\<close>)
qed

lemma length_concat_map:
  assumes "\<And>x. length (f x) \<le> 1"
  shows "length (concat (map f xs)) \<le> length xs"
proof (induction xs)
  case (Cons x xs)
  with assms [of x] show ?case by simp
qed simp

lemma other_hzds_ok:
  assumes q: "pub_ok {} q" and i: "handle_at i q = Some hdl"
  shows "length (concat (other_hzds i q)) \<le> lq_nprocs q"
    and "handle_at j q = Some h \<Longrightarrow> j \<noteq> i \<Longrightarrow> set (hz_ptrs (hd_hzdptr h)) \<subseteq> set (concat (other_hzds i q))"
proof -
  let ?d = "dropWhile (\<lambda>j. j \<noteq> i) (lq_hzds q)" and ?t = "takeWhile (\<lambda>j. j \<noteq> i) (lq_hzds q)"
  have "i \<in> set (lq_hzds q)" using q i by (auto simp: pub_ok_def)
  then obtain ys where d: "?d = i # ys" by (metis (mono_tags, lifting) dropWhile_eq_Cons_conv dropWhile_eq_Nil_conv list.exhaust)
  then have l: "lq_hzds q = ?t @ i # ys" by (metis takeWhile_dropWhile_id)
  have o: "other_hzds i q = map (\<lambda>j. case handle_at j q of Some hdl \<Rightarrow> hz_ptrs (hd_hzdptr hdl) | None \<Rightarrow> []) (ys @ ?t)"
    by (simp add: other_hzds_def d)
  have one: "length (case handle_at j q of Some hdl \<Rightarrow> hz_ptrs (hd_hzdptr hdl) | None \<Rightarrow> []) \<le> 1" for j
    using handle_ok_length [OF pub_okD [OF q]] by (simp split: option.splits)
  from length_concat_map [OF one, where xs = "ys @ ?t"] have "length (concat (other_hzds i q)) \<le> length (ys @ ?t)" unfolding o .
  moreover have "length (lq_hzds q) \<le> Suc (lq_nprocs q)"
  proof -
    have "set (lq_hzds q) \<subseteq> {..<Suc (lq_nprocs q)}" using q by (auto simp: pub_ok_def handle_at_iff)
    then have "card (set (lq_hzds q)) \<le> card {..<Suc (lq_nprocs q)}" by (intro card_mono) auto
    moreover have "distinct (lq_hzds q)" using q by (simp add: pub_ok_def)
    ultimately show ?thesis by (simp add: distinct_card)
  qed
  moreover have "length (lq_hzds q) = Suc (length (ys @ ?t))" by (subst l) simp
  ultimately show "length (concat (other_hzds i q)) \<le> lq_nprocs q" by linarith
  assume j: "handle_at j q = Some h" "j \<noteq> i"
  then have "j \<in> set (lq_hzds q)" using q by (auto simp: pub_ok_def)
  then have "j \<in> set (ys @ ?t)" using j(2) by (subst (asm) l) auto
  with j(1) show "set (hz_ptrs (hd_hzdptr h)) \<subseteq> set (concat (other_hzds i q))" unfolding o by force
qed

lemma hzdptr_retire_bounds:
  assumes r: "hzdptr_retire hash hash others p h = (h', fr)" and p: "p \<noteq> 0" "0 \<notin> set (hz_retired h)"
    and size: "length (hz_ptrs h) = 1" "0 < hz_nprocs h" "length (concat others) \<le> hz_nprocs h"
  shows "hz_ptrs h' = hz_ptrs h" and "hz_nprocs h' = hz_nprocs h" and "0 \<notin> set (hz_retired h')" and "0 \<notin> set fr"
    and "set fr \<inter> set (concat others) = {}"
proof -
  let ?h = "h\<lparr>hz_retired := hz_retired h @ [p]\<rparr>"
  have "hzdptr_retire_all hash hash others ?h =
    (?h\<lparr>hz_retired := filter (\<lambda>p. p \<in> set (concat others)) (hz_retired ?h)\<rparr>, filter (\<lambda>p. p \<notin> set (concat others)) (hz_retired ?h))"
    by (rule retire_all_filter) (use p size in \<open>simp_all add: HZDPTR_HTBL_SIZE_def\<close>)
  with r p show "hz_ptrs h' = hz_ptrs h" "hz_nprocs h' = hz_nprocs h" "0 \<notin> set (hz_retired h')" "0 \<notin> set fr"
    "set fr \<inter> set (concat others) = {}"
    by (auto simp: hzdptr_retire_def Let_def split: if_splits)
qed

lemma retire_ring_pub:
  assumes r: "retire_ring xxh32 i p q = Some q'" and q: "pub_ok {} q" and p: "p \<noteq> 0"
  shows "pub_ok {i} q'"
proof -
  from r obtain hdl h fr where hdl: "handle_at i q = Some hdl"
    and h: "hzdptr_retire (ring_hash xxh32 q) (ring_hash xxh32 q) (other_hzds i q) p (hd_hzdptr hdl) = (h, fr)"
    and q': "q' = (handle_set i (hdl\<lparr>hd_hzdptr := h\<rparr>) q)\<lparr>lq_freed := lq_freed q @ fr\<rparr>"
    by (auto simp: retire_ring_def split: Option.bind_splits prod.splits)
  have ok: "handle_ok True (lq_freed q) (lq_nprocs q) hdl" using pub_okD [OF q hdl] by simp
  have "0 < hz_nprocs (hd_hzdptr hdl)" "length (concat (other_hzds i q)) \<le> hz_nprocs (hd_hzdptr hdl)" "0 \<notin> set (hz_retired (hd_hzdptr hdl))"
    using ok q other_hzds_ok(1) [OF q hdl] by (auto simp: handle_ok_def pub_ok_def)
  note b = hzdptr_retire_bounds [OF h p this(3) handle_ok_length [OF ok] this(1,2)]
  have i: "i < length (lq_hds q)" using hdl by (simp add: handle_at_iff)
  have at: "handle_at j q' = (if j = i then Some (hdl\<lparr>hd_hzdptr := h\<rparr>) else handle_at j q)" for j
    using handle_at_set [OF i, of j] by (simp add: q' handle_at_def)
  have sel: "lq_hzds q' = lq_hzds q" "lq_freed q' = lq_freed q @ fr" "lq_nprocs q' = lq_nprocs q" "length (lq_hds q') = length (lq_hds q)"
    by (simp_all add: q' handle_set_def)
  have "handle_ok (j \<notin> {i}) (lq_freed q @ fr) (lq_nprocs q) g" if "handle_at j q = Some g" "j \<noteq> i" for j g
    using pub_okD [OF q that(1)] other_hzds_ok(2) [OF q hdl that] b(5) by (auto simp: handle_ok_def)
  moreover have "handle_ok (i \<notin> {i}) (lq_freed q @ fr) (lq_nprocs q) (hdl\<lparr>hd_hzdptr := h\<rparr>)"
    using ok b by (auto simp: handle_ok_def)
  ultimately show ?thesis using q b(4) hdl unfolding pub_ok_def sel at by auto
qed

lemma ring_at_not_freed: "ring_at p q = Some r \<Longrightarrow> p \<notin> set (lq_freed q) \<and> p \<noteq> 0"
  by (auto simp: ring_at_def split: if_splits)

lemma get_turn_pub:
  assumes t: "get_turn xxh32 i q = Some (res, q')" and q: "pub_ok {i} q"
  shows "pub_ok (if res = None then {i} else {}) q'"
proof -
  from t obtain rq q1 r where q1: "protect i (lq_head q) q = Some (rq, q1)" "ring_at rq q1 = Some r"
    by (auto simp: get_turn_def split: Option.bind_splits)
  then have p: "pub_ok {} q1" "rq \<noteq> 0"
    using protect_pub [OF q1(1) q] ring_at_not_freed [OF q1(2)] by auto
  from t obtain res1 r1 where "get_cell (rq_head r) 0 0 (r\<lparr>rq_head := rq_head r + 1\<rparr>) = Some (res1, r1)"
    using q1 by (auto simp: get_turn_def Let_def split: Option.bind_splits)
  with t show ?thesis
    using q1 p retire_ring_pub [of xxh32 i rq "(ring_set rq (fix_state r1) (ring_set rq r1 q1))\<lparr>lq_head := rq_next (fix_state r1)\<rparr>"]
    by (auto simp: get_turn_def Let_def pub_ok_weaken split: option.splits if_splits Option.bind_splits)
qed

lemma lcrq_get_pub:
  assumes "lcrq_get xxh32 i q = Some (v, q')" and "pub_ok {i} q"
  shows "pub_ok {} q'"
proof -
  have "pub_ok {i} q \<longrightarrow> pub_ok {} (snd (v, q'))"
  proof (rule lcrq_get.raw_induct [OF _ assms(1), where P = "\<lambda>_ i q y. pub_ok {i} q \<longrightarrow> pub_ok {} (snd y)"])
    fix f xxh32 i q y
    assume IH: "\<And>xxh32 i q y. f xxh32 i q = Some y \<Longrightarrow> pub_ok {i} q \<longrightarrow> pub_ok {} (snd y)"
      and "Option.bind (get_turn xxh32 i q) (\<lambda>x. case x of (None, q') \<Rightarrow> f xxh32 i q' | (Some val, q') \<Rightarrow> Some (val, q')) = Some y"
    then obtain res q1 where t: "get_turn xxh32 i q = Some (res, q1)"
      and y: "(case res of None \<Rightarrow> f xxh32 i q1 | Some val \<Rightarrow> Some (val, q1)) = Some y" by (auto split: Option.bind_splits)
    show "pub_ok {i} q \<longrightarrow> pub_ok {} (snd y)" using get_turn_pub [OF t] IH [of xxh32 i q1 y] y by (auto split: option.splits)
  qed
  with assms(2) show ?thesis by simp
qed

lemma put_alloc_pub:
  assumes "put_alloc i arg rq q = Some (ok, q')" and "pub_ok {} q"
  shows "pub_ok {} q'"
proof -
  have keep: "pub_ok {} (handle_set i (hdl\<lparr>hd_next := 0\<rparr>) q1)" if "pub_ok {} q1" "handle_at i q1 = Some hdl" for hdl q1
    by (rule pub_ok_handle_set [OF that]) (use pub_okD [OF that] in \<open>auto simp: handle_ok_def\<close>)
  from assms(1) obtain hdl where hdl: "handle_at i q = Some hdl" by (auto simp: put_alloc_def split: Option.bind_splits)
  then show ?thesis using assms keep
    by (auto simp: put_alloc_def Let_def split: if_splits Option.bind_splits)
qed

lemma put_turn_pub:
  assumes t: "put_turn i arg k q = Some (res, q')" and q: "pub_ok {} q"
  shows "pub_ok {} q'"
proof -
  from t obtain rq q1 r where q1: "protect i (lq_tail q) q = Some (rq, q1)" "ring_at rq q1 = Some r"
    by (auto simp: put_turn_def split: Option.bind_splits)
  then have p: "pub_ok {} q1"
    using protect_pub [OF q1(1) q] ring_at_not_freed [OF q1(2)] by auto
  from t q1 p show ?thesis
    by (auto simp: put_turn_def Let_def split: if_splits put_outcome.splits prod.splits Option.bind_splits dest: put_alloc_pub)
qed

lemma lcrq_put_pub:
  assumes "lcrq_put i arg k q = Some q'" and "pub_ok {} q"
  shows "pub_ok {} q'"
proof -
  have "pub_ok {} q \<longrightarrow> pub_ok {} q'"
  proof (rule lcrq_put.raw_induct [OF _ assms(1), where P = "\<lambda>_ _ _ q y. pub_ok {} q \<longrightarrow> pub_ok {} y"])
    fix f i arg k q y
    assume IH: "\<And>i arg k q y. f i arg k q = Some y \<Longrightarrow> pub_ok {} q \<longrightarrow> pub_ok {} y"
      and "Option.bind (put_turn i arg k q) (\<lambda>x. case x of (None, q') \<Rightarrow> Some q' | (Some n, q') \<Rightarrow> f i arg n q') = Some y"
    then obtain res q1 where t: "put_turn i arg k q = Some (res, q1)"
      and y: "(case res of None \<Rightarrow> Some q1 | Some n \<Rightarrow> f i arg n q1) = Some y" by (auto split: Option.bind_splits)
    show "pub_ok {} q \<longrightarrow> pub_ok {} y" using put_turn_pub [OF t] IH [of i arg _ q1 y] y by (auto split: option.splits)
  qed
  with assms(2) show ?thesis by simp
qed

text \<open>When a read returns, its handle protects the ring at the head.\<close>

lemma get_turn_publishes:
  assumes t: "get_turn xxh32 i q = Some (Some v, q')" and q: "pub_ok {i} q"
  shows "\<exists>hdl. handle_at i q' = Some hdl \<and> hz_ptrs (hd_hzdptr hdl) = [lq_head q']"
proof -
  from t obtain rq q1 r where q1: "protect i (lq_head q) q = Some (rq, q1)" "ring_at rq q1 = Some r"
    by (auto simp: get_turn_def split: Option.bind_splits)
  then obtain hdl where hdl: "handle_at i q = Some hdl" and rq: "rq = lq_head q"
    and q1': "q1 = handle_set i (hdl\<lparr>hd_hzdptr := hzdptr_set rq 0 (hd_hzdptr hdl)\<rparr>) q"
    by (auto simp: protect_def Let_def split: Option.bind_splits)
  have "length (hz_ptrs (hd_hzdptr hdl)) = 1" by (rule handle_ok_length [OF pub_okD [OF q hdl]])
  then have "(hz_ptrs (hd_hzdptr hdl))[0 := rq] = [rq]" by (cases "hz_ptrs (hd_hzdptr hdl)") auto
  then have 1: "\<exists>hdl. handle_at i q1 = Some hdl \<and> hz_ptrs (hd_hzdptr hdl) = [rq]" and 2: "lq_head q1 = rq"
    using hdl rq by (auto simp: q1' handle_at_iff handle_set_def hzdptr_set_def)
  with t q1 show ?thesis
    by (auto simp: get_turn_def Let_def split: option.splits if_splits Option.bind_splits)
qed

lemma lcrq_get_publishes:
  assumes "lcrq_get xxh32 i q = Some (v, q')" and "pub_ok {i} q"
  shows "\<exists>hdl. handle_at i q' = Some hdl \<and> hz_ptrs (hd_hzdptr hdl) = [lq_head q']"
proof -
  let ?P = "\<lambda>i q y. pub_ok {i} q \<longrightarrow> (\<exists>hdl. handle_at i (snd y) = Some hdl \<and> hz_ptrs (hd_hzdptr hdl) = [lq_head (snd y)])"
  have "?P i q (v, q')"
  proof (rule lcrq_get.raw_induct [OF _ assms(1), where P = "\<lambda>_. ?P"])
    fix f xxh32 i q y
    assume IH: "\<And>xxh32 i q y. f xxh32 i q = Some y \<Longrightarrow> ?P i q y"
      and "Option.bind (get_turn xxh32 i q) (\<lambda>x. case x of (None, q') \<Rightarrow> f xxh32 i q' | (Some val, q') \<Rightarrow> Some (val, q')) = Some y"
    then obtain res q1 where t: "get_turn xxh32 i q = Some (res, q1)"
      and y: "(case res of None \<Rightarrow> f xxh32 i q1 | Some val \<Rightarrow> Some (val, q1)) = Some y" by (auto split: Option.bind_splits)
    show "?P i q y"
    proof (cases res)
      case None
      with get_turn_pub [OF t] IH [of xxh32 i q1 y] y show ?thesis by simp
    next
      case (Some val)
      with get_turn_publishes [of xxh32 i q val q1] t y show ?thesis by auto
    qed
  qed
  with assms(2) show ?thesis by simp
qed

section \<open>The end of a queue\<close>

lemma lcrq_drain_step:
  "get_handle (lq_nprocs q) q = Some q1 \<Longrightarrow> lcrq_get xxh32 (lq_nprocs q) q1 = Some (v, q2) \<Longrightarrow>
   lcrq_drain xxh32 q = (if v = - 1 then Some q2 else lcrq_drain xxh32 q2)"
  by (subst lcrq_drain.simps) simp

lemma lcrq_drain_ok:
  assumes "lcrq_parts q n pre mid l zs h ys" and "lcrq_within (n + length (zs @ ys))" and "pub_ok {} q" and "- 1 \<notin> set (zs @ ys)"
  shows "\<exists>q' n' pre' l' h' hdl. lcrq_drain xxh32 q = Some q' \<and> lcrq_parts q' n' pre' [] l' [] h' [] \<and> pub_ok {} q' \<and>
    lq_nprocs q' = lq_nprocs q \<and> handle_at (lq_nprocs q) q' = Some hdl \<and> hz_ptrs (hd_hzdptr hdl) = [lq_head q']"
  using assms
proof (induction "zs @ ys" arbitrary: q n pre mid l zs h ys)
  case Nil
  from get_handle_parts [OF Nil.prems(1) order_refl] obtain q1 hdl where q1: "get_handle (lq_nprocs q) q = Some q1"
    "handle_at (lq_nprocs q) q1 = Some hdl" "lcrq_parts q1 n pre mid l zs h ys" "lq_nprocs q1 = lq_nprocs q" by blast
  have w: "lcrq_within n" using Nil by simp
  have pub: "pub_ok {lq_nprocs q} q1" using get_handle_pub [OF q1(1) Nil.prems(3)] by (rule pub_ok_weaken)
  from lcrq_get_parts [OF q1(3) w q1(2), of xxh32] Nil(1) [symmetric] obtain q' pre' l' zs' h' ys'
    where q': "lcrq_get xxh32 (lq_nprocs q) q1 = Some (- 1, q')" "lcrq_parts q' (Suc n) pre' [] l' zs' h' ys'" "lq_nprocs q' = lq_nprocs q1"
      "zs' @ ys' = []" by (auto simp del: append_is_Nil_conv)
  moreover have "lcrq_drain xxh32 q = Some q'" using lcrq_drain_step [OF q1(1) q'(1)] by simp
  ultimately show ?case using lcrq_get_pub [OF q'(1) pub] lcrq_get_publishes [OF q'(1) pub] q1(4) by auto
next
  case (Cons x xs)
  from get_handle_parts [OF Cons.prems(1) order_refl] obtain q1 hdl where q1: "get_handle (lq_nprocs q) q = Some q1"
    "handle_at (lq_nprocs q) q1 = Some hdl" "lcrq_parts q1 n pre mid l zs h ys" "lq_nprocs q1 = lq_nprocs q" by blast
  have w: "lcrq_within n" using Cons.prems(2) by (auto simp: lcrq_within_def intro: pos_ok_mono)
  have pub: "pub_ok {lq_nprocs q} q1" using get_handle_pub [OF q1(1) Cons.prems(3)] by (rule pub_ok_weaken)
  have "zs @ ys \<noteq> []" using Cons.hyps(2) by (metis list.distinct(1))
  with lcrq_get_parts [OF q1(3) w q1(2), of xxh32] obtain v q2 pre' mid' l' zs' h' ys'
    where q2: "lcrq_get xxh32 (lq_nprocs q) q1 = Some (v, q2)" "lcrq_parts q2 (Suc n) pre' mid' l' zs' h' ys'" "lq_nprocs q2 = lq_nprocs q1"
      "v # zs' @ ys' = zs @ ys" unfolding if_not_P [OF \<open>zs @ ys \<noteq> []\<close>] by blast
  with Cons.hyps(2) have xs: "v = x" "xs = zs' @ ys'" by (metis list.inject)+
  have "v \<noteq> - 1" "- 1 \<notin> set (zs' @ ys')" using Cons.prems(4) unfolding q2(4) [symmetric] by auto
  moreover have "lcrq_within (Suc n + length (zs' @ ys'))" using Cons.prems(2) unfolding q2(4) [symmetric] by simp
  moreover have "pub_ok {} q2" using lcrq_get_pub [OF q2(1) pub] .
  ultimately show ?case using Cons.hyps(1) [OF xs(2) q2(2)] lcrq_drain_step [OF q1(1) q2(1)] q2(3) q1(4) by simp
qed

lemma fold_free_insert: "distinct acc \<Longrightarrow> distinct (fold free_insert xs acc) \<and> set (fold free_insert xs acc) = set xs \<union> set acc"
  by (induction xs arbitrary: acc) (auto simp: free_insert_def)

lemma lcrq_to_free_distinct: "distinct (lcrq_to_free q)"
  by (simp add: lcrq_to_free_def fold_free_insert)

lemma lcrq_to_free_set: "set (lcrq_to_free q) =
    set (concat (map (\<lambda>j. case handle_at j q of Some hdl \<Rightarrow> published hdl @ [Ptrs_of j] | None \<Rightarrow> []) (butlast (lq_hzds q)))) \<union>
    set (concat (map (\<lambda>j. case handle_at j q of Some hdl \<Rightarrow> Ptrs_of j # published hdl @ [Handle_of j] | None \<Rightarrow> []) [0..<Suc (lq_nprocs q)]))"
  by (simp only: lcrq_to_free_def fold_free_insert [OF distinct.simps(1) [THEN iffD2, OF TrueI], THEN conjunct2] set_append list.set Un_empty_right)

lemma lcrq_to_free_ring:
  assumes "length (lq_hds q) = Suc (lq_nprocs q)"
  shows "Ring_at p \<in> set (lcrq_to_free q) \<longleftrightarrow> p \<noteq> 0 \<and> (\<exists>j hdl. handle_at j q = Some hdl \<and> p \<in> set (hz_ptrs (hd_hzdptr hdl)))"
proof -
  have "Ring_at p \<in> set (case handle_at j q of Some hdl \<Rightarrow> published hdl @ [Ptrs_of j] | None \<Rightarrow> []) \<longleftrightarrow>
      (\<exists>hdl. handle_at j q = Some hdl \<and> Ring_at p \<in> set (published hdl))"
    "Ring_at p \<in> set (case handle_at j q of Some hdl \<Rightarrow> Ptrs_of j # published hdl @ [Handle_of j] | None \<Rightarrow> []) \<longleftrightarrow>
      (\<exists>hdl. handle_at j q = Some hdl \<and> Ring_at p \<in> set (published hdl))" for j
    by (cases "handle_at j q"; simp)+
  then have "Ring_at p \<in> set (lcrq_to_free q) \<longleftrightarrow>
      (\<exists>j \<in> set (butlast (lq_hzds q)) \<union> {0..<Suc (lq_nprocs q)}. \<exists>hdl. handle_at j q = Some hdl \<and> Ring_at p \<in> set (published hdl))"
    by (simp only: lcrq_to_free_set set_concat set_map set_upt image_image UN_iff Un_iff bex_Un)
  moreover have "j \<in> {0..<Suc (lq_nprocs q)}" if "handle_at j q = Some hdl" for j hdl using that assms by (simp add: handle_at_iff)
  moreover have "Ring_at p \<in> set (published hdl) \<longleftrightarrow> p \<noteq> 0 \<and> p \<in> set (hz_ptrs (hd_hzdptr hdl))" for hdl
    by (auto simp: published_def)
  ultimately show ?thesis by blast
qed

lemma lcrq_to_free_structs: "Queue_struct \<notin> set (lcrq_to_free q)" "Hds_array \<notin> set (lcrq_to_free q)"
  by (auto simp: lcrq_to_free_def fold_free_insert published_def split: option.splits)

lemma lcrq_new_pub: "0 < nprocs \<Longrightarrow> pub_ok {} (lcrq_new nprocs)"
  by (auto simp: pub_ok_def lcrq_new_def handle_at_iff simp del: replicate.simps)

lemma lcrq_ops_pub:
  "lcrq_write i v q = Some q' \<Longrightarrow> pub_ok {} q \<Longrightarrow> pub_ok {} q'"
  "lcrq_read_opt xxh32 i q = Some (r, q') \<Longrightarrow> pub_ok {} q \<Longrightarrow> pub_ok {} q'"
  by (auto simp: lcrq_write_def lcrq_read_opt_def lcrq_read_def split: if_splits Option.bind_splits
      dest: get_handle_pub lcrq_put_pub lcrq_get_pub [OF _ pub_ok_weaken])

lemma spec_run_length: "length (snd (spec_run ops xs)) \<le> length xs + length ops"
  by (induction ops xs rule: spec_run.induct) (auto split: prod.splits)

text \<open>
  At the end the unlinked rings are those retired or freed, and the last one is protected
  by the handle of the destructor.
\<close>

lemma mem_ok_cases:
  assumes "mem_ok a q"
  shows "distinct (lq_freed q)" and "1 \<le> p \<Longrightarrow> p \<le> a \<Longrightarrow> p \<notin> set (lq_freed q) \<Longrightarrow>
    \<exists>j hdl. handle_at j q = Some hdl \<and> p \<in> set (hz_retired (hd_hzdptr hdl))"
proof -
  from assms have sum: "(\<Sum>hdl\<in>#mset (lq_hds q). retired_by hdl) + mset (lq_freed q) = mset [1..<Suc a]" by (simp add: mem_ok_def)
  have "count (mset (lq_freed q)) p \<le> count (mset [1..<Suc a]) p" for p unfolding sum [symmetric] by simp
  moreover have "count (mset [1..<Suc a]) p \<le> 1" for p
    by (metis distinct_count_atmost_1 distinct_upt le_refl zero_le_one)
  ultimately have le: "count (mset (lq_freed q)) p \<le> 1" for p using le_trans by blast
  have "count (mset (lq_freed q)) p = (if p \<in> set (lq_freed q) then 1 else 0)" for p
    using le [of p] count_greater_zero_iff [of "mset (lq_freed q)" p] by (auto simp del: count_greater_zero_iff)
  then show "distinct (lq_freed q)" by (simp add: distinct_count_atmost_1)
  assume p: "1 \<le> p" "p \<le> a" "p \<notin> set (lq_freed q)"
  then have "p \<in># mset [1..<Suc a]" by auto
  then have "p \<in># (\<Sum>hdl\<in>#mset (lq_hds q). retired_by hdl)" unfolding sum [symmetric] using p(3) by simp
  then obtain h where "h \<in> set (lq_hds q)" "p \<in># retired_by h" by (auto simp: in_Union_mset_iff)
  then show "\<exists>j hdl. handle_at j q = Some hdl \<and> p \<in> set (hz_retired (hd_hzdptr hdl))"
    by (auto simp: retired_by_def in_set_conv_nth handle_at_iff split: option.splits)
qed

lemma to_free_not_freed:
  assumes q: "pub_ok {} q" and p: "p \<in> set (lq_freed q)"
  shows "Ring_at p \<notin> set (lcrq_to_free q)"
proof -
  have "length (lq_hds q) = Suc (lq_nprocs q)" using q by (simp add: pub_ok_def)
  moreover have "p \<notin> set (hz_ptrs (hd_hzdptr hdl))" if "handle_at j q = Some hdl" for j hdl
    using pub_okD [OF q that] p by (auto simp: handle_ok_def)
  ultimately show ?thesis by (auto simp: lcrq_to_free_ring)
qed

lemma lcrq_delete_ok:
  assumes q: "lcrq_rep nprocs q n xs" and pub: "pub_ok {} q" and w: "lcrq_within (n + length xs + 2)"
  shows "\<exists>fr q'. lcrq_delete xxh32 q = Some (fr @ [Queue_struct, Hds_array], q') \<and> fr = lcrq_to_free q' \<and>
    mem_ok (length (lq_rings q') - 1) q' \<and> pub_ok {} q' \<and> Ring_at (length (lq_rings q')) \<in> set fr"
proof -
  from q obtain pre mid l zs h ys where parts: "lcrq_parts q n pre mid l zs h ys" "xs = zs @ ys" "lq_nprocs q = nprocs"
    by (auto simp: lcrq_rep_def)
  have nm: "- 1 \<notin> set xs" by (rule lcrq_rep_storable [OF q])
  from get_handle_parts [OF parts(1) order_refl] obtain q1 hdl where q1: "get_handle (lq_nprocs q) q = Some q1"
    "handle_at (lq_nprocs q) q1 = Some hdl" "lcrq_parts q1 n pre mid l zs h ys" "lq_nprocs q1 = lq_nprocs q" by blast
  have "lcrq_within n" using w by (auto simp: lcrq_within_def intro: pos_ok_mono)
  from lcrq_put_parts [OF q1(3) this q1(2), of 0] obtain q2 mid2 l2 zs2 h2 ys2 where q2: "lcrq_put (lq_nprocs q) 0 0 q1 = Some q2"
    "lcrq_parts q2 (Suc n) pre mid2 l2 zs2 h2 ys2" "zs2 @ ys2 = zs @ ys @ [0]" "lq_nprocs q2 = lq_nprocs q1" by auto
  have "lcrq_within (Suc n + length (zs2 @ ys2))" "- 1 \<notin> set (zs2 @ ys2)" using w nm parts(2) unfolding q2(3) by simp_all
  moreover have "pub_ok {} q2" using lcrq_put_pub [OF q2(1)] get_handle_pub [OF q1(1) pub] by simp
  ultimately obtain q' n' pre' l' h' hdl' where q': "lcrq_drain xxh32 q2 = Some q'" "lcrq_parts q' n' pre' [] l' [] h' []" "pub_ok {} q'"
    "handle_at (lq_nprocs q2) q' = Some hdl'" "hz_ptrs (hd_hzdptr hdl') = [lq_head q']"
    using lcrq_drain_ok [OF q2(2), of xxh32] by blast
  have rings: "lq_head q' = length (lq_rings q')" "mem_ok (length (lq_rings q') - 1) q'" using q'(2) by (auto simp: lcrq_parts_def)
  have len: "length (lq_hds q') = Suc (lq_nprocs q')" using q'(3) by (simp add: pub_ok_def)
  have "length (lq_rings q') \<noteq> 0" "length (lq_rings q') \<in> set (hz_ptrs (hd_hzdptr hdl'))" using q'(2,5) rings(1) by (auto simp: lcrq_parts_def)
  with q'(4) have "Ring_at (length (lq_rings q')) \<in> set (lcrq_to_free q')" unfolding lcrq_to_free_ring [OF len] by blast
  with q1 q2 q' rings show ?thesis by (simp add: lcrq_delete_def)
qed

text \<open>
  C21: the account of the memory at the end of a queue. After any sequence of writes and reads by
  the processors, the destructor returns; over its life the queue frees no address twice,
  neither a ring nor a hazard pointer array, a handle or one of its two structures; it
  frees the last ring; and every other ring was freed, or is still in the retired list of a handle.
\<close>

theorem lcrq_frees_nothing_twice:
  assumes "list_all (op_ok (\<lambda>i. i < nprocs) (\<lambda>v. v \<noteq> 0 \<and> v \<noteq> - 1)) ops" and "length ops < 2 ^ 60" and "0 < nprocs"
  shows "\<exists>rs q fr q'. run_queue lcrq_write (lcrq_read_opt xxh32) ops (lcrq_new nprocs) = Some (rs, q) \<and>
    lcrq_delete xxh32 q = Some (fr, q') \<and> distinct (map Ring_at (lq_freed q') @ fr) \<and>
    Ring_at (length (lq_rings q')) \<in> set fr \<and>
    (\<forall>p. 1 \<le> p \<and> p < length (lq_rings q') \<longrightarrow>
       p \<in> set (lq_freed q') \<or> (\<exists>j hdl. handle_at j q' = Some hdl \<and> p \<in> set (hz_retired (hd_hzdptr hdl))))"
proof -
  have "length ops < 2 ^ 62" using assms(2) by simp
  from lcrq_run [OF assms(1) this, of xxh32] obtain q where q: "run_queue lcrq_write (lcrq_read_opt xxh32) ops (lcrq_new nprocs) = Some (fst (spec_run ops []), q)"
    "lcrq_rep nprocs q (length ops) (snd (spec_run ops []))" by blast
  have pub: "pub_ok {} q" by (rule run_queue_invariant [where I = "pub_ok {}", OF q(1) lcrq_new_pub [OF assms(3)] lcrq_ops_pub])
  have "lcrq_within (length ops + length (snd (spec_run ops [])) + 2)"
    using spec_run_length [of ops "[]"] assms(2) by (intro lcrq_within_run) simp
  from lcrq_delete_ok [OF q(2) pub this, of xxh32] obtain fr q' where q': "lcrq_delete xxh32 q = Some (fr @ [Queue_struct, Hds_array], q')"
    "fr = lcrq_to_free q'" "mem_ok (length (lq_rings q') - 1) q'" "pub_ok {} q'" "Ring_at (length (lq_rings q')) \<in> set fr" by blast
  have "set (map Ring_at (lq_freed q')) \<inter> set fr = {}" using to_free_not_freed [OF q'(4)] by (auto simp: q'(2))
  moreover have "distinct (map Ring_at (lq_freed q'))" using mem_ok_cases(1) [OF q'(3)] by (simp add: distinct_map inj_on_def)
  ultimately have d: "distinct (map Ring_at (lq_freed q') @ fr @ [Queue_struct, Hds_array])"
    using lcrq_to_free_distinct [of q'] lcrq_to_free_structs [of q'] by (auto simp: q'(2))
  have m: "p \<in> set (lq_freed q') \<or> (\<exists>j hdl. handle_at j q' = Some hdl \<and> p \<in> set (hz_retired (hd_hzdptr hdl)))"
    if "1 \<le> p \<and> p < length (lq_rings q')" for p
  proof -
    have "p \<le> length (lq_rings q') - 1" using that by linarith
    with mem_ok_cases(2) [OF q'(3), of p] that show ?thesis by blast
  qed
  show ?thesis
    by (intro exI [of _ "fst (spec_run ops [])"] exI [of _ q] exI [of _ "fr @ [Queue_struct, Hds_array]"] exI [of _ q'] conjI allI impI)
      (use q(1) q'(1,5) d m in simp_all)
qed

theorem lcrq_frees_nothing_twice_witness:
  "\<exists>rs q fr q'. run_queue lcrq_write (lcrq_read_opt (\<lambda>b. unat b)) [Put 0 5, Put 1 7, Get 1] (lcrq_new 2) = Some (rs, q) \<and>
    lcrq_delete (\<lambda>b. unat b) q = Some (fr, q') \<and> distinct (map Ring_at (lq_freed q') @ fr)"
  using lcrq_frees_nothing_twice [of 2 "[Put 0 5, Put 1 7, Get 1]" "\<lambda>b. unat b"] by auto

end
