(* ===== verification/Lcrq_Steps.thy ===== *)
theory Lcrq_Steps
  imports Lcrq
begin

text \<open>
  The enqueuers and the dequeuers of one ring of \<^verbatim>\<open>queues::lcrq\<close> (\<^verbatim>\<open>src/boson/src/queues/lcrq.cc\<close>), interleaved at
  every access to the ring: the fetch-and-add of the tail and of the head, the load of the index of a cell and
  the load of its value, the loads of the head and of the tail, and the compare-and-swap operations. Any number of
  threads runs; interleavings are sequentially consistent. The history of a run is kept in
  ghost lists: the positions stored to and taken from with their values, and the positions that
  a dequeuer gave up. \<^verbatim>\<open>Lcrq_Rings\<close> puts the rings together to the queue.
\<close>

section \<open>Program counters\<close>

text \<open>
  An enqueuer of \<open>arg\<close> with its count of attempts to close, its position \<open>t\<close>, and the index and value it loaded.
\<close>

datatype enq_pc =
    E_idle
  | E_try size_t nat
  | E_ticket size_t nat size_t
  | E_idx size_t nat size_t size_t
  | E_unsafe size_t nat size_t size_t size_t
  | E_cas size_t nat size_t size_t size_t
  | E_full size_t nat size_t
  | E_close size_t nat size_t
  | E_alloc size_t nat

text \<open>A dequeuer with its position \<open>h\<close>, its rounds and the tail it remembers, and the index and value it loaded.\<close>

datatype deq_pc =
    D_idle
  | D_loop size_t nat size_t
  | D_idx size_t nat size_t size_t
  | D_tail size_t nat size_t size_t size_t
  | D_skip size_t nat size_t size_t size_t
  | D_take size_t nat size_t size_t size_t
  | D_mark size_t nat size_t size_t size_t
  | D_btas size_t
  | D_break size_t
  | D_fix size_t
  | D_fix_tail size_t size_t
  | D_fix_head size_t size_t size_t
  | D_fix_cas size_t size_t size_t
  | D_next size_t
  | D_last size_t
  | D_move
  | D_again
  | D_empty

record crq_state =
  cr_ring :: ring_queue
  cr_enqs :: "enq_pc list"
  cr_deqs :: "deq_pc list"
  cr_tickets :: nat
  cr_put :: "(nat \<times> size_t) list"
  cr_got :: "(nat \<times> size_t) list"
  cr_gave_up :: "nat list"

definition crq_init :: "nat \<Rightarrow> nat \<Rightarrow> crq_state" where
  "crq_init ne nd = \<lparr>cr_ring = init_ring, cr_enqs = replicate ne E_idle, cr_deqs = replicate nd D_idle, cr_tickets = 0,
     cr_put = [], cr_got = [], cr_gave_up = []\<rparr>"

definition e_at :: "nat \<Rightarrow> enq_pc \<Rightarrow> crq_state \<Rightarrow> bool" where
  "e_at p pc s \<longleftrightarrow> p < length (cr_enqs s) \<and> cr_enqs s ! p = pc"

definition d_at :: "nat \<Rightarrow> deq_pc \<Rightarrow> crq_state \<Rightarrow> bool" where
  "d_at p pc s \<longleftrightarrow> p < length (cr_deqs s) \<and> cr_deqs s ! p = pc"

definition e_goto :: "nat \<Rightarrow> enq_pc \<Rightarrow> crq_state \<Rightarrow> crq_state" where
  "e_goto p pc s = s\<lparr>cr_enqs := (cr_enqs s)[p := pc]\<rparr>"

definition d_goto :: "nat \<Rightarrow> deq_pc \<Rightarrow> crq_state \<Rightarrow> crq_state" where
  "d_goto p pc s = s\<lparr>cr_deqs := (cr_deqs s)[p := pc]\<rparr>"

section \<open>Steps of an enqueuer\<close>

definition e_ticket :: "nat \<Rightarrow> size_t \<Rightarrow> nat \<Rightarrow> crq_state \<Rightarrow> crq_state" where
  "e_ticket p arg k s =
     (let t = rq_tail (cr_ring s) in
      e_goto p (if crq_is_closed t then E_alloc arg k else E_ticket arg k t)
        (s\<lparr>cr_ring := (cr_ring s)\<lparr>rq_tail := t + 1\<rparr>, cr_tickets := Suc (cr_tickets s)\<rparr>))"

text \<open>After the load of the value: the tests of \<^verbatim>\<open>lcrq_put\<close> up to the load of the head, if it is needed.\<close>

definition e_val :: "nat \<Rightarrow> size_t \<Rightarrow> nat \<Rightarrow> size_t \<Rightarrow> size_t \<Rightarrow> crq_state \<Rightarrow> crq_state" where
  "e_val p arg k t idx s =
     (let val = rn_val (rq_array (cr_ring s) ! ring_cell t) in
      e_goto p (if is_empty val \<and> node_index idx \<le> t
                then (if node_unsafe idx = 0 then E_cas arg k t idx val else E_unsafe arg k t idx val)
                else E_full arg k t) s)"

definition e_head :: "nat \<Rightarrow> size_t \<Rightarrow> nat \<Rightarrow> size_t \<Rightarrow> size_t \<Rightarrow> size_t \<Rightarrow> crq_state \<Rightarrow> crq_state" where
  "e_head p arg k t idx val s =
     e_goto p (if sint (rq_head (cr_ring s)) < sint t then E_cas arg k t idx val else E_full arg k t) s"

definition e_cas :: "nat \<Rightarrow> size_t \<Rightarrow> nat \<Rightarrow> size_t \<Rightarrow> size_t \<Rightarrow> size_t \<Rightarrow> crq_state \<Rightarrow> crq_state" where
  "e_cas p arg k t idx val s =
     (case CAS2 (ring_cell t) val idx arg t (cr_ring s) of
        Some r \<Rightarrow> e_goto p E_idle (s\<lparr>cr_ring := r, cr_put := cr_put s @ [(unat t, arg)]\<rparr>)
      | None \<Rightarrow> e_goto p (E_full arg k t) s)"

definition e_full :: "nat \<Rightarrow> size_t \<Rightarrow> nat \<Rightarrow> size_t \<Rightarrow> crq_state \<Rightarrow> crq_state" where
  "e_full p arg k t s =
     e_goto p (if sint RING_SIZE \<le> sint (t - rq_head (cr_ring s)) then E_close arg (Suc k) t else E_try arg k) s"

definition e_close :: "nat \<Rightarrow> size_t \<Rightarrow> nat \<Rightarrow> size_t \<Rightarrow> crq_state \<Rightarrow> crq_state" where
  "e_close p arg k t s =
     (case close_crq t k (cr_ring s) of
        (closed, r) \<Rightarrow> e_goto p (if closed then E_alloc arg k else E_try arg k) (s\<lparr>cr_ring := r\<rparr>))"

section \<open>Steps of a dequeuer\<close>

definition d_ticket :: "nat \<Rightarrow> crq_state \<Rightarrow> crq_state" where
  "d_ticket p s =
     (let h = rq_head (cr_ring s) in
      d_goto p (D_loop h 0 0) (s\<lparr>cr_ring := (cr_ring s)\<lparr>rq_head := h + 1\<rparr>, cr_tickets := Suc (cr_tickets s)\<rparr>))"

definition gives_up :: "size_t \<Rightarrow> crq_state \<Rightarrow> crq_state" where
  "gives_up h s = s\<lparr>cr_gave_up := cr_gave_up s @ [unat h]\<rparr>"

text \<open>What to do with an empty cell, with the tail \<open>tt\<close>.\<close>

definition d_decide :: "size_t \<Rightarrow> nat \<Rightarrow> size_t \<Rightarrow> size_t \<Rightarrow> size_t \<Rightarrow> deq_pc" where
  "d_decide h rounds tt cell_idx val =
     (if node_unsafe cell_idx \<noteq> 0 \<or> tail_index tt < h + 1 \<or> 200000 < rounds \<or> crq_is_closed tt
      then D_skip h rounds tt cell_idx val else D_loop h (Suc rounds) tt)"

definition d_val :: "nat \<Rightarrow> size_t \<Rightarrow> nat \<Rightarrow> size_t \<Rightarrow> size_t \<Rightarrow> crq_state \<Rightarrow> crq_state" where
  "d_val p h rounds tt cell_idx s =
     (let idx = node_index cell_idx; val = rn_val (rq_array (cr_ring s) ! ring_cell h) in
      if idx > h then d_goto p (D_break h) (gives_up h s)
      else d_goto p
        (if \<not> is_empty val then (if idx = h then D_take h rounds tt cell_idx val else D_mark h rounds tt cell_idx val)
         else if rounds mod 2 ^ 10 = 0 then D_tail h rounds tt cell_idx val
         else d_decide h rounds tt cell_idx val) s)"

definition d_take :: "nat \<Rightarrow> size_t \<Rightarrow> nat \<Rightarrow> size_t \<Rightarrow> size_t \<Rightarrow> size_t \<Rightarrow> crq_state \<Rightarrow> crq_state" where
  "d_take p h rounds tt cell_idx val s =
     (case CAS2 (ring_cell h) val cell_idx (- 1) ((node_unsafe cell_idx OR h) + RING_SIZE) (cr_ring s) of
        Some r \<Rightarrow> d_goto p D_idle (s\<lparr>cr_ring := r, cr_got := cr_got s @ [(unat h, val)]\<rparr>)
      | None \<Rightarrow> d_goto p (D_loop h rounds tt) s)"

definition d_mark :: "nat \<Rightarrow> size_t \<Rightarrow> nat \<Rightarrow> size_t \<Rightarrow> size_t \<Rightarrow> size_t \<Rightarrow> crq_state \<Rightarrow> crq_state" where
  "d_mark p h rounds tt cell_idx val s =
     (case CAS2 (ring_cell h) val cell_idx val (set_unsafe (node_index cell_idx)) (cr_ring s) of
        Some r \<Rightarrow> d_goto p (D_break h) (gives_up h (s\<lparr>cr_ring := r\<rparr>))
      | None \<Rightarrow> d_goto p (D_loop h rounds tt) s)"

text \<open>The compare-and-swap of an unsafe cell, or of a safe one with the index that was loaded.\<close>

definition d_skip :: "nat \<Rightarrow> size_t \<Rightarrow> nat \<Rightarrow> size_t \<Rightarrow> size_t \<Rightarrow> size_t \<Rightarrow> crq_state \<Rightarrow> crq_state" where
  "d_skip p h rounds tt cell_idx val s =
     (let safe = (node_unsafe cell_idx = 0);
          res = (if safe then CAS2 (ring_cell h) val (node_index cell_idx) val (h + RING_SIZE) (cr_ring s)
                 else CAS2 (ring_cell h) val cell_idx val ((node_unsafe cell_idx OR h) + RING_SIZE) (cr_ring s)) in
      case res of
        Some r \<Rightarrow> d_goto p (if safe \<and> 200000 < rounds \<and> RING_SIZE < tt then D_btas h else D_break h) (gives_up h (s\<lparr>cr_ring := r\<rparr>))
      | None \<Rightarrow> d_goto p (D_loop h rounds tt) s)"

definition d_check :: "nat \<Rightarrow> size_t \<Rightarrow> crq_state \<Rightarrow> crq_state" where
  "d_check p h s = d_goto p (if tail_index (rq_tail (cr_ring s)) \<le> h + 1 then D_fix h else D_again) s"

text \<open>
  The repair of the tail at the end of the attempt at position \<open>h0\<close>; then the load of \<^verbatim>\<open>next\<close>, the second look
  at the tail, and the move of \<^verbatim>\<open>q->head\<close>.
\<close>

definition d_fix :: "nat \<Rightarrow> size_t \<Rightarrow> size_t \<Rightarrow> size_t \<Rightarrow> crq_state \<Rightarrow> crq_state" where
  "d_fix p h0 t h s =
     d_goto p (if rq_tail (cr_ring s) \<noteq> t then D_fix h0 else if t < h then D_fix_cas h0 t h else D_next h0) s"

definition d_fix_cas :: "nat \<Rightarrow> size_t \<Rightarrow> size_t \<Rightarrow> size_t \<Rightarrow> crq_state \<Rightarrow> crq_state" where
  "d_fix_cas p h0 t h s =
     (if rq_tail (cr_ring s) = t then d_goto p (D_next h0) (s\<lparr>cr_ring := (cr_ring s)\<lparr>rq_tail := h\<rparr>\<rparr>) else d_goto p (D_fix h0) s)"

definition d_next :: "nat \<Rightarrow> size_t \<Rightarrow> crq_state \<Rightarrow> crq_state" where
  "d_next p h0 s = d_goto p (if rq_next (cr_ring s) = 0 then D_empty else D_last h0) s"

definition d_last :: "nat \<Rightarrow> size_t \<Rightarrow> crq_state \<Rightarrow> crq_state" where
  "d_last p h0 s = d_goto p (if tail_index (rq_tail (cr_ring s)) \<le> h0 + 1 then D_move else D_again) s"

section \<open>Interleavings\<close>

text \<open>
  The values are not the all-ones word, which stands for an empty cell. An enqueuer comes to the ring, and leaves it, at
  the top of its loop; a new ring is linked behind a closed one.
\<close>

inductive crq_step :: "crq_state \<Rightarrow> crq_state \<Rightarrow> bool" where
  enq_begin: "e_at p E_idle s \<Longrightarrow> arg \<noteq> - 1 \<Longrightarrow> crq_step s (e_goto p (E_try arg k) s)"
| enq_leave: "e_at p (E_try arg k) s \<Longrightarrow> crq_step s (e_goto p E_idle s)"
| enq_ticket: "e_at p (E_try arg k) s \<Longrightarrow> crq_step s (e_ticket p arg k s)"
| enq_idx: "e_at p (E_ticket arg k t) s \<Longrightarrow>
    crq_step s (e_goto p (E_idx arg k t (rn_idx (rq_array (cr_ring s) ! ring_cell t))) s)"
| enq_val: "e_at p (E_idx arg k t idx) s \<Longrightarrow> crq_step s (e_val p arg k t idx s)"
| enq_head: "e_at p (E_unsafe arg k t idx val) s \<Longrightarrow> crq_step s (e_head p arg k t idx val s)"
| enq_cas: "e_at p (E_cas arg k t idx val) s \<Longrightarrow> crq_step s (e_cas p arg k t idx val s)"
| enq_full: "e_at p (E_full arg k t) s \<Longrightarrow> crq_step s (e_full p arg k t s)"
| enq_close: "e_at p (E_close arg k t) s \<Longrightarrow> crq_step s (e_close p arg k t s)"
| enq_alloc: "e_at p (E_alloc arg k) s \<Longrightarrow> crq_step s (e_goto p E_idle s)"
| link: "crq_is_closed (rq_tail (cr_ring s)) \<Longrightarrow> rq_next (cr_ring s) = 0 \<Longrightarrow> n \<noteq> 0 \<Longrightarrow> crq_step s (s\<lparr>cr_ring := (cr_ring s)\<lparr>rq_next := n\<rparr>\<rparr>)"
| deq_ticket: "d_at p D_idle s \<Longrightarrow> crq_step s (d_ticket p s)"
| deq_idx: "d_at p (D_loop h rounds tt) s \<Longrightarrow>
    crq_step s (d_goto p (D_idx h rounds tt (rn_idx (rq_array (cr_ring s) ! ring_cell h))) s)"
| deq_val: "d_at p (D_idx h rounds tt cell_idx) s \<Longrightarrow> crq_step s (d_val p h rounds tt cell_idx s)"
| deq_tail: "d_at p (D_tail h rounds tt cell_idx val) s \<Longrightarrow>
    crq_step s (d_goto p (d_decide h rounds (rq_tail (cr_ring s)) cell_idx val) s)"
| deq_skip: "d_at p (D_skip h rounds tt cell_idx val) s \<Longrightarrow> crq_step s (d_skip p h rounds tt cell_idx val s)"
| deq_take: "d_at p (D_take h rounds tt cell_idx val) s \<Longrightarrow> crq_step s (d_take p h rounds tt cell_idx val s)"
| deq_mark: "d_at p (D_mark h rounds tt cell_idx val) s \<Longrightarrow> crq_step s (d_mark p h rounds tt cell_idx val s)"
| deq_btas: "d_at p (D_btas h) s \<Longrightarrow>
    crq_step s (d_goto p (D_break h) (s\<lparr>cr_ring := snd (BTAS_tail (cr_ring s))\<rparr>))"
| deq_check: "d_at p (D_break h) s \<Longrightarrow> crq_step s (d_check p h s)"
| deq_fix_tail: "d_at p (D_fix h0) s \<Longrightarrow> crq_step s (d_goto p (D_fix_tail h0 (rq_tail (cr_ring s))) s)"
| deq_fix_head: "d_at p (D_fix_tail h0 t) s \<Longrightarrow> crq_step s (d_goto p (D_fix_head h0 t (rq_head (cr_ring s))) s)"
| deq_fix: "d_at p (D_fix_head h0 t h) s \<Longrightarrow> crq_step s (d_fix p h0 t h s)"
| deq_fix_cas: "d_at p (D_fix_cas h0 t h) s \<Longrightarrow> crq_step s (d_fix_cas p h0 t h s)"
| deq_next: "d_at p (D_next h0) s \<Longrightarrow> crq_step s (d_next p h0 s)"
| deq_last: "d_at p (D_last h0) s \<Longrightarrow> crq_step s (d_last p h0 s)"
| deq_leave: "d_at p pc s \<Longrightarrow> pc \<in> {D_again, D_empty, D_move} \<Longrightarrow> crq_step s (d_goto p D_idle s)"

abbreviation crq_reach :: "nat \<Rightarrow> nat \<Rightarrow> crq_state \<Rightarrow> bool" where
  "crq_reach ne nd s \<equiv> crq_step\<^sup>*\<^sup>* (crq_init ne nd) s"

section \<open>Cells\<close>

definition c_idx :: "ring_node \<Rightarrow> nat" where
  "c_idx c = unat (node_index (rn_idx c))"

abbreviation c_full :: "ring_node \<Rightarrow> bool" where
  "c_full c \<equiv> rn_val c \<noteq> - 1"

abbreviation c_unsafe :: "ring_node \<Rightarrow> bool" where
  "c_unsafe c \<equiv> node_unsafe (rn_idx c) \<noteq> 0"

lemma set_unsafe_add: "pos_ok p \<Longrightarrow> set_unsafe (of_nat p) = of_nat p + unsafe_bit"
proof -
  assume "pos_ok p"
  then have "of_nat p AND unsafe_bit = 0" using pos_flags(1) [of p] by (simp add: node_unsafe_def)
  then show ?thesis by (simp add: set_unsafe_def disjunctive_add_eq_or)
qed

text \<open>A word is a position, with or without its flag.\<close>

lemma flag_cases:
  obtains (safe) p where "pos_ok p" "w = of_nat p"
  | (unsafe) p where "pos_ok p" "w = set_unsafe (of_nat p)"
proof -
  define x where "x = w AND NOT unsafe_bit"
  have "unat x < 2 ^ 63"
  proof -
    have "x = take_bit 63 x" by (rule bit_eqI) (auto simp: x_def bit_simps bit_unsafe_bit)
    then have "unat x = take_bit 63 (unat x)" by (metis unsigned_take_bit_eq)
    also have "\<dots> < 2 ^ 63" by (rule take_bit_nat_less_exp)
    finally show ?thesis .
  qed
  then have x: "pos_ok (unat x)" "x = of_nat (unat x)" by (simp_all add: pos_ok_def)
  show thesis
  proof (cases "bit w 63")
    case True
    then have "w = x OR unsafe_bit" by (intro bit_eqI) (auto simp: x_def bit_simps bit_unsafe_bit)
    then show thesis using unsafe [OF x(1)] x(2) by (simp add: set_unsafe_def)
  next
    case False
    then have "w = x" by (intro bit_eqI) (auto simp: x_def bit_simps bit_unsafe_bit)
    then show thesis using safe [OF x(1)] x(2) by simp
  qed
qed

lemma unsafe_bit_neq [simp]: "unsafe_bit \<noteq> 0"
  using bit_unsafe_bit [of 63] by auto

lemma flagged:
  assumes "pos_ok p"
  shows "node_index (set_unsafe (of_nat p)) = of_nat p" and "node_unsafe (set_unsafe (of_nat p)) = unsafe_bit"
proof -
  have "set_unsafe (of_nat p) AND unsafe_bit = unsafe_bit" by (rule bit_eqI) (auto simp: set_unsafe_def bit_simps bit_unsafe_bit)
  then show "node_unsafe (set_unsafe (of_nat p)) = unsafe_bit" by (simp add: node_unsafe_def)
  show "node_index (set_unsafe (of_nat p)) = of_nat p"
    using pos_flags(5) [OF assms] by (simp add: node_index_def tail_index_def)
qed

lemma flagged_add: "pos_ok (p + q) \<Longrightarrow> set_unsafe (of_nat p) + of_nat q = set_unsafe (of_nat (p + q))"
  using pos_ok_mono [of "p + q" p] set_unsafe_add [of "p + q"] by (simp add: set_unsafe_add add_ac)

lemma pos_of_unat: "unat w < 2 ^ 63 \<Longrightarrow> pos_ok (unat w) \<and> w = of_nat (unat w)"
  by (simp add: pos_ok_def)

lemma ring_cell_unat: "unat h < 2 ^ 63 \<Longrightarrow> ring_cell h = unat h mod ring_len"
  using pos_ring_cell [of "unat h"] pos_of_unat [of h] by simp

lemma node_index_bound: "unat (node_index w) < 2 ^ 63"
  by (cases w rule: flag_cases) (simp_all add: pos_flags flagged pos_unat, simp_all add: pos_ok_def)

lemma node_index_unsafe: "node_unsafe w = 0 \<Longrightarrow> node_index w = w"
  by (cases w rule: flag_cases) (auto simp: pos_flags flagged)

lemma node_index_small: "unat w < 2 ^ 63 \<Longrightarrow> node_index w = w \<and> node_unsafe w = 0"
  using pos_of_unat [of w] pos_flags [of "unat w"] by metis

lemma mark_flags: "node_index (set_unsafe (node_index w)) = node_index w" "node_unsafe (set_unsafe (node_index w)) \<noteq> 0"
  by (cases w rule: flag_cases; simp add: pos_flags flagged)+

lemma skip_flags:
  assumes "unat h < 2 ^ 62"
  shows "unat (node_index ((node_unsafe w OR h) + RING_SIZE)) = unat h + ring_len"
    and "node_unsafe ((node_unsafe w OR h) + RING_SIZE) = 0 \<longleftrightarrow> node_unsafe w = 0"
proof -
  define p where "p = unat h"
  have p: "h = of_nat p" "pos_ok (p + ring_len)" "pos_ok p" using assms by (simp_all add: p_def pos_ok_def ring_len_def)
  have "unsafe_bit OR h = set_unsafe (of_nat p)" by (simp add: set_unsafe_def p(1) or.commute)
  then have x: "(node_unsafe w OR h) + RING_SIZE = (if node_unsafe w = 0 then of_nat (p + ring_len) else set_unsafe (of_nat (p + ring_len)))"
    using flagged_add [OF p(2)] by (cases w rule: flag_cases) (simp_all add: pos_flags flagged p(1) RING_SIZE_ring_len)
  show "unat (node_index ((node_unsafe w OR h) + RING_SIZE)) = unat h + ring_len"
    unfolding x p_def [symmetric] using p(2) pos_unat [OF p(2)] by (simp add: pos_flags(2) flagged(1) del: of_nat_add)
  show "node_unsafe ((node_unsafe w OR h) + RING_SIZE) = 0 \<longleftrightarrow> node_unsafe w = 0"
    unfolding x using p(2) by (simp add: pos_flags(1) flagged(2) del: of_nat_add)
qed

lemma tail_flags:
  assumes "unat (tail_index w) < 2 ^ 62"
  shows "unat (tail_index (w + 1)) = Suc (unat (tail_index w))"
proof (cases w rule: flag_cases)
  case (safe p)
  then have "p < 2 ^ 62" using assms by (simp add: pos_flags pos_unat)
  then have "pos_ok (p + 1)" by (simp add: pos_ok_def)
  then show ?thesis using safe pos_flags(3) [of "p + 1"] pos_unat [of "p + 1"] by (simp add: pos_flags(3) pos_unat add.commute)
next
  case (unsafe p)
  then have "p < 2 ^ 62" using assms by (simp add: pos_flags pos_unat)
  then have "pos_ok (p + 1)" by (simp add: pos_ok_def)
  then show ?thesis using unsafe flagged_add [of p 1] pos_flags(5) [of "p + 1"] pos_unat [of "p + 1"]
    by (simp add: pos_flags(5) pos_unat add.commute)
qed

lemma closed_flag: "crq_is_closed t \<longleftrightarrow> node_unsafe t \<noteq> 0" "tail_index t = node_index t"
  by (simp_all add: crq_is_closed_def node_unsafe_def tail_index_def node_index_def)

end
