(* ===== verification/Lcrq_Invariant.thy ===== *)
theory Lcrq_Invariant
  imports Lcrq_Steps
begin

text \<open>
  The invariant of one ring of \<^verbatim>\<open>queues::lcrq\<close> under the steps of \<^verbatim>\<open>Lcrq_Steps\<close>: the memory of the ring agrees with the history, and
  every program counter keeps what it learned from its loads. What the steps of the other threads keep is stated once
  (\<open>extends\<close>), and each kind of change of the ring has its lemma.
\<close>

section \<open>The invariant\<close>

text \<open>A cell never goes back: its index grows, and strictly when it is emptied.\<close>

definition cell_step :: "ring_node \<Rightarrow> ring_node \<Rightarrow> bool" where
  "cell_step c c' \<longleftrightarrow> c_idx c \<le> c_idx c' \<and> (c_full c \<and> \<not> c_full c' \<longrightarrow> c_idx c < c_idx c')"

text \<open>A compare-and-swap of an empty cell with the index \<open>idx\<close>, loaded before, can not succeed any more.\<close>

definition dead :: "size_t \<Rightarrow> ring_node \<Rightarrow> bool" where
  "dead idx c \<longleftrightarrow> unat (node_index idx) < c_idx c \<or> c_full c \<and> unat (node_index idx) \<le> c_idx c"

lemma dead_step: "dead idx c \<Longrightarrow> cell_step c c' \<Longrightarrow> dead idx c'"
  by (auto simp: dead_def cell_step_def)

lemma cell_step_refl [simp]: "cell_step c c"
  by (simp add: cell_step_def)

abbreviation cr_cell :: "nat \<Rightarrow> crq_state \<Rightarrow> ring_node" where
  "cr_cell p s \<equiv> cell (cr_ring s) p"

abbreviation cr_head :: "crq_state \<Rightarrow> nat" where
  "cr_head s \<equiv> unat (rq_head (cr_ring s))"

text \<open>The memory of the ring against the history.\<close>

definition ring_inv :: "crq_state \<Rightarrow> bool" where
  "ring_inv s \<longleftrightarrow>
     length (rq_array (cr_ring s)) = ring_len \<and>
     cr_head s \<le> cr_tickets s \<and> unat (tail_index (rq_tail (cr_ring s))) \<le> cr_tickets s \<and>
     (\<forall>c < ring_len. c_idx (rq_array (cr_ring s) ! c) mod ring_len = c) \<and>
     (\<forall>c < ring_len. c_full (rq_array (cr_ring s) ! c) \<longrightarrow>
        (c_idx (rq_array (cr_ring s) ! c), rn_val (rq_array (cr_ring s) ! c)) \<in> set (cr_put s)) \<and>
     (\<forall>p v. (p, v) \<in> set (cr_put s) \<longrightarrow>
        (if p \<in> fst ` set (cr_got s) then p < c_idx (cr_cell p s)
         else c_full (cr_cell p s) \<and> c_idx (cr_cell p s) = p \<and> v = rn_val (cr_cell p s))) \<and>
     distinct (map fst (cr_put s)) \<and> distinct (map fst (cr_got s)) \<and> set (cr_got s) \<subseteq> {x \<in> set (cr_put s). fst x < cr_head s} \<and>
     (\<forall>p \<in> set (cr_gave_up s). p < cr_head s \<and> p \<notin> fst ` set (cr_put s) \<and>
        (p < c_idx (cr_cell p s) \<or> c_unsafe (cr_cell p s)))"

text \<open>What a program counter knows, and what the others keep of it.\<close>

fun enq_ok :: "crq_state \<Rightarrow> enq_pc \<Rightarrow> bool" where
  "enq_ok s (E_try arg k) \<longleftrightarrow> arg \<noteq> - 1"
| "enq_ok s (E_ticket arg k t) \<longleftrightarrow> arg \<noteq> - 1 \<and> unat t < cr_tickets s"
| "enq_ok s (E_idx arg k t idx) \<longleftrightarrow> arg \<noteq> - 1 \<and> unat t < cr_tickets s \<and> unat (node_index idx) \<le> c_idx (cr_cell (unat t) s)"
| "enq_ok s (E_unsafe arg k t idx val) \<longleftrightarrow> arg \<noteq> - 1 \<and> unat t < cr_tickets s \<and> val = - 1 \<and>
     unat (node_index idx) \<le> c_idx (cr_cell (unat t) s) \<and> node_index idx \<le> t"
| "enq_ok s (E_cas arg k t idx val) \<longleftrightarrow> arg \<noteq> - 1 \<and> unat t < cr_tickets s \<and> val = - 1 \<and>
     unat (node_index idx) \<le> c_idx (cr_cell (unat t) s) \<and> node_index idx \<le> t \<and>
     (node_unsafe idx = 0 \<or> dead idx (cr_cell (unat t) s) \<or>
        (\<forall>p \<in> set (cr_gave_up s). p mod ring_len = unat t mod ring_len \<longrightarrow> p < unat t))"
| "enq_ok s (E_full arg k t) \<longleftrightarrow> arg \<noteq> - 1 \<and> unat t < cr_tickets s"
| "enq_ok s (E_close arg k t) \<longleftrightarrow> arg \<noteq> - 1 \<and> unat t < cr_tickets s"
| "enq_ok s (E_alloc arg k) \<longleftrightarrow> arg \<noteq> - 1"
| "enq_ok s _ \<longleftrightarrow> True"

fun deq_ticket_of :: "deq_pc \<Rightarrow> nat option" where
  "deq_ticket_of (D_loop h _ _) = Some (unat h)"
| "deq_ticket_of (D_idx h _ _ _) = Some (unat h)"
| "deq_ticket_of (D_tail h _ _ _ _) = Some (unat h)"
| "deq_ticket_of (D_skip h _ _ _ _) = Some (unat h)"
| "deq_ticket_of (D_take h _ _ _ _) = Some (unat h)"
| "deq_ticket_of (D_mark h _ _ _ _) = Some (unat h)"
| "deq_ticket_of _ = None"

fun deq_ok :: "crq_state \<Rightarrow> deq_pc \<Rightarrow> bool" where
  "deq_ok s (D_idx h _ _ idx) \<longleftrightarrow> unat (node_index idx) \<le> c_idx (cr_cell (unat h) s)"
| "deq_ok s (D_tail h _ _ idx val) \<longleftrightarrow> val = - 1 \<and> node_index idx \<le> h"
| "deq_ok s (D_skip h _ _ idx val) \<longleftrightarrow> val = - 1 \<and> node_index idx \<le> h"
| "deq_ok s (D_take h _ _ idx val) \<longleftrightarrow> val \<noteq> - 1 \<and> node_index idx = h"
| "deq_ok s (D_mark h _ _ idx val) \<longleftrightarrow> val \<noteq> - 1 \<and> node_index idx < h"
| "deq_ok s (D_btas h0) \<longleftrightarrow> unat h0 < cr_head s"
| "deq_ok s (D_break h0) \<longleftrightarrow> unat h0 < cr_head s"
| "deq_ok s (D_fix h0) \<longleftrightarrow> unat h0 < cr_head s"
| "deq_ok s (D_fix_tail h0 t) \<longleftrightarrow> unat h0 < cr_head s"
| "deq_ok s (D_fix_head h0 t h) \<longleftrightarrow> unat h0 < cr_head s \<and> unat h \<le> cr_tickets s"
| "deq_ok s (D_fix_cas h0 t h) \<longleftrightarrow> unat h0 < cr_head s \<and> t < h \<and> unat h \<le> cr_tickets s"
| "deq_ok s (D_next h0) \<longleftrightarrow> unat h0 < cr_head s"
| "deq_ok s (D_last h0) \<longleftrightarrow> unat h0 < cr_head s"
| "deq_ok s _ \<longleftrightarrow> True"

definition ticket_fresh :: "crq_state \<Rightarrow> nat \<Rightarrow> bool" where
  "ticket_fresh s h \<longleftrightarrow> h < cr_head s \<and> h \<notin> fst ` set (cr_got s) \<and> h \<notin> set (cr_gave_up s)"

definition pcs_inv :: "crq_state \<Rightarrow> bool" where
  "pcs_inv s \<longleftrightarrow>
     (\<forall>p < length (cr_enqs s). enq_ok s (cr_enqs s ! p)) \<and>
     (\<forall>p < length (cr_deqs s). deq_ok s (cr_deqs s ! p) \<and> (\<forall>h. deq_ticket_of (cr_deqs s ! p) = Some h \<longrightarrow> ticket_fresh s h)) \<and>
     (\<forall>p q h. p < length (cr_deqs s) \<longrightarrow> q < length (cr_deqs s) \<longrightarrow> p \<noteq> q \<longrightarrow>
        deq_ticket_of (cr_deqs s ! p) = Some h \<longrightarrow> deq_ticket_of (cr_deqs s ! q) \<noteq> Some h)"

text \<open>A step of another thread that uses up the tickets \<open>X\<close>.\<close>

definition extends :: "nat set \<Rightarrow> crq_state \<Rightarrow> crq_state \<Rightarrow> bool" where
  "extends X s s' \<longleftrightarrow>
     cr_tickets s \<le> cr_tickets s' \<and> cr_head s \<le> cr_head s' \<and>
     (\<forall>p. cell_step (cr_cell p s) (cr_cell p s')) \<and>
     fst ` set (cr_got s') \<union> set (cr_gave_up s') \<subseteq> fst ` set (cr_got s) \<union> set (cr_gave_up s) \<union> X \<and>
     (\<forall>p \<in> set (cr_gave_up s') - set (cr_gave_up s). c_full (cr_cell p s') \<or> p < c_idx (cr_cell p s'))"

lemma enq_ok_extends:
  assumes "extends X s s'" and "enq_ok s pc"
  shows "enq_ok s' pc"
proof (cases pc)
  case (E_cas arg k t idx val)
  let ?c = "cr_cell (unat t) s" and ?c' = "cr_cell (unat t) s'"
  have pc: "arg \<noteq> - 1" "unat t < cr_tickets s" "val = - 1" "unat (node_index idx) \<le> c_idx ?c" "node_index idx \<le> t"
    and safe: "node_unsafe idx = 0 \<or> dead idx ?c \<or> (\<forall>p \<in> set (cr_gave_up s). p mod ring_len = unat t mod ring_len \<longrightarrow> p < unat t)"
    using assms(2) E_cas by auto
  have ext: "cr_tickets s \<le> cr_tickets s'" "cell_step ?c ?c'"
    "\<And>p. p \<in> set (cr_gave_up s') \<Longrightarrow> p \<notin> set (cr_gave_up s) \<Longrightarrow> c_full (cr_cell p s') \<or> p < c_idx (cr_cell p s')"
    using assms(1) by (auto simp: extends_def)
  have le: "unat (node_index idx) \<le> c_idx ?c'" using pc(4) ext(2) by (auto simp: cell_step_def)
  have "node_unsafe idx = 0 \<or> dead idx ?c' \<or> (\<forall>p \<in> set (cr_gave_up s'). p mod ring_len = unat t mod ring_len \<longrightarrow> p < unat t)"
  proof (rule ccontr)
    assume n: "\<not> ?thesis"
    then obtain p where p: "p \<in> set (cr_gave_up s')" "p mod ring_len = unat t mod ring_len" "unat t \<le> p" by auto
    have nd: "\<not> dead idx ?c'" "\<not> dead idx ?c" using n dead_step [OF _ ext(2)] by blast+
    then have "p \<notin> set (cr_gave_up s)" using safe n p by auto
    from ext(3) [OF p(1) this] have "c_full ?c' \<or> p < c_idx ?c'" using p(2) by simp
    moreover have "unat (node_index idx) \<le> p" using pc(5) p(3) by (simp add: word_le_nat_alt)
    ultimately show False using nd(1) le by (auto simp: dead_def)
  qed
  with pc ext(1) le E_cas show ?thesis by auto
qed (use assms in \<open>auto simp: extends_def cell_step_def intro: order_trans\<close>)

lemma deq_ok_extends: "extends X s s' \<Longrightarrow> deq_ok s pc \<Longrightarrow> deq_ok s' pc"
  by (cases pc) (auto simp: extends_def cell_step_def intro: order_trans)

lemma ticket_fresh_extends: "extends X s s' \<Longrightarrow> ticket_fresh s h \<Longrightarrow> h \<notin> X \<Longrightarrow> ticket_fresh s' h"
  by (auto simp: extends_def ticket_fresh_def)

lemma pcs_invD:
  assumes "pcs_inv s"
  shows "p < length (cr_enqs s) \<Longrightarrow> enq_ok s (cr_enqs s ! p)"
    and "p < length (cr_deqs s) \<Longrightarrow> deq_ok s (cr_deqs s ! p)"
    and "p < length (cr_deqs s) \<Longrightarrow> deq_ticket_of (cr_deqs s ! p) = Some h \<Longrightarrow> ticket_fresh s h"
    and "p < length (cr_deqs s) \<Longrightarrow> q < length (cr_deqs s) \<Longrightarrow> p \<noteq> q \<Longrightarrow> deq_ticket_of (cr_deqs s ! p) = Some h \<Longrightarrow>
      deq_ticket_of (cr_deqs s ! q) \<noteq> Some h"
  using assms by - (simp only: pcs_inv_def; elim conjE; metis)+

lemma pcs_invI:
  assumes "\<And>p. p < length (cr_enqs s) \<Longrightarrow> enq_ok s (cr_enqs s ! p)"
    and "\<And>p. p < length (cr_deqs s) \<Longrightarrow> deq_ok s (cr_deqs s ! p)"
    and "\<And>p h. p < length (cr_deqs s) \<Longrightarrow> deq_ticket_of (cr_deqs s ! p) = Some h \<Longrightarrow> ticket_fresh s h"
    and "\<And>p q h. p < length (cr_deqs s) \<Longrightarrow> q < length (cr_deqs s) \<Longrightarrow> p \<noteq> q \<Longrightarrow> deq_ticket_of (cr_deqs s ! p) = Some h \<Longrightarrow>
      deq_ticket_of (cr_deqs s ! q) \<noteq> Some h"
  shows "pcs_inv s"
  using assms unfolding pcs_inv_def by blast

lemma pcs_inv_enq:
  assumes "pcs_inv s" and "extends {} s s'" and "cr_deqs s' = cr_deqs s" and "cr_enqs s' = (cr_enqs s)[p := pc]" and "enq_ok s' pc"
  shows "pcs_inv s'"
proof (rule pcs_invI)
  fix q assume "q < length (cr_enqs s')"
  then show "enq_ok s' (cr_enqs s' ! q)"
    using assms(4,5) pcs_invD(1) [OF assms(1)] enq_ok_extends [OF assms(2)] by (cases "q = p") auto
next
  fix q h assume "q < length (cr_deqs s')" "deq_ticket_of (cr_deqs s' ! q) = Some h"
  then show "ticket_fresh s' h" using pcs_invD(3) [OF assms(1), of q h] ticket_fresh_extends [OF assms(2)] assms(3) by auto
qed (use assms(3) pcs_invD(2,4) [OF assms(1)] deq_ok_extends [OF assms(2)] in auto)

lemma pcs_inv_deq:
  assumes inv: "pcs_inv s" and ext: "extends X s s'" and enqs: "cr_enqs s' = cr_enqs s" and deqs: "cr_deqs s' = (cr_deqs s)[p := pc]"
    and p: "p < length (cr_deqs s)" and ok: "deq_ok s' pc" and X: "\<And>h. h \<in> X \<Longrightarrow> deq_ticket_of (cr_deqs s ! p) = Some h"
    and new: "\<And>h. deq_ticket_of pc = Some h \<Longrightarrow> ticket_fresh s' h \<and> (deq_ticket_of (cr_deqs s ! p) = Some h \<or> cr_head s \<le> h)"
  shows "pcs_inv s'"
proof -
  have clash: "deq_ticket_of pc \<noteq> Some h" if "q < length (cr_deqs s)" "q \<noteq> p" "deq_ticket_of (cr_deqs s ! q) = Some h" for q h
  proof
    assume "deq_ticket_of pc = Some h"
    with new [of h] pcs_invD(4) [OF inv p that(1), of h] that(2,3) have "cr_head s \<le> h" by blast
    with pcs_invD(3) [OF inv that(1,3)] show False by (simp add: ticket_fresh_def)
  qed
  show ?thesis
  proof (rule pcs_invI)
    fix q assume "q < length (cr_enqs s')"
    then show "enq_ok s' (cr_enqs s' ! q)" using pcs_invD(1) [OF inv] enq_ok_extends [OF ext] by (simp add: enqs)
  next
    fix q assume "q < length (cr_deqs s')"
    then show "deq_ok s' (cr_deqs s' ! q)" using pcs_invD(2) [OF inv] ok deq_ok_extends [OF ext] by (cases "q = p") (auto simp: deqs)
  next
    fix q h assume q: "q < length (cr_deqs s')" "deq_ticket_of (cr_deqs s' ! q) = Some h"
    show "ticket_fresh s' h"
    proof (cases "q = p")
      case True
      with q new show ?thesis by (simp add: deqs)
    next
      case False
      with q have "q < length (cr_deqs s)" "deq_ticket_of (cr_deqs s ! q) = Some h" by (simp_all add: deqs)
      moreover from this have "h \<notin> X" using pcs_invD(4) [OF inv p, of q h] X False by blast
      ultimately show ?thesis using pcs_invD(3) [OF inv] ticket_fresh_extends [OF ext] by blast
    qed
  next
    fix q q' h assume q: "q < length (cr_deqs s')" "q' < length (cr_deqs s')" "q \<noteq> q'" "deq_ticket_of (cr_deqs s' ! q) = Some h"
    then have l: "q < length (cr_deqs s)" "q' < length (cr_deqs s)" by (simp_all add: deqs)
    consider "q = p" | "q' = p" "q \<noteq> p" | "q \<noteq> p" "q' \<noteq> p" by blast
    then show "deq_ticket_of (cr_deqs s' ! q') \<noteq> Some h"
    proof cases
      case 1
      with q l clash [of q' h] show ?thesis by (auto simp: deqs)
    next
      case 2
      with q l clash [of q h] show ?thesis by (auto simp: deqs)
    next
      case 3
      with q l pcs_invD(4) [OF inv l q(3), of h] show ?thesis by (simp add: deqs)
    qed
  qed
qed

section \<open>Changes of the ring\<close>

definition set_cell :: "nat \<Rightarrow> ring_node \<Rightarrow> crq_state \<Rightarrow> crq_state" where
  "set_cell p c s = s\<lparr>cr_ring := (cr_ring s)\<lparr>rq_array := (rq_array (cr_ring s))[p mod ring_len := c]\<rparr>\<rparr>"

lemma set_cell_simps [simp]:
  "cr_tickets (set_cell p c s) = cr_tickets s" "cr_put (set_cell p c s) = cr_put s" "cr_got (set_cell p c s) = cr_got s"
  "cr_gave_up (set_cell p c s) = cr_gave_up s" "cr_enqs (set_cell p c s) = cr_enqs s" "cr_deqs (set_cell p c s) = cr_deqs s"
  "rq_head (cr_ring (set_cell p c s)) = rq_head (cr_ring s)" "rq_tail (cr_ring (set_cell p c s)) = rq_tail (cr_ring s)"
  "length (rq_array (cr_ring (set_cell p c s))) = length (rq_array (cr_ring s))"
  by (simp_all add: set_cell_def)

lemma set_cell_nth:
  "length (rq_array (cr_ring s)) = ring_len \<Longrightarrow> i < ring_len \<Longrightarrow>
     rq_array (cr_ring (set_cell p c s)) ! i = (if i = p mod ring_len then c else rq_array (cr_ring s) ! i)"
  by (simp add: set_cell_def nth_list_update)

lemma CAS2_set_cell:
  "CAS2 (p mod ring_len) val idx val' idx' (cr_ring s) = Some r \<Longrightarrow>
     cr_cell p s = \<lparr>rn_val = val, rn_idx = idx\<rparr> \<and> s\<lparr>cr_ring := r\<rparr> = set_cell p \<lparr>rn_val = val', rn_idx = idx'\<rparr> s"
  by (auto simp: CAS2_def set_cell_def split: if_splits)

lemma ring_invD:
  assumes "ring_inv s"
  shows "length (rq_array (cr_ring s)) = ring_len"
    and "cr_head s \<le> cr_tickets s" and "unat (tail_index (rq_tail (cr_ring s))) \<le> cr_tickets s"
    and "c_idx (cr_cell p s) mod ring_len = p mod ring_len"
    and "c_full (cr_cell p s) \<Longrightarrow> (c_idx (cr_cell p s), rn_val (cr_cell p s)) \<in> set (cr_put s)"
    and "(p, v) \<in> set (cr_put s) \<Longrightarrow> p \<in> fst ` set (cr_got s) \<Longrightarrow> p < c_idx (cr_cell p s)"
    and "(p, v) \<in> set (cr_put s) \<Longrightarrow> p \<notin> fst ` set (cr_got s) \<Longrightarrow>
      c_full (cr_cell p s) \<and> c_idx (cr_cell p s) = p \<and> v = rn_val (cr_cell p s)"
    and "distinct (map fst (cr_put s))" and "distinct (map fst (cr_got s))" and "set (cr_got s) \<subseteq> {x \<in> set (cr_put s). fst x < cr_head s}"
    and "p \<in> set (cr_gave_up s) \<Longrightarrow>
      p < cr_head s \<and> p \<notin> fst ` set (cr_put s) \<and> (p < c_idx (cr_cell p s) \<or> c_unsafe (cr_cell p s))"
proof -
  note I = assms [unfolded ring_inv_def]
  have c: "p mod ring_len < ring_len" by simp
  show "length (rq_array (cr_ring s)) = ring_len" "cr_head s \<le> cr_tickets s" "unat (tail_index (rq_tail (cr_ring s))) \<le> cr_tickets s"
    "distinct (map fst (cr_put s))" "distinct (map fst (cr_got s))" "set (cr_got s) \<subseteq> {x \<in> set (cr_put s). fst x < cr_head s}"
    using I by - (elim conjE, assumption)+
  have "\<forall>c < ring_len. c_idx (rq_array (cr_ring s) ! c) mod ring_len = c" using I by (elim conjE)
  with c show "c_idx (cr_cell p s) mod ring_len = p mod ring_len" by blast
  have "\<forall>c < ring_len. c_full (rq_array (cr_ring s) ! c) \<longrightarrow>
      (c_idx (rq_array (cr_ring s) ! c), rn_val (rq_array (cr_ring s) ! c)) \<in> set (cr_put s)" using I by (elim conjE)
  with c show "(c_idx (cr_cell p s), rn_val (cr_cell p s)) \<in> set (cr_put s)" if "c_full (cr_cell p s)" using that by blast
  have put: "\<forall>p v. (p, v) \<in> set (cr_put s) \<longrightarrow>
        (if p \<in> fst ` set (cr_got s) then p < c_idx (cr_cell p s)
         else c_full (cr_cell p s) \<and> c_idx (cr_cell p s) = p \<and> v = rn_val (cr_cell p s))" using I by (elim conjE)
  show "p < c_idx (cr_cell p s)" if "(p, v) \<in> set (cr_put s)" "p \<in> fst ` set (cr_got s)"
    using put that unfolding if_bool_eq_conj by blast
  show "c_full (cr_cell p s) \<and> c_idx (cr_cell p s) = p \<and> v = rn_val (cr_cell p s)" if "(p, v) \<in> set (cr_put s)" "p \<notin> fst ` set (cr_got s)"
    using put that unfolding if_bool_eq_conj by blast
  have "\<forall>p \<in> set (cr_gave_up s). p < cr_head s \<and> p \<notin> fst ` set (cr_put s) \<and> (p < c_idx (cr_cell p s) \<or> c_unsafe (cr_cell p s))"
    using I by (elim conjE)
  then show "p < cr_head s \<and> p \<notin> fst ` set (cr_put s) \<and> (p < c_idx (cr_cell p s) \<or> c_unsafe (cr_cell p s))"
    if "p \<in> set (cr_gave_up s)" using that by blast
qed

lemma ring_invI:
  assumes "length (rq_array (cr_ring s)) = ring_len"
    and "cr_head s \<le> cr_tickets s" and "unat (tail_index (rq_tail (cr_ring s))) \<le> cr_tickets s"
    and "\<And>p. c_idx (cr_cell p s) mod ring_len = p mod ring_len"
    and "\<And>p. c_full (cr_cell p s) \<Longrightarrow> (c_idx (cr_cell p s), rn_val (cr_cell p s)) \<in> set (cr_put s)"
    and "\<And>p v. (p, v) \<in> set (cr_put s) \<Longrightarrow> p \<in> fst ` set (cr_got s) \<Longrightarrow> p < c_idx (cr_cell p s)"
    and "\<And>p v. (p, v) \<in> set (cr_put s) \<Longrightarrow> p \<notin> fst ` set (cr_got s) \<Longrightarrow>
      c_full (cr_cell p s) \<and> c_idx (cr_cell p s) = p \<and> v = rn_val (cr_cell p s)"
    and "distinct (map fst (cr_put s))" and "distinct (map fst (cr_got s))" and "set (cr_got s) \<subseteq> {x \<in> set (cr_put s). fst x < cr_head s}"
    and "\<And>p. p \<in> set (cr_gave_up s) \<Longrightarrow>
      p < cr_head s \<and> p \<notin> fst ` set (cr_put s) \<and> (p < c_idx (cr_cell p s) \<or> c_unsafe (cr_cell p s))"
  shows "ring_inv s"
proof -
  have "c_idx (rq_array (cr_ring s) ! c) mod ring_len = c" if "c < ring_len" for c using assms(4) [of c] that by simp
  moreover have "(c_idx (rq_array (cr_ring s) ! c), rn_val (rq_array (cr_ring s) ! c)) \<in> set (cr_put s)"
    if "c < ring_len" "c_full (rq_array (cr_ring s) ! c)" for c using assms(5) [of c] that by simp
  moreover have "if p \<in> fst ` set (cr_got s) then p < c_idx (cr_cell p s)
      else c_full (cr_cell p s) \<and> c_idx (cr_cell p s) = p \<and> v = rn_val (cr_cell p s)" if "(p, v) \<in> set (cr_put s)" for p v
    unfolding if_bool_eq_conj using assms(6,7) [OF that] by blast
  ultimately show ?thesis unfolding ring_inv_def using assms(1-3,8-11) by blast
qed

text \<open>An enqueuer stores.\<close>

lemma ring_inv_store:
  assumes inv: "ring_inv s" and c: "cr_cell t s = \<lparr>rn_val = - 1, rn_idx = idx\<rparr>" and idx: "unat (node_index idx) \<le> t"
    and arg: "arg \<noteq> - 1" and t: "pos_ok t"
    and up: "node_unsafe idx = 0 \<or> (\<forall>p \<in> set (cr_gave_up s). p mod ring_len = t mod ring_len \<longrightarrow> p < t)"
  shows "ring_inv ((set_cell t \<lparr>rn_val = arg, rn_idx = of_nat t\<rparr> s)\<lparr>cr_put := cr_put s @ [(t, arg)]\<rparr>)" (is "ring_inv ?s")
proof -
  let ?c' = "\<lparr>rn_val = arg, rn_idx = of_nat t\<rparr>"
  note D = ring_invD [OF inv]
  have c': "c_idx ?c' = t" using t by (simp add: c_idx_def pos_flags pos_unat)
  have ci: "c_idx (cr_cell t s) \<le> t" using c idx by (simp add: c_idx_def)
  have cells: "cr_cell p ?s = (if p mod ring_len = t mod ring_len then ?c' else cr_cell p s)" for p
    using set_cell_nth [OF D(1), of "p mod ring_len" t ?c'] by simp
  have same: "cr_cell p s = cr_cell t s" if "p mod ring_len = t mod ring_len" for p using that by simp
  have old: "p \<in> fst ` set (cr_got s) \<and> p < t" if "(p, v) \<in> set (cr_put s)" "p mod ring_len = t mod ring_len" for p v
    using D(6,7) [OF that(1)] c ci same [OF that(2)] by (cases "p \<in> fst ` set (cr_got s)") auto
  then have fresh: "t \<notin> fst ` set (cr_put s)" by fastforce
  have up': "p < t" if "p \<in> set (cr_gave_up s)" "p mod ring_len = t mod ring_len" for p
    using D(11) [OF that(1)] up that c ci same [OF that(2)] by auto
  show ?thesis
  proof (rule ring_invI)
    fix p v assume "(p, v) \<in> set (cr_put ?s)" "p \<in> fst ` set (cr_got ?s)"
    moreover from this have "p \<noteq> t" using fresh D(10) by auto
    ultimately show "p < c_idx (cr_cell p ?s)" unfolding cells using D(6) old c' by auto
  next
    fix p v assume "(p, v) \<in> set (cr_put ?s)" "p \<notin> fst ` set (cr_got ?s)"
    then show "c_full (cr_cell p ?s) \<and> c_idx (cr_cell p ?s) = p \<and> v = rn_val (cr_cell p ?s)"
      unfolding cells using D(7) old c' arg by fastforce
  next
    fix p assume p: "p \<in> set (cr_gave_up ?s)"
    then have "p \<noteq> t" using up' by auto
    with p show "p < cr_head ?s \<and> p \<notin> fst ` set (cr_put ?s) \<and> (p < c_idx (cr_cell p ?s) \<or> c_unsafe (cr_cell p ?s))"
      unfolding cells using D(11) [of p] up' [of p] c' by auto
  next
    fix p assume "c_full (cr_cell p ?s)"
    then show "(c_idx (cr_cell p ?s), rn_val (cr_cell p ?s)) \<in> set (cr_put ?s)" unfolding cells using D(5) [of p] c' by auto
  next
    fix p show "c_idx (cr_cell p ?s) mod ring_len = p mod ring_len" unfolding cells using D(4) [of p] c' by auto
  qed (use D(1-3,8-10) fresh in auto)
qed

text \<open>A dequeuer takes the value of its position.\<close>

lemma ring_inv_take:
  assumes inv: "ring_inv s" and c: "cr_cell h s = \<lparr>rn_val = val, rn_idx = idx\<rparr>" and val: "val \<noteq> - 1" and idx: "unat (node_index idx) = h"
    and h: "h < cr_head s" and c': "rn_val c' = - 1" "c_idx c' = h + ring_len" "node_unsafe idx \<noteq> 0 \<Longrightarrow> c_unsafe c'"
  shows "ring_inv ((set_cell h c' s)\<lparr>cr_got := cr_got s @ [(h, val)]\<rparr>)" (is "ring_inv ?s")
proof -
  note D = ring_invD [OF inv]
  have ci: "c_idx (cr_cell h s) = h" using c idx by (simp add: c_idx_def)
  have cells: "cr_cell p (set_cell h c' s) = (if p mod ring_len = h mod ring_len then c' else cr_cell p s)" for p
    using set_cell_nth [OF D(1), of "p mod ring_len" h c'] by simp
  have same: "cr_cell p s = cr_cell h s" if "p mod ring_len = h mod ring_len" for p using that by simp
  have put: "(h, val) \<in> set (cr_put s)" using D(5) [of h] c ci val by simp
  then have fresh: "h \<notin> fst ` set (cr_got s)" using D(6) [of h val] ci by auto
  have old: "p = h \<or> p \<in> fst ` set (cr_got s) \<and> p < h" if "(p, v) \<in> set (cr_put s)" "p mod ring_len = h mod ring_len" for p v
  proof (cases "p \<in> fst ` set (cr_got s)")
    case True
    from D(6) [OF that(1) True] ci show ?thesis unfolding same [OF that(2)] using True by simp
  next
    case False
    from D(7) [OF that(1) False] ci show ?thesis unfolding same [OF that(2)] by simp
  qed
  show ?thesis
  proof (rule ring_invI)
    fix p v assume "(p, v) \<in> set (cr_put ?s)" "p \<in> fst ` set (cr_got ?s)"
    then have p: "(p, v) \<in> set (cr_put s)" "p \<noteq> h \<Longrightarrow> p \<in> fst ` set (cr_got s)" by auto
    show "p < c_idx (cr_cell p ?s)"
    proof (cases "p mod ring_len = h mod ring_len")
      case True
      with old [OF p(1)] c'(2) show ?thesis by (auto simp: cells)
    next
      case False
      with D(6) [OF p(1)] p(2) show ?thesis by (auto simp: cells)
    qed
  next
    fix p v assume "(p, v) \<in> set (cr_put ?s)" "p \<notin> fst ` set (cr_got ?s)"
    then have p: "(p, v) \<in> set (cr_put s)" "p \<noteq> h" "p \<notin> fst ` set (cr_got s)" by auto
    then have "p mod ring_len \<noteq> h mod ring_len" using old [OF p(1)] by blast
    with D(7) [OF p(1,3)] show "c_full (cr_cell p ?s) \<and> c_idx (cr_cell p ?s) = p \<and> v = rn_val (cr_cell p ?s)" by (simp add: cells)
  next
    fix p assume "p \<in> set (cr_gave_up ?s)"
    then have p: "p \<in> set (cr_gave_up s)" by simp
    show "p < cr_head ?s \<and> p \<notin> fst ` set (cr_put ?s) \<and> (p < c_idx (cr_cell p ?s) \<or> c_unsafe (cr_cell p ?s))"
    proof (cases "p mod ring_len = h mod ring_len")
      case True
      have "p < h \<or> node_unsafe idx \<noteq> 0" using D(11) [OF p] ci c unfolding same [OF True] by auto
      with D(11) [OF p] True c'(2,3) show ?thesis by (auto simp: cells)
    next
      case False
      with D(11) [OF p] show ?thesis by (simp add: cells)
    qed
  next
    fix p assume "c_full (cr_cell p ?s)"
    then show "(c_idx (cr_cell p ?s), rn_val (cr_cell p ?s)) \<in> set (cr_put ?s)" using D(5) [of p] c'(1) by (simp add: cells split: if_splits)
  next
    fix p show "c_idx (cr_cell p ?s) mod ring_len = p mod ring_len" using D(4) [of p] c'(2) by (simp add: cells)
  qed (use D(1-3,8-10) fresh put h in auto)
qed

text \<open>A cell that keeps its value moves on, or is marked unsafe.\<close>

lemma ring_inv_move:
  assumes inv: "ring_inv s" and c': "rn_val c' = rn_val (cr_cell h s)" "c_idx c' mod ring_len = h mod ring_len"
    "c_idx (cr_cell h s) \<le> c_idx c'" "c_full c' \<Longrightarrow> c_idx c' = c_idx (cr_cell h s)" "c_unsafe (cr_cell h s) \<Longrightarrow> c_unsafe c'"
  shows "ring_inv (set_cell h c' s)"
proof -
  note D = ring_invD [OF inv]
  have cells: "cr_cell p (set_cell h c' s) = (if p mod ring_len = h mod ring_len then c' else cr_cell p s)" for p
    using set_cell_nth [OF D(1), of "p mod ring_len" h c'] by simp
  have same: "cr_cell p s = cr_cell h s" if "p mod ring_len = h mod ring_len" for p using that by simp
  show ?thesis
  proof (rule ring_invI)
    fix p v assume "(p, v) \<in> set (cr_put (set_cell h c' s))" "p \<in> fst ` set (cr_got (set_cell h c' s))"
    then show "p < c_idx (cr_cell p (set_cell h c' s))" unfolding cells using D(6) [of p v] c'(3) same [of p] by auto
  next
    fix p v assume "(p, v) \<in> set (cr_put (set_cell h c' s))" "p \<notin> fst ` set (cr_got (set_cell h c' s))"
    then show "c_full (cr_cell p (set_cell h c' s)) \<and> c_idx (cr_cell p (set_cell h c' s)) = p \<and> v = rn_val (cr_cell p (set_cell h c' s))"
      unfolding cells using D(7) [of p v] c'(1,4) same [of p] by auto
  next
    fix p assume p: "p \<in> set (cr_gave_up (set_cell h c' s))"
    then show "p < cr_head (set_cell h c' s) \<and> p \<notin> fst ` set (cr_put (set_cell h c' s)) \<and>
        (p < c_idx (cr_cell p (set_cell h c' s)) \<or> c_unsafe (cr_cell p (set_cell h c' s)))"
      unfolding cells using D(11) [of p] c'(3,5) same [of p] by auto
  next
    fix p assume "c_full (cr_cell p (set_cell h c' s))"
    then show "(c_idx (cr_cell p (set_cell h c' s)), rn_val (cr_cell p (set_cell h c' s))) \<in> set (cr_put (set_cell h c' s))"
      unfolding cells using D(5) [of p] D(5) [of h] c'(1,4) by (auto split: if_splits)
  next
    fix p show "c_idx (cr_cell p (set_cell h c' s)) mod ring_len = p mod ring_len" unfolding cells using D(4) [of p] c'(2) by auto
  qed (use D(1-3,8-10) in auto)
qed

lemma ring_inv_gives_up:
  assumes "ring_inv s" and "h < cr_head s" and "h \<notin> fst ` set (cr_put s)" and "h < c_idx (cr_cell h s) \<or> c_unsafe (cr_cell h s)"
  shows "ring_inv (s\<lparr>cr_gave_up := cr_gave_up s @ [h]\<rparr>)"
proof -
  note D = ring_invD [OF assms(1)]
  show ?thesis
  proof (rule ring_invI)
    fix p assume "p \<in> set (cr_gave_up (s\<lparr>cr_gave_up := cr_gave_up s @ [h]\<rparr>))"
    then show "p < cr_head (s\<lparr>cr_gave_up := cr_gave_up s @ [h]\<rparr>) \<and> p \<notin> fst ` set (cr_put (s\<lparr>cr_gave_up := cr_gave_up s @ [h]\<rparr>)) \<and>
        (p < c_idx (cr_cell p (s\<lparr>cr_gave_up := cr_gave_up s @ [h]\<rparr>)) \<or> c_unsafe (cr_cell p (s\<lparr>cr_gave_up := cr_gave_up s @ [h]\<rparr>)))"
      using D(11) [of p] assms(2-4) by auto
  next
    fix p v assume "(p, v) \<in> set (cr_put (s\<lparr>cr_gave_up := cr_gave_up s @ [h]\<rparr>))" "p \<notin> fst ` set (cr_got (s\<lparr>cr_gave_up := cr_gave_up s @ [h]\<rparr>))"
    then show "c_full (cr_cell p (s\<lparr>cr_gave_up := cr_gave_up s @ [h]\<rparr>)) \<and> c_idx (cr_cell p (s\<lparr>cr_gave_up := cr_gave_up s @ [h]\<rparr>)) = p \<and>
        v = rn_val (cr_cell p (s\<lparr>cr_gave_up := cr_gave_up s @ [h]\<rparr>))"
      using D(7) [of p v] by simp
  qed (use D(1-6,8-10) in auto)
qed

text \<open>A position that is not taken and whose cell is empty or for another position was not stored to.\<close>

lemma ring_inv_not_put:
  assumes "ring_inv s" and "h \<notin> fst ` set (cr_got s)" and "c_full (cr_cell h s) \<Longrightarrow> c_idx (cr_cell h s) \<noteq> h"
  shows "h \<notin> fst ` set (cr_put s)"
proof
  assume "h \<in> fst ` set (cr_put s)"
  then obtain v where "(h, v) \<in> set (cr_put s)" by auto
  from ring_invD(7) [OF assms(1) this assms(2)] assms(3) show False by blast
qed

lemma ring_inv_tail:
  assumes "ring_inv s" and "cr_tickets s \<le> n" and "unat (tail_index t) \<le> n"
  shows "ring_inv (s\<lparr>cr_ring := (cr_ring s)\<lparr>rq_tail := t\<rparr>, cr_tickets := n\<rparr>)"
proof -
  note D = ring_invD [OF assms(1)]
  let ?s = "s\<lparr>cr_ring := (cr_ring s)\<lparr>rq_tail := t\<rparr>, cr_tickets := n\<rparr>"
  show ?thesis
  proof (rule ring_invI)
    fix p v assume "(p, v) \<in> set (cr_put ?s)" "p \<notin> fst ` set (cr_got ?s)"
    then show "c_full (cr_cell p ?s) \<and> c_idx (cr_cell p ?s) = p \<and> v = rn_val (cr_cell p ?s)" using D(7) [of p v] by simp
  qed (use D(1-6,8-11) assms(2,3) in auto)
qed

lemma ring_inv_head:
  assumes "ring_inv s" and "cr_tickets s \<le> n" and "cr_head s \<le> unat h" and "unat h \<le> n"
  shows "ring_inv (s\<lparr>cr_ring := (cr_ring s)\<lparr>rq_head := h\<rparr>, cr_tickets := n\<rparr>)"
proof -
  note D = ring_invD [OF assms(1)]
  let ?s = "s\<lparr>cr_ring := (cr_ring s)\<lparr>rq_head := h\<rparr>, cr_tickets := n\<rparr>"
  show ?thesis
  proof (rule ring_invI)
    fix p v assume "(p, v) \<in> set (cr_put ?s)" "p \<notin> fst ` set (cr_got ?s)"
    then show "c_full (cr_cell p ?s) \<and> c_idx (cr_cell p ?s) = p \<and> v = rn_val (cr_cell p ?s)" using D(7) [of p v] by simp
  next
    fix p assume "p \<in> set (cr_gave_up ?s)"
    then show "p < cr_head ?s \<and> p \<notin> fst ` set (cr_put ?s) \<and> (p < c_idx (cr_cell p ?s) \<or> c_unsafe (cr_cell p ?s))"
      using D(11) [of p] assms(3) by auto
  qed (use D(1-6,8-10) assms(2-4) in auto)
qed

end
