(* ===== verification/Lcrq_Protocol.thy ===== *)
theory Lcrq_Protocol
  imports Lcrq_Invariant
begin

text \<open>
  The safety of the ring of \<^verbatim>\<open>queues::lcrq\<close> under every interleaving of the steps of \<^verbatim>\<open>Lcrq_Steps\<close>: each step keeps the
  invariant, no position below the head is forgotten, and positions are drawn in order.
\<close>

section \<open>Every step keeps the invariant\<close>

lemma goto_simps [simp]:
  "ring_inv (e_goto p pc s) = ring_inv s" "ring_inv (d_goto p pc' s) = ring_inv s"
  "extends X s (e_goto p pc s') = extends X s s'" "extends X s (d_goto p pc' s') = extends X s s'"
  "cr_deqs (e_goto p pc s) = cr_deqs s" "cr_enqs (e_goto p pc s) = (cr_enqs s)[p := pc]"
  "cr_enqs (d_goto p pc' s) = cr_enqs s" "cr_deqs (d_goto p pc' s) = (cr_deqs s)[p := pc']"
  "ticket_fresh (d_goto p pc' s) h = ticket_fresh s h"
  "cr_tickets (e_goto p pc s) = cr_tickets s" "cr_tickets (d_goto p pc' s) = cr_tickets s"
  by (simp_all add: ring_inv_def extends_def e_goto_def d_goto_def ticket_fresh_def)

lemma enq_ok_goto [simp]: "enq_ok (e_goto p pc s) x = enq_ok s x"
  by (cases x) (simp_all add: e_goto_def)

lemma deq_ok_goto [simp]: "deq_ok (d_goto p pc s) x = deq_ok s x"
  by (cases x) (simp_all add: d_goto_def)

definition crq_inv :: "crq_state \<Rightarrow> bool" where
  "crq_inv s \<longleftrightarrow> ring_inv s \<and> pcs_inv s"

lemma enq_case:
  assumes "crq_inv s" and "ring_inv s0" and "extends {} s s0" and "cr_enqs s0 = cr_enqs s" and "cr_deqs s0 = cr_deqs s" and "enq_ok s0 pc"
  shows "crq_inv (e_goto p pc s0)"
  using assms pcs_inv_enq [of s "e_goto p pc s0" p pc] by (simp add: crq_inv_def)

lemma deq_case:
  assumes "crq_inv s" and "d_at p pc0 s" and "ring_inv s0" and "extends X s s0" and "cr_enqs s0 = cr_enqs s" and "cr_deqs s0 = cr_deqs s"
    and "deq_ok s0 pc" and "\<And>h. h \<in> X \<Longrightarrow> deq_ticket_of pc0 = Some h"
    and "\<And>h. deq_ticket_of pc = Some h \<Longrightarrow> deq_ticket_of pc0 = Some h \<and> X = {} \<or> cr_head s \<le> h \<and> ticket_fresh s0 h"
  shows "crq_inv (d_goto p pc s0)"
proof -
  have p: "p < length (cr_deqs s)" "cr_deqs s ! p = pc0" using assms(2) by (simp_all add: d_at_def)
  have inv: "pcs_inv s" using assms(1) by (simp add: crq_inv_def)
  have "ticket_fresh s0 h" if "deq_ticket_of pc = Some h" for h
    using assms(9) [OF that] pcs_invD(3) [OF inv p(1)] p(2) ticket_fresh_extends [OF assms(4)] by auto
  then have "pcs_inv (d_goto p pc s0)"
    using pcs_inv_deq [OF inv, of X "d_goto p pc s0" p pc] assms p by auto
  with assms(3) show ?thesis by (simp add: crq_inv_def)
qed

lemma extends_same:
  assumes "rq_array (cr_ring s') = rq_array (cr_ring s)" and "cr_tickets s \<le> cr_tickets s'" and "cr_head s \<le> cr_head s'"
    and "cr_got s' = cr_got s" and "cr_gave_up s' = cr_gave_up s"
  shows "extends X s s'"
  using assms by (auto simp: extends_def)

lemma extends_gives_up:
  assumes "h < c_idx (cr_cell h s)"
  shows "extends {h} s (s\<lparr>cr_gave_up := cr_gave_up s @ [h]\<rparr>)"
  using assms by (auto simp: extends_def)

lemma extends_set_cell:
  assumes "ring_inv s" and "cell_step (cr_cell t s) c'" and "rq_array (cr_ring s') = rq_array (cr_ring (set_cell t c' s))"
    and "cr_tickets s' = cr_tickets s" and "rq_head (cr_ring s') = rq_head (cr_ring s)"
    and "fst ` set (cr_got s') \<union> set (cr_gave_up s') \<subseteq> fst ` set (cr_got s) \<union> set (cr_gave_up s) \<union> X"
    and "\<And>p. p \<in> set (cr_gave_up s') \<Longrightarrow> p \<notin> set (cr_gave_up s) \<Longrightarrow> p = t \<and> (c_full c' \<or> t < c_idx c')"
  shows "extends X s s'"
proof -
  have cells: "cr_cell p s' = (if p mod ring_len = t mod ring_len then c' else cr_cell p s)" for p
    using set_cell_nth [OF ring_invD(1) [OF assms(1)], of "p mod ring_len" t c'] assms(3) by simp
  have "cell_step (cr_cell p s) (cr_cell p s')" for p unfolding cells using assms(2) by auto
  moreover have "c_full (cr_cell p s') \<or> p < c_idx (cr_cell p s')" if "p \<in> set (cr_gave_up s')" "p \<notin> set (cr_gave_up s)" for p
    unfolding cells using assms(7) [OF that] by auto
  ultimately show ?thesis unfolding extends_def using assms(4-6) by auto
qed

lemma tail_index_set_unsafe [simp]: "tail_index (set_unsafe w) = tail_index w"
  by (rule bit_eqI) (auto simp: tail_index_def set_unsafe_def bit_simps bit_unsafe_bit)

lemma crq_invD: "crq_inv s \<Longrightarrow> ring_inv s" "crq_inv s \<Longrightarrow> e_at p pc s \<Longrightarrow> enq_ok s pc" "crq_inv s \<Longrightarrow> d_at p pc' s \<Longrightarrow> deq_ok s pc'"
  "crq_inv s \<Longrightarrow> d_at p pc' s \<Longrightarrow> deq_ticket_of pc' = Some h \<Longrightarrow> ticket_fresh s h"
  unfolding crq_inv_def e_at_def d_at_def using pcs_invD by blast+

lemma enq_stay: "crq_inv s \<Longrightarrow> enq_ok s pc \<Longrightarrow> crq_inv (e_goto p pc s)"
  using enq_case [of s s] extends_same [of s s] crq_invD(1) by simp

lemma deq_stay:
  "crq_inv s \<Longrightarrow> d_at p pc0 s \<Longrightarrow> deq_ok s pc \<Longrightarrow> (\<And>h. deq_ticket_of pc = Some h \<Longrightarrow> deq_ticket_of pc0 = Some h) \<Longrightarrow>
     crq_inv (d_goto p pc s)"
  using deq_case [of s p pc0 s "{}" pc] extends_same [of s s] crq_invD(1) by simp

text \<open>A step that changes the tail.\<close>

lemma tail_step:
  assumes "crq_inv s" and "cr_tickets s \<le> n" and "unat (tail_index t) \<le> n"
  defines "s0 \<equiv> s\<lparr>cr_ring := (cr_ring s)\<lparr>rq_tail := t\<rparr>, cr_tickets := n\<rparr>"
  shows "enq_ok s0 pc \<Longrightarrow> crq_inv (e_goto p pc s0)"
    and "d_at p pc0 s \<Longrightarrow> deq_ok s0 pc' \<Longrightarrow> deq_ticket_of pc' = None \<Longrightarrow> crq_inv (d_goto p pc' s0)"
proof -
  have r: "ring_inv s0" unfolding s0_def using assms(2,3) by (rule ring_inv_tail [OF crq_invD(1) [OF assms(1)]])
  have x: "extends {} s s0" using assms(2) by (intro extends_same) (simp_all add: s0_def)
  show "enq_ok s0 pc \<Longrightarrow> crq_inv (e_goto p pc s0)" using enq_case [OF assms(1) r x] by (simp add: s0_def)
  show "d_at p pc0 s \<Longrightarrow> deq_ok s0 pc' \<Longrightarrow> deq_ticket_of pc' = None \<Longrightarrow> crq_inv (d_goto p pc' s0)"
    using deq_case [OF assms(1) _ r x, of p pc0 pc'] by (auto simp: s0_def)
qed

lemma enq_ticket_inv:
  assumes inv: "crq_inv s" and "e_at p (E_try arg k) s" and n: "cr_tickets s < 2 ^ 62"
  shows "crq_inv (e_ticket p arg k s)"
proof -
  let ?t = "rq_tail (cr_ring s)"
  have t: "unat (tail_index ?t) \<le> cr_tickets s" using ring_invD(3) [OF crq_invD(1) [OF inv]] .
  have "unat ?t < Suc (cr_tickets s)" if "\<not> crq_is_closed ?t"
    using that t node_index_unsafe [of ?t] by (simp add: closed_flag)
  moreover have "unat (tail_index (?t + 1)) \<le> Suc (cr_tickets s)" using t n tail_flags [of ?t] by simp
  moreover have "arg \<noteq> - 1" using crq_invD(2) [OF assms(1,2)] by simp
  ultimately show ?thesis unfolding e_ticket_def Let_def by (intro tail_step(1) [OF inv]) auto
qed

lemma enq_val_inv:
  assumes inv: "crq_inv s" and "e_at p (E_idx arg k t idx) s"
  shows "crq_inv (e_val p arg k t idx s)"
  using crq_invD(2) [OF assms] unfolding e_val_def Let_def by (intro enq_stay [OF inv]) (auto simp: is_empty_def)

lemma enq_head_inv:
  assumes inv: "crq_inv s" and at: "e_at p (E_unsafe arg k t idx val) s" and n: "cr_tickets s < 2 ^ 62"
  shows "crq_inv (e_head p arg k t idx val s)"
proof -
  note D = ring_invD [OF crq_invD(1) [OF inv]]
  have ok: "enq_ok s (E_unsafe arg k t idx val)" by (rule crq_invD(2) [OF inv at])
  have pos: "pos_ok (cr_head s)" "pos_ok (unat t)" using D(2) ok n by (auto simp: pos_ok_def)
  have "sint (rq_head (cr_ring s)) = int (cr_head s)" "sint t = int (unat t)"
    using pos_sint [OF pos(1)] pos_sint [OF pos(2)] by simp_all
  then have "p < unat t" if "sint (rq_head (cr_ring s)) < sint t" "p \<in> set (cr_gave_up s)" for p
    using D(11) [OF that(2)] that(1) by (metis less_trans of_nat_less_iff)
  with ok show ?thesis unfolding e_head_def by (intro enq_stay [OF inv]) auto
qed

lemma enq_cas_inv:
  assumes inv: "crq_inv s" and at: "e_at p (E_cas arg k t idx val) s" and n: "cr_tickets s < 2 ^ 62"
  shows "crq_inv (e_cas p arg k t idx val s)"
proof -
  let ?c' = "\<lparr>rn_val = arg, rn_idx = of_nat (unat t)\<rparr>"
  have ok: "enq_ok s (E_cas arg k t idx val)" by (rule crq_invD(2) [OF inv at])
  then have t: "unat t < 2 ^ 63" "pos_ok (unat t)" using n by (auto simp: pos_ok_def)
  note cell = ring_cell_unat [OF t(1)]
  show ?thesis
  proof (cases "CAS2 (ring_cell t) val idx arg t (cr_ring s)")
    case None
    with ok show ?thesis unfolding e_cas_def by (auto intro: enq_stay [OF inv])
  next
    case (Some r)
    let ?s = "(set_cell (unat t) ?c' s)\<lparr>cr_put := cr_put s @ [(unat t, arg)]\<rparr>"
    have c: "cr_cell (unat t) s = \<lparr>rn_val = - 1, rn_idx = idx\<rparr>" and s0: "s\<lparr>cr_ring := r\<rparr> = set_cell (unat t) ?c' s"
      using CAS2_set_cell [of "unat t"] Some cell ok by auto
    have idx: "unat (node_index idx) \<le> unat t" using ok by (simp add: word_le_nat_alt)
    have "\<not> dead idx (cr_cell (unat t) s)" by (simp add: c dead_def c_idx_def)
    then have up: "node_unsafe idx = 0 \<or> (\<forall>p \<in> set (cr_gave_up s). p mod ring_len = unat t mod ring_len \<longrightarrow> p < unat t)" using ok by auto
    have arg: "arg \<noteq> - 1" using ok by simp
    have r: "ring_inv ?s" by (rule ring_inv_store [OF crq_invD(1) [OF inv] c idx arg t(2) up])
    have "cell_step (cr_cell (unat t) s) ?c'" using idx t(2) pos_flags(2) [OF t(2)] by (simp add: c cell_step_def c_idx_def)
    then have x: "extends {} s ?s" by (rule extends_set_cell [OF crq_invD(1) [OF inv]]) simp_all
    have "s\<lparr>cr_ring := r, cr_put := cr_put s @ [(unat t, arg)]\<rparr> = ?s" using s0 by (metis (no_types, lifting) crq_state.surjective crq_state.update_convs(5))
    then show ?thesis using enq_case [OF inv r x, of E_idle p] by (simp add: e_cas_def Some)
  qed
qed

lemma tail_index_closed: "unat (tail_index (rq_tail (snd (BTAS_tail r)))) = unat (tail_index (rq_tail r))"
  by (simp add: BTAS_tail_def)

lemma close_crq_tail:
  obtains w where "snd (close_crq t k r) = r\<lparr>rq_tail := w\<rparr>" and "tail_index w = tail_index (rq_tail r)"
    and "crq_is_closed (rq_tail r) \<longrightarrow> crq_is_closed w"
proof (cases "k < 10")
  case True
  show thesis
  proof (cases "rq_tail r = t + 1")
    case True
    with \<open>k < 10\<close> show thesis by (intro that [of "set_unsafe (t + 1)"]) (simp_all add: close_crq_def set_unsafe_closed)
  next
    case False
    with \<open>k < 10\<close> show thesis by (intro that [of "rq_tail r"]) (simp_all add: close_crq_def)
  qed
next
  case False
  then show thesis by (intro that [of "set_unsafe (rq_tail r)"]) (simp_all add: close_crq_def BTAS_tail_def set_unsafe_closed)
qed

lemma enq_close_inv:
  assumes inv: "crq_inv s" and at: "e_at p (E_close arg k t) s"
  shows "crq_inv (e_close p arg k t s)"
proof -
  obtain w where w: "snd (close_crq t k (cr_ring s)) = (cr_ring s)\<lparr>rq_tail := w\<rparr>" "tail_index w = tail_index (rq_tail (cr_ring s))"
    by (rule close_crq_tail)
  have "unat (tail_index w) \<le> cr_tickets s" using w(2) ring_invD(3) [OF crq_invD(1) [OF inv]] by simp
  note step = tail_step(1) [OF inv order_refl this]
  have "arg \<noteq> - 1" using crq_invD(2) [OF inv at] by simp
  then show ?thesis using step [of "if fst (close_crq t k (cr_ring s)) then E_alloc arg k else E_try arg k" p] w(1)
    by (simp add: e_close_def case_prod_unfold)
qed

lemma deq_bound:
  assumes "crq_inv s" and "d_at p pc s" and "deq_ticket_of pc = Some h"
  shows "h < cr_head s" and "h < cr_tickets s" and "h \<notin> fst ` set (cr_got s)" and "h \<notin> set (cr_gave_up s)"
  using crq_invD(4) [OF assms] ring_invD(2) [OF crq_invD(1) [OF assms(1)]] by (auto simp: ticket_fresh_def)

lemma deq_ticket_inv:
  assumes inv: "crq_inv s" and at: "d_at p D_idle s" and n: "cr_tickets s < 2 ^ 62"
  shows "crq_inv (d_ticket p s)"
proof -
  note D = ring_invD [OF crq_invD(1) [OF inv]]
  let ?h = "rq_head (cr_ring s)"
  let ?s = "s\<lparr>cr_ring := (cr_ring s)\<lparr>rq_head := ?h + 1\<rparr>, cr_tickets := Suc (cr_tickets s)\<rparr>"
  have "unat ?h + 1 < 2 ^ 64" using D(2) n by simp
  then have h: "unat (?h + 1) = Suc (unat ?h)" using unat_add_lem [of ?h 1] by simp
  have r: "ring_inv ?s" by (rule ring_inv_head [OF crq_invD(1) [OF inv]]) (use h D(2) in simp_all)
  have x: "extends {} s ?s" by (rule extends_same) (simp_all add: h)
  have "ticket_fresh ?s (unat ?h)" using D(10) D(11) [of "unat ?h"] h by (auto simp: ticket_fresh_def)
  then show ?thesis unfolding d_ticket_def Let_def by (intro deq_case [OF inv at r x]) simp_all
qed

lemma deq_val_inv:
  assumes inv: "crq_inv s" and at: "d_at p (D_idx h rounds tt idx) s" and n: "cr_tickets s < 2 ^ 62"
  shows "crq_inv (d_val p h rounds tt idx s)"
proof (cases "h < node_index idx")
  case True
  note b = deq_bound [OF inv at, of "unat h"]
  have "unat (node_index idx) \<le> c_idx (cr_cell (unat h) s)" using crq_invD(3) [OF inv at] by simp
  with True have idx: "unat h < c_idx (cr_cell (unat h) s)" by (simp add: word_less_nat_alt)
  have "unat h \<notin> fst ` set (cr_put s)" using idx b by (intro ring_inv_not_put [OF crq_invD(1) [OF inv]]) simp_all
  then have r: "ring_inv (gives_up h s)" unfolding gives_up_def using idx b
    by (intro ring_inv_gives_up [OF crq_invD(1) [OF inv]]) simp_all
  have x: "extends {unat h} s (gives_up h s)" unfolding gives_up_def by (rule extends_gives_up [OF idx])
  show ?thesis using True by (simp add: d_val_def Let_def) (intro deq_case [OF inv at r x]; use b in \<open>simp add: gives_up_def\<close>)
next
  case False
  then show ?thesis unfolding d_val_def Let_def if_not_P [OF False]
    by (intro deq_stay [OF inv at]) (auto simp: d_decide_def is_empty_def not_less split: if_splits)
qed

lemma deq_tail_inv:
  assumes inv: "crq_inv s" and at: "d_at p (D_tail h rounds tt idx val) s"
  shows "crq_inv (d_goto p (d_decide h rounds t idx val) s)"
  using crq_invD(3) [OF inv at] by (intro deq_stay [OF inv at]) (auto simp: d_decide_def split: if_splits)

text \<open>A dequeuer gives its position up with a compare-and-swap of the cell.\<close>

lemma deq_abandon:
  assumes inv: "crq_inv s" and at: "d_at p pc s" and h: "deq_ticket_of pc = Some h"
    and c: "rn_val c' = rn_val (cr_cell h s)" "c_idx c' mod ring_len = h mod ring_len" "c_idx (cr_cell h s) \<le> c_idx c'"
      "c_full c' \<Longrightarrow> c_idx c' = c_idx (cr_cell h s) \<and> c_unsafe c' \<and> c_idx c' \<noteq> h" "\<not> c_full c' \<Longrightarrow> h < c_idx c'"
      "c_unsafe (cr_cell h s) \<Longrightarrow> c_unsafe c'"
    and pc': "deq_ticket_of pc' = None" "deq_ok s pc'"
  shows "crq_inv (d_goto p pc' ((set_cell h c' s)\<lparr>cr_gave_up := cr_gave_up s @ [h]\<rparr>))"
proof -
  note I = crq_invD(1) [OF inv] and b = deq_bound [OF inv at h]
  let ?s = "(set_cell h c' s)\<lparr>cr_gave_up := cr_gave_up s @ [h]\<rparr>"
  have cell: "cr_cell h (set_cell h c' s) = c'" using set_cell_nth [OF ring_invD(1) [OF I], of "h mod ring_len" h c'] by simp
  have "ring_inv (set_cell h c' s)" by (rule ring_inv_move [OF I]) (use c in auto)
  moreover have "h \<notin> fst ` set (cr_put s)" using c(1,4) b by (intro ring_inv_not_put [OF I]) auto
  ultimately have r: "ring_inv ?s"
    using ring_inv_gives_up [of "set_cell h c' s" h] b(1) c(4,5) cell by (cases "c_full c'") simp_all
  have "cell_step (cr_cell h s) c'" using c(1,3) by (simp add: cell_step_def)
  then have x: "extends {h} s ?s" by (rule extends_set_cell [OF I]) (use c(5) in auto)
  show ?thesis by (rule deq_case [OF inv at r x]) (use h pc' deq_ok_extends [OF x] in simp_all)
qed

lemma d_skip_cas:
  "d_skip p h rounds tt idx val s =
     (case CAS2 (ring_cell h) val idx val ((node_unsafe idx OR h) + RING_SIZE) (cr_ring s) of
        Some r \<Rightarrow> d_goto p (if node_unsafe idx = 0 \<and> 200000 < rounds \<and> RING_SIZE < tt then D_btas h else D_break h) (gives_up h (s\<lparr>cr_ring := r\<rparr>))
      | None \<Rightarrow> d_goto p (D_loop h rounds tt) s)"
  by (cases "node_unsafe idx = 0") (simp_all add: d_skip_def node_index_unsafe)

lemma deq_retry:
  "crq_inv s \<Longrightarrow> d_at p pc s \<Longrightarrow> deq_ticket_of pc = Some (unat h) \<Longrightarrow> crq_inv (d_goto p (D_loop h rounds tt) s)"
  by (rule deq_stay) simp_all

lemma deq_skip_inv:
  assumes inv: "crq_inv s" and at: "d_at p (D_skip h rounds tt idx val) s" and n: "cr_tickets s < 2 ^ 62"
  shows "crq_inv (d_skip p h rounds tt idx val s)"
proof (cases "CAS2 (ring_cell h) val idx val ((node_unsafe idx OR h) + RING_SIZE) (cr_ring s)")
  case None
  then show ?thesis by (simp add: d_skip_cas deq_retry [OF inv at])
next
  case (Some r)
  let ?c' = "\<lparr>rn_val = val, rn_idx = (node_unsafe idx OR h) + RING_SIZE\<rparr>"
  have b: "unat h < 2 ^ 62" using deq_bound(2) [OF inv at] n by simp
  have ok: "val = - 1" "unat (node_index idx) \<le> unat h" using crq_invD(3) [OF inv at] by (simp_all add: word_le_nat_alt)
  have "unat h < 2 ^ 63" using b by simp
  from ring_cell_unat [OF this] Some
  have c: "cr_cell (unat h) s = \<lparr>rn_val = val, rn_idx = idx\<rparr>" and s0: "s\<lparr>cr_ring := r\<rparr> = set_cell (unat h) ?c' s"
    using CAS2_set_cell [of "unat h"] by auto
  have "gives_up h (s\<lparr>cr_ring := r\<rparr>) = (set_cell (unat h) ?c' s)\<lparr>cr_gave_up := cr_gave_up s @ [unat h]\<rparr>"
    unfolding gives_up_def s0 by simp
  moreover have "crq_inv (d_goto p pc' ((set_cell (unat h) ?c' s)\<lparr>cr_gave_up := cr_gave_up s @ [unat h]\<rparr>))"
    if "deq_ticket_of pc' = None" "deq_ok s pc'" for pc'
    by (rule deq_abandon [OF inv at]) (use skip_flags [OF b, of idx] ok c that in \<open>simp_all add: c_idx_def\<close>)
  ultimately show ?thesis using deq_bound(1) [OF inv at, of "unat h"] by (simp add: d_skip_cas Some)
qed

lemma deq_mark_inv:
  assumes inv: "crq_inv s" and at: "d_at p (D_mark h rounds tt idx val) s" and n: "cr_tickets s < 2 ^ 62"
  shows "crq_inv (d_mark p h rounds tt idx val s)"
proof (cases "CAS2 (ring_cell h) val idx val (set_unsafe (node_index idx)) (cr_ring s)")
  case None
  then show ?thesis by (simp add: d_mark_def deq_retry [OF inv at])
next
  case (Some r)
  let ?c' = "\<lparr>rn_val = val, rn_idx = set_unsafe (node_index idx)\<rparr>"
  have b: "unat h < 2 ^ 63" using deq_bound(2) [OF inv at] n by simp
  have ok: "val \<noteq> - 1" "unat (node_index idx) < unat h" using crq_invD(3) [OF inv at] by (simp_all add: word_less_nat_alt)
  from ring_cell_unat [OF b] Some
  have c: "cr_cell (unat h) s = \<lparr>rn_val = val, rn_idx = idx\<rparr>" and s0: "s\<lparr>cr_ring := r\<rparr> = set_cell (unat h) ?c' s"
    using CAS2_set_cell [of "unat h"] by auto
  have "unat (node_index idx) mod ring_len = unat h mod ring_len" using ring_invD(4) [OF crq_invD(1) [OF inv], of "unat h"] c by (simp add: c_idx_def)
  moreover have "gives_up h (s\<lparr>cr_ring := r\<rparr>) = (set_cell (unat h) ?c' s)\<lparr>cr_gave_up := cr_gave_up s @ [unat h]\<rparr>"
    unfolding gives_up_def s0 by simp
  moreover have "crq_inv (d_goto p (D_break h) ((set_cell (unat h) ?c' s)\<lparr>cr_gave_up := cr_gave_up s @ [unat h]\<rparr>))"
    by (rule deq_abandon [OF inv at]) (use mark_flags [of idx] ok c calculation deq_bound(1) [OF inv at] in \<open>simp_all add: c_idx_def\<close>)
  ultimately show ?thesis by (simp add: d_mark_def Some)
qed

lemma deq_take_inv:
  assumes inv: "crq_inv s" and at: "d_at p (D_take h rounds tt idx val) s" and n: "cr_tickets s < 2 ^ 62"
  shows "crq_inv (d_take p h rounds tt idx val s)"
proof (cases "CAS2 (ring_cell h) val idx (- 1) ((node_unsafe idx OR h) + RING_SIZE) (cr_ring s)")
  case None
  then show ?thesis by (simp add: d_take_def deq_retry [OF inv at])
next
  case (Some r)
  note I = crq_invD(1) [OF inv]
  let ?c' = "\<lparr>rn_val = - 1, rn_idx = (node_unsafe idx OR h) + RING_SIZE\<rparr>"
  let ?s = "(set_cell (unat h) ?c' s)\<lparr>cr_got := cr_got s @ [(unat h, val)]\<rparr>"
  have b: "unat h < 2 ^ 62" "unat h < 2 ^ 63" using deq_bound(2) [OF inv at] n by simp_all
  have ok: "val \<noteq> - 1" "unat (node_index idx) = unat h" using crq_invD(3) [OF inv at] by simp_all
  from ring_cell_unat [OF b(2)] Some
  have c: "cr_cell (unat h) s = \<lparr>rn_val = val, rn_idx = idx\<rparr>" and s0: "s\<lparr>cr_ring := r\<rparr> = set_cell (unat h) ?c' s"
    using CAS2_set_cell [of "unat h"] by auto
  have c': "c_idx ?c' = unat h + ring_len" "node_unsafe idx \<noteq> 0 \<Longrightarrow> c_unsafe ?c'" using skip_flags [OF b(1), of idx] by (simp_all add: c_idx_def)
  have r: "ring_inv ?s" by (rule ring_inv_take [OF I c ok]) (use deq_bound(1) [OF inv at] c' in simp_all)
  have "cell_step (cr_cell (unat h) s) ?c'" using c c' ok by (simp add: cell_step_def c_idx_def ring_len_def)
  then have x: "extends {unat h} s ?s" by (rule extends_set_cell [OF I]) auto
  have "s\<lparr>cr_ring := r, cr_got := cr_got s @ [(unat h, val)]\<rparr> = ?s"
    using s0 by (metis (no_types, lifting) crq_state.surjective crq_state.update_convs(6))
  then show ?thesis using deq_case [OF inv at r x, of D_idle] by (simp add: d_take_def Some)
qed

lemma deq_fix_inv:
  assumes inv: "crq_inv s"
  shows "d_at p (D_btas h) s \<Longrightarrow> crq_inv (d_goto p (D_break h) (s\<lparr>cr_ring := snd (BTAS_tail (cr_ring s))\<rparr>))"
    and "d_at p (D_fix_cas h0 t h) s \<Longrightarrow> cr_tickets s < 2 ^ 62 \<Longrightarrow> crq_inv (d_fix_cas p h0 t h s)"
proof -
  note D = ring_invD(3) [OF crq_invD(1) [OF inv]]
  have "unat (tail_index (set_unsafe (rq_tail (cr_ring s)))) \<le> cr_tickets s" using D by simp
  from tail_step(2) [OF inv order_refl this, of p "D_btas h" "D_break h"]
  show "d_at p (D_btas h) s \<Longrightarrow> crq_inv (d_goto p (D_break h) (s\<lparr>cr_ring := snd (BTAS_tail (cr_ring s))\<rparr>))"
    using crq_invD(3) [OF inv, of p "D_btas h"] by (simp add: BTAS_tail_def)
  show "crq_inv (d_fix_cas p h0 t h s)" if at: "d_at p (D_fix_cas h0 t h) s" and n: "cr_tickets s < 2 ^ 62"
  proof -
    have h: "unat h \<le> cr_tickets s" and h0: "unat h0 < cr_head s" using crq_invD(3) [OF inv at] by simp_all
    then have "unat h < 2 ^ 63" using n by simp
    then have "unat (tail_index h) \<le> cr_tickets s" using node_index_small [of h] h by (simp add: closed_flag(2))
    from tail_step(2) [OF inv order_refl this at, of "D_next h0"] deq_stay [OF inv at, of "D_fix h0"]
    show ?thesis using h0 by (simp add: d_fix_cas_def)
  qed
qed

lemma deq_fix_read_inv: "crq_inv s \<Longrightarrow> d_at p (D_fix_head h0 t h) s \<Longrightarrow> crq_inv (d_fix p h0 t h s)"
  unfolding d_fix_def using crq_invD(3) [of s p "D_fix_head h0 t h"] by (auto intro: deq_stay)

lemma deq_end_inv:
  assumes "crq_inv s" and "d_at p pc s"
  shows "pc = D_next h0 \<Longrightarrow> crq_inv (d_next p h0 s)" and "pc = D_last h0 \<Longrightarrow> crq_inv (d_last p h0 s)" and "crq_inv (d_goto p D_idle s)"
  using crq_invD(3) [OF assms] by (auto simp: d_next_def d_last_def intro!: deq_stay [OF assms])

text \<open>The link to the next ring is not part of the invariant.\<close>

lemma link_inv:
  assumes "crq_inv s"
  shows "crq_inv (s\<lparr>cr_ring := (cr_ring s)\<lparr>rq_next := n\<rparr>\<rparr>)" (is "crq_inv ?s")
proof -
  have x: "extends {} s ?s" by (rule extends_same) simp_all
  have P: "pcs_inv s" and R: "ring_inv s" using assms by (simp_all add: crq_inv_def)
  have "pcs_inv ?s"
  proof (rule pcs_invI)
    fix p h assume "p < length (cr_deqs ?s)" "deq_ticket_of (cr_deqs ?s ! p) = Some h"
    then show "ticket_fresh ?s h" using pcs_invD(3) [OF P, of p h] by (simp add: ticket_fresh_def)
  qed (use pcs_invD(1,2,4) [OF P] enq_ok_extends [OF x] deq_ok_extends [OF x] in auto)
  moreover have "ring_inv ?s"
  proof (rule ring_invI)
    fix p v assume "(p, v) \<in> set (cr_put ?s)" "p \<notin> fst ` set (cr_got ?s)"
    then show "c_full (cr_cell p ?s) \<and> c_idx (cr_cell p ?s) = p \<and> v = rn_val (cr_cell p ?s)" using ring_invD(7) [OF R, of p v] by simp
  qed (use ring_invD(1-6,8-11) [OF R] in auto)
  ultimately show ?thesis by (simp add: crq_inv_def)
qed

text \<open>Every step keeps the invariant while the positions leave the flag bit alone.\<close>

lemma crq_step_inv:
  assumes "crq_step s s'" and inv: "crq_inv s" and n: "cr_tickets s < 2 ^ 62"
  shows "crq_inv s'"
  using assms(1)
proof cases
  case (enq_begin p arg k)
  then show ?thesis by (simp add: enq_stay [OF inv])
next
  case (enq_leave p arg k)
  then show ?thesis by (simp add: enq_stay [OF inv])
next
  case (enq_idx p arg k t)
  have ok: "arg \<noteq> - 1" "unat t < cr_tickets s" using crq_invD(2) [OF inv enq_idx(2)] by simp_all
  have "ring_cell t = unat t mod ring_len" using ok(2) n by (simp add: ring_cell_unat)
  then show ?thesis unfolding enq_idx(1) using ok by (intro enq_stay [OF inv]) (simp add: c_idx_def)
next
  case (enq_full p arg k t)
  then show ?thesis unfolding enq_full(1) e_full_def using crq_invD(2) [OF inv enq_full(2)] by (intro enq_stay [OF inv]) simp
next
  case (enq_alloc p arg k)
  then show ?thesis by (simp add: enq_stay [OF inv])
next
  case (link n)
  then show ?thesis by (simp add: link_inv [OF inv])
next
  case (deq_idx p h rounds tt)
  have "ring_cell h = unat h mod ring_len" using deq_bound(2) [OF inv deq_idx(2)] n by (simp add: ring_cell_unat)
  then show ?thesis unfolding deq_idx(1) by (intro deq_stay [OF inv deq_idx(2)]) (simp_all add: c_idx_def)
next
  case (deq_check p h)
  then show ?thesis unfolding deq_check(1) d_check_def using crq_invD(3) [OF inv deq_check(2)]
    by (intro deq_stay [OF inv deq_check(2)]) (auto split: if_splits)
next
  case (deq_fix_tail p h0)
  then show ?thesis unfolding deq_fix_tail(1) using crq_invD(3) [OF inv deq_fix_tail(2)]
    by (intro deq_stay [OF inv deq_fix_tail(2)]) simp_all
next
  case (deq_fix_head p h0 t)
  then show ?thesis unfolding deq_fix_head(1)
    using ring_invD(2) [OF crq_invD(1) [OF inv]] crq_invD(3) [OF inv deq_fix_head(2)] by (intro deq_stay [OF inv deq_fix_head(2)]) simp_all
qed (use inv n in \<open>simp_all add: enq_ticket_inv enq_val_inv enq_head_inv enq_cas_inv enq_close_inv deq_ticket_inv deq_val_inv deq_tail_inv
  deq_skip_inv deq_take_inv deq_mark_inv deq_fix_inv deq_fix_read_inv deq_end_inv\<close>)

lemma goto_tickets [simp]: "cr_tickets (gives_up h s) = cr_tickets s"
  by (simp add: gives_up_def)

lemma crq_step_tickets: "crq_step s s' \<Longrightarrow> cr_tickets s \<le> cr_tickets s'"
  by (induction rule: crq_step.induct)
    (auto simp: e_ticket_def e_val_def e_head_def e_cas_def e_full_def e_close_def d_ticket_def d_val_def d_take_def d_mark_def d_skip_def
      d_check_def d_fix_def d_fix_cas_def d_next_def d_last_def Let_def split: option.splits prod.splits)

lemma crq_init_inv: "crq_inv (crq_init ne nd)"
proof -
  have cell: "rq_array init_ring ! c = \<lparr>rn_val = - 1, rn_idx = of_nat c\<rparr>" "c_idx (rq_array init_ring ! c) = c" if "c < ring_len" for c
  proof -
    show "rq_array init_ring ! c = \<lparr>rn_val = - 1, rn_idx = of_nat c\<rparr>" using that pos_unat [of ring_len]
      by (simp add: init_ring_def RING_SIZE_ring_len pos_ok_def ring_len_def)
    then show "c_idx (rq_array init_ring ! c) = c" using that by (simp add: c_idx_def pos_flags pos_unat pos_ok_def ring_len_def)
  qed
  have len: "length (rq_array init_ring) = ring_len"
    by (simp add: init_ring_def RING_SIZE_ring_len pos_unat pos_ok_def ring_len_def)
  have "ring_inv (crq_init ne nd)"
  proof (rule ring_invI)
    fix p show "c_idx (cr_cell p (crq_init ne nd)) mod ring_len = p mod ring_len" by (simp add: crq_init_def cell(2))
  next
    fix p assume "c_full (cr_cell p (crq_init ne nd))"
    then show "(c_idx (cr_cell p (crq_init ne nd)), rn_val (cr_cell p (crq_init ne nd))) \<in> set (cr_put (crq_init ne nd))"
      by (simp add: crq_init_def cell(1))
  qed (use len in \<open>simp_all add: crq_init_def init_ring_def tail_index_def\<close>)
  moreover have "pcs_inv (crq_init ne nd)" by (rule pcs_invI) (simp_all add: crq_init_def)
  ultimately show ?thesis by (simp add: crq_inv_def)
qed

section \<open>No position is lost\<close>

text \<open>The positions that dequeuers took a value from, gave up, or still work on.\<close>

definition accounted :: "crq_state \<Rightarrow> nat set" where
  "accounted s = fst ` set (cr_got s) \<union> set (cr_gave_up s) \<union> {h. \<exists>q < length (cr_deqs s). deq_ticket_of (cr_deqs s ! q) = Some h}"

lemma accounted_goto:
  assumes "d_at p pc0 s" and "cr_deqs s0 = cr_deqs s"
    and "fst ` set (cr_got s) \<union> set (cr_gave_up s) \<subseteq> fst ` set (cr_got s0) \<union> set (cr_gave_up s0)"
    and "\<And>h. deq_ticket_of pc0 = Some h \<Longrightarrow> deq_ticket_of pc = Some h \<or> h \<in> fst ` set (cr_got s0) \<union> set (cr_gave_up s0)"
  shows "accounted s \<subseteq> accounted (d_goto p pc s0)"
proof
  fix h assume "h \<in> accounted s"
  then consider "h \<in> fst ` set (cr_got s) \<union> set (cr_gave_up s)"
    | q where "q < length (cr_deqs s)" "deq_ticket_of (cr_deqs s ! q) = Some h" by (auto simp: accounted_def)
  then show "h \<in> accounted (d_goto p pc s0)"
  proof cases
    case 1
    with assms(3) show ?thesis by (auto simp: accounted_def d_goto_def)
  next
    case 2
    show ?thesis
    proof (cases "q = p")
      case True
      with 2 assms(1,2,4) show ?thesis by (fastforce simp: accounted_def d_at_def d_goto_def)
    next
      case False
      with 2 assms(2) have "q < length (cr_deqs (d_goto p pc s0)) \<and> deq_ticket_of (cr_deqs (d_goto p pc s0) ! q) = Some h" by simp
      then show ?thesis by (auto simp: accounted_def)
    qed
  qed
qed

lemma CAS2_head: "CAS2 c v i v' i' r = Some r' \<Longrightarrow> rq_head r' = rq_head r"
  by (auto simp: CAS2_def split: if_splits)

lemma close_crq_head: "rq_head (snd (close_crq t k r)) = rq_head r"
  by (rule close_crq_tail [of t k r]) simp

lemma accounted_enq [simp]: "accounted (e_goto p pc s) = accounted s" "accounted (s\<lparr>cr_ring := r, cr_put := l\<rparr>) = accounted s"
  "accounted (s\<lparr>cr_ring := r\<rparr>) = accounted s" "accounted (s\<lparr>cr_ring := r, cr_tickets := n\<rparr>) = accounted s"
  by (simp_all add: accounted_def e_goto_def)

lemma goto_ring [simp]: "cr_ring (e_goto p pc s) = cr_ring s" "cr_ring (d_goto q pc' s) = cr_ring s" "cr_ring (gives_up h s) = cr_ring s"
  by (simp_all add: e_goto_def d_goto_def gives_up_def)

lemma deq_ticket_of_decide: "deq_ticket_of (d_decide h rounds tt i v) = Some (unat h)"
  by (simp add: d_decide_def)

lemma accounted_val: "d_at p (D_idx h rounds tt i) s \<Longrightarrow> accounted s \<subseteq> accounted (d_val p h rounds tt i s)"
  unfolding d_val_def Let_def
  by (cases "h < node_index i", simp_all only: if_True if_False; rule accounted_goto) (auto simp: gives_up_def deq_ticket_of_decide)

lemma accounted_tail: "d_at p (D_tail h rounds tt i v) s \<Longrightarrow> accounted s \<subseteq> accounted (d_goto p (d_decide h rounds t i v) s)"
  by (rule accounted_goto) (auto simp: deq_ticket_of_decide)

lemma accounted_skip: "d_at p (D_skip h rounds tt i v) s \<Longrightarrow> accounted s \<subseteq> accounted (d_skip p h rounds tt i v s)"
  unfolding d_skip_cas
  by (cases "CAS2 (ring_cell h) v i v ((node_unsafe i OR h) + RING_SIZE) (cr_ring s)", simp_all only: option.case; rule accounted_goto)
    (auto simp: gives_up_def)

lemma accounted_take: "d_at p (D_take h rounds tt i v) s \<Longrightarrow> accounted s \<subseteq> accounted (d_take p h rounds tt i v s)"
  unfolding d_take_def
  by (cases "CAS2 (ring_cell h) v i (- 1) ((node_unsafe i OR h) + RING_SIZE) (cr_ring s)", simp_all only: option.case; rule accounted_goto) auto

lemma accounted_mark: "d_at p (D_mark h rounds tt i v) s \<Longrightarrow> accounted s \<subseteq> accounted (d_mark p h rounds tt i v s)"
  unfolding d_mark_def
  by (cases "CAS2 (ring_cell h) v i v (set_unsafe (node_index i)) (cr_ring s)", simp_all only: option.case; rule accounted_goto)
    (auto simp: gives_up_def)

lemma accounted_fix: "d_at p (D_fix_cas h0 t h) s \<Longrightarrow> accounted s \<subseteq> accounted (d_fix_cas p h0 t h s)"
  unfolding d_fix_cas_def by (rule if_split [of "\<lambda>x. accounted s \<subseteq> accounted x", THEN iffD2], intro conjI impI; erule accounted_goto) simp_all

lemma accounted_end:
  "d_at p (D_next h0) s \<Longrightarrow> accounted s \<subseteq> accounted (d_next p h0 s)"
  "d_at p (D_last h0) s \<Longrightarrow> accounted s \<subseteq> accounted (d_last p h0 s)"
  "d_at p pc s \<Longrightarrow> deq_ticket_of pc = None \<Longrightarrow> accounted s \<subseteq> accounted (d_goto p D_idle s)"
  unfolding d_next_def d_last_def by (erule accounted_goto; simp)+

lemma accounted_enqs:
  "accounted (e_ticket p arg k s) = accounted s" "accounted (e_val p arg k t i s) = accounted s" "accounted (e_head p arg k t i v s) = accounted s"
  "accounted (e_cas p arg k t i v s) = accounted s" "accounted (e_full p arg k t s) = accounted s" "accounted (e_close p arg k t s) = accounted s"
  by (simp_all add: e_ticket_def e_val_def e_head_def e_cas_def e_full_def e_close_def Let_def case_prod_unfold split: option.split)

text \<open>A step forgets no position, and the head moves only with a dequeuer.\<close>

lemma step_head: "crq_step s s' \<Longrightarrow> rq_head (cr_ring s') = rq_head (cr_ring s) \<or> (\<exists>p. d_at p D_idle s \<and> s' = d_ticket p s)"
  by (induction rule: crq_step.induct)
    (auto simp: e_ticket_def e_val_def e_head_def e_cas_def e_full_def e_close_def d_val_def d_take_def d_mark_def d_skip_cas d_check_def
      d_fix_def d_fix_cas_def d_next_def d_last_def Let_def CAS2_head close_crq_head BTAS_tail_def case_prod_unfold split: option.splits)

lemma accounted_step: "crq_step s s' \<Longrightarrow> accounted s \<subseteq> accounted s'"
proof (induction rule: crq_step.induct)
  case (deq_ticket p s)
  then show ?case unfolding d_ticket_def Let_def by (rule accounted_goto) simp_all
next
  case (deq_idx p h rounds tt s)
  then show ?case by (rule accounted_goto) simp_all
next
  case (deq_btas p h s)
  then show ?case by (rule accounted_goto) simp_all
next
  case (deq_check p h s)
  then show ?case unfolding d_check_def by (rule accounted_goto) simp_all
next
  case (deq_fix_tail p s)
  then show ?case by (rule accounted_goto) simp_all
next
  case (deq_fix_head p t s)
  then show ?case by (rule accounted_goto) simp_all
next
  case (deq_fix p t h s)
  then show ?case unfolding d_fix_def by (rule accounted_goto) simp_all
next
  case (deq_leave p pc s)
  then show ?case by (intro accounted_end(3)) auto
qed (simp_all add: accounted_enqs accounted_end(1,2) accounted_val accounted_tail accounted_skip accounted_take accounted_mark accounted_fix)

lemma accounted_head:
  assumes step: "crq_step s s'" and inv: "crq_inv s" and n: "cr_tickets s < 2 ^ 62" and all: "{..<cr_head s} \<subseteq> accounted s"
  shows "{..<cr_head s'} \<subseteq> accounted s'"
proof -
  note acc = accounted_step [OF step]
  from step_head [OF step] show ?thesis
  proof (elim disjE exE conjE)
    assume "rq_head (cr_ring s') = rq_head (cr_ring s)"
    with all acc show ?thesis by auto
  next
    fix p assume p: "d_at p D_idle s" "s' = d_ticket p s"
    let ?h = "rq_head (cr_ring s)"
    have "cr_head s \<le> cr_tickets s" by (rule ring_invD(2) [OF crq_invD(1) [OF inv]])
    then have h: "unat (?h + 1) = Suc (unat ?h)" using unat_add_lem [of ?h 1] n by simp
    have "cr_head s \<in> accounted s'" using p by (auto simp: d_ticket_def Let_def accounted_def d_at_def)
    with all acc h p(2) show ?thesis by (auto simp: d_ticket_def Let_def less_Suc_eq)
  qed
qed

section \<open>Positions are drawn in order\<close>

fun enq_ticket_of :: "enq_pc \<Rightarrow> nat option" where
  "enq_ticket_of (E_ticket _ _ t) = Some (unat t)"
| "enq_ticket_of (E_idx _ _ t _) = Some (unat t)"
| "enq_ticket_of (E_unsafe _ _ t _ _) = Some (unat t)"
| "enq_ticket_of (E_cas _ _ t _ _) = Some (unat t)"
| "enq_ticket_of _ = None"

abbreviation cr_tail :: "crq_state \<Rightarrow> nat" where
  "cr_tail s \<equiv> unat (tail_index (rq_tail (cr_ring s)))"

text \<open>The positions stored to, and those that an enqueuer may still store to, are below a bound.\<close>

definition below :: "nat \<Rightarrow> crq_state \<Rightarrow> bool" where
  "below n s \<longleftrightarrow>
     (\<forall>x \<in> set (cr_put s). fst x < n) \<and>
     (\<forall>p < length (cr_enqs s). \<forall>t. enq_ticket_of (cr_enqs s ! p) = Some t \<longrightarrow> t < n)"

lemma below_enq:
  assumes "below n s" and "n \<le> m" and "cr_enqs s' = (cr_enqs s)[p := pc]"
    and "\<And>x. x \<in> set (cr_put s') \<Longrightarrow> x \<in> set (cr_put s) \<or> fst x < m" and "\<And>t. enq_ticket_of pc = Some t \<Longrightarrow> t < m"
  shows "below m s'"
  unfolding below_def
proof (intro conjI ballI allI impI)
  fix x assume "x \<in> set (cr_put s')"
  then show "fst x < m" using assms(1,2,4) by (fastforce simp: below_def)
next
  fix q t assume "q < length (cr_enqs s')" "enq_ticket_of (cr_enqs s' ! q) = Some t"
  then show "t < m" using assms(1,2,3,5) by (cases "q = p") (fastforce simp: below_def)+
qed

lemma below_deq: "below n s \<Longrightarrow> n \<le> m \<Longrightarrow> cr_enqs s' = cr_enqs s \<Longrightarrow> cr_put s' = cr_put s \<Longrightarrow> below m s'"
  by (fastforce simp: below_def)

text \<open>A step of an enqueuer that keeps its position or drops it.\<close>

lemma below_keep:
  assumes "below n s" and "n \<le> m" and at: "e_at p pc0 s" and keep: "\<And>t. enq_ticket_of pc = Some t \<Longrightarrow> enq_ticket_of pc0 = Some t"
    and s': "cr_enqs s' = (cr_enqs s)[p := pc]" "cr_put s' = cr_put s"
  shows "below m s'"
proof (rule below_enq [OF assms(1,2) s'(1)])
  show "t < m" if "enq_ticket_of pc = Some t" for t
    using keep [OF that] at assms(1,2) by (fastforce simp: below_def e_at_def)
qed (simp add: s'(2))

lemma below_cas:
  assumes "below n s" and "n \<le> m" and at: "e_at p (E_cas arg k t idx val) s"
  shows "below m (e_cas p arg k t idx val s)"
proof (cases "CAS2 (ring_cell t) val idx arg t (cr_ring s)")
  case None
  then show ?thesis by (intro below_keep [OF assms, of "E_full arg k t"]) (simp_all add: e_cas_def e_goto_def)
next
  case (Some r)
  have "enq_ticket_of (cr_enqs s ! p) = Some (unat t)" "p < length (cr_enqs s)" using at by (simp_all add: e_at_def)
  then have "unat t < n" using assms(1) unfolding below_def by blast
  then show ?thesis using Some assms(2) by (intro below_enq [OF assms(1,2), of _ p E_idle]) (auto simp: e_cas_def e_goto_def)
qed

lemma below_ticket:
  assumes "below n s" and "n \<le> m" and "\<not> crq_is_closed (rq_tail (cr_ring s)) \<Longrightarrow> unat (rq_tail (cr_ring s)) < m"
  shows "below m (e_ticket p arg k s)"
  using assms by (intro below_enq [OF assms(1,2), of _ p "if crq_is_closed (rq_tail (cr_ring s)) then E_alloc arg k else E_ticket arg k (rq_tail (cr_ring s))"])
    (auto simp: e_ticket_def Let_def e_goto_def split: if_splits)

text \<open>Only an enqueuer that draws a position from an open ring can raise the bound.\<close>

lemma below_step:
  assumes "crq_step s s'" and b: "below n s" "n \<le> m"
    and new: "\<And>p arg k. s' = e_ticket p arg k s \<Longrightarrow> \<not> crq_is_closed (rq_tail (cr_ring s)) \<Longrightarrow> unat (rq_tail (cr_ring s)) < m"
  shows "below m s'"
  using assms(1)
proof cases
  case (enq_ticket p arg k)
  then show ?thesis using below_ticket [OF b new] by blast
next
  case (enq_cas p arg k t idx val)
  then show ?thesis by (simp add: below_cas [OF b])
next
  case (enq_begin p arg k)
  then show ?thesis by (intro below_keep [OF b enq_begin(2), of "E_try arg k"]) (simp_all add: e_goto_def)
next
  case (enq_leave p arg k)
  then show ?thesis by (intro below_keep [OF b enq_leave(2), of E_idle]) (simp_all add: e_goto_def)
next
  case (enq_idx p arg k t)
  then show ?thesis by (intro below_keep [OF b enq_idx(2), of "E_idx arg k t (rn_idx (rq_array (cr_ring s) ! ring_cell t))"]) (simp_all add: e_goto_def)
next
  case (enq_val p arg k t idx)
  show ?thesis unfolding enq_val(1) e_val_def Let_def
    by (rule below_keep [OF b enq_val(2) _ goto_simps(6)]) (auto simp: e_goto_def split: if_splits)
next
  case (enq_head p arg k t idx val)
  show ?thesis unfolding enq_head(1) e_head_def
    by (rule below_keep [OF b enq_head(2) _ goto_simps(6)]) (auto simp: e_goto_def split: if_splits)
next
  case (enq_full p arg k t)
  show ?thesis unfolding enq_full(1) e_full_def
    by (rule below_keep [OF b enq_full(2) _ goto_simps(6)]) (auto simp: e_goto_def split: if_splits)
next
  case (enq_close p arg k t)
  show ?thesis unfolding enq_close(1)
    by (rule below_keep [OF b enq_close(2), of "if fst (close_crq t k (cr_ring s)) then E_alloc arg k else E_try arg k"])
      (auto simp: e_close_def case_prod_unfold e_goto_def split: if_splits)
next
  case (enq_alloc p arg k)
  then show ?thesis by (intro below_keep [OF b enq_alloc(2), of E_idle]) (simp_all add: e_goto_def)
qed (rule below_deq [OF b]; simp add: d_ticket_def d_val_def d_take_def d_mark_def d_skip_cas d_check_def d_fix_def d_fix_cas_def d_next_def
  d_last_def gives_up_def d_goto_def Let_def split: option.split)+

lemma CAS2_tail: "CAS2 c v i v' i' r = Some r' \<Longrightarrow> rq_tail r' = rq_tail r"
  by (auto simp: CAS2_def split: if_splits)

text \<open>What the steps do to the tail.\<close>

lemma step_tail:
  assumes "crq_step s s'"
  shows "tail_index (rq_tail (cr_ring s')) = tail_index (rq_tail (cr_ring s)) \<and>
      (crq_is_closed (rq_tail (cr_ring s)) \<longrightarrow> crq_is_closed (rq_tail (cr_ring s'))) \<or>
    rq_tail (cr_ring s') = rq_tail (cr_ring s) + 1 \<or>
    (\<exists>p h0 t h. d_at p (D_fix_cas h0 t h) s \<and> rq_tail (cr_ring s) = t \<and> rq_tail (cr_ring s') = h)"
  using assms
proof cases
  case (enq_close p arg k t)
  obtain w where "snd (close_crq t k (cr_ring s)) = (cr_ring s)\<lparr>rq_tail := w\<rparr>" "tail_index w = tail_index (rq_tail (cr_ring s))"
    "crq_is_closed (rq_tail (cr_ring s)) \<longrightarrow> crq_is_closed w"
    by (rule close_crq_tail)
  then show ?thesis by (simp add: enq_close(1) e_close_def case_prod_unfold)
qed (auto simp: e_ticket_def e_val_def e_head_def e_cas_def e_full_def d_ticket_def d_val_def d_take_def d_mark_def d_skip_cas d_check_def d_fix_def
  d_fix_cas_def d_next_def d_last_def Let_def CAS2_tail BTAS_tail_def set_unsafe_closed split: option.split)

lemma fix_step:
  assumes "crq_inv s" and "cr_tickets s < 2 ^ 62" and "d_at p (D_fix_cas h0 t h) s"
  shows "unat (tail_index t) < unat (tail_index h)" and "\<not> crq_is_closed t"
proof -
  have ok: "t < h" "unat h \<le> cr_tickets s" using crq_invD(3) [OF assms(1,3)] by simp_all
  then have h: "unat h < 2 ^ 63" "unat t < unat h" using assms(2) by (simp_all add: word_less_nat_alt)
  then show "unat (tail_index t) < unat (tail_index h)" "\<not> crq_is_closed t"
    using node_index_small [of t] node_index_small [of h] by (simp_all add: closed_flag)
qed

lemma closed_add:
  assumes "unat (tail_index w) < 2 ^ 62" and "crq_is_closed w"
  shows "crq_is_closed (w + 1)"
proof (cases w rule: flag_cases)
  case (safe p)
  then show ?thesis using assms(2) pos_flags(1) [of p] by (simp add: closed_flag)
next
  case (unsafe p)
  then have "p < 2 ^ 62" using assms by (simp add: pos_flags pos_unat)
  then have "pos_ok (p + 1)" by (simp add: pos_ok_def)
  from flagged_add [OF this] have "w + 1 = set_unsafe (of_nat (p + 1))" using unsafe by simp
  then show ?thesis by (simp add: set_unsafe_closed)
qed

lemma step_tail_mono:
  assumes "crq_step s s'" and inv: "crq_inv s" and n: "cr_tickets s < 2 ^ 62"
  shows "cr_tail s \<le> cr_tail s'" and "crq_is_closed (rq_tail (cr_ring s)) \<Longrightarrow> crq_is_closed (rq_tail (cr_ring s'))"
proof -
  have T: "cr_tail s < 2 ^ 62" using ring_invD(3) [OF crq_invD(1) [OF inv]] n by simp
  from step_tail [OF assms(1)] show "cr_tail s \<le> cr_tail s'"
    using tail_flags [OF T] fix_step(1) [OF inv n] by (elim disjE exE conjE) (simp, simp, metis less_imp_le)
  from step_tail [OF assms(1)] show "crq_is_closed (rq_tail (cr_ring s'))" if "crq_is_closed (rq_tail (cr_ring s))"
    using closed_add [OF T that] fix_step(2) [OF inv n] that by (elim disjE exE conjE) (simp, simp, metis)
qed

lemma tail_step_below:
  assumes step: "crq_step s s'" and inv: "crq_inv s" and n: "cr_tickets s < 2 ^ 62" and b: "below (cr_tail s) s"
  shows "below (cr_tail s') s'"
proof (rule below_step [OF step b step_tail_mono(1) [OF step inv n]])
  fix p arg k assume s': "s' = e_ticket p arg k s" and "\<not> crq_is_closed (rq_tail (cr_ring s))"
  then have "unat (rq_tail (cr_ring s)) = cr_tail s" using node_index_unsafe [of "rq_tail (cr_ring s)"] by (simp add: closed_flag)
  moreover have "cr_tail s < 2 ^ 62" using ring_invD(3) [OF crq_invD(1) [OF inv]] n by simp
  ultimately show "unat (rq_tail (cr_ring s)) < cr_tail s'" using tail_flags [of "rq_tail (cr_ring s)"] by (simp add: s' e_ticket_def Let_def)
qed

section \<open>What the invariant shows of a ring\<close>

definition crq_good :: "crq_state \<Rightarrow> bool" where
  "crq_good s \<longleftrightarrow> crq_inv s \<and> {..<cr_head s} \<subseteq> accounted s \<and> below (cr_tail s) s"

lemma crq_good_step: "crq_step s s' \<Longrightarrow> crq_good s \<Longrightarrow> cr_tickets s < 2 ^ 62 \<Longrightarrow> crq_good s'"
  unfolding crq_good_def using crq_step_inv accounted_head tail_step_below by blast

lemma crq_good_init: "crq_good (crq_init ne nd)"
  using crq_init_inv by (simp add: crq_good_def below_def crq_init_def init_ring_def)

lemma crq_reach_good:
  assumes "crq_reach ne nd s" and "cr_tickets s < 2 ^ 62"
  shows "crq_good s"
  using assms
proof (induction rule: rtranclp_induct)
  case base
  show ?case by (rule crq_good_init)
next
  case (step s s')
  have "cr_tickets s < 2 ^ 62" using crq_step_tickets [OF step(2)] step(4) by simp
  with step show ?case by (blast intro: crq_good_step)
qed

lemma ring_safety:
  assumes "crq_good s"
  shows "distinct (map fst (cr_put s)) \<and> distinct (map fst (cr_got s)) \<and> set (cr_got s) \<subseteq> set (cr_put s) \<and>
    set (cr_gave_up s) \<inter> fst ` set (cr_put s) = {} \<and>
    (\<forall>x \<in> set (cr_put s). fst x < unat (tail_index (rq_tail (cr_ring s)))) \<and> (\<forall>x \<in> set (cr_got s). fst x < unat (rq_head (cr_ring s))) \<and>
    (\<forall>(p, v) \<in> set (cr_put s) - set (cr_got s).
       rn_val (rq_array (cr_ring s) ! (p mod 2 ^ 12)) = v \<and> unat (node_index (rn_idx (rq_array (cr_ring s) ! (p mod 2 ^ 12)))) = p) \<and>
    ((\<forall>pc \<in> set (cr_deqs s). deq_ticket_of pc = None) \<longrightarrow> {x \<in> set (cr_put s). fst x < unat (rq_head (cr_ring s))} = set (cr_got s))"
proof -
  have inv: "crq_inv s" and acc: "{..<cr_head s} \<subseteq> accounted s" and above: "below (cr_tail s) s" using assms by (simp_all add: crq_good_def)
  note D = ring_invD [OF crq_invD(1) [OF inv]]
  let ?below = "{x \<in> set (cr_put s). fst x < cr_head s}"
  have got: "set (cr_got s) \<subseteq> set (cr_put s)" using D(10) by auto
  have taken: "(p, v) \<in> set (cr_got s)" if pv: "(p, v) \<in> set (cr_put s)" and "p \<in> fst ` set (cr_got s)" for p v
  proof -
    from that(2) obtain w where w: "(p, w) \<in> set (cr_got s)" by auto
    with got have "(p, w) \<in> set (cr_put s)" by blast
    from eq_key_imp_eq_value [OF D(8) this pv] w show ?thesis by simp
  qed
  have cells: "\<forall>(p, v) \<in> set (cr_put s) - set (cr_got s).
      rn_val (rq_array (cr_ring s) ! (p mod 2 ^ 12)) = v \<and> unat (node_index (rn_idx (rq_array (cr_ring s) ! (p mod 2 ^ 12)))) = p"
  proof (clarify, goal_cases)
    case (1 p v)
    then have "p \<notin> fst ` set (cr_got s)" using taken by blast
    from D(7) [OF 1(1) this] show ?case by (simp add: c_idx_def ring_len_def)
  qed
  have up: "set (cr_gave_up s) \<inter> fst ` set (cr_put s) = {}" using D(11) by (metis disjoint_iff)
  have "?below \<subseteq> set (cr_got s)" if idle: "\<forall>pc \<in> set (cr_deqs s). deq_ticket_of pc = None"
  proof (clarify, goal_cases)
    case (1 p v)
    then have "p \<in> accounted s" using acc by auto
    then have "p \<in> fst ` set (cr_got s) \<or> p \<in> set (cr_gave_up s)" using idle by (auto simp: accounted_def)
    moreover have "p \<notin> set (cr_gave_up s)" using D(11) [of p] 1(1) by force
    ultimately show ?case using taken 1(1) by blast
  qed
  then have "(\<forall>pc \<in> set (cr_deqs s). deq_ticket_of pc = None) \<longrightarrow> ?below = set (cr_got s)" using D(10) by (intro impI equalityI)
  moreover have "\<forall>x \<in> set (cr_put s). fst x < cr_tail s" "\<forall>x \<in> set (cr_got s). fst x < cr_head s"
    using above D(10) by (auto simp: below_def)
  ultimately show ?thesis using D(8,9) got up cells by (intro conjI)
qed

text \<open>
  C19: The steps of any number of enqueuers and dequeuers of one ring of \<^verbatim>\<open>queues::lcrq\<close>, in any sequentially consistent order of
  their accesses to memory, neither invent, duplicate nor lose a value, as long as fewer than 2^62 positions
  were drawn: every position is stored to at most once and taken from at most once; what is taken from a
  position is the value stored there; no position that a dequeuer gave up is ever stored to, before or after;
  a value that was stored and not taken is in the cell of its position; the positions that were stored to are below the tail and those that
  were taken from below the head, where the next enqueuer and the next dequeuer draw theirs, so that values leave in the order in which they were stored; and when no dequeuer is inside its inner loop, every value that
  was stored below the head was taken.
\<close>

theorem ring_position_safety:
  assumes "crq_reach ne nd s" and "cr_tickets s < 2 ^ 62"
  shows "distinct (map fst (cr_put s)) \<and> distinct (map fst (cr_got s)) \<and> set (cr_got s) \<subseteq> set (cr_put s) \<and>
    set (cr_gave_up s) \<inter> fst ` set (cr_put s) = {} \<and>
    (\<forall>x \<in> set (cr_put s). fst x < unat (tail_index (rq_tail (cr_ring s)))) \<and> (\<forall>x \<in> set (cr_got s). fst x < unat (rq_head (cr_ring s))) \<and>
    (\<forall>(p, v) \<in> set (cr_put s) - set (cr_got s).
       rn_val (rq_array (cr_ring s) ! (p mod 2 ^ 12)) = v \<and> unat (node_index (rn_idx (rq_array (cr_ring s) ! (p mod 2 ^ 12)))) = p) \<and>
    ((\<forall>pc \<in> set (cr_deqs s). deq_ticket_of pc = None) \<longrightarrow> {x \<in> set (cr_put s). fst x < unat (rq_head (cr_ring s))} = set (cr_got s))"
  by (rule ring_safety [OF crq_reach_good [OF assms]])

text \<open>A run: one enqueuer stores 7 at position 0, then one dequeuer takes it.\<close>

lemma init_cell: "rq_array init_ring ! 0 = \<lparr>rn_val = - 1, rn_idx = 0\<rparr>" "length (rq_array init_ring) = 4096"
  "rq_head init_ring = 0" "rq_tail init_ring = 0" "rq_next init_ring = 0"
  using ring_holds_init by (simp_all add: init_ring_def RING_SIZE_def nth_map)

lemma crq_run:
  obtains s where "crq_reach 1 1 s" "cr_tickets s = 2" "cr_put s = [(0, 7)]" "cr_got s = [(0, 7)]" "cr_deqs s = [D_idle]" "cr_head s = 1"
proof -
  have c0: "ring_cell 0 = 0" by (simp add: ring_cell_def)
  define s1 where "s1 = (crq_init 1 1)\<lparr>cr_enqs := [E_try 7 0]\<rparr>"
  define r2 where "r2 = init_ring\<lparr>rq_tail := 1\<rparr>"
  define s2 where "s2 = \<lparr>cr_ring = r2, cr_enqs = [E_ticket 7 0 0], cr_deqs = [D_idle], cr_tickets = 1, cr_put = [], cr_got = [], cr_gave_up = []\<rparr>"
  define s3 where "s3 = s2\<lparr>cr_enqs := [E_idx 7 0 0 0]\<rparr>"
  define s4 where "s4 = s2\<lparr>cr_enqs := [E_cas 7 0 0 0 (- 1)]\<rparr>"
  define r5 where "r5 = r2\<lparr>rq_array := (rq_array r2)[0 := \<lparr>rn_val = 7, rn_idx = 0\<rparr>]\<rparr>"
  define s5 where "s5 = s2\<lparr>cr_ring := r5, cr_enqs := [E_idle], cr_put := [(0, 7)]\<rparr>"
  define s6 where "s6 = s5\<lparr>cr_ring := r5\<lparr>rq_head := 1\<rparr>, cr_deqs := [D_loop 0 0 0], cr_tickets := 2\<rparr>"
  define s7 where "s7 = s6\<lparr>cr_deqs := [D_idx 0 0 0 0]\<rparr>"
  define s8 where "s8 = s6\<lparr>cr_deqs := [D_take 0 0 0 0 7]\<rparr>"
  define r9 where "r9 = r5\<lparr>rq_head := 1, rq_array := (rq_array r5)[0 := \<lparr>rn_val = - 1, rn_idx = RING_SIZE\<rparr>]\<rparr>"
  define s9 where "s9 = s6\<lparr>cr_ring := r9, cr_deqs := [D_idle], cr_got := [(0, 7)]\<rparr>"
  note S = s2_def s3_def s4_def s5_def s6_def s7_def s8_def s9_def r2_def r5_def r9_def e_at_def d_at_def e_goto_def d_goto_def c0 init_cell
    node_index_def node_unsafe_def is_empty_def CAS2_def
  have "crq_step (crq_init 1 1) s1" using enq_begin [of 0 "crq_init 1 1" 7] by (simp add: S s1_def crq_init_def)
  moreover have "crq_step s1 s2" using enq_ticket [of 0 7 0 s1] by (simp add: S s1_def crq_init_def e_ticket_def crq_is_closed_def)
  moreover have "crq_step s2 s3" using enq_idx [of 0 7 0 0 s2] by (simp add: S)
  moreover have "crq_step s3 s4" using enq_val [of 0 7 0 0 0 s3] by (simp add: S e_val_def)
  moreover have "crq_step s4 s5" using enq_cas [of 0 7 0 0 0 "- 1" s4] by (simp add: S e_cas_def)
  moreover have "crq_step s5 s6" using deq_ticket [of 0 s5] by (simp add: S d_ticket_def numeral_2_eq_2)
  moreover have "crq_step s6 s7" using deq_idx [of 0 0 0 0 s6] by (simp add: S)
  moreover have "crq_step s7 s8" using deq_val [of 0 0 0 0 0 s7] by (simp add: S d_val_def)
  moreover have "crq_step s8 s9" using deq_take [of 0 0 0 0 0 7 s8] by (simp add: S d_take_def)
  ultimately have "crq_reach 1 1 s9" by (meson rtranclp.rtrancl_into_rtrancl rtranclp.rtrancl_refl)
  then show thesis by (rule that) (simp_all add: s9_def s6_def s5_def s2_def r9_def)
qed

theorem ring_position_safety_witness:
  "\<exists>s. crq_reach 1 1 s \<and> cr_tickets s < 2 ^ 62 \<and> cr_put s = [(0, 7)] \<and>
     {x \<in> set (cr_put s). fst x < unat (rq_head (cr_ring s))} = set (cr_got s)"
proof -
  obtain s where s: "crq_reach 1 1 s" "cr_tickets s = 2" "cr_put s = [(0, 7)]" "cr_deqs s = [D_idle]"
    using crq_run by metis
  then have "cr_tickets s < 2 ^ 62" by simp
  from ring_position_safety [OF s(1) this] s this show ?thesis by (intro exI [of _ s]) simp
qed

end
