(* ===== verification/Lcrq_Rings.thy ===== *)
theory Lcrq_Rings
  imports Lcrq_Protocol
begin

text \<open>
  The whole of \<^verbatim>\<open>queues::lcrq\<close> under interleaving: enqueuers that find their ring closed link a new one behind it, dequeuers that
  find a linked ring empty move on. A ring is a state of \<^verbatim>\<open>Lcrq_Steps\<close>, so that what holds of one ring holds of each; the steps
  here are the accesses to \<^verbatim>\<open>q->tail\<close>, \<^verbatim>\<open>q->head\<close> and \<^verbatim>\<open>rq->next\<close> (\<^verbatim>\<open>lcrq_put\<close>, \<^verbatim>\<open>lcrq_get\<close> in
  \<^verbatim>\<open>src/boson/src/queues/lcrq.cc\<close>). Rings are not reused while a thread may still hold them, as the hazard pointers
  guarantee: \<open>Hazard_Pointers\<close> has that part.
\<close>

section \<open>Closed and drained rings\<close>

abbreviation cr_closed :: "crq_state \<Rightarrow> bool" where
  "cr_closed s \<equiv> crq_is_closed (rq_tail (cr_ring s))"

text \<open>No position at or above the head is stored to, now or later.\<close>

definition drained :: "crq_state \<Rightarrow> bool" where
  "drained s \<longleftrightarrow> cr_closed s \<and> below (cr_head s) s"

lemma step_head_mono:
  assumes "crq_step s s'" and "crq_inv s" and "cr_tickets s < 2 ^ 62"
  shows "cr_head s \<le> cr_head s'"
  using step_head [OF assms(1)]
proof (elim disjE exE conjE)
  fix p assume "s' = d_ticket p s"
  moreover have "unat (rq_head (cr_ring s) + 1) = Suc (cr_head s)"
    using ring_invD(2) [OF crq_invD(1) [OF assms(2)]] assms(3) unat_add_lem [of "rq_head (cr_ring s)" 1] by simp
  ultimately show ?thesis by (simp add: d_ticket_def Let_def)
qed simp

lemma drained_step:
  assumes "crq_step s s'" and "crq_inv s" and "cr_tickets s < 2 ^ 62" and "drained s"
  shows "drained s'"
  using assms step_tail_mono(2) [OF assms(1-3)] below_step [OF assms(1) _ step_head_mono [OF assms(1-3)]] by (simp add: drained_def)

text \<open>What a linked ring is, and what a thread knows that is about to link or to leave one.\<close>

definition link_ok :: "crq_state \<Rightarrow> bool" where
  "link_ok s \<longleftrightarrow>
     (rq_next (cr_ring s) \<noteq> 0 \<longrightarrow> cr_closed s) \<and>
     (\<forall>p arg k. e_at p (E_alloc arg k) s \<longrightarrow> cr_closed s) \<and>
     (\<forall>p h. d_at p (D_last h) s \<longrightarrow> rq_next (cr_ring s) \<noteq> 0) \<and>
     (\<forall>p. d_at p D_move s \<longrightarrow> rq_next (cr_ring s) \<noteq> 0 \<and> drained s)"

lemma link_okI:
  assumes "rq_next (cr_ring s) \<noteq> 0 \<Longrightarrow> cr_closed s" and "\<And>p arg k. e_at p (E_alloc arg k) s \<Longrightarrow> cr_closed s"
    and "\<And>p h. d_at p (D_last h) s \<Longrightarrow> rq_next (cr_ring s) \<noteq> 0" and "\<And>p. d_at p D_move s \<Longrightarrow> rq_next (cr_ring s) \<noteq> 0 \<and> drained s"
  shows "link_ok s"
  using assms unfolding link_ok_def by blast

lemma link_okD:
  assumes "link_ok s"
  shows "rq_next (cr_ring s) \<noteq> 0 \<Longrightarrow> cr_closed s" and "e_at p (E_alloc arg k) s \<Longrightarrow> cr_closed s"
    and "d_at p (D_last h) s \<Longrightarrow> rq_next (cr_ring s) \<noteq> 0" and "d_at p D_move s \<Longrightarrow> rq_next (cr_ring s) \<noteq> 0 \<and> drained s"
  using assms unfolding link_ok_def by blast+

text \<open>Which steps bring a thread to such a point.\<close>

lemma to_alloc:
  assumes "crq_step s s'" and "e_at q (E_alloc arg k) s'"
  shows "e_at q (E_alloc arg k) s \<or> cr_closed s \<or> cr_closed s'"
  using assms(1)
proof cases
  case (enq_close p arg' k' t)
  have "cr_closed s'" if "fst (close_crq t k' (cr_ring s))"
    using that by (auto simp: enq_close(1) e_close_def close_crq_def BTAS_tail_def set_unsafe_closed Let_def split: if_splits)
  moreover have "e_at q (E_alloc arg k) s" if "\<not> fst (close_crq t k' (cr_ring s))"
    using that assms(2) enq_close(2) by (auto simp: enq_close(1) e_close_def case_prod_unfold e_at_def e_goto_def nth_list_update split: if_splits)
  ultimately show ?thesis by blast
qed (use assms(2) in \<open>auto simp: e_at_def e_goto_def d_goto_def e_ticket_def e_val_def e_head_def e_cas_def e_full_def d_ticket_def d_val_def d_take_def
  d_mark_def d_skip_cas d_check_def d_fix_def d_fix_cas_def d_next_def d_last_def gives_up_def Let_def nth_list_update split: option.splits if_splits\<close>)

lemma to_last:
  assumes "crq_step s s'" and "d_at q (D_last h) s'"
  shows "d_at q (D_last h) s \<or> rq_next (cr_ring s) \<noteq> 0"
  using assms
  by cases (auto simp: d_at_def e_goto_def d_goto_def e_ticket_def e_val_def e_head_def e_cas_def e_full_def e_close_def d_ticket_def d_val_def d_take_def
    d_mark_def d_skip_cas d_check_def d_fix_def d_fix_cas_def d_next_def d_last_def d_decide_def gives_up_def Let_def nth_list_update
    case_prod_unfold split: option.splits if_splits)

lemma to_move:
  assumes "crq_step s s'" and "d_at q D_move s'"
  shows "d_at q D_move s \<or> (\<exists>h. d_at q (D_last h) s \<and> s' = d_last q h s \<and> tail_index (rq_tail (cr_ring s)) \<le> h + 1)"
  using assms
  by cases (auto simp: d_at_def e_goto_def d_goto_def e_ticket_def e_val_def e_head_def e_cas_def e_full_def e_close_def d_ticket_def d_val_def d_take_def
    d_mark_def d_skip_cas d_check_def d_fix_def d_fix_cas_def d_next_def d_last_def d_decide_def gives_up_def Let_def nth_list_update
    case_prod_unfold split: option.splits if_splits)

lemma CAS2_next: "CAS2 c v i v' i' r = Some r' \<Longrightarrow> rq_next r' = rq_next r"
  by (auto simp: CAS2_def split: if_splits)

lemma close_crq_next: "rq_next (snd (close_crq t k r)) = rq_next r"
  by (rule close_crq_tail [of t k r]) simp

lemma step_next: "crq_step s s' \<Longrightarrow> rq_next (cr_ring s') = rq_next (cr_ring s) \<or> rq_next (cr_ring s') \<noteq> 0 \<and> cr_closed s"
  by (induction rule: crq_step.induct)
    (auto simp: e_ticket_def e_val_def e_head_def e_cas_def e_full_def e_close_def d_ticket_def d_val_def d_take_def d_mark_def d_skip_cas d_check_def
      d_fix_def d_fix_cas_def d_next_def d_last_def Let_def CAS2_next close_crq_next BTAS_tail_def case_prod_unfold split: option.splits)

lemma link_ok_step:
  assumes step: "crq_step s s'" and good: "crq_good s" and n: "cr_tickets s < 2 ^ 62" and ok: "link_ok s"
  shows "link_ok s'"
proof -
  have inv: "crq_inv s" and above: "below (cr_tail s) s" using good by (simp_all add: crq_good_def)
  note closed = step_tail_mono(2) [OF step inv n]
  have linked: "rq_next (cr_ring s') \<noteq> 0" if "rq_next (cr_ring s) \<noteq> 0" using step_next [OF step] that by auto
  show ?thesis
  proof (rule link_okI)
    assume "rq_next (cr_ring s') \<noteq> 0"
    then show "cr_closed s'" using step_next [OF step] link_okD(1) [OF ok] closed by auto
  next
    fix p arg k assume "e_at p (E_alloc arg k) s'"
    then show "cr_closed s'" using to_alloc [OF step] link_okD(2) [OF ok] closed by blast
  next
    fix p h assume "d_at p (D_last h) s'"
    then show "rq_next (cr_ring s') \<noteq> 0" using to_last [OF step] link_okD(3) [OF ok] linked by blast
  next
    fix p assume "d_at p D_move s'"
    from to_move [OF step this] show "rq_next (cr_ring s') \<noteq> 0 \<and> drained s'"
    proof (elim disjE exE conjE)
      assume "d_at p D_move s"
      then show ?thesis using link_okD(4) [OF ok] drained_step [OF step inv n] linked by blast
    next
      fix h assume h: "d_at p (D_last h) s" "tail_index (rq_tail (cr_ring s)) \<le> h + 1"
      have "unat h < cr_head s" using crq_invD(3) [OF inv h(1)] by simp
      moreover have "cr_head s \<le> cr_tickets s" by (rule ring_invD(2) [OF crq_invD(1) [OF inv]])
      ultimately have "unat (h + 1) = Suc (unat h)" using n unat_add_lem [of h 1] by simp
      then have "cr_tail s \<le> cr_head s" using h(2) \<open>unat h < cr_head s\<close> by (simp add: word_le_nat_alt)
      then have "below (cr_head s) s" by (rule below_deq [OF above]) simp_all
      then have "drained s" using link_okD(1) [OF ok link_okD(3) [OF ok h(1)]] by (simp add: drained_def)
      then show ?thesis using linked [OF link_okD(3) [OF ok h(1)]] drained_step [OF step inv n] by simp
    qed
  qed
qed

lemma crq_reach_link:
  assumes "crq_reach ne nd s" and "cr_tickets s < 2 ^ 62"
  shows "link_ok s"
  using assms
proof (induction rule: rtranclp_induct)
  case base
  show ?case by (rule link_okI) (auto simp: crq_init_def init_ring_def e_at_def d_at_def)
next
  case (step s s')
  have n: "cr_tickets s < 2 ^ 62" using crq_step_tickets [OF step(2)] step(4) by simp
  show ?case by (rule link_ok_step [OF step(2) crq_reach_good [OF step(1) n] n step(3) [OF n]])
qed

section \<open>A ring with one value\<close>

text \<open>The ring that \<^verbatim>\<open>alloc\<close> links is one in which a thread has stored at position 0.\<close>

definition crq_solo :: "nat \<Rightarrow> nat \<Rightarrow> size_t \<Rightarrow> crq_state" where
  "crq_solo ne nd arg = (crq_init ne nd)\<lparr>cr_ring := init_ring\<lparr>rq_tail := 1, rq_array := (rq_array init_ring)[0 := \<lparr>rn_val = arg, rn_idx = 0\<rparr>]\<rparr>,
     cr_tickets := 1, cr_put := [(0, arg)]\<rparr>"

lemma crq_solo_reach:
  assumes "0 < ne" and "arg \<noteq> - 1"
  shows "crq_reach ne nd (crq_solo ne nd arg)"
proof -
  have c0: "ring_cell 0 = 0" by (simp add: ring_cell_def)
  let ?es = "\<lambda>pc. (replicate ne E_idle)[0 := pc]"
  define s1 where "s1 = (crq_init ne nd)\<lparr>cr_enqs := ?es (E_try arg 0)\<rparr>"
  define s2 where "s2 = \<lparr>cr_ring = init_ring\<lparr>rq_tail := 1\<rparr>, cr_enqs = ?es (E_ticket arg 0 0), cr_deqs = replicate nd D_idle, cr_tickets = 1, cr_put = [],
    cr_got = [], cr_gave_up = []\<rparr>"
  define s3 where "s3 = s2\<lparr>cr_enqs := ?es (E_idx arg 0 0 0)\<rparr>"
  define s4 where "s4 = s2\<lparr>cr_enqs := ?es (E_cas arg 0 0 0 (- 1))\<rparr>"
  note S = s2_def s3_def s4_def e_at_def e_goto_def c0 init_cell node_index_def node_unsafe_def is_empty_def CAS2_def
  have "crq_step (crq_init ne nd) s1" using enq_begin [of 0 "crq_init ne nd" arg 0] assms by (simp add: S s1_def crq_init_def)
  moreover have "crq_step s1 s2" using enq_ticket [of 0 arg 0 s1] assms by (simp add: S s1_def crq_init_def e_ticket_def crq_is_closed_def)
  moreover have "crq_step s2 s3" using enq_idx [of 0 arg 0 0 s2] assms by (simp add: S)
  moreover have "crq_step s3 s4" using enq_val [of 0 arg 0 0 0 s3] assms by (simp add: S e_val_def)
  moreover have "crq_step s4 (crq_solo ne nd arg)"
  proof -
    have "(replicate ne E_idle)[0 := E_idle] = replicate ne E_idle" by (cases ne) simp_all
    then show ?thesis using enq_cas [of 0 arg 0 0 0 "- 1" s4] assms by (simp add: S e_cas_def crq_solo_def crq_init_def)
  qed
  ultimately show ?thesis by (meson rtranclp.rtrancl_into_rtrancl rtranclp.rtrancl_refl)
qed

section \<open>The queue\<close>

text \<open>
  An enqueuer outside of the rings: about to load \<^verbatim>\<open>q->tail\<close>, about to load \<^verbatim>\<open>rq->next\<close>, about to help \<^verbatim>\<open>q->tail\<close> on, inside ring
  \<open>r\<close>, or about to move \<^verbatim>\<open>q->tail\<close> to the ring it has linked. Rings are numbered in the order in which they were
  linked; the pointer to ring \<open>n\<close> is \<open>n + 1\<close>.
\<close>

datatype out_enq =
    OE_idle
  | OE_load size_t nat
  | OE_next size_t nat nat
  | OE_swing size_t nat nat nat
  | OE_in nat
  | OE_tail nat nat

datatype out_deq =
    OD_idle
  | OD_load
  | OD_enter nat
  | OD_in nat

record rings_state =
  lr_rings :: "crq_state list"
  lr_head :: nat
  lr_tail :: nat
  lr_enqs :: "out_enq list"
  lr_deqs :: "out_deq list"

definition rings_init :: "nat \<Rightarrow> nat \<Rightarrow> rings_state" where
  "rings_init ne nd =
     \<lparr>lr_rings = [crq_init ne nd], lr_head = 0, lr_tail = 0, lr_enqs = replicate ne OE_idle, lr_deqs = replicate nd OD_idle\<rparr>"

text \<open>The next access of a thread to the ring it is in.\<close>

definition enq_move :: "nat \<Rightarrow> crq_state \<Rightarrow> crq_state" where
  "enq_move p s =
     (case cr_enqs s ! p of
        E_try arg k \<Rightarrow> e_ticket p arg k s
      | E_ticket arg k t \<Rightarrow> e_goto p (E_idx arg k t (rn_idx (rq_array (cr_ring s) ! ring_cell t))) s
      | E_idx arg k t idx \<Rightarrow> e_val p arg k t idx s
      | E_unsafe arg k t idx val \<Rightarrow> e_head p arg k t idx val s
      | E_cas arg k t idx val \<Rightarrow> e_cas p arg k t idx val s
      | E_full arg k t \<Rightarrow> e_full p arg k t s
      | E_close arg k t \<Rightarrow> e_close p arg k t s
      | _ \<Rightarrow> s)"

definition deq_move :: "nat \<Rightarrow> crq_state \<Rightarrow> crq_state" where
  "deq_move p s =
     (case cr_deqs s ! p of
        D_idle \<Rightarrow> d_ticket p s
      | D_loop h rounds tt \<Rightarrow> d_goto p (D_idx h rounds tt (rn_idx (rq_array (cr_ring s) ! ring_cell h))) s
      | D_idx h rounds tt cell_idx \<Rightarrow> d_val p h rounds tt cell_idx s
      | D_tail h rounds tt cell_idx val \<Rightarrow> d_goto p (d_decide h rounds (rq_tail (cr_ring s)) cell_idx val) s
      | D_skip h rounds tt cell_idx val \<Rightarrow> d_skip p h rounds tt cell_idx val s
      | D_take h rounds tt cell_idx val \<Rightarrow> d_take p h rounds tt cell_idx val s
      | D_mark h rounds tt cell_idx val \<Rightarrow> d_mark p h rounds tt cell_idx val s
      | D_btas h \<Rightarrow> d_goto p (D_break h) (s\<lparr>cr_ring := snd (BTAS_tail (cr_ring s))\<rparr>)
      | D_break h \<Rightarrow> d_check p h s
      | D_fix h0 \<Rightarrow> d_goto p (D_fix_tail h0 (rq_tail (cr_ring s))) s
      | D_fix_tail h0 t \<Rightarrow> d_goto p (D_fix_head h0 t (rq_head (cr_ring s))) s
      | D_fix_head h0 t h \<Rightarrow> d_fix p h0 t h s
      | D_fix_cas h0 t h \<Rightarrow> d_fix_cas p h0 t h s
      | D_next h0 \<Rightarrow> d_next p h0 s
      | D_last h0 \<Rightarrow> d_last p h0 s
      | _ \<Rightarrow> s)"

definition set_ring :: "nat \<Rightarrow> crq_state \<Rightarrow> rings_state \<Rightarrow> rings_state" where
  "set_ring r s L = L\<lparr>lr_rings := (lr_rings L)[r := s]\<rparr>"

definition oe_goto :: "nat \<Rightarrow> out_enq \<Rightarrow> rings_state \<Rightarrow> rings_state" where
  "oe_goto p pc L = L\<lparr>lr_enqs := (lr_enqs L)[p := pc]\<rparr>"

definition od_goto :: "nat \<Rightarrow> out_deq \<Rightarrow> rings_state \<Rightarrow> rings_state" where
  "od_goto p pc L = L\<lparr>lr_deqs := (lr_deqs L)[p := pc]\<rparr>"

text \<open>\<^verbatim>\<open>CAS(&q->tail, &rq, next)\<close> and \<^verbatim>\<open>CAS(&q->head, &rq, next)\<close>.\<close>

definition cas_tail :: "nat \<Rightarrow> nat \<Rightarrow> rings_state \<Rightarrow> rings_state" where
  "cas_tail r n L = (if lr_tail L = r then L\<lparr>lr_tail := n\<rparr> else L)"

definition cas_head :: "nat \<Rightarrow> nat \<Rightarrow> rings_state \<Rightarrow> rings_state" where
  "cas_head r n L = (if lr_head L = r then L\<lparr>lr_head := n\<rparr> else L)"

text \<open>The load of \<^verbatim>\<open>rq->next\<close>: go into the ring, or help \<^verbatim>\<open>q->tail\<close> on.\<close>

definition q_next :: "nat \<Rightarrow> size_t \<Rightarrow> nat \<Rightarrow> nat \<Rightarrow> rings_state \<Rightarrow> rings_state" where
  "q_next p arg k r L =
     (let s = lr_rings L ! r in
      if rq_next (cr_ring s) \<noteq> 0 then oe_goto p (OE_swing arg k r (rq_next (cr_ring s) - 1)) L
      else oe_goto p (OE_in r) (set_ring r (e_goto p (E_try arg k) s) L))"

text \<open>An access in the ring; the call is over when the value is stored, and starts again when the attempt failed.\<close>

definition q_enq :: "nat \<Rightarrow> nat \<Rightarrow> rings_state \<Rightarrow> rings_state" where
  "q_enq p r L =
     (let s = enq_move p (lr_rings L ! r) in
      case cr_enqs s ! p of
        E_idle \<Rightarrow> oe_goto p OE_idle (set_ring r s L)
      | E_try arg k \<Rightarrow> oe_goto p (OE_load arg k) (set_ring r (e_goto p E_idle s) L)
      | _ \<Rightarrow> oe_goto p (OE_in r) (set_ring r s L))"

text \<open>
  \<^verbatim>\<open>alloc\<close>: the compare-and-swap of \<^verbatim>\<open>rq->next\<close>. The new ring is private until then; \<^verbatim>\<open>handle->next\<close> is never set, so
  that each attempt allocates a ring of its own.
\<close>

definition q_link :: "nat \<Rightarrow> nat \<Rightarrow> size_t \<Rightarrow> nat \<Rightarrow> rings_state \<Rightarrow> rings_state" where
  "q_link p r arg k L =
     (let s = lr_rings L ! r; n = length (lr_rings L) in
      if rq_next (cr_ring s) = 0
      then oe_goto p (OE_tail r n)
        (L\<lparr>lr_rings := (lr_rings L)[r := e_goto p E_idle (s\<lparr>cr_ring := (cr_ring s)\<lparr>rq_next := Suc n\<rparr>\<rparr>)] @
             [crq_solo (length (lr_enqs L)) (length (lr_deqs L)) arg]\<rparr>)
      else oe_goto p (OE_load arg k) (set_ring r (e_goto p E_idle s) L))"

text \<open>An access of a dequeuer; the call is over with a value or with nothing, and starts again when the ring was not empty.\<close>

definition q_deq :: "nat \<Rightarrow> nat \<Rightarrow> rings_state \<Rightarrow> rings_state" where
  "q_deq p r L =
     (let s = deq_move p (lr_rings L ! r) in
      case cr_deqs s ! p of
        D_idle \<Rightarrow> od_goto p OD_idle (set_ring r s L)
      | D_empty \<Rightarrow> od_goto p OD_idle (set_ring r (d_goto p D_idle s) L)
      | D_again \<Rightarrow> od_goto p OD_load (set_ring r (d_goto p D_idle s) L)
      | _ \<Rightarrow> od_goto p (OD_in r) (set_ring r s L))"

text \<open>The head moves on to the ring that was loaded from \<^verbatim>\<open>rq->next\<close>, which does not change any more.\<close>

definition q_move :: "nat \<Rightarrow> nat \<Rightarrow> rings_state \<Rightarrow> rings_state" where
  "q_move p r L =
     (let s = lr_rings L ! r in
      od_goto p OD_load (cas_head r (rq_next (cr_ring s) - 1) (set_ring r (d_goto p D_idle s) L)))"

definition oe_at :: "nat \<Rightarrow> out_enq \<Rightarrow> rings_state \<Rightarrow> bool" where
  "oe_at p pc L \<longleftrightarrow> p < length (lr_enqs L) \<and> lr_enqs L ! p = pc"

definition od_at :: "nat \<Rightarrow> out_deq \<Rightarrow> rings_state \<Rightarrow> bool" where
  "od_at p pc L \<longleftrightarrow> p < length (lr_deqs L) \<and> lr_deqs L ! p = pc"

inductive rings_step :: "rings_state \<Rightarrow> rings_state \<Rightarrow> bool" where
  rs_write: "oe_at p OE_idle L \<Longrightarrow> arg \<noteq> - 1 \<Longrightarrow> rings_step L (oe_goto p (OE_load arg 0) L)"
| rs_load: "oe_at p (OE_load arg k) L \<Longrightarrow> rings_step L (oe_goto p (OE_next arg k (lr_tail L)) L)"
| rs_next: "oe_at p (OE_next arg k r) L \<Longrightarrow> rings_step L (q_next p arg k r L)"
| rs_swing: "oe_at p (OE_swing arg k r n) L \<Longrightarrow> rings_step L (oe_goto p (OE_load arg k) (cas_tail r n L))"
| rs_enq: "oe_at p (OE_in r) L \<Longrightarrow> (\<And>arg k. cr_enqs (lr_rings L ! r) ! p \<noteq> E_alloc arg k) \<Longrightarrow> rings_step L (q_enq p r L)"
| rs_link: "oe_at p (OE_in r) L \<Longrightarrow> cr_enqs (lr_rings L ! r) ! p = E_alloc arg k \<Longrightarrow> rings_step L (q_link p r arg k L)"
| rs_tail: "oe_at p (OE_tail r n) L \<Longrightarrow> rings_step L (oe_goto p OE_idle (cas_tail r n L))"
| rs_read: "od_at p OD_idle L \<Longrightarrow> rings_step L (od_goto p OD_load L)"
| rs_head: "od_at p OD_load L \<Longrightarrow> rings_step L (od_goto p (OD_enter (lr_head L)) L)"
| rs_enter: "od_at p (OD_enter r) L \<Longrightarrow> rings_step L (q_deq p r L)"
| rs_deq: "od_at p (OD_in r) L \<Longrightarrow> cr_deqs (lr_rings L ! r) ! p \<noteq> D_move \<Longrightarrow> rings_step L (q_deq p r L)"
| rs_move: "od_at p (OD_in r) L \<Longrightarrow> cr_deqs (lr_rings L ! r) ! p = D_move \<Longrightarrow> rings_step L (q_move p r L)"

abbreviation rings_reach :: "nat \<Rightarrow> nat \<Rightarrow> rings_state \<Rightarrow> bool" where
  "rings_reach ne nd L \<equiv> rings_step\<^sup>*\<^sup>* (rings_init ne nd) L"

section \<open>Moves are steps of the ring\<close>

lemma enq_move_step:
  assumes "p < length (cr_enqs s)" and "cr_enqs s ! p \<noteq> E_idle" and "\<And>arg k. cr_enqs s ! p \<noteq> E_alloc arg k"
  shows "crq_step s (enq_move p s)"
proof -
  have at: "e_at p (cr_enqs s ! p) s" using assms(1) by (simp add: e_at_def)
  show ?thesis
    using at assms(2,3) by (cases "cr_enqs s ! p") (auto simp: enq_move_def intro: crq_step.intros)
qed

lemma deq_move_step:
  assumes "p < length (cr_deqs s)" and "cr_deqs s ! p \<notin> {D_again, D_empty, D_move}"
  shows "crq_step s (deq_move p s)"
proof -
  have at: "d_at p (cr_deqs s ! p) s" using assms(1) by (simp add: d_at_def)
  show ?thesis
    using at assms(2) by (cases "cr_deqs s ! p") (auto simp: deq_move_def intro: crq_step.intros)
qed

lemma e_goto_frame: "cr_enqs (e_goto p pc s) = (cr_enqs s)[p := pc]" "cr_deqs (e_goto p pc s) = cr_deqs s" "cr_put (e_goto p pc s) = cr_put s"
  "rq_next (cr_ring (e_goto p pc s)) = rq_next (cr_ring s)"
  by (simp_all add: e_goto_def)

lemma enq_move_frame:
  "cr_deqs (enq_move p s) = cr_deqs s" "rq_next (cr_ring (enq_move p s)) = rq_next (cr_ring s)" "cr_got (enq_move p s) = cr_got s"
  "\<exists>pc. cr_enqs (enq_move p s) = (cr_enqs s)[p := pc]"
proof -
  show "cr_deqs (enq_move p s) = cr_deqs s" "rq_next (cr_ring (enq_move p s)) = rq_next (cr_ring s)" "cr_got (enq_move p s) = cr_got s"
    by (auto simp: e_goto_def enq_move_def e_ticket_def e_val_def e_head_def e_cas_def e_full_def e_close_def Let_def case_prod_unfold CAS2_next close_crq_next
        split: enq_pc.split option.split)
  show "\<exists>pc. cr_enqs (enq_move p s) = (cr_enqs s)[p := pc]"
    by (cases "cr_enqs s ! p") (auto simp: enq_move_def e_ticket_def e_val_def e_head_def e_cas_def e_full_def e_close_def e_goto_def Let_def
        case_prod_unfold split: option.split intro: list_update_id [symmetric] exI [of _ "cr_enqs s ! p"])
qed

lemma deq_move_frame:
  "cr_enqs (deq_move p s) = cr_enqs s" "cr_put (deq_move p s) = cr_put s" "rq_next (cr_ring (deq_move p s)) = rq_next (cr_ring s)"
  "\<exists>pc. cr_deqs (deq_move p s) = (cr_deqs s)[p := pc]"
proof -
  show "cr_enqs (deq_move p s) = cr_enqs s" "cr_put (deq_move p s) = cr_put s" "rq_next (cr_ring (deq_move p s)) = rq_next (cr_ring s)"
    by (auto simp: deq_move_def d_ticket_def d_val_def d_take_def d_mark_def d_skip_cas d_check_def d_fix_def d_fix_cas_def d_next_def d_last_def
        gives_up_def d_goto_def Let_def CAS2_next BTAS_tail_def split: deq_pc.split option.split)
  show "\<exists>pc. cr_deqs (deq_move p s) = (cr_deqs s)[p := pc]"
    by (cases "cr_deqs s ! p") (auto simp: deq_move_def d_ticket_def d_val_def d_take_def d_mark_def d_skip_cas d_check_def d_fix_def d_fix_cas_def
        d_next_def d_last_def gives_up_def d_goto_def Let_def split: option.split intro: list_update_id [symmetric] exI [of _ "cr_deqs s ! p"])
qed

end
