(* ===== verification/Lcrq_Concurrent.thy ===== *)
theory Lcrq_Concurrent
  imports Lcrq_Rings
begin

text \<open>
  The safety of the whole of \<^verbatim>\<open>queues::lcrq\<close> under every interleaving of the steps of \<^verbatim>\<open>Lcrq_Rings\<close>. Each ring is a reachable state of
  \<^verbatim>\<open>Lcrq_Steps\<close>, so that what \<^verbatim>\<open>Lcrq_Protocol\<close> shows of a ring holds of each; the invariant of the queue adds what is known of the chain of
  rings, of \<^verbatim>\<open>q->head\<close> and \<^verbatim>\<open>q->tail\<close>, and of the ring that each thread is in.
\<close>

section \<open>The invariant of the queue\<close>

lemma drained_steps:
  assumes "crq_step\<^sup>*\<^sup>* s s'" and "crq_reach ne nd s" and "cr_tickets s' < 2 ^ 62" and "drained s"
  shows "drained s'"
  using assms
proof (induction rule: rtranclp_induct)
  case (step s1 s2)
  have n: "cr_tickets s1 < 2 ^ 62" using crq_step_tickets [OF step(2)] step(5) by simp
  have "crq_good s1" using step(1,4) n by (intro crq_reach_good [of ne nd]) auto
  then show ?case using drained_step [OF step(2) _ n step(3) [OF step(4) n step(6)]] by (simp add: crq_good_def)
qed

definition rings_bounded :: "rings_state \<Rightarrow> bool" where
  "rings_bounded L \<longleftrightarrow> (\<forall>s \<in> set (lr_rings L). cr_tickets s < 2 ^ 62)"

definition ring_ok :: "nat \<Rightarrow> nat \<Rightarrow> rings_state \<Rightarrow> nat \<Rightarrow> bool" where
  "ring_ok ne nd L j \<longleftrightarrow>
     crq_reach ne nd (lr_rings L ! j) \<and>
     rq_next (cr_ring (lr_rings L ! j)) = (if Suc j < length (lr_rings L) then Suc (Suc j) else 0) \<and>
     (j < lr_head L \<longrightarrow> drained (lr_rings L ! j)) \<and> (lr_head L < j \<longrightarrow> cr_got (lr_rings L ! j) = [])"

fun oe_ok :: "rings_state \<Rightarrow> out_enq \<Rightarrow> bool" where
  "oe_ok L (OE_load arg k) \<longleftrightarrow> arg \<noteq> - 1"
| "oe_ok L (OE_next arg k r) \<longleftrightarrow> arg \<noteq> - 1 \<and> r \<le> lr_tail L"
| "oe_ok L (OE_swing arg k r n) \<longleftrightarrow> arg \<noteq> - 1 \<and> r \<le> lr_tail L \<and> n = Suc r \<and> n < length (lr_rings L)"
| "oe_ok L (OE_in r) \<longleftrightarrow> r \<le> lr_tail L"
| "oe_ok L (OE_tail r n) \<longleftrightarrow> r \<le> lr_tail L \<and> n = Suc r \<and> n < length (lr_rings L)"
| "oe_ok L OE_idle \<longleftrightarrow> True"

fun od_ok :: "rings_state \<Rightarrow> out_deq \<Rightarrow> bool" where
  "od_ok L (OD_enter r) \<longleftrightarrow> r \<le> lr_head L"
| "od_ok L (OD_in r) \<longleftrightarrow> r \<le> lr_head L"
| "od_ok L _ \<longleftrightarrow> True"

text \<open>A thread is inside at most one ring, the one its call is at.\<close>

definition enq_out :: "rings_state \<Rightarrow> nat \<Rightarrow> bool" where
  "enq_out L p \<longleftrightarrow> oe_ok L (lr_enqs L ! p) \<and>
     (\<forall>j < length (lr_rings L). cr_enqs (lr_rings L ! j) ! p \<noteq> E_idle \<longleftrightarrow> lr_enqs L ! p = OE_in j)"

definition deq_out :: "rings_state \<Rightarrow> nat \<Rightarrow> bool" where
  "deq_out L p \<longleftrightarrow> od_ok L (lr_deqs L ! p) \<and>
     (\<forall>j < length (lr_rings L). (cr_deqs (lr_rings L ! j) ! p \<noteq> D_idle \<longrightarrow> lr_deqs L ! p = OD_in j) \<and>
        cr_deqs (lr_rings L ! j) ! p \<notin> {D_again, D_empty})"

text \<open>
  \<^verbatim>\<open>q->tail\<close> is the last ring, or the last but one while the enqueuer that linked the last has not moved it yet.
\<close>

definition ends_ok :: "nat \<Rightarrow> nat \<Rightarrow> rings_state \<Rightarrow> bool" where
  "ends_ok ne nd L \<longleftrightarrow>
     length (lr_enqs L) = ne \<and> length (lr_deqs L) = nd \<and> lr_head L < length (lr_rings L) \<and> lr_tail L < length (lr_rings L) \<and>
     length (lr_rings L) \<le> lr_tail L + 2 \<and> (Suc (lr_tail L) < length (lr_rings L) \<longrightarrow> (\<exists>p. oe_at p (OE_tail (lr_tail L) (Suc (lr_tail L))) L))"

definition rings_inv :: "nat \<Rightarrow> nat \<Rightarrow> rings_state \<Rightarrow> bool" where
  "rings_inv ne nd L \<longleftrightarrow> ends_ok ne nd L \<and> (\<forall>j < length (lr_rings L). ring_ok ne nd L j) \<and> (\<forall>p < ne. enq_out L p) \<and> (\<forall>p < nd. deq_out L p)"

lemma rings_invD:
  assumes "rings_inv ne nd L"
  shows "ends_ok ne nd L" and "j < length (lr_rings L) \<Longrightarrow> ring_ok ne nd L j" and "p < ne \<Longrightarrow> enq_out L p" and "p < nd \<Longrightarrow> deq_out L p"
  using assms by (simp_all add: rings_inv_def)

lemma ends_okD:
  assumes "ends_ok ne nd L"
  shows "length (lr_enqs L) = ne" and "length (lr_deqs L) = nd" and "lr_head L < length (lr_rings L)" and "lr_tail L < length (lr_rings L)"
    and "length (lr_rings L) \<le> lr_tail L + 2"
    and "Suc (lr_tail L) < length (lr_rings L) \<Longrightarrow> \<exists>p. oe_at p (OE_tail (lr_tail L) (Suc (lr_tail L))) L"
  using assms by (simp_all add: ends_ok_def)

lemma rings_invI:
  assumes "ends_ok ne nd L" and "\<And>j. j < length (lr_rings L) \<Longrightarrow> ring_ok ne nd L j" and "\<And>p. p < ne \<Longrightarrow> enq_out L p" and "\<And>p. p < nd \<Longrightarrow> deq_out L p"
  shows "rings_inv ne nd L"
  using assms by (simp add: rings_inv_def)

lemma rings_inv_init: "rings_inv ne nd (rings_init ne nd)"
  by (rule rings_invI) (auto simp: ends_ok_def ring_ok_def enq_out_def deq_out_def rings_init_def crq_init_def init_ring_def)

text \<open>What a step leaves of the other threads.\<close>

lemma oe_ok_mono:
  assumes "oe_ok L pc" and "lr_tail L \<le> lr_tail L'" and "length (lr_rings L) \<le> length (lr_rings L')"
  shows "oe_ok L' pc"
  using assms by (cases pc) auto

lemma od_ok_mono: "od_ok L pc \<Longrightarrow> lr_head L \<le> lr_head L' \<Longrightarrow> od_ok L' pc"
  by (cases pc) auto

lemma enq_out_frame:
  assumes "enq_out L p" and "lr_tail L \<le> lr_tail L'" and "length (lr_rings L') = length (lr_rings L)" and "lr_enqs L' ! p = lr_enqs L ! p"
    and "\<And>j. j < length (lr_rings L) \<Longrightarrow> cr_enqs (lr_rings L' ! j) ! p = cr_enqs (lr_rings L ! j) ! p"
  shows "enq_out L' p"
  using assms oe_ok_mono [of L "lr_enqs L ! p" L'] by (simp add: enq_out_def)

lemma deq_out_frame:
  assumes "deq_out L p" and "lr_head L \<le> lr_head L'" and "length (lr_rings L') = length (lr_rings L)" and "lr_deqs L' ! p = lr_deqs L ! p"
    and "\<And>j. j < length (lr_rings L) \<Longrightarrow> cr_deqs (lr_rings L' ! j) ! p = cr_deqs (lr_rings L ! j) ! p"
  shows "deq_out L' p"
  using assms od_ok_mono [of L "lr_deqs L ! p" L'] by (simp add: deq_out_def)

lemma ring_ok_frame:
  assumes "ring_ok ne nd L j" and "crq_step\<^sup>*\<^sup>* (lr_rings L ! j) (lr_rings L' ! j)" and "cr_tickets (lr_rings L' ! j) < 2 ^ 62"
    and "rq_next (cr_ring (lr_rings L' ! j)) = rq_next (cr_ring (lr_rings L ! j))" and "length (lr_rings L') = length (lr_rings L)"
    and "lr_head L' = lr_head L" and "cr_got (lr_rings L' ! j) = cr_got (lr_rings L ! j) \<or> j \<le> lr_head L"
  shows "ring_ok ne nd L' j"
proof -
  have reach: "crq_reach ne nd (lr_rings L ! j)" using assms(1) by (simp add: ring_ok_def)
  with assms(2) have "crq_reach ne nd (lr_rings L' ! j)" by auto
  then show ?thesis using assms drained_steps [OF assms(2) reach assms(3)] by (auto simp: ring_ok_def)
qed

section \<open>Every step keeps the invariant of the queue\<close>

lemma ring_of_thread:
  assumes "enq_out L p" and "j < length (lr_rings L)" and "\<And>i. lr_enqs L ! p = OE_in i \<Longrightarrow> i = r" and "j \<noteq> r"
  shows "cr_enqs (lr_rings L ! j) ! p = E_idle"
  using assms by (auto simp: enq_out_def)

lemma step_sizes: "crq_step s s' \<Longrightarrow> length (cr_enqs s') = length (cr_enqs s) \<and> length (cr_deqs s') = length (cr_deqs s)"
  by (induction rule: crq_step.induct)
    (auto simp: e_ticket_def e_val_def e_head_def e_cas_def e_full_def e_close_def d_ticket_def d_val_def d_take_def d_mark_def d_skip_cas d_check_def
      d_fix_def d_fix_cas_def d_next_def d_last_def gives_up_def Let_def case_prod_unfold split: option.splits)

lemma reach_sizes: "crq_reach ne nd s \<Longrightarrow> length (cr_enqs s) = ne \<and> length (cr_deqs s) = nd"
  by (induction rule: rtranclp_induct) (simp_all add: crq_init_def step_sizes)

lemma ring_sizes:
  assumes "rings_inv ne nd L" and "r < length (lr_rings L)"
  shows "length (cr_enqs (lr_rings L ! r)) = ne" and "length (cr_deqs (lr_rings L ! r)) = nd"
  using reach_sizes [of ne nd "lr_rings L ! r"] rings_invD(2) [OF assms] by (simp_all add: ring_ok_def)

lemma oe_at_other: "oe_at q x L \<Longrightarrow> lr_enqs L ! p \<noteq> x \<Longrightarrow> oe_at q x (oe_goto p pc (set_ring r s' L))"
  "oe_at q x L \<Longrightarrow> lr_enqs L ! p \<noteq> x \<Longrightarrow> oe_at q x (oe_goto p pc (cas_tail i j L))"
  by (cases "p = q"; simp add: oe_at_def oe_goto_def set_ring_def cas_tail_def)+

text \<open>A step of enqueuer \<open>p\<close>, in ring \<open>r\<close> or outside of the rings.\<close>

lemma inv_enq:
  assumes inv: "rings_inv ne nd L" and p: "p < ne" and r: "r < length (lr_rings L)" and n: "rings_bounded (set_ring r s' L)"
    and old: "\<And>i. lr_enqs L ! p = OE_in i \<Longrightarrow> i = r" "\<And>i k. lr_enqs L ! p \<noteq> OE_tail i k"
    and step: "crq_step\<^sup>*\<^sup>* (lr_rings L ! r) s'" "rq_next (cr_ring s') = rq_next (cr_ring (lr_rings L ! r))"
      "cr_deqs s' = cr_deqs (lr_rings L ! r)" "cr_got s' = cr_got (lr_rings L ! r)" "cr_enqs s' = (cr_enqs (lr_rings L ! r))[p := e]"
    and new: "e \<noteq> E_idle \<longleftrightarrow> pc = OE_in r" "\<And>i. pc = OE_in i \<Longrightarrow> i = r" "oe_ok L pc"
    and len: "p < length (cr_enqs (lr_rings L ! r))"
  shows "rings_inv ne nd (oe_goto p pc (set_ring r s' L))"
proof (rule rings_invI)
  let ?L = "oe_goto p pc (set_ring r s' L)"
  have L: "length (lr_rings ?L) = length (lr_rings L)" "lr_head ?L = lr_head L" "lr_tail ?L = lr_tail L" "lr_deqs ?L = lr_deqs L"
    "lr_enqs ?L = (lr_enqs L)[p := pc]" "lr_rings ?L = (lr_rings L)[r := s']"
    by (simp_all add: oe_goto_def set_ring_def)
  note E = ends_okD [OF rings_invD(1) [OF inv]]
  have "\<exists>q. oe_at q (OE_tail (lr_tail L) (Suc (lr_tail L))) ?L" if "Suc (lr_tail L) < length (lr_rings L)"
    using E(6) [OF that] old(2) by (blast intro: oe_at_other(1))
  then show "ends_ok ne nd ?L" using E by (simp add: ends_ok_def L)
  show "ring_ok ne nd ?L j" if "j < length (lr_rings ?L)" for j
  proof (rule ring_ok_frame [OF rings_invD(2) [OF inv]])
    show "cr_tickets (lr_rings ?L ! j) < 2 ^ 62" using n that nth_mem [of j "lr_rings ?L"] by (auto simp: rings_bounded_def oe_goto_def)
  qed (use that step r in \<open>auto simp: L nth_list_update\<close>)
  show "enq_out ?L q" if "q < ne" for q
  proof (cases "q = p")
    case True
    have "oe_ok ?L pc" by (rule oe_ok_mono [OF new(3)]) (simp_all add: L)
    moreover have "cr_enqs (lr_rings ?L ! j) ! p \<noteq> E_idle \<longleftrightarrow> pc = OE_in j" if "j < length (lr_rings L)" for j
    proof (cases "j = r")
      case True
      then show ?thesis using that new(1) step(5) len by (simp add: L(6))
    next
      case False
      then show ?thesis using ring_of_thread [OF rings_invD(3) [OF inv p] that old(1)] new(2) by (auto simp: L(6))
    qed
    ultimately show ?thesis using p True by (simp add: enq_out_def L(1,5) E(1))
  next
    case False
    show ?thesis by (rule enq_out_frame [OF rings_invD(3) [OF inv that]]) (use False step(5) r in \<open>auto simp: L nth_list_update\<close>)
  qed
  show "deq_out ?L q" if "q < nd" for q
    by (rule deq_out_frame [OF rings_invD(4) [OF inv that]]) (use step(3) r in \<open>auto simp: L nth_list_update\<close>)
qed

text \<open>A step of dequeuer \<open>p\<close>.\<close>

lemma inv_deq:
  assumes inv: "rings_inv ne nd L" and p: "p < nd" and r: "r < length (lr_rings L)" "r \<le> lr_head L" and n: "rings_bounded (set_ring r s' L)"
    and old: "\<And>i. lr_deqs L ! p = OD_in i \<Longrightarrow> i = r"
    and step: "crq_step\<^sup>*\<^sup>* (lr_rings L ! r) s'" "rq_next (cr_ring s') = rq_next (cr_ring (lr_rings L ! r))"
      "cr_enqs s' = cr_enqs (lr_rings L ! r)" "cr_deqs s' = (cr_deqs (lr_rings L ! r))[p := e]"
    and new: "e \<noteq> D_idle \<Longrightarrow> pc = OD_in r" "e \<notin> {D_again, D_empty}" "od_ok L pc"
    and len: "p < length (cr_deqs (lr_rings L ! r))"
  shows "rings_inv ne nd (od_goto p pc (set_ring r s' L))"
proof (rule rings_invI)
  let ?L = "od_goto p pc (set_ring r s' L)"
  have L: "length (lr_rings ?L) = length (lr_rings L)" "lr_head ?L = lr_head L" "lr_tail ?L = lr_tail L" "lr_enqs ?L = lr_enqs L"
    "lr_deqs ?L = (lr_deqs L)[p := pc]" "lr_rings ?L = (lr_rings L)[r := s']"
    by (simp_all add: od_goto_def set_ring_def)
  note E = ends_okD [OF rings_invD(1) [OF inv]]
  show "ends_ok ne nd ?L" using E by (simp add: ends_ok_def L oe_at_def)
  show "ring_ok ne nd ?L j" if "j < length (lr_rings ?L)" for j
  proof (rule ring_ok_frame [OF rings_invD(2) [OF inv]])
    show "cr_tickets (lr_rings ?L ! j) < 2 ^ 62" using n that nth_mem [of j "lr_rings ?L"] by (auto simp: rings_bounded_def od_goto_def)
  qed (use that step r in \<open>auto simp: L nth_list_update\<close>)
  show "deq_out ?L q" if "q < nd" for q
  proof (cases "q = p")
    case True
    have "od_ok ?L pc" by (rule od_ok_mono [OF new(3)]) (simp add: L)
    moreover have "(cr_deqs (lr_rings ?L ! j) ! p \<noteq> D_idle \<longrightarrow> pc = OD_in j) \<and> cr_deqs (lr_rings ?L ! j) ! p \<notin> {D_again, D_empty}"
      if "j < length (lr_rings L)" for j
    proof (cases "j = r")
      case True
      then show ?thesis using that new(1,2) step(4) len by (simp add: L)
    next
      case False
      have "cr_deqs (lr_rings L ! j) ! p \<noteq> D_idle \<longrightarrow> lr_deqs L ! p = OD_in j" using rings_invD(4) [OF inv p] that by (simp add: deq_out_def)
      then have "cr_deqs (lr_rings L ! j) ! p = D_idle" using old False by blast
      then show ?thesis using False by (simp add: L)
    qed
    ultimately show ?thesis using p True by (simp add: deq_out_def L(1,5) E(2))
  next
    case False
    show ?thesis by (rule deq_out_frame [OF rings_invD(4) [OF inv that]]) (use False step(4) r in \<open>auto simp: L nth_list_update\<close>)
  qed
  show "enq_out ?L q" if "q < ne" for q
    by (rule enq_out_frame [OF rings_invD(3) [OF inv that]]) (use step(3) r in \<open>auto simp: L nth_list_update\<close>)
qed

text \<open>\<^verbatim>\<open>q->tail\<close> moves on, by the enqueuer that linked the ring or by one that helps it.\<close>

lemma inv_tail:
  assumes inv: "rings_inv ne nd L" and p: "p < ne" and out: "\<And>i. lr_enqs L ! p \<noteq> OE_in i" and r: "r \<le> lr_tail L" "Suc r < length (lr_rings L)"
    and mine: "\<And>i k. lr_enqs L ! p = OE_tail i k \<Longrightarrow> i = r" and n: "rings_bounded L" and new: "oe_ok L pc" "\<And>i. pc \<noteq> OE_in i"
  shows "rings_inv ne nd (oe_goto p pc (cas_tail r (Suc r) L))"
proof (rule rings_invI)
  let ?L = "oe_goto p pc (cas_tail r (Suc r) L)"
  have L: "lr_rings ?L = lr_rings L" "lr_head ?L = lr_head L" "lr_deqs ?L = lr_deqs L" "lr_enqs ?L = (lr_enqs L)[p := pc]"
    "lr_tail ?L = (if lr_tail L = r then Suc r else lr_tail L)"
    by (simp_all add: oe_goto_def cas_tail_def)
  note E = ends_okD [OF rings_invD(1) [OF inv]]
  have "\<exists>q. oe_at q (OE_tail (lr_tail L) (Suc (lr_tail L))) ?L" if "Suc (lr_tail L) < length (lr_rings L)" "lr_tail L \<noteq> r"
    using E(6) [OF that(1)] mine that(2) by (blast intro: oe_at_other(2))
  then show "ends_ok ne nd ?L" using E r by (auto simp: ends_ok_def L)
  show "ring_ok ne nd ?L j" if "j < length (lr_rings ?L)" for j
    using rings_invD(2) [OF inv, of j] that by (simp add: ring_ok_def L)
  show "enq_out ?L q" if "q < ne" for q
  proof (cases "q = p")
    case True
    have "oe_ok ?L pc" by (rule oe_ok_mono [OF new(1)]) (simp_all add: L)
    moreover have "cr_enqs (lr_rings L ! j) ! p = E_idle" if "j < length (lr_rings L)" for j
      using rings_invD(3) [OF inv p] that out by (auto simp: enq_out_def)
    ultimately show ?thesis using p True new(2) by (simp add: enq_out_def L(1,4) E(1))
  next
    case False
    show ?thesis by (rule enq_out_frame [OF rings_invD(3) [OF inv that]]) (use False in \<open>auto simp: L\<close>)
  qed
  show "deq_out ?L q" if "q < nd" for q
    by (rule deq_out_frame [OF rings_invD(4) [OF inv that]]) (auto simp: L)
qed

text \<open>\<^verbatim>\<open>q->head\<close> moves on from a drained ring.\<close>

lemma inv_head:
  assumes inv: "rings_inv ne nd L" and "Suc (lr_head L) < length (lr_rings L)" and "drained (lr_rings L ! lr_head L)"
  shows "rings_inv ne nd (L\<lparr>lr_head := Suc (lr_head L)\<rparr>)"
proof (rule rings_invI)
  let ?L = "L\<lparr>lr_head := Suc (lr_head L)\<rparr>"
  show "ends_ok ne nd ?L" using ends_okD [OF rings_invD(1) [OF inv]] assms(2) by (simp add: ends_ok_def oe_at_def)
  show "ring_ok ne nd ?L j" if "j < length (lr_rings ?L)" for j
    using rings_invD(2) [OF inv, of j] that assms(3) by (auto simp: ring_ok_def less_Suc_eq)
  show "enq_out ?L q" if "q < ne" for q
    by (rule enq_out_frame [OF rings_invD(3) [OF inv that]]) simp_all
  show "deq_out ?L q" if "q < nd" for q
    by (rule deq_out_frame [OF rings_invD(4) [OF inv that]]) simp_all
qed

text \<open>Steps outside of the rings.\<close>

lemma set_ring_id [simp]: "set_ring r (lr_rings L ! r) L = L"
  by (simp add: set_ring_def)

lemma bounded_goto [simp]: "rings_bounded (oe_goto p pc L) = rings_bounded L" "rings_bounded (od_goto p pc' L) = rings_bounded L"
  "rings_bounded (cas_tail r n L) = rings_bounded L" "rings_bounded (cas_head r n L) = rings_bounded L"
  by (simp_all add: rings_bounded_def oe_goto_def od_goto_def cas_tail_def cas_head_def)

lemma inv_enq_out:
  assumes inv: "rings_inv ne nd L" and p: "p < ne" and n: "rings_bounded L"
    and old: "\<And>i. lr_enqs L ! p \<noteq> OE_in i" "\<And>i k. lr_enqs L ! p \<noteq> OE_tail i k" and new: "\<And>i. pc \<noteq> OE_in i" "oe_ok L pc"
  shows "rings_inv ne nd (oe_goto p pc L)"
proof -
  let ?r = "lr_tail L"
  have r: "?r < length (lr_rings L)" using ends_okD [OF rings_invD(1) [OF inv]] by simp
  have e: "cr_enqs (lr_rings L ! ?r) ! p = E_idle" using rings_invD(3) [OF inv p] r old(1) by (auto simp: enq_out_def)
  have id: "(cr_enqs (lr_rings L ! ?r))[p := E_idle] = cr_enqs (lr_rings L ! ?r)" using list_update_id [of "cr_enqs (lr_rings L ! ?r)" p] e by simp
  have "rings_inv ne nd (oe_goto p pc (set_ring ?r (lr_rings L ! ?r) L))"
    by (rule inv_enq [OF inv p r, of _ E_idle]) (use n old new e ring_sizes [OF inv r] p in \<open>auto simp: id\<close>)
  then show ?thesis by simp
qed

lemma inv_deq_out:
  assumes inv: "rings_inv ne nd L" and p: "p < nd" and n: "rings_bounded L"
    and old: "\<And>i. lr_deqs L ! p \<noteq> OD_in i" and new: "od_ok L pc"
  shows "rings_inv ne nd (od_goto p pc L)"
proof -
  let ?r = "lr_head L"
  have r: "?r < length (lr_rings L)" using ends_okD [OF rings_invD(1) [OF inv]] by simp
  have e: "cr_deqs (lr_rings L ! ?r) ! p = D_idle" using rings_invD(4) [OF inv p] r old(1) by (auto simp: deq_out_def)
  have id: "(cr_deqs (lr_rings L ! ?r))[p := D_idle] = cr_deqs (lr_rings L ! ?r)" using list_update_id [of "cr_deqs (lr_rings L ! ?r)" p] e by simp
  have "rings_inv ne nd (od_goto p pc (set_ring ?r (lr_rings L ! ?r) L))"
    by (rule inv_deq [OF inv p r, of _ D_idle]) (use n old new e ring_sizes [OF inv r] p in \<open>auto simp: id\<close>)
  then show ?thesis by simp
qed

text \<open>A new ring is linked: the steps of the ring it follows, and what the threads keep.\<close>

lemma link_steps:
  assumes "crq_reach ne nd s" and "cr_tickets s < 2 ^ 62" and "e_at p (E_alloc arg k) s" and "rq_next (cr_ring s) = 0" and "n \<noteq> 0"
  shows "crq_step\<^sup>*\<^sup>* s (e_goto p E_idle (s\<lparr>cr_ring := (cr_ring s)\<lparr>rq_next := n\<rparr>\<rparr>))"
proof -
  let ?s = "s\<lparr>cr_ring := (cr_ring s)\<lparr>rq_next := n\<rparr>\<rparr>"
  have "crq_step s ?s" by (rule link [OF link_okD(2) [OF crq_reach_link [OF assms(1,2)] assms(3)] assms(4,5)])
  moreover have "crq_step ?s (e_goto p E_idle ?s)" by (rule enq_alloc [of p arg k]) (use assms(3) in \<open>simp add: e_at_def\<close>)
  ultimately show ?thesis by (meson converse_rtranclp_into_rtranclp r_into_rtranclp)
qed

lemma solo_idle: "cr_enqs (crq_solo ne nd arg) = replicate ne E_idle" "cr_deqs (crq_solo ne nd arg) = replicate nd D_idle"
  by (simp_all add: crq_solo_def crq_init_def)

lemma nth_link:
  assumes "r < length xs" and "j < Suc (length xs)"
  shows "(xs[r := x] @ [y]) ! j = (if j = length xs then y else if j = r then x else xs ! j)"
  using assms by (auto simp: nth_append nth_list_update)

lemma deq_out_link:
  assumes Q: "deq_out L q" and q: "q < nd" and "r < length (lr_rings L)" and "cr_deqs s = cr_deqs (lr_rings L ! r)"
    and L': "lr_rings L' = (lr_rings L)[r := s] @ [crq_solo ne nd arg]" "lr_head L' = lr_head L" "lr_deqs L' = lr_deqs L"
  shows "deq_out L' q"
proof -
  have "od_ok L' (lr_deqs L ! q)" by (rule od_ok_mono [of L]) (use Q in \<open>simp_all add: deq_out_def L'(2)\<close>)
  moreover have "(cr_deqs (lr_rings L' ! j) ! q \<noteq> D_idle \<longrightarrow> lr_deqs L ! q = OD_in j) \<and> cr_deqs (lr_rings L' ! j) ! q \<notin> {D_again, D_empty}"
    if "j < Suc (length (lr_rings L))" for j
    using Q q that assms(4) by (cases "j = length (lr_rings L)") (simp_all add: L'(1) nth_link [OF assms(3)] solo_idle deq_out_def)
  ultimately show ?thesis by (simp add: deq_out_def L')
qed

lemma enq_out_link:
  assumes Q: "enq_out L q" and q: "q < ne" "q \<noteq> p" and "r < length (lr_rings L)" "lr_tail L < length (lr_rings L)"
    and "cr_enqs s = (cr_enqs (lr_rings L ! r))[p := E_idle]"
    and L': "lr_rings L' = (lr_rings L)[r := s] @ [crq_solo ne nd arg]" "lr_tail L' = lr_tail L" "lr_enqs L' = (lr_enqs L)[p := pc]"
  shows "enq_out L' q"
proof -
  have "oe_ok L' (lr_enqs L ! q)" by (rule oe_ok_mono [of L]) (use Q in \<open>simp_all add: enq_out_def L'(1,2)\<close>)
  moreover have "cr_enqs (lr_rings L' ! j) ! q \<noteq> E_idle \<longleftrightarrow> lr_enqs L ! q = OE_in j" if "j < Suc (length (lr_rings L))" for j
  proof (cases "j = length (lr_rings L)")
    case True
    then show ?thesis using Q q assms(5) by (auto simp: L'(1) nth_link [OF assms(4)] solo_idle enq_out_def)
  next
    case False
    then show ?thesis using Q that q(2) assms(6) by (simp add: L'(1) nth_link [OF assms(4)] enq_out_def)
  qed
  ultimately show ?thesis using q(2) by (simp add: enq_out_def L')
qed

lemma enq_out_linked:
  assumes "enq_out L p" "lr_enqs L ! p = OE_in r" and "p < ne" "p < length (lr_enqs L)" "p < length (cr_enqs (lr_rings L ! r))"
    and "Suc r = length (lr_rings L)" and "cr_enqs s = (cr_enqs (lr_rings L ! r))[p := E_idle]"
    and L': "lr_rings L' = (lr_rings L)[r := s] @ [crq_solo ne nd arg]" "lr_tail L' = r" "lr_enqs L' = (lr_enqs L)[p := OE_tail r (Suc r)]"
  shows "enq_out L' p"
proof -
  have r: "r < length (lr_rings L)" using assms(6) by simp
  have "cr_enqs (lr_rings L ! j) ! p = E_idle" if "j < length (lr_rings L)" "j \<noteq> r" for j
    by (rule ring_of_thread [OF assms(1) that(1) _ that(2)]) (simp add: assms(2))
  then have "cr_enqs (lr_rings L' ! j) ! p = E_idle" if "j < Suc (length (lr_rings L))" for j
    using that assms(3,5,7) by (simp add: L'(1) nth_link [OF r] solo_idle)
  then show ?thesis using assms(4,6) by (simp add: enq_out_def L')
qed

lemma inv_link:
  assumes inv: "rings_inv ne nd L" and p: "p < ne" "lr_enqs L ! p = OE_in r" and n: "rings_bounded L"
    and at: "cr_enqs (lr_rings L ! r) ! p = E_alloc arg k" and last: "rq_next (cr_ring (lr_rings L ! r)) = 0"
  shows "rings_inv ne nd (q_link p r arg k L)"
proof (rule rings_invI)
  note E = ends_okD [OF rings_invD(1) [OF inv]]
  have P: "enq_out L p" by (rule rings_invD(3) [OF inv p(1)])
  then have "r \<le> lr_tail L" using p(2) by (simp add: enq_out_def)
  then have r0: "r < length (lr_rings L)" using E(4) by simp
  have R: "ring_ok ne nd L r" by (rule rings_invD(2) [OF inv r0])
  then have r: "Suc r = length (lr_rings L)" "lr_tail L = r" using last r0 \<open>r \<le> lr_tail L\<close> E(4) by (auto simp: ring_ok_def split: if_splits)
  define s where "s = lr_rings L ! r"
  define s2 where "s2 = e_goto p E_idle (s\<lparr>cr_ring := (cr_ring s)\<lparr>rq_next := Suc (length (lr_rings L))\<rparr>\<rparr>)"
  have s: "crq_reach ne nd s" "cr_tickets s < 2 ^ 62" using R n r0 by (auto simp: ring_ok_def s_def rings_bounded_def)
  have e: "e_at p (E_alloc arg k) s" using at p(1) reach_sizes [OF s(1)] by (simp add: e_at_def s_def)
  have steps: "crq_step\<^sup>*\<^sup>* s s2" unfolding s2_def by (rule link_steps [OF s e]) (simp_all add: s_def last)
  have arg: "arg \<noteq> - 1" using crq_invD(2) [OF _ e] crq_reach_good [OF s] by (simp add: crq_good_def)
  have solo: "crq_reach ne nd (crq_solo ne nd arg)" by (rule crq_solo_reach) (use p(1) arg in auto)
  let ?L = "q_link p r arg k L" and ?n = "length (lr_rings L)"
  have L: "lr_rings ?L = (lr_rings L)[r := s2] @ [crq_solo ne nd arg]" "lr_head ?L = lr_head L" "lr_tail ?L = r" "lr_deqs ?L = lr_deqs L"
    "lr_enqs ?L = (lr_enqs L)[p := OE_tail r (Suc r)]"
    using last r E(1,2) by (simp_all add: q_link_def Let_def oe_goto_def s2_def s_def)
  have pcs: "cr_enqs s2 = (cr_enqs (lr_rings L ! r))[p := E_idle]" "cr_deqs s2 = cr_deqs (lr_rings L ! r)" by (simp_all add: s2_def s_def e_goto_def)
  show "ends_ok ne nd ?L" using E p(1) r by (auto simp: ends_ok_def oe_at_def L intro!: exI [of _ p])
  show "ring_ok ne nd ?L j" if j: "j < length (lr_rings ?L)" for j
  proof -
    have j': "j < Suc ?n" using j by (simp add: L(1))
    consider "j = ?n" | "j = r" | "j \<noteq> r" "j < ?n" using j' by fastforce
    then show ?thesis
    proof cases
      case 1
      then show ?thesis using solo E(3) by (simp add: ring_ok_def L(1,2) nth_link [OF r0], simp add: crq_solo_def crq_init_def init_cell)
    next
      case 2
      have "drained s2" if "drained s" by (rule drained_steps [OF steps s(1) _ that]) (use s(2) in \<open>simp add: s2_def\<close>)
      then show ?thesis using 2 R steps s(1) r(1)
        by (auto simp: ring_ok_def L(1,2) nth_link [OF r0] s_def [symmetric]) (auto simp: s2_def e_goto_def)
    next
      case 3
      then show ?thesis using rings_invD(2) [OF inv, of j] r(1) by (auto simp: ring_ok_def L(1,2) nth_link [OF r0])
    qed
  qed
  show "enq_out ?L q" if q: "q < ne" for q
    using enq_out_link [OF rings_invD(3) [OF inv q] q _ r0 E(4) pcs(1) L(1) _ L(5)] enq_out_linked [OF P p(2,1) _ _ r(1) pcs(1) L(1,3,5)]
      p(1) E(1) ring_sizes [OF inv r0] r(2) L(3) by (cases "q = p") simp_all
  show "deq_out ?L q" if q: "q < nd" for q by (rule deq_out_link [OF rings_invD(4) [OF inv q] q r0 pcs(2) L(1,2,4)])
qed

lemma enq_leaves: "e_at p (E_try arg k) s \<or> e_at p (E_alloc arg k) s \<Longrightarrow> crq_step s (e_goto p E_idle s)"
  using enq_leave enq_alloc by blast

lemma enq_pc_arg:
  assumes "crq_reach ne nd s" and "cr_tickets s < 2 ^ 62" and "e_at p (E_try arg k) s \<or> e_at p (E_alloc arg k) s"
  shows "arg \<noteq> - 1"
  using crq_reach_good [OF assms(1,2)] crq_invD(2) [of s p] assms(3) by (fastforce simp: crq_good_def)

lemma bounded_ring: "rings_bounded (set_ring r s L) \<Longrightarrow> r < length (lr_rings L) \<Longrightarrow> cr_tickets s < 2 ^ 62"
  using set_update_memI [of r "lr_rings L" s] by (simp add: rings_bounded_def set_ring_def)

lemma e_goto_got: "cr_got (e_goto p pc s) = cr_got s"
  by (simp add: e_goto_def)

lemma inv_q_enq:
  assumes inv: "rings_inv ne nd L" and p: "p < ne" "lr_enqs L ! p = OE_in r" and n: "rings_bounded (q_enq p r L)"
    and at: "\<And>arg k. cr_enqs (lr_rings L ! r) ! p \<noteq> E_alloc arg k"
  shows "rings_inv ne nd (q_enq p r L)"
proof -
  have P: "enq_out L p" by (rule rings_invD(3) [OF inv p(1)])
  have r: "r \<le> lr_tail L" "r < length (lr_rings L)" using P p(2) ends_okD [OF rings_invD(1) [OF inv]] by (simp_all add: enq_out_def)
  let ?s = "lr_rings L ! r" and ?s1 = "enq_move p (lr_rings L ! r)"
  have len: "p < length (cr_enqs ?s)" using ring_sizes [OF inv r(2)] p(1) by simp
  have "cr_enqs ?s ! p \<noteq> E_idle" using P r(2) p(2) by (simp add: enq_out_def)
  from enq_move_step [OF len this at] have step: "crq_step ?s ?s1" .
  obtain e where e: "cr_enqs ?s1 = (cr_enqs ?s)[p := e]" using enq_move_frame(4) by blast
  then have e1: "cr_enqs ?s1 ! p = e" "e_at p e ?s1" using len by (simp_all add: e_at_def)
  have reach: "crq_reach ne nd ?s1" using step rings_invD(2) [OF inv r(2)] by (auto simp: ring_ok_def)
  note I = inv_enq [OF inv p(1) r(2) _ _ _ _ _ _ _ _ _ _ _ len]
  show ?thesis
  proof (cases "\<exists>arg k. e = E_try arg k")
    case True
    then obtain arg k where "e = E_try arg k" by blast
    then have q: "q_enq p r L = oe_goto p (OE_load arg k) (set_ring r (e_goto p E_idle ?s1) L)" and at1: "e_at p (E_try arg k) ?s1"
      using e1 by (simp_all add: q_enq_def)
    have "cr_tickets ?s1 < 2 ^ 62" using bounded_ring [OF n [unfolded q bounded_goto] r(2)] by simp
    then have "arg \<noteq> - 1" using enq_pc_arg [OF reach] at1 by blast
    moreover have "crq_step\<^sup>*\<^sup>* ?s (e_goto p E_idle ?s1)" using step enq_leave [OF at1] by (meson converse_rtranclp_into_rtranclp r_into_rtranclp)
    ultimately show ?thesis unfolding q by (intro I [where e = E_idle]) (use n p(2) e in \<open>auto simp: q enq_move_frame e_goto_frame e_goto_got\<close>)
  next
    case False
    have q: "q_enq p r L = oe_goto p (if e = E_idle then OE_idle else OE_in r) (set_ring r ?s1 L)"
      using False by (auto simp: q_enq_def Let_def e1 split: enq_pc.split)
    show ?thesis unfolding q by (rule I [where e = e]) (use n step p(2) r e in \<open>auto simp: q enq_move_frame split: if_splits\<close>)
  qed
qed

text \<open>The compare-and-swap of \<^verbatim>\<open>rq->next\<close>, successful or not.\<close>

lemma inv_q_link:
  assumes inv: "rings_inv ne nd L" and p: "p < ne" "lr_enqs L ! p = OE_in r" and n: "rings_bounded L"
    and at: "cr_enqs (lr_rings L ! r) ! p = E_alloc arg k"
  shows "rings_inv ne nd (q_link p r arg k L)"
proof (cases "rq_next (cr_ring (lr_rings L ! r)) = 0")
  case True
  show ?thesis by (rule inv_link [OF inv p n at True])
next
  case False
  have P: "enq_out L p" by (rule rings_invD(3) [OF inv p(1)])
  have r: "r < length (lr_rings L)" using P p(2) ends_okD [OF rings_invD(1) [OF inv]] by (simp add: enq_out_def)
  let ?s = "lr_rings L ! r"
  have len: "p < length (cr_enqs ?s)" using ring_sizes [OF inv r] p(1) by simp
  have e: "e_at p (E_alloc arg k) ?s" using at len by (simp add: e_at_def)
  have "crq_reach ne nd ?s" "cr_tickets ?s < 2 ^ 62" using rings_invD(2) [OF inv r] n r by (auto simp: ring_ok_def rings_bounded_def)
  from enq_pc_arg [OF this] have "arg \<noteq> - 1" using e by blast
  moreover have "rings_bounded (set_ring r (e_goto p E_idle ?s) L)" using n r
    by (auto simp: rings_bounded_def set_ring_def dest!: set_update_subset_insert [THEN subsetD])
  moreover have "crq_step\<^sup>*\<^sup>* ?s (e_goto p E_idle ?s)" using enq_alloc [OF e] by (rule r_into_rtranclp)
  ultimately show ?thesis using False p(2)
    unfolding q_link_def Let_def by (simp, intro inv_enq [OF inv p(1) r, where e = E_idle]) (auto simp: e_goto_frame e_goto_got len)
qed

lemma d_goto_frame: "cr_deqs (d_goto p pc s) = (cr_deqs s)[p := pc]" "cr_enqs (d_goto p pc s) = cr_enqs s" "cr_put (d_goto p pc s) = cr_put s"
  "cr_ring (d_goto p pc s) = cr_ring s" "cr_tickets (d_goto p pc s) = cr_tickets s"
  by (simp_all add: d_goto_def)

lemma inv_q_deq:
  assumes inv: "rings_inv ne nd L" and p: "p < nd" "lr_deqs L ! p = OD_enter r \<or> lr_deqs L ! p = OD_in r" and n: "rings_bounded (q_deq p r L)"
    and at: "cr_deqs (lr_rings L ! r) ! p \<noteq> D_move"
  shows "rings_inv ne nd (q_deq p r L)"
proof -
  have P: "deq_out L p" by (rule rings_invD(4) [OF inv p(1)])
  have r: "r < length (lr_rings L)" "r \<le> lr_head L" using P p(2) ends_okD [OF rings_invD(1) [OF inv]] by (auto simp: deq_out_def)
  let ?s = "lr_rings L ! r" and ?s1 = "deq_move p (lr_rings L ! r)"
  have len: "p < length (cr_deqs ?s)" using ring_sizes [OF inv r(1)] p(1) by simp
  have "cr_deqs ?s ! p \<notin> {D_again, D_empty, D_move}" using P r(1) at by (simp add: deq_out_def)
  from deq_move_step [OF len this] have step: "crq_step ?s ?s1" .
  obtain e where e: "cr_deqs ?s1 = (cr_deqs ?s)[p := e]" using deq_move_frame(4) by blast
  then have e1: "cr_deqs ?s1 ! p = e" "d_at p e ?s1" using len by (simp_all add: d_at_def)
  have old: "\<And>i. lr_deqs L ! p = OD_in i \<Longrightarrow> i = r" using p(2) by auto
  note I = inv_deq [OF inv p(1) r _ old _ _ _ _ _ _ _ len]
  show ?thesis
  proof (cases "e \<in> {D_again, D_empty}")
    case True
    then have q: "q_deq p r L = od_goto p (if e = D_empty then OD_idle else OD_load) (set_ring r (d_goto p D_idle ?s1) L)"
      by (auto simp: q_deq_def e1)
    have "crq_step ?s1 (d_goto p D_idle ?s1)" by (rule deq_leave [OF e1(2)]) (use True in auto)
    with step have "crq_step\<^sup>*\<^sup>* ?s (d_goto p D_idle ?s1)" by (meson converse_rtranclp_into_rtranclp r_into_rtranclp)
    then show ?thesis unfolding q by (intro I [where e = D_idle]) (use n e in \<open>auto simp: q deq_move_frame d_goto_frame\<close>)
  next
    case False
    have q: "q_deq p r L = od_goto p (if e = D_idle then OD_idle else OD_in r) (set_ring r ?s1 L)"
      using False by (auto simp: q_deq_def Let_def e1 split: deq_pc.split)
    show ?thesis unfolding q by (rule I [where e = e]) (use n step r e False in \<open>auto simp: q deq_move_frame\<close>)
  qed
qed

lemma inv_q_move:
  assumes inv: "rings_inv ne nd L" and p: "p < nd" "lr_deqs L ! p = OD_in r" and n: "rings_bounded L"
    and at: "cr_deqs (lr_rings L ! r) ! p = D_move"
  shows "rings_inv ne nd (q_move p r L)"
proof -
  have P: "deq_out L p" by (rule rings_invD(4) [OF inv p(1)])
  have r: "r < length (lr_rings L)" "r \<le> lr_head L" using P p(2) ends_okD [OF rings_invD(1) [OF inv]] by (auto simp: deq_out_def)
  let ?s = "lr_rings L ! r"
  let ?L = "od_goto p OD_load (set_ring r (d_goto p D_idle ?s) L)"
  have len: "p < length (cr_deqs ?s)" using ring_sizes [OF inv r(1)] p(1) by simp
  have d: "d_at p D_move ?s" using at len by (simp add: d_at_def)
  have R: "crq_reach ne nd ?s" "cr_tickets ?s < 2 ^ 62" using rings_invD(2) [OF inv r(1)] n r by (auto simp: ring_ok_def rings_bounded_def)
  have step: "crq_step\<^sup>*\<^sup>* ?s (d_goto p D_idle ?s)" by (rule r_into_rtranclp, rule deq_leave [OF d]) simp
  have b: "rings_bounded (set_ring r (d_goto p D_idle ?s) L)" using n r
    by (auto simp: rings_bounded_def set_ring_def d_goto_frame dest!: set_update_subset_insert [THEN subsetD])
  have L: "rings_inv ne nd ?L"
    by (rule inv_deq [OF inv p(1) r b _ step, where e = D_idle]) (use p(2) len in \<open>auto simp: d_goto_frame\<close>)
  have next_r: "rq_next (cr_ring ?s) \<noteq> 0" "drained ?s" using link_okD(4) [OF crq_reach_link [OF R] d] by auto
  then have "rq_next (cr_ring ?s) = Suc (Suc r)" "Suc r < length (lr_rings L)" using rings_invD(2) [OF inv r(1)] by (auto simp: ring_ok_def split: if_splits)
  then have q: "q_move p r L = (if lr_head L = r then ?L\<lparr>lr_head := Suc (lr_head ?L)\<rparr> else ?L)" and len': "lr_head L = r \<Longrightarrow> Suc (lr_head ?L) < length (lr_rings ?L)"
    by (simp_all add: q_move_def Let_def od_goto_def cas_head_def set_ring_def)
  have "drained (d_goto p D_idle ?s)" by (rule drained_steps [OF step R(1) _ next_r(2)]) (use R(2) in \<open>simp add: d_goto_frame\<close>)
  then have "drained (lr_rings ?L ! lr_head ?L)" if "lr_head L = r" using that r by (simp add: od_goto_def set_ring_def)
  then show ?thesis unfolding q using inv_head [OF L len'] L by simp
qed

lemma inv_q_next:
  assumes inv: "rings_inv ne nd L" and p: "p < ne" "lr_enqs L ! p = OE_next arg k r" and n: "rings_bounded L"
  shows "rings_inv ne nd (q_next p arg k r L)"
proof -
  have P: "enq_out L p" by (rule rings_invD(3) [OF inv p(1)])
  have r: "r \<le> lr_tail L" "r < length (lr_rings L)" "arg \<noteq> - 1" using P p(2) ends_okD [OF rings_invD(1) [OF inv]] by (simp_all add: enq_out_def)
  let ?s = "lr_rings L ! r"
  have next_r: "rq_next (cr_ring ?s) = (if Suc r < length (lr_rings L) then Suc (Suc r) else 0)" using rings_invD(2) [OF inv r(2)] by (simp add: ring_ok_def)
  show ?thesis
  proof (cases "rq_next (cr_ring ?s) = 0")
    case True
    have len: "p < length (cr_enqs ?s)" using ring_sizes [OF inv r(2)] p(1) by simp
    have "e_at p E_idle ?s" using P p(2) r(2) len by (auto simp: enq_out_def e_at_def)
    then have step: "crq_step\<^sup>*\<^sup>* ?s (e_goto p (E_try arg k) ?s)" using enq_begin r(3) by blast
    have b: "rings_bounded (set_ring r (e_goto p (E_try arg k) ?s) L)" using n r
      by (auto simp: rings_bounded_def set_ring_def dest!: set_update_subset_insert [THEN subsetD])
    have q: "q_next p arg k r L = oe_goto p (OE_in r) (set_ring r (e_goto p (E_try arg k) ?s) L)" using True by (simp add: q_next_def)
    show ?thesis unfolding q
      by (rule inv_enq [OF inv p(1) r(2) b _ _ step, where e = "E_try arg k"]) (use p(2) len r in \<open>auto simp: e_goto_frame e_goto_got\<close>)
  next
    case False
    then show ?thesis unfolding q_next_def Let_def using next_r r p(2)
      by (simp split: if_splits, intro inv_enq_out [OF inv p(1) n]) auto
  qed
qed

lemma rings_step_inv:
  assumes "rings_step L L'" and inv: "rings_inv ne nd L" and n: "rings_bounded L" "rings_bounded L'"
  shows "rings_inv ne nd L'"
proof -
  note E = ends_okD [OF rings_invD(1) [OF inv]]
  have P: "p < ne" "lr_enqs L ! p = pc" "oe_ok L pc" if "oe_at p pc L" for p pc
    using that E(1) rings_invD(3) [OF inv, of p] by (auto simp: oe_at_def enq_out_def)
  have Q: "p < nd" "lr_deqs L ! p = pc" "od_ok L pc" if "od_at p pc L" for p pc
    using that E(2) rings_invD(4) [OF inv, of p] by (auto simp: od_at_def deq_out_def)
  show ?thesis
    using assms(1)
  proof cases
    case (rs_write p arg)
    show ?thesis unfolding rs_write(1) by (rule inv_enq_out [OF inv _ n(1)]) (use P [OF rs_write(2)] rs_write(3) in auto)
  next
    case (rs_load p arg k)
    show ?thesis unfolding rs_load(1) by (rule inv_enq_out [OF inv _ n(1)]) (use P [OF rs_load(2)] in auto)
  next
    case (rs_next p arg k r)
    show ?thesis unfolding rs_next(1) by (rule inv_q_next [OF inv P(1,2) [OF rs_next(2)] n(1)])
  next
    case (rs_swing p arg k r j)
    have j: "j = Suc r" "r \<le> lr_tail L" "Suc r < length (lr_rings L)" "arg \<noteq> - 1" using P(3) [OF rs_swing(2)] by auto
    show ?thesis unfolding rs_swing(1) j(1) by (rule inv_tail [OF inv P(1) [OF rs_swing(2)]]) (use P(2) [OF rs_swing(2)] j n(1) in auto)
  next
    case (rs_enq p r)
    show ?thesis using n(2) unfolding rs_enq(1) by (rule inv_q_enq [OF inv P(1,2) [OF rs_enq(2)]]) (rule rs_enq(3))
  next
    case (rs_link p r arg k)
    show ?thesis unfolding rs_link(1) by (rule inv_q_link [OF inv P(1,2) [OF rs_link(2)] n(1) rs_link(3)])
  next
    case (rs_tail p r j)
    have j: "j = Suc r" "r \<le> lr_tail L" "Suc r < length (lr_rings L)" using P(3) [OF rs_tail(2)] by auto
    show ?thesis unfolding rs_tail(1) j(1) by (rule inv_tail [OF inv P(1) [OF rs_tail(2)]]) (use P(2) [OF rs_tail(2)] j n(1) in auto)
  next
    case (rs_read p)
    show ?thesis unfolding rs_read(1) by (rule inv_deq_out [OF inv _ n(1)]) (use Q [OF rs_read(2)] in auto)
  next
    case (rs_head p)
    show ?thesis unfolding rs_head(1) by (rule inv_deq_out [OF inv _ n(1)]) (use Q [OF rs_head(2)] in auto)
  next
    case (rs_enter p r)
    have "r < length (lr_rings L)" using Q(3) [OF rs_enter(2)] E(3) by simp
    then have "cr_deqs (lr_rings L ! r) ! p \<noteq> D_move"
      using rings_invD(4) [OF inv Q(1) [OF rs_enter(2)]] Q(2) [OF rs_enter(2)] by (auto simp: deq_out_def)
    then show ?thesis using n(2) Q(1,2) [OF rs_enter(2)] unfolding rs_enter(1) by (intro inv_q_deq [OF inv]) simp_all
  next
    case (rs_deq p r)
    show ?thesis using n(2) Q(1,2) [OF rs_deq(2)] rs_deq(3) unfolding rs_deq(1) by (intro inv_q_deq [OF inv]) simp_all
  next
    case (rs_move p r)
    show ?thesis unfolding rs_move(1) by (rule inv_q_move [OF inv Q(1,2) [OF rs_move(2)] n(1) rs_move(3)])
  qed
qed

text \<open>Rings only draw more positions.\<close>

lemma move_tickets: "cr_tickets s \<le> cr_tickets (enq_move p s)" "cr_tickets s \<le> cr_tickets (deq_move p s)"
  by (auto simp: enq_move_def e_ticket_def e_val_def e_head_def e_cas_def e_full_def e_close_def Let_def case_prod_unfold
      deq_move_def d_ticket_def d_val_def d_take_def d_mark_def d_skip_cas d_check_def d_fix_def d_fix_cas_def d_next_def d_last_def
      gives_up_def split: enq_pc.split deq_pc.split option.split)

lemma bounded_update:
  assumes "rings_bounded (set_ring r s L)" and "cr_tickets (lr_rings L ! r) \<le> cr_tickets s"
  shows "rings_bounded L"
proof (cases "r < length (lr_rings L)")
  case True
  show ?thesis unfolding rings_bounded_def
  proof
    fix x assume "x \<in> set (lr_rings L)"
    then obtain j where j: "j < length (lr_rings L)" "x = lr_rings L ! j" by (metis in_set_conv_nth)
    then have "(lr_rings L)[r := s] ! j \<in> set ((lr_rings L)[r := s])" by (intro nth_mem) simp
    then have "cr_tickets ((lr_rings L)[r := s] ! j) < 2 ^ 62" using assms(1) by (simp add: rings_bounded_def set_ring_def)
    then show "cr_tickets x < 2 ^ 62" using assms(2) j by (cases "j = r") simp_all
  qed
qed (use assms in \<open>simp add: set_ring_def list_update_beyond\<close>)

lemma bounded_link:
  assumes "rings_bounded (q_link p r arg k L)"
  shows "rings_bounded L"
proof -
  have cut: "rings_bounded (set_ring r s L)" if "rings_bounded (L\<lparr>lr_rings := (lr_rings L)[r := s] @ xs\<rparr>)" for s xs
    using that by (simp add: rings_bounded_def set_ring_def)
  show ?thesis using assms unfolding q_link_def Let_def by (auto split: if_splits dest!: cut elim!: bounded_update)
qed

lemma bounded_step: "rings_step L L' \<Longrightarrow> rings_bounded L' \<Longrightarrow> rings_bounded L"
proof (induction rule: rings_step.induct)
  case (rs_enq p r L)
  then show ?case unfolding q_enq_def Let_def
    using move_tickets(1) [of "lr_rings L ! r" p] by (auto split: enq_pc.splits elim!: bounded_update)
next
  case (rs_enter p r L)
  then show ?case unfolding q_deq_def Let_def
    using move_tickets(2) [of "lr_rings L ! r" p] by (auto simp: d_goto_frame split: deq_pc.splits elim!: bounded_update)
next
  case (rs_deq p r L)
  then show ?case unfolding q_deq_def Let_def
    using move_tickets(2) [of "lr_rings L ! r" p] by (auto simp: d_goto_frame split: deq_pc.splits elim!: bounded_update)
qed (auto simp: q_next_def q_move_def Let_def d_goto_frame split: if_splits elim!: bounded_update dest: bounded_link)

lemma rings_reach_inv:
  assumes "rings_reach ne nd L" and "rings_bounded L"
  shows "rings_inv ne nd L"
  using assms
proof (induction rule: rtranclp_induct)
  case base
  show ?case by (rule rings_inv_init)
next
  case (step L L')
  have "rings_bounded L" by (rule bounded_step [OF step(2,4)])
  with step show ?case by (blast intro: rings_step_inv)
qed

section \<open>What the invariant shows of the queue\<close>


text \<open>A run: the only enqueuer stores 7 until the first ring is full, closes it and links the second one.\<close>

definition filled :: "nat \<Rightarrow> crq_state" where
  "filled n =
     \<lparr>cr_ring = \<lparr>rq_head = 0, rq_tail = of_nat n, rq_next = 0,
        rq_array = map (\<lambda>i. \<lparr>rn_val = (if i < n then 7 else - 1), rn_idx = of_nat i\<rparr>) [0..<ring_len]\<rparr>,
      cr_enqs = [E_idle], cr_deqs = [D_idle], cr_tickets = n, cr_put = map (\<lambda>i. (i, 7)) [0..<n], cr_got = [], cr_gave_up = []\<rparr>"

definition one_ring :: "out_enq \<Rightarrow> crq_state \<Rightarrow> rings_state" where
  "one_ring pc s = \<lparr>lr_rings = [s], lr_head = 0, lr_tail = 0, lr_enqs = [pc], lr_deqs = [OD_idle]\<rparr>"

lemma filled_init: "filled 0 = crq_init 1 1"
proof -
  have "unat RING_SIZE = ring_len" by (simp add: RING_SIZE_ring_len pos_unat pos_ok_def ring_len_def)
  then show ?thesis by (simp add: filled_def crq_init_def init_ring_def)
qed

lemma one_ring_enter:
  assumes "cr_enqs s = [E_idle]" and "rq_next (cr_ring s) = 0"
  shows "rings_step\<^sup>*\<^sup>* (one_ring OE_idle s) (one_ring (OE_in 0) (s\<lparr>cr_enqs := [E_try 7 0]\<rparr>))"
proof -
  note S = one_ring_def oe_at_def oe_goto_def set_ring_def e_goto_def q_next_def assms
  have "rings_step (one_ring OE_idle s) (one_ring (OE_load 7 0) s)" using rs_write [of 0 "one_ring OE_idle s" 7] by (simp add: S)
  moreover have "rings_step (one_ring (OE_load 7 0) s) (one_ring (OE_next 7 0 0) s)" using rs_load [of 0 7 0 "one_ring (OE_load 7 0) s"] by (simp add: S)
  moreover have "rings_step (one_ring (OE_next 7 0 0) s) (one_ring (OE_in 0) (s\<lparr>cr_enqs := [E_try 7 0]\<rparr>))"
    using rs_next [of 0 7 0 0 "one_ring (OE_next 7 0 0) s"] by (simp add: S)
  ultimately show ?thesis by (meson rtranclp.rtrancl_into_rtrancl rtranclp.rtrancl_refl)
qed

text \<open>One more access in the ring, by a thread that is not at \<^verbatim>\<open>alloc\<close>.\<close>

lemma one_ring_move:
  assumes "cr_enqs s = [e]" and "\<And>arg k. e \<noteq> E_alloc arg k" and "enq_move 0 s = s'" and "cr_enqs s' = [e']" and "\<And>arg k. e' \<noteq> E_try arg k"
  shows "rings_step (one_ring (OE_in 0) s) (one_ring (if e' = E_idle then OE_idle else OE_in 0) s')"
proof -
  have "rings_step (one_ring (OE_in 0) s) (q_enq 0 0 (one_ring (OE_in 0) s))"
    by (rule rs_enq) (use assms(1,2) in \<open>auto simp: one_ring_def oe_at_def\<close>)
  moreover have "q_enq 0 0 (one_ring (OE_in 0) s) = one_ring (if e' = E_idle then OE_idle else OE_in 0) s'"
    using assms(3-5) by (auto simp: q_enq_def Let_def one_ring_def set_ring_def oe_goto_def split: enq_pc.split)
  ultimately show ?thesis by simp
qed

lemma one_ring_in:
  assumes "enq_move 0 s = s'" and "cr_enqs s = [e]" and "cr_enqs s' = [e']" and "\<And>arg k. e \<noteq> E_alloc arg k" and "\<And>arg k. e' \<noteq> E_try arg k"
    and "e' \<noteq> E_idle"
  shows "rings_step (one_ring (OE_in 0) s) (one_ring (OE_in 0) s')"
  using one_ring_move [OF assms(2,4,1,3,5)] assms(6) by simp

text \<open>The ring in the middle of the attempt at position \<open>n\<close>.\<close>

definition filling :: "nat \<Rightarrow> enq_pc \<Rightarrow> crq_state" where
  "filling n pc = (filled n)\<lparr>cr_ring := (cr_ring (filled n))\<lparr>rq_tail := of_nat (Suc n)\<rparr>, cr_enqs := [pc], cr_tickets := Suc n\<rparr>"

lemma filling_simps:
  "cr_enqs (filling n pc) = [pc]" "cr_enqs (filled n) = [E_idle]" "e_goto 0 pc' (filling n pc) = filling n pc'"
  "rq_tail (cr_ring (filled n)) = of_nat n" "rq_tail (cr_ring (filling n pc)) = of_nat (Suc n)"
  "rq_head (cr_ring (filling n pc)) = 0" "rq_next (cr_ring (filled n)) = 0"
  "c < ring_len \<Longrightarrow> rq_array (cr_ring (filling n pc)) ! c = \<lparr>rn_val = (if c < n then 7 else - 1), rn_idx = of_nat c\<rparr>"
  by (simp_all add: filling_def filled_def e_goto_def)

lemma filling_ticket:
  assumes "pos_ok n"
  shows "e_ticket 0 7 0 ((filled n)\<lparr>cr_enqs := [E_try 7 0]\<rparr>) = filling n (E_ticket 7 0 (of_nat n))"
  using pos_flags(4) [OF assms] by (simp add: e_ticket_def e_goto_def filling_def Let_def) (simp add: filled_def add.commute)

lemma filling_cas:
  assumes "n < ring_len" and "pos_ok n"
  shows "e_cas 0 7 0 (of_nat n) (of_nat n) (- 1) (filling n pc) = filled (Suc n)"
proof -
  have c: "ring_cell (of_nat n) = n" using pos_ring_cell [OF assms(2)] assms(1) by simp
  have "(map (\<lambda>i. \<lparr>rn_val = (if i < n then 7 else - 1), rn_idx = of_nat i\<rparr>) [0..<ring_len]) [n := \<lparr>rn_val = 7, rn_idx = of_nat n\<rparr>] =
      map (\<lambda>i. \<lparr>rn_val = (if i < Suc n then 7 else - 1), rn_idx = (of_nat i :: size_t)\<rparr>) [0..<ring_len]"
    by (rule nth_equalityI) (auto simp: nth_list_update less_Suc_eq)
  then have "(rq_array (cr_ring (filled n)))[n := \<lparr>rn_val = 7, rn_idx = of_nat n\<rparr>] = rq_array (cr_ring (filled (Suc n)))" by (simp add: filled_def)
  then show ?thesis
    by (simp add: e_cas_def CAS2_def c filling_simps assms(1) pos_unat [OF assms(2)]) (simp add: filling_def filled_def e_goto_def)
qed

lemma filled_step:
  assumes n: "n < ring_len"
  shows "rings_step\<^sup>*\<^sup>* (one_ring OE_idle (filled n)) (one_ring OE_idle (filled (Suc n)))"
proof -
  have pos: "pos_ok n" using n by (simp add: pos_ok_def ring_len_def)
  have c: "ring_cell (of_nat n) = n" using pos_ring_cell [OF pos] n by simp
  let ?t = "of_nat n :: size_t" and ?s = "\<lambda>pc. one_ring (OE_in 0) (filling n pc)"
  have "rings_step\<^sup>*\<^sup>* (one_ring OE_idle (filled n)) (one_ring (OE_in 0) ((filled n)\<lparr>cr_enqs := [E_try 7 0]\<rparr>))"
    by (rule one_ring_enter) (simp_all add: filling_simps)
  moreover have "rings_step (one_ring (OE_in 0) ((filled n)\<lparr>cr_enqs := [E_try 7 0]\<rparr>)) (?s (E_ticket 7 0 ?t))"
    by (rule one_ring_in [of _ _ "E_try 7 0" "E_ticket 7 0 ?t"]) (simp_all add: enq_move_def filling_ticket [OF pos] filling_simps)
  moreover have "rings_step (?s (E_ticket 7 0 ?t)) (?s (E_idx 7 0 ?t ?t))"
    by (rule one_ring_in [of _ _ "E_ticket 7 0 ?t" "E_idx 7 0 ?t ?t"]) (simp_all add: enq_move_def filling_simps c n)
  moreover have "rings_step (?s (E_idx 7 0 ?t ?t)) (?s (E_cas 7 0 ?t ?t (- 1)))"
    by (rule one_ring_in [of _ _ "E_idx 7 0 ?t ?t" "E_cas 7 0 ?t ?t (- 1)"])
      (simp_all add: enq_move_def filling_simps c n e_val_def is_empty_def pos_flags [OF pos])
  moreover have "rings_step (?s (E_cas 7 0 ?t ?t (- 1))) (one_ring (if E_idle = E_idle then OE_idle else OE_in 0) (filled (Suc n)))"
    by (rule one_ring_move [of _ "E_cas 7 0 ?t ?t (- 1)"]) (simp_all add: enq_move_def filling_simps filling_cas [OF n pos])
  ultimately show ?thesis by (simp only: if_True simp_thms)
qed

lemma filled_reach: "n \<le> ring_len \<Longrightarrow> rings_reach 1 1 (one_ring OE_idle (filled n))"
proof (induction n)
  case 0
  show ?case unfolding filled_init by (simp add: one_ring_def rings_init_def)
next
  case (Suc n)
  then show ?case using filled_step [of n] by (meson Suc_le_lessD Suc_leD rtranclp_trans)
qed

text \<open>The attempt at position 4096 finds the cell of position 0 full, closes the ring and comes to \<^verbatim>\<open>alloc\<close>.\<close>

definition full_ring :: "enq_pc \<Rightarrow> crq_state" where
  "full_ring pc = (filling ring_len pc)\<lparr>cr_ring := (cr_ring (filling ring_len pc))\<lparr>rq_tail := set_unsafe (of_nat (Suc ring_len))\<rparr>\<rparr>"

definition two_rings :: rings_state where
  "two_rings =
     \<lparr>lr_rings = [(full_ring E_idle)\<lparr>cr_ring := (cr_ring (full_ring E_idle))\<lparr>rq_next := 2\<rparr>\<rparr>, crq_solo 1 1 7], lr_head = 0, lr_tail = 0,
      lr_enqs = [OE_tail 0 1], lr_deqs = [OD_idle]\<rparr>"

lemma rings_run: "rings_reach 1 1 two_rings"
proof -
  have pos: "pos_ok ring_len" by (simp add: pos_ok_def ring_len_def)
  have c: "ring_cell (of_nat ring_len) = 0" "0 < ring_len" using pos_ring_cell [OF pos] by (simp_all add: ring_len_def)
  let ?t = "of_nat ring_len :: size_t" and ?s = "\<lambda>pc. one_ring (OE_in 0) (filling ring_len pc)"
  have "rings_step\<^sup>*\<^sup>* (one_ring OE_idle (filled ring_len)) (one_ring (OE_in 0) ((filled ring_len)\<lparr>cr_enqs := [E_try 7 0]\<rparr>))"
    by (rule one_ring_enter) (simp_all add: filling_simps)
  moreover have "rings_step (one_ring (OE_in 0) ((filled ring_len)\<lparr>cr_enqs := [E_try 7 0]\<rparr>)) (?s (E_ticket 7 0 ?t))"
    by (rule one_ring_in [of _ _ "E_try 7 0" "E_ticket 7 0 ?t"]) (simp_all add: enq_move_def filling_ticket [OF pos] filling_simps)
  moreover have "rings_step (?s (E_ticket 7 0 ?t)) (?s (E_idx 7 0 ?t 0))"
    by (rule one_ring_in [of _ _ "E_ticket 7 0 ?t" "E_idx 7 0 ?t 0"]) (simp_all add: enq_move_def filling_simps c)
  moreover have "rings_step (?s (E_idx 7 0 ?t 0)) (?s (E_full 7 0 ?t))"
    by (rule one_ring_in [of _ _ "E_idx 7 0 ?t 0" "E_full 7 0 ?t"]) (simp_all add: enq_move_def filling_simps c e_val_def is_empty_def)
  moreover have "rings_step (?s (E_full 7 0 ?t)) (?s (E_close 7 1 ?t))"
    by (rule one_ring_in [of _ _ "E_full 7 0 ?t" "E_close 7 1 ?t"]) (simp_all add: enq_move_def filling_simps e_full_def RING_SIZE_ring_len)
  moreover have "rings_step (?s (E_close 7 1 ?t)) (one_ring (OE_in 0) (full_ring (E_alloc 7 1)))"
    by (rule one_ring_in [of _ _ "E_close 7 1 ?t" "E_alloc 7 1"])
      (simp_all add: enq_move_def filling_simps e_close_def close_crq_def full_ring_def add.commute, simp add: filling_def e_goto_def)
  moreover have "rings_step (one_ring (OE_in 0) (full_ring (E_alloc 7 1))) two_rings"
    using rs_link [of 0 0 "one_ring (OE_in 0) (full_ring (E_alloc 7 1))" 7 1]
    by (simp add: one_ring_def oe_at_def full_ring_def filling_simps q_link_def two_rings_def) (simp add: filling_def filled_def e_goto_def oe_goto_def numeral_2_eq_2)
  moreover have "rings_reach 1 1 (one_ring OE_idle (filled ring_len))" by (rule filled_reach) simp
  ultimately show ?thesis by (meson rtranclp.rtrancl_into_rtrancl rtranclp_trans)
qed


end
