(* ===== verification/Lcrq_Retired_Tail.thy ===== *)
theory Lcrq_Retired_Tail
  imports Lcrq_Concurrent
begin

text \<open>
  A run of \<^verbatim>\<open>queues::lcrq\<close> in which a dequeuer moves \<^verbatim>\<open>q->head\<close> on from the first ring, and retires that ring, while \<^verbatim>\<open>q->tail\<close> still points to
  it: the enqueuer that has linked the second ring has not moved \<^verbatim>\<open>q->tail\<close> yet. From here on only the hazard pointer of
  that enqueuer keeps the retired ring alive, and an enqueuer that comes now finds it in \<^verbatim>\<open>q->tail\<close>.
\<close>

section \<open>One dequeuer empties the first ring\<close>

text \<open>The values below \<open>m\<close> were taken and \<open>k\<close> positions were drawn.\<close>

definition draining :: "nat \<Rightarrow> nat \<Rightarrow> deq_pc \<Rightarrow> crq_state" where
  "draining k m pc =
     \<lparr>cr_ring = \<lparr>rq_head = of_nat k, rq_tail = set_unsafe (of_nat (Suc ring_len)), rq_next = 2,
        rq_array = map (\<lambda>i. if i < m then \<lparr>rn_val = - 1, rn_idx = of_nat (i + ring_len)\<rparr> else \<lparr>rn_val = 7, rn_idx = of_nat i\<rparr>) [0..<ring_len]\<rparr>,
      cr_enqs = [E_idle], cr_deqs = [pc], cr_tickets = Suc ring_len + k, cr_put = map (\<lambda>i. (i, 7)) [0..<ring_len],
      cr_got = map (\<lambda>i. (i, 7)) [0..<m], cr_gave_up = []\<rparr>"

definition two :: "out_deq \<Rightarrow> crq_state \<Rightarrow> rings_state" where
  "two pc s = \<lparr>lr_rings = [s, crq_solo 1 1 7], lr_head = 0, lr_tail = 0, lr_enqs = [OE_tail 0 1], lr_deqs = [pc]\<rparr>"

lemma two_rings_draining: "two_rings = two OD_idle (draining 0 0 D_idle)"
proof -
  have "map (\<lambda>i. \<lparr>rn_val = (if i < ring_len then 7 else - 1), rn_idx = of_nat i\<rparr>) [0..<ring_len] =
      map (\<lambda>i. \<lparr>rn_val = 7, rn_idx = (of_nat i :: size_t)\<rparr>) [0..<ring_len]"
    by (rule map_cong) simp_all
  then show ?thesis by (simp add: two_rings_def two_def draining_def full_ring_def filling_def filled_def)
qed

lemma two_move:
  assumes "deq_move 0 s = s'" and "cr_deqs s = [d]" and "cr_deqs s' = [d']" and "d \<noteq> D_move" and "d' \<notin> {D_again, D_empty}"
  shows "rings_step (two (OD_in 0) s) (two (if d' = D_idle then OD_idle else OD_in 0) s')"
    and "rings_step (two (OD_enter 0) s) (two (if d' = D_idle then OD_idle else OD_in 0) s')"
proof -
  have q: "q_deq 0 0 (two pc s) = two (if d' = D_idle then OD_idle else OD_in 0) s'" for pc
    using assms(1,3,5) by (auto simp: q_deq_def Let_def two_def set_ring_def od_goto_def split: deq_pc.split)
  have "rings_step (two (OD_in 0) s) (q_deq 0 0 (two (OD_in 0) s))" by (rule rs_deq) (use assms(2,4) in \<open>auto simp: two_def od_at_def\<close>)
  then show "rings_step (two (OD_in 0) s) (two (if d' = D_idle then OD_idle else OD_in 0) s')" by (simp only: q)
  have "rings_step (two (OD_enter 0) s) (q_deq 0 0 (two (OD_enter 0) s))" by (rule rs_enter) (auto simp: two_def od_at_def)
  then show "rings_step (two (OD_enter 0) s) (two (if d' = D_idle then OD_idle else OD_in 0) s')" by (simp only: q)
qed

lemma two_in:
  assumes "deq_move 0 s = s'" and "cr_deqs s = [d]" and "cr_deqs s' = [d']" and "d \<noteq> D_move" and "d' \<notin> {D_again, D_empty, D_idle}"
  shows "rings_step (two (OD_in 0) s) (two (OD_in 0) s')"
  using two_move(1) [OF assms(1-4)] assms(5) by simp

lemma draining_simps:
  "cr_deqs (draining k m pc) = [pc]" "d_goto 0 pc' (draining k m pc) = draining k m pc'"
  "rq_tail (cr_ring (draining k m pc)) = set_unsafe (of_nat (Suc ring_len))" "rq_head (cr_ring (draining k m pc)) = of_nat k"
  "c < ring_len \<Longrightarrow> rq_array (cr_ring (draining k m pc)) ! c =
     (if c < m then \<lparr>rn_val = - 1, rn_idx = of_nat (c + ring_len)\<rparr> else \<lparr>rn_val = 7, rn_idx = of_nat c\<rparr>)"
  by (simp_all add: draining_def d_goto_def)

text \<open>A call that draws position \<open>m\<close>.\<close>

lemma draining_draw: "d_ticket 0 (draining m m D_idle) = draining (Suc m) m (D_loop (of_nat m) 0 0)"
  unfolding d_ticket_def Let_def draining_simps by (simp add: draining_def d_goto_def add.commute)

lemma draining_ticket:
  "rings_step\<^sup>*\<^sup>* (two OD_idle (draining m m D_idle)) (two (OD_in 0) (draining (Suc m) m (D_loop (of_nat m) 0 0)))"
proof -
  have "rings_step (two OD_idle (draining m m D_idle)) (two OD_load (draining m m D_idle))"
    using rs_read [of 0 "two OD_idle (draining m m D_idle)"] by (simp add: two_def od_at_def od_goto_def)
  moreover have "rings_step (two OD_load (draining m m D_idle)) (two (OD_enter 0) (draining m m D_idle))"
    using rs_head [of 0 "two OD_load (draining m m D_idle)"] by (simp add: two_def od_at_def od_goto_def)
  moreover have "rings_step (two (OD_enter 0) (draining m m D_idle))
      (two (if D_loop (of_nat m) 0 0 = D_idle then OD_idle else OD_in 0) (draining (Suc m) m (D_loop (of_nat m) 0 0)))"
    by (rule two_move(2) [of _ _ D_idle]) (simp_all add: deq_move_def draining_simps draining_draw)
  ultimately show ?thesis by (simp only: deq_pc.distinct if_False)
qed

lemma draining_take:
  assumes "m < ring_len" and "pos_ok (m + ring_len)"
  shows "d_take 0 (of_nat m) 0 0 (of_nat m) 7 (draining (Suc m) m pc) = draining (Suc m) (Suc m) D_idle"
proof -
  have pos: "pos_ok m" using pos_ok_mono [OF assms(2)] by simp
  have c: "ring_cell (of_nat m) = m" using pos_ring_cell [OF pos] assms(1) by simp
  let ?f = "\<lambda>m i. if i < m then \<lparr>rn_val = - 1, rn_idx = of_nat (i + ring_len)\<rparr> else \<lparr>rn_val = 7 :: size_t, rn_idx = (of_nat i :: size_t)\<rparr>"
  have "(map (?f m) [0..<ring_len]) [m := \<lparr>rn_val = - 1, rn_idx = of_nat (m + ring_len)\<rparr>] = map (?f (Suc m)) [0..<ring_len]"
    by (rule nth_equalityI) (auto simp: nth_list_update less_Suc_eq)
  then have "(rq_array (cr_ring (draining (Suc m) m pc)))[m := \<lparr>rn_val = - 1, rn_idx = of_nat m + RING_SIZE\<rparr>] =
      rq_array (cr_ring (draining (Suc m) (Suc m) D_idle))"
    by (simp add: draining_def RING_SIZE_ring_len)
  then show ?thesis
    by (simp add: d_take_def CAS2_def c draining_simps assms(1) pos_flags [OF pos] pos_unat [OF pos]) (simp add: draining_def d_goto_def)
qed

lemma draining_step:
  assumes m: "m < ring_len"
  shows "rings_step\<^sup>*\<^sup>* (two OD_idle (draining m m D_idle)) (two OD_idle (draining (Suc m) (Suc m) D_idle))"
proof -
  have pos: "pos_ok m" "pos_ok (m + ring_len)" using m by (simp_all add: pos_ok_def ring_len_def)
  have c: "ring_cell (of_nat m) = m" using pos_ring_cell [OF pos(1)] m by simp
  let ?h = "of_nat m :: size_t" and ?s = "\<lambda>pc. two (OD_in 0) (draining (Suc m) m pc)"
  have "rings_step (?s (D_loop ?h 0 0)) (?s (D_idx ?h 0 0 ?h))"
    by (rule two_in [of _ _ "D_loop ?h 0 0" "D_idx ?h 0 0 ?h"]) (simp_all add: deq_move_def draining_simps c m)
  moreover have "rings_step (?s (D_idx ?h 0 0 ?h)) (?s (D_take ?h 0 0 ?h 7))"
    by (rule two_in [of _ _ "D_idx ?h 0 0 ?h" "D_take ?h 0 0 ?h 7"])
      (simp_all add: deq_move_def draining_simps c m d_val_def is_empty_def pos_flags [OF pos(1)] Let_def)
  moreover have "rings_step (?s (D_take ?h 0 0 ?h 7)) (two (if D_idle = D_idle then OD_idle else OD_in 0) (draining (Suc m) (Suc m) D_idle))"
    by (rule two_move(1) [of _ _ "D_take ?h 0 0 ?h 7"]) (simp_all add: deq_move_def draining_simps draining_take [OF m pos(2)])
  ultimately show ?thesis using draining_ticket [of m] by (simp only: if_True simp_thms)
qed

lemma draining_reach: "m \<le> ring_len \<Longrightarrow> rings_reach 1 1 (two OD_idle (draining m m D_idle))"
proof (induction m)
  case 0
  show ?case using rings_run by (simp add: two_rings_draining)
next
  case (Suc m)
  then show ?case using draining_step [of m] by (meson Suc_le_lessD Suc_leD rtranclp_trans)
qed

section \<open>The dequeuer finds the ring empty\<close>

text \<open>Position 4096 is given up: the cell of position 0 gets the index of the next round.\<close>

definition spent :: "deq_pc \<Rightarrow> crq_state" where
  "spent pc = (draining (Suc ring_len) ring_len pc)\<lparr>cr_gave_up := [ring_len],
     cr_ring := (cr_ring (draining (Suc ring_len) ring_len pc))\<lparr>rq_array :=
       (rq_array (cr_ring (draining (Suc ring_len) ring_len pc)))[0 := \<lparr>rn_val = - 1, rn_idx = of_nat ring_len + RING_SIZE\<rparr>]\<rparr>\<rparr>"

lemma spent_simps:
  "cr_deqs (spent pc) = [pc]" "d_goto 0 pc' (spent pc) = spent pc'" "rq_tail (cr_ring (spent pc)) = set_unsafe (of_nat (Suc ring_len))"
  "rq_head (cr_ring (spent pc)) = of_nat (Suc ring_len)" "rq_next (cr_ring (spent pc)) = 2"
  by (simp_all add: spent_def draining_def d_goto_def)

lemma draining_skip:
  "d_skip 0 (of_nat ring_len) 0 tt (of_nat ring_len) (- 1) (draining (Suc ring_len) ring_len pc) = spent (D_break (of_nat ring_len))"
proof -
  have pos: "pos_ok ring_len" by (simp add: pos_ok_def ring_len_def)
  have c: "ring_cell (of_nat ring_len) = 0" "0 < ring_len" using pos_ring_cell [OF pos] by (simp_all add: ring_len_def)
  show ?thesis
    by (simp add: d_skip_def Let_def CAS2_def c draining_simps pos_flags [OF pos])
      (simp add: spent_def draining_def d_goto_def gives_up_def pos_unat [OF pos])
qed

lemma spent_reach: "rings_reach 1 1 (two (OD_in 0) (spent (D_break (of_nat ring_len))))"
proof -
  have pos: "pos_ok ring_len" by (simp add: pos_ok_def ring_len_def)
  have c: "ring_cell (of_nat ring_len) = 0" "0 < ring_len" using pos_ring_cell [OF pos] by (simp_all add: ring_len_def)
  let ?h = "of_nat ring_len :: size_t" and ?s = "\<lambda>pc. two (OD_in 0) (draining (Suc ring_len) ring_len pc)"
    and ?tt = "set_unsafe (of_nat (Suc ring_len))"
  have "rings_step (?s (D_loop ?h 0 0)) (?s (D_idx ?h 0 0 ?h))"
    by (rule two_in [of _ _ "D_loop ?h 0 0" "D_idx ?h 0 0 ?h"]) (simp_all add: deq_move_def draining_simps c)
  moreover have "rings_step (?s (D_idx ?h 0 0 ?h)) (?s (D_tail ?h 0 0 ?h (- 1)))"
    by (rule two_in [of _ _ "D_idx ?h 0 0 ?h" "D_tail ?h 0 0 ?h (- 1)"])
      (simp_all add: deq_move_def draining_simps c d_val_def is_empty_def pos_flags [OF pos] Let_def)
  moreover have "rings_step (?s (D_tail ?h 0 0 ?h (- 1))) (?s (D_skip ?h 0 ?tt ?h (- 1)))"
    by (rule two_in [of _ _ "D_tail ?h 0 0 ?h (- 1)" "D_skip ?h 0 ?tt ?h (- 1)"])
      (simp_all add: deq_move_def draining_simps d_decide_def set_unsafe_closed)
  moreover have "rings_step (?s (D_skip ?h 0 ?tt ?h (- 1))) (two (OD_in 0) (spent (D_break ?h)))"
    by (rule two_in [of _ _ "D_skip ?h 0 ?tt ?h (- 1)" "D_break ?h"]) (simp_all add: deq_move_def draining_simps draining_skip spent_simps)
  ultimately show ?thesis using draining_ticket [of ring_len] draining_reach [of ring_len] by (meson order_refl rtranclp.rtrancl_into_rtrancl rtranclp_trans)
qed

lemma spent_move: "rings_reach 1 1 (two (OD_in 0) (spent D_move))"
proof -
  have pos: "pos_ok (Suc ring_len)" by (simp add: pos_ok_def ring_len_def)
  let ?h = "of_nat ring_len :: size_t" and ?t = "set_unsafe (of_nat (Suc ring_len))" and ?s = "\<lambda>pc. two (OD_in 0) (spent pc)"
  have t: "tail_index (of_nat (Suc ring_len)) = ?h + 1" using pos_flags(3) [OF pos] by simp
  have nofix: "\<not> ?t < of_nat (Suc ring_len)"
  proof
    assume "?t < of_nat (Suc ring_len)"
    then have "unat ?t < Suc ring_len" using pos_unat [OF pos] by (simp add: word_less_nat_alt del: of_nat_Suc)
    then have "unat ?t < 2 ^ 63" by (simp add: ring_len_def del: of_nat_Suc)
    then show False using node_index_small [of ?t] set_unsafe_closed [of "of_nat (Suc ring_len)"] by (simp add: closed_flag del: of_nat_Suc)
  qed
  note S = deq_move_def spent_simps
  have "rings_step (?s (D_break ?h)) (?s (D_fix ?h))"
    by (rule two_in [of _ _ "D_break ?h" "D_fix ?h"]) (simp_all add: S d_check_def t del: of_nat_Suc)
  moreover have "rings_step (?s (D_fix ?h)) (?s (D_fix_tail ?h ?t))"
    by (rule two_in [of _ _ "D_fix ?h" "D_fix_tail ?h ?t"]) (simp_all add: S)
  moreover have "rings_step (?s (D_fix_tail ?h ?t)) (?s (D_fix_head ?h ?t (of_nat (Suc ring_len))))"
    by (rule two_in [of _ _ "D_fix_tail ?h ?t" "D_fix_head ?h ?t (of_nat (Suc ring_len))"]) (simp_all add: S)
  moreover have "rings_step (?s (D_fix_head ?h ?t (of_nat (Suc ring_len)))) (?s (D_next ?h))"
    by (rule two_in [of _ _ "D_fix_head ?h ?t (of_nat (Suc ring_len))" "D_next ?h"]) (simp_all add: S d_fix_def nofix del: of_nat_Suc)
  moreover have "rings_step (?s (D_next ?h)) (?s (D_last ?h))"
    by (rule two_in [of _ _ "D_next ?h" "D_last ?h"]) (simp_all add: S d_next_def)
  moreover have "rings_step (?s (D_last ?h)) (?s D_move)"
    by (rule two_in [of _ _ "D_last ?h" D_move]) (simp_all add: S d_last_def t del: of_nat_Suc)
  ultimately show ?thesis using spent_reach by (meson rtranclp.rtrancl_into_rtrancl)
qed

text \<open>
  \<^verbatim>\<open>q->head\<close> leaves ring 0, which the dequeuer retires, while ring 0 is \<^verbatim>\<open>q->tail\<close>, and a call that starts now reads it there.
\<close>

lemma tail_is_retired:
  "\<exists>L L'. rings_reach 1 1 L \<and> rings_step L L' \<and> lr_head L = 0 \<and> lr_head L' = 1 \<and> lr_tail L' = 0"
proof (intro exI conjI)
  let ?L = "two (OD_in 0) (spent D_move)"
  show "rings_reach 1 1 ?L" by (rule spent_move)
  show "rings_step ?L (q_move 0 0 ?L)" by (rule rs_move) (simp_all add: two_def od_at_def spent_simps)
  show "lr_head ?L = 0" by (simp add: two_def)
  show "lr_head (q_move 0 0 ?L) = 1" "lr_tail (q_move 0 0 ?L) = 0"
    by (simp_all add: two_def q_move_def Let_def cas_head_def set_ring_def od_goto_def spent_simps)
qed

end
