(* ===== verification/Json_Container.thy ===== *)
theory Json_Container
  imports Prelude "HOL-Library.Sublist"
begin

text \<open>
  The containers of \<^verbatim>\<open>json_backbone\<close> (\<^verbatim>\<open>src/boson/boson/external/json_backbone.hpp\<close>): a \<^verbatim>\<open>container\<close> is a
  variant of base values, arrays of containers and objects from keys to containers; a
  \<^verbatim>\<open>view\<close> reads through one without exceptions, and a \<^verbatim>\<open>view_iterator\<close> walks over its elements. The
  storage of the variant is the subject of \<open>Variant\<close>; here a container is its value. The array
  type is \<^verbatim>\<open>std::vector\<close>, the object type \<^verbatim>\<open>std::map\<close>, a list of pairs in the order of the keys.

  An exception is a value of \<open>json_error\<close>, on the left of a sum; undefined behaviour (an access
  past the end of a vector, a raw access to another alternative, a null dereference) is \<open>None\<close>.
\<close>

section \<open>Containers\<close>

datatype ('k, 'v) json = JValue nat 'v | JArray "('k, 'v) json list" | JObject "('k \<times> ('k, 'v) json) list"

datatype json_error = Bad_variant | Bad_container_array_access | Bad_container_object_access | Bad_view_access

text \<open>The index of the alternative: \<open>n\<close> base types, then the array type, then the object type.\<close>

definition json_type_index :: "nat \<Rightarrow> ('k, 'v) json \<Rightarrow> nat" where
  "json_type_index n c = (case c of JValue i _ \<Rightarrow> i | JArray _ \<Rightarrow> n | JObject _ \<Rightarrow> Suc n)"

definition get_object :: "('k, 'v) json \<Rightarrow> json_error + ('k \<times> ('k, 'v) json) list" where
  "get_object c = (case c of JObject kvs \<Rightarrow> Inr kvs | _ \<Rightarrow> Inl Bad_variant)"

definition get_array :: "('k, 'v) json \<Rightarrow> json_error + ('k, 'v) json list" where
  "get_array c = (case c of JArray xs \<Rightarrow> Inr xs | _ \<Rightarrow> Inl Bad_variant)"

text \<open>\<^verbatim>\<open>at\<close> checks that the container is an array, and not the index; \<^verbatim>\<open>operator[]\<close> checks neither.\<close>

definition container_at :: "nat \<Rightarrow> ('k, 'v) json \<Rightarrow> (json_error + ('k, 'v) json) option" where
  "container_at i c =
     (case c of JArray xs \<Rightarrow> map_option Inr (vec_get xs i) | _ \<Rightarrow> Some (Inl Bad_container_array_access))"

definition container_index :: "nat \<Rightarrow> ('k, 'v) json \<Rightarrow> ('k, 'v) json option" where
  "container_index i c = (case c of JArray xs \<Rightarrow> vec_get xs i | _ \<Rightarrow> None)"

definition container_index_move :: "nat \<Rightarrow> ('k, 'v) json \<Rightarrow> (json_error + ('k, 'v) json) option" where
  "container_index_move i c = (case get_array c of Inl e \<Rightarrow> Some (Inl e) | Inr xs \<Rightarrow> map_option Inr (vec_get xs i))"

text \<open>Assignment through the reference that \<^verbatim>\<open>at\<close> returns.\<close>

definition container_at_assign :: "nat \<Rightarrow> ('k, 'v) json \<Rightarrow> ('k, 'v) json \<Rightarrow> (json_error + ('k, 'v) json) option" where
  "container_at_assign i x c =
     (case c of JArray xs \<Rightarrow> map_option (\<lambda>ys. Inr (JArray ys)) (vec_set xs i x) | _ \<Rightarrow> Some (Inl Bad_container_array_access))"

text \<open>\<^verbatim>\<open>std::map::operator[]\<close> makes a default element at its place when the key is missing.\<close>

fun map_ensure :: "'v \<Rightarrow> 'k :: linorder \<Rightarrow> ('k \<times> 'v) list \<Rightarrow> ('k \<times> 'v) list" where
  "map_ensure d k [] = [(k, d)]"
| "map_ensure d k ((k', v) # kvs) =
     (if k = k' then (k', v) # kvs else if k < k' then (k, d) # (k', v) # kvs else (k', v) # map_ensure d k kvs)"

definition map_store :: "'k \<Rightarrow> 'v \<Rightarrow> ('k \<times> 'v) list \<Rightarrow> ('k \<times> 'v) list" where
  "map_store k x kvs = map (\<lambda>(k', v). if k' = k then (k', x) else (k', v)) kvs"

text \<open>
  \<^verbatim>\<open>operator[](Key)\<close>: on an lvalue the element, made if it is missing, and the container after
  it; on a constant the element or an exception; on an rvalue the element, moved out.
\<close>

definition container_key :: "('k :: linorder, 'v) json \<Rightarrow> 'k \<Rightarrow> ('k, 'v) json \<Rightarrow> json_error + (('k, 'v) json \<times> ('k, 'v) json)" where
  "container_key d k c =
     (case c of
        JObject kvs \<Rightarrow> (let kvs' = map_ensure d k kvs in Inr (the (map_of kvs' k), JObject kvs'))
      | _ \<Rightarrow> Inl Bad_container_object_access)"

definition container_key_const :: "'k \<Rightarrow> ('k, 'v) json \<Rightarrow> json_error + ('k, 'v) json" where
  "container_key_const k c =
     (case c of
        JObject kvs \<Rightarrow> (case map_of kvs k of Some x \<Rightarrow> Inr x | None \<Rightarrow> Inl Bad_container_object_access)
      | _ \<Rightarrow> Inl Bad_container_object_access)"

definition container_key_move :: "('k :: linorder, 'v) json \<Rightarrow> 'k \<Rightarrow> ('k, 'v) json \<Rightarrow> json_error + ('k, 'v) json" where
  "container_key_move d k c = map_sum (\<lambda>e. e) fst (container_key d k c)"

text \<open>Assignment through the reference: \<^verbatim>\<open>c[k] = x\<close>.\<close>

definition container_key_assign :: "('k :: linorder, 'v) json \<Rightarrow> 'k \<Rightarrow> ('k, 'v) json \<Rightarrow> ('k, 'v) json \<Rightarrow> json_error + ('k, 'v) json" where
  "container_key_assign d k x c =
     (case container_key d k c of
        Inl e \<Rightarrow> Inl e
      | Inr (_, c') \<Rightarrow> (case c' of JObject kvs \<Rightarrow> Inr (JObject (map_store k x kvs)) | _ \<Rightarrow> Inr c'))"

text \<open>
  \<^verbatim>\<open>make_object\<close> inserts the pairs of an initializer list one by one, and the first of two with
  the same key stays; \<^verbatim>\<open>make_array\<close> takes the list.
\<close>

fun map_insert :: "'k :: linorder \<times> 'v \<Rightarrow> ('k \<times> 'v) list \<Rightarrow> ('k \<times> 'v) list" where
  "map_insert (k, x) kvs = map_ensure x k kvs"

definition make_object :: "('k :: linorder \<times> ('k, 'v) json) list \<Rightarrow> ('k, 'v) json" where
  "make_object elements = JObject (fold map_insert elements [])"

definition make_array :: "('k, 'v) json list \<Rightarrow> ('k, 'v) json" where
  "make_array elements = JArray elements"

section \<open>Comparison\<close>

text \<open>
  \<^verbatim>\<open>operator==\<close> and \<^verbatim>\<open>operator<\<close> of the variant, with those of the vector, the map and the pair;
  \<open>eq\<close> and \<open>lt\<close> are the comparisons of the base types.
\<close>

fun json_equals :: "(nat \<Rightarrow> 'v \<Rightarrow> 'v \<Rightarrow> bool) \<Rightarrow> ('k, 'v) json \<Rightarrow> ('k, 'v) json \<Rightarrow> bool"
  and vector_equals :: "(nat \<Rightarrow> 'v \<Rightarrow> 'v \<Rightarrow> bool) \<Rightarrow> ('k, 'v) json list \<Rightarrow> ('k, 'v) json list \<Rightarrow> bool"
  and map_equals :: "(nat \<Rightarrow> 'v \<Rightarrow> 'v \<Rightarrow> bool) \<Rightarrow> ('k \<times> ('k, 'v) json) list \<Rightarrow> ('k \<times> ('k, 'v) json) list \<Rightarrow> bool" where
  "json_equals eq (JValue i x) (JValue j y) \<longleftrightarrow> i = j \<and> eq i x y"
| "json_equals eq (JArray xs) (JArray ys) \<longleftrightarrow> vector_equals eq xs ys"
| "json_equals eq (JObject xs) (JObject ys) \<longleftrightarrow> map_equals eq xs ys"
| "json_equals eq _ _ \<longleftrightarrow> False"
| "vector_equals eq [] [] \<longleftrightarrow> True"
| "vector_equals eq (x # xs) (y # ys) \<longleftrightarrow> json_equals eq x y \<and> vector_equals eq xs ys"
| "vector_equals eq _ _ \<longleftrightarrow> False"
| "map_equals eq [] [] \<longleftrightarrow> True"
| "map_equals eq ((k, x) # xs) ((l, y) # ys) \<longleftrightarrow> k = l \<and> json_equals eq x y \<and> map_equals eq xs ys"
| "map_equals eq _ _ \<longleftrightarrow> False"

function (sequential) json_less :: "nat \<Rightarrow> (nat \<Rightarrow> 'v \<Rightarrow> 'v \<Rightarrow> bool) \<Rightarrow> ('k :: linorder, 'v) json \<Rightarrow> ('k, 'v) json \<Rightarrow> bool"
  and vector_less :: "nat \<Rightarrow> (nat \<Rightarrow> 'v \<Rightarrow> 'v \<Rightarrow> bool) \<Rightarrow> ('k :: linorder, 'v) json list \<Rightarrow> ('k, 'v) json list \<Rightarrow> bool"
  and map_less :: "nat \<Rightarrow> (nat \<Rightarrow> 'v \<Rightarrow> 'v \<Rightarrow> bool) \<Rightarrow> ('k :: linorder \<times> ('k, 'v) json) list \<Rightarrow> ('k \<times> ('k, 'v) json) list \<Rightarrow> bool" where
  "json_less n lt (JValue i x) (JValue j y) \<longleftrightarrow> (if i = j then lt i x y else i < j)"
| "json_less n lt (JArray xs) (JArray ys) \<longleftrightarrow> vector_less n lt xs ys"
| "json_less n lt (JObject xs) (JObject ys) \<longleftrightarrow> map_less n lt xs ys"
| "json_less n lt c c' \<longleftrightarrow> json_type_index n c < json_type_index n c'"
| "vector_less n lt xs [] \<longleftrightarrow> False"
| "vector_less n lt [] (y # ys) \<longleftrightarrow> True"
| "vector_less n lt (x # xs) (y # ys) \<longleftrightarrow> json_less n lt x y \<or> \<not> json_less n lt y x \<and> vector_less n lt xs ys"
| "map_less n lt xs [] \<longleftrightarrow> False"
| "map_less n lt [] (y # ys) \<longleftrightarrow> True"
| "map_less n lt ((k, x) # xs) ((l, y) # ys) \<longleftrightarrow>
     (k < l \<or> \<not> l < k \<and> json_less n lt x y) \<or> \<not> (l < k \<or> \<not> k < l \<and> json_less n lt y x) \<and> map_less n lt xs ys"

  by pat_completeness auto

termination
  by (relation "measure (case_sum (\<lambda>(n, lt, c, c'). size c + size c')
      (case_sum (\<lambda>(n, lt, xs, ys). size_list size xs + size_list size ys)
        (\<lambda>(n, lt, xs, ys). size_list (size_prod (\<lambda>_. 0) size) xs + size_list (size_prod (\<lambda>_. 0) size) ys)))") auto

section \<open>Visitors\<close>

text \<open>The object that \<^verbatim>\<open>raw\<close> refers to, whatever the alternative.\<close>

datatype ('k, 'v) payload = PValue 'v | PArray "('k, 'v) json list" | PObject "('k \<times> ('k, 'v) json) list"

definition json_raw :: "('k, 'v) json \<Rightarrow> ('k, 'v) payload" where
  "json_raw c = (case c of JValue _ x \<Rightarrow> PValue x | JArray xs \<Rightarrow> PArray xs | JObject kvs \<Rightarrow> PObject kvs)"

text \<open>
  \<^verbatim>\<open>apply_visitor\<close> calls the entry of its table for the current alternative; a visitor is the function
  it is for each alternative. \<^verbatim>\<open>func_aggregate_visitor\<close> makes one out of a tuple of functions.
\<close>

definition apply_visitor :: "nat \<Rightarrow> (nat \<Rightarrow> ('k, 'v) payload \<Rightarrow> 'e \<Rightarrow> 'r) \<Rightarrow> ('k, 'v) json \<Rightarrow> 'e \<Rightarrow> 'r option" where
  "apply_visitor n visitor c extras =
     do { applier \<leftarrow> vec_get (map visitor [0..<n + 2]) (json_type_index n c); Some (applier (json_raw c) extras) }"

definition func_aggregate_visitor :: "(('k, 'v) payload \<Rightarrow> 'e \<Rightarrow> 'r) list \<Rightarrow> nat \<Rightarrow> ('k, 'v) payload \<Rightarrow> 'e \<Rightarrow> 'r" where
  "func_aggregate_visitor appliers i value extras = (appliers ! i) value extras"

text \<open>
  \<^verbatim>\<open>base_converter\<close> casts what is convertible and makes a default value otherwise; \<open>cast i\<close> is the cast
  from alternative \<open>i\<close>, if there is one.
\<close>

definition convert :: "(nat \<Rightarrow> (('k, 'v) payload \<Rightarrow> 'r) option) \<Rightarrow> 'r \<Rightarrow> nat \<Rightarrow> ('k, 'v) payload \<Rightarrow> 'r" where
  "convert cast d i value = (case cast i of Some f \<Rightarrow> f value | None \<Rightarrow> d)"

definition make_converter :: "nat \<Rightarrow> (nat \<Rightarrow> (('k, 'v) payload \<Rightarrow> 'r) option) \<Rightarrow> 'r \<Rightarrow> nat \<Rightarrow> ('k, 'v) payload \<Rightarrow> unit \<Rightarrow> 'r" where
  "make_converter n cast d = func_aggregate_visitor (map (\<lambda>i value _. convert cast d i value) [0..<n + 2])"

section \<open>Views\<close>

record ('k, 'v) json_view =
  vw_key :: "'k option"
  vw_container :: "('k, 'v) json option"

definition view_empty :: "('k, 'v) json_view" where
  "view_empty = \<lparr>vw_key = None, vw_container = None\<rparr>"

definition make_view :: "('k, 'v) json \<Rightarrow> ('k, 'v) json_view" where
  "make_view c = \<lparr>vw_key = None, vw_container = Some c\<rparr>"

definition make_view_key :: "'k \<Rightarrow> ('k, 'v) json \<Rightarrow> ('k, 'v) json_view" where
  "make_view_key k c = \<lparr>vw_key = Some k, vw_container = Some c\<rparr>"

definition view_is :: "nat \<Rightarrow> nat \<Rightarrow> ('k, 'v) json_view \<Rightarrow> bool" where
  "view_is n i v = (case vw_container v of None \<Rightarrow> False | Some c \<Rightarrow> json_type_index n c = i)"

definition view_index :: "nat \<Rightarrow> ('k, 'v) json_view \<Rightarrow> ('k, 'v) json_view option" where
  "view_index i v =
     (case vw_container v of
        Some (JArray xs) \<Rightarrow> map_option make_view (vec_get xs i)
      | _ \<Rightarrow> Some view_empty)"

definition view_at_key :: "'k \<Rightarrow> ('k, 'v) json_view \<Rightarrow> ('k, 'v) json_view" where
  "view_at_key k v =
     (case vw_container v of
        Some (JObject kvs) \<Rightarrow> (case map_of kvs k of Some x \<Rightarrow> make_view x | None \<Rightarrow> view_empty)
      | _ \<Rightarrow> view_empty)"

definition json_get :: "nat \<Rightarrow> nat \<Rightarrow> ('k, 'v) json \<Rightarrow> json_error + ('k, 'v) payload" where
  "json_get n i c = (if json_type_index n c = i then Inr (json_raw c) else Inl Bad_variant)"

definition view_get :: "nat \<Rightarrow> nat \<Rightarrow> ('k, 'v) json_view \<Rightarrow> json_error + ('k, 'v) payload" where
  "view_get n i v = (case vw_container v of Some c \<Rightarrow> json_get n i c | None \<Rightarrow> Inl Bad_view_access)"

definition view_get_default :: "nat \<Rightarrow> nat \<Rightarrow> ('k, 'v) payload \<Rightarrow> ('k, 'v) json_view \<Rightarrow> ('k, 'v) payload" where
  "view_get_default n i default_value v =
     (case vw_container v of
        Some c \<Rightarrow> if json_type_index n c = i then json_raw c else default_value
      | None \<Rightarrow> default_value)"

definition view_as :: "nat \<Rightarrow> (nat \<Rightarrow> (('k, 'v) payload \<Rightarrow> 'r) option) \<Rightarrow> 'r \<Rightarrow> ('k, 'v) json_view \<Rightarrow> 'r option" where
  "view_as n cast d v =
     (case vw_container v of Some c \<Rightarrow> apply_visitor n (make_converter n cast d) c () | None \<Rightarrow> Some d)"

text \<open>The conversion operator does not look whether the view is empty.\<close>

definition view_convert :: "nat \<Rightarrow> nat \<Rightarrow> ('k, 'v) json_view \<Rightarrow> (json_error + ('k, 'v) payload) option" where
  "view_convert n i v = do { c \<leftarrow> vw_container v; Some (json_get n i c) }"

definition view_get_array :: "('k, 'v) json_view \<Rightarrow> json_error + ('k, 'v) json list" where
  "view_get_array v = (case vw_container v of Some c \<Rightarrow> get_array c | None \<Rightarrow> Inl Bad_view_access)"

definition view_get_object :: "('k, 'v) json_view \<Rightarrow> json_error + ('k \<times> ('k, 'v) json) list" where
  "view_get_object v = (case vw_container v of Some c \<Rightarrow> get_object c | None \<Rightarrow> Inl Bad_view_access)"

section \<open>Iterators\<close>

text \<open>An iterator of the vector or of the map is a position in its list; the end is the length.\<close>

datatype position = At_null | At_array nat | At_object nat

record ('k, 'v) view_iterator =
  it_parent :: "('k, 'v) json_view option"
  it_value :: position
  it_current :: "('k, 'v) json_view"

definition array_element :: "('k, 'v) json list \<Rightarrow> nat \<Rightarrow> ('k, 'v) json_view" where
  "array_element xs i = (if i \<noteq> length xs then make_view (xs ! i) else view_empty)"

definition object_element :: "('k \<times> ('k, 'v) json) list \<Rightarrow> nat \<Rightarrow> ('k, 'v) json_view" where
  "object_element kvs i = (if i \<noteq> length kvs then make_view_key (fst (kvs ! i)) (snd (kvs ! i)) else view_empty)"

definition iterator_null :: "('k, 'v) view_iterator" where
  "iterator_null = \<lparr>it_parent = None, it_value = At_null, it_current = view_empty\<rparr>"

definition iterator_array :: "('k, 'v) json_view \<Rightarrow> ('k, 'v) json list \<Rightarrow> nat \<Rightarrow> ('k, 'v) view_iterator" where
  "iterator_array parent xs i = \<lparr>it_parent = Some parent, it_value = At_array i, it_current = array_element xs i\<rparr>"

definition iterator_object :: "('k, 'v) json_view \<Rightarrow> ('k \<times> ('k, 'v) json) list \<Rightarrow> nat \<Rightarrow> ('k, 'v) view_iterator" where
  "iterator_object parent kvs i = \<lparr>it_parent = Some parent, it_value = At_object i, it_current = object_element kvs i\<rparr>"

definition view_begin :: "('k, 'v) json_view \<Rightarrow> ('k, 'v) view_iterator" where
  "view_begin v =
     (case vw_container v of
        Some (JObject kvs) \<Rightarrow> iterator_object v kvs 0
      | Some (JArray xs) \<Rightarrow> iterator_array v xs 0
      | _ \<Rightarrow> iterator_null)"

definition view_end :: "('k, 'v) json_view \<Rightarrow> ('k, 'v) view_iterator" where
  "view_end v =
     (case vw_container v of
        Some (JObject kvs) \<Rightarrow> iterator_object v kvs (length kvs)
      | Some (JArray xs) \<Rightarrow> iterator_array v xs (length xs)
      | _ \<Rightarrow> iterator_null)"

text \<open>\<^verbatim>\<open>operator++\<close>; to step past the end is undefined.\<close>

definition iterator_next :: "('k, 'v) view_iterator \<Rightarrow> (json_error + ('k, 'v) view_iterator) option" where
  "iterator_next it =
     (case it_value it of
        At_null \<Rightarrow> Some (Inr it)
      | At_array i \<Rightarrow>
          do { parent \<leftarrow> it_parent it;
               case view_get_array parent of
                 Inl e \<Rightarrow> Some (Inl e)
               | Inr xs \<Rightarrow> if i < length xs
                   then Some (Inr (it\<lparr>it_value := At_array (Suc i), it_current := array_element xs (Suc i)\<rparr>)) else None }
      | At_object i \<Rightarrow>
          do { parent \<leftarrow> it_parent it;
               case view_get_object parent of
                 Inl e \<Rightarrow> Some (Inl e)
               | Inr kvs \<Rightarrow> if i < length kvs
                   then Some (Inr (it\<lparr>it_value := At_object (Suc i), it_current := object_element kvs (Suc i)\<rparr>)) else None })"

definition iterator_eq :: "('k, 'v) view_iterator \<Rightarrow> ('k, 'v) view_iterator \<Rightarrow> bool" where
  "iterator_eq it compared =
     (case it_value it of
        At_null \<Rightarrow> it_value compared = At_null
      | At_array i \<Rightarrow> (case it_value compared of At_array j \<Rightarrow> i = j | _ \<Rightarrow> False)
      | At_object i \<Rightarrow> (case it_value compared of At_object j \<Rightarrow> i = j | _ \<Rightarrow> False))"

text \<open>The loop \<^verbatim>\<open>for (auto it = v.begin(); it != v.end(); ++it)\<close>, with the views \<^verbatim>\<open>*it\<close> it sees.\<close>

partial_function (option) iterate ::
  "('k, 'v) view_iterator \<Rightarrow> ('k, 'v) view_iterator \<Rightarrow> ('k, 'v) json_view list \<Rightarrow> (json_error + ('k, 'v) json_view list) option" where
  "iterate it ending seen =
     (if iterator_eq it ending then Some (Inr seen)
      else Option.bind (iterator_next it)
        (\<lambda>r. case r of Inl e \<Rightarrow> Some (Inl e) | Inr it' \<Rightarrow> iterate it' ending (seen @ [it_current it])))"

section \<open>Objects are maps\<close>

abbreviation keys_sorted :: "('k :: linorder \<times> 'v) list \<Rightarrow> bool" where
  "keys_sorted kvs \<equiv> sorted_wrt (<) (map fst kvs)"

lemma map_ensure_keys: "set (map fst (map_ensure d k kvs)) = insert k (set (map fst kvs))"
  by (induction d k kvs rule: map_ensure.induct) auto

lemma map_ensure_sorted: "keys_sorted kvs \<Longrightarrow> keys_sorted (map_ensure d k kvs)"
proof (induction d k kvs rule: map_ensure.induct)
  case (2 d k k' v kvs)
  then show ?case using map_ensure_keys [of d k kvs] by (auto simp: not_less_iff_gr_or_eq)
qed simp

lemma map_of_below: "keys_sorted ((k', v) # kvs) \<Longrightarrow> k < k' \<Longrightarrow> map_of kvs k = None"
  by (auto simp: map_of_eq_None_iff)

lemma map_of_ensure:
  "keys_sorted kvs \<Longrightarrow> map_of (map_ensure d k kvs) l = (if l = k \<and> map_of kvs k = None then Some d else map_of kvs l)"
proof (induction d k kvs rule: map_ensure.induct)
  case (2 d k k' v kvs)
  then show ?case using map_of_below [of k' v kvs k] by auto
qed auto

lemma map_of_store: "map_of (map_store k x kvs) l = (if l = k \<and> map_of kvs k \<noteq> None then Some x else map_of kvs l)"
  by (induction kvs) (auto simp: map_store_def)

lemma map_store_keys [simp]: "map fst (map_store k x kvs) = map fst kvs"
  by (induction kvs) (auto simp: map_store_def)

text \<open>
  An assignment through a key is what a read finds. In an object whose keys are in order,
  \<^verbatim>\<open>c[k] = x\<close> succeeds whether the key was there or not, keeps the order of the keys, and after it the
  constant access and a view find \<open>x\<close> under \<open>k\<close> and what they found before under every other key.
\<close>

theorem object_assign_lookup:
  assumes "keys_sorted kvs"
  shows "\<exists>kvs'. container_key_assign d k x (JObject kvs) = Inr (JObject kvs') \<and> keys_sorted kvs' \<and>
    container_key_const l (JObject kvs') = (if l = k then Inr x else container_key_const l (JObject kvs)) \<and>
    view_at_key l (make_view (JObject kvs')) = (if l = k then make_view x else view_at_key l (make_view (JObject kvs)))"
proof -
  let ?kvs = "map_store k x (map_ensure d k kvs)"
  have "container_key_assign d k x (JObject kvs) = Inr (JObject ?kvs)"
    by (simp add: container_key_assign_def container_key_def Let_def)
  moreover have "keys_sorted ?kvs" using map_ensure_sorted [OF assms] by simp
  moreover have "map_of ?kvs l = (if l = k then Some x else map_of kvs l)"
    using map_of_ensure [OF assms] by (auto simp: map_of_store)
  ultimately show ?thesis
    by (auto simp: container_key_const_def view_at_key_def make_view_def)
qed

theorem object_assign_lookup_witness:
  "\<exists>kvs'. container_key_assign (JValue 0 None) (2 :: nat) (JValue 1 (Some True)) (JObject [(1, JValue 0 None), (3, JArray [])]) = Inr (JObject kvs') \<and>
    container_key_const 2 (JObject kvs') = Inr (JValue 1 (Some True)) \<and> container_key_const 3 (JObject kvs') = Inr (JArray [])"
proof -
  have s: "keys_sorted [(1 :: nat, JValue 0 None), (3, JArray [])]" by simp
  from object_assign_lookup [OF s, of "JValue 0 None" 2 "JValue 1 (Some True)" 2]
    object_assign_lookup [OF s, of "JValue 0 None" 2 "JValue 1 (Some True)" 3]
  show ?thesis by (auto simp: container_key_const_def)
qed

section \<open>Views follow containers\<close>

datatype 'k step = Key 'k | Index nat

text \<open>A path of accesses on a constant container with exceptions, and on a view without.\<close>

fun path_get :: "'k step list \<Rightarrow> ('k, 'v) json \<Rightarrow> (json_error + ('k, 'v) json) option" where
  "path_get [] c = Some (Inr c)"
| "path_get (Key k # p) c = (case container_key_const k c of Inl e \<Rightarrow> Some (Inl e) | Inr c' \<Rightarrow> path_get p c')"
| "path_get (Index i # p) c = do { r \<leftarrow> container_at i c; case r of Inl e \<Rightarrow> Some (Inl e) | Inr c' \<Rightarrow> path_get p c' }"

fun view_path :: "'k step list \<Rightarrow> ('k, 'v) json_view \<Rightarrow> ('k, 'v) json_view option" where
  "view_path [] v = Some v"
| "view_path (Key k # p) v = view_path p (view_at_key k v)"
| "view_path (Index i # p) v = Option.bind (view_index i v) (view_path p)"

lemma view_path_empty: "view_path p view_empty = Some view_empty"
proof (induction p)
  case (Cons st p)
  then show ?case by (cases st) (simp_all add: view_at_key_def view_index_def view_empty_def)
qed simp

text \<open>
  C14: reading through a view is reading the container without exceptions. Along any path of keys and
  indices, the view ends at the element that the checked accesses of the container reach; where
  one of these throws, the view is empty; and it is undefined exactly where they are, past the end of an array.
\<close>

theorem view_reads_container:
  "view_path p (make_view c) = map_option (\<lambda>r. case r of Inl e \<Rightarrow> view_empty | Inr c' \<Rightarrow> make_view c') (path_get p c)"
proof (induction p c rule: path_get.induct)
  case (2 k p c)
  show ?case
  proof (cases "container_key_const k c")
    case (Inl e)
    then have "view_at_key k (make_view c) = view_empty"
      by (auto simp: container_key_const_def view_at_key_def make_view_def split: json.splits option.splits)
    with Inl show ?thesis by (simp add: view_path_empty)
  next
    case (Inr c')
    then have "view_at_key k (make_view c) = make_view c'"
      by (auto simp: container_key_const_def view_at_key_def make_view_def split: json.splits option.splits)
    with Inr 2 show ?thesis by simp
  qed
next
  case (3 i p c)
  show ?case
  proof (cases c)
    case (JArray xs)
    then show ?thesis using 3 by (cases "i < length xs") (auto simp: container_at_def view_index_def make_view_def vec_get_def)
  qed (auto simp: container_at_def view_index_def make_view_def view_path_empty)
qed simp

section \<open>Iteration\<close>

fun elements :: "('k, 'v) json_view \<Rightarrow> ('k, 'v) json_view list" where
  "elements v = (case vw_container v of
      Some (JArray xs) \<Rightarrow> map make_view xs
    | Some (JObject kvs) \<Rightarrow> map (\<lambda>(k, c). make_view_key k c) kvs
    | _ \<Rightarrow> [])"

lemma iterate_array:
  assumes "vw_container v = Some (JArray xs)" and "i \<le> length xs"
  shows "iterate (iterator_array v xs i) (iterator_array v xs (length xs)) seen = Some (Inr (seen @ map make_view (drop i xs)))"
  using assms(2)
proof (induction "length xs - i" arbitrary: i seen)
  case 0
  then show ?case by (subst iterate.simps) (simp add: iterator_eq_def iterator_array_def)
next
  case (Suc d)
  then have i: "i < length xs" by simp
  have "iterator_next (iterator_array v xs i) = Some (Inr (iterator_array v xs (Suc i)))"
    using assms(1) i by (simp add: iterator_next_def iterator_array_def view_get_array_def get_array_def)
  moreover have "it_current (iterator_array v xs i) = make_view (xs ! i)" using i by (simp add: iterator_array_def array_element_def)
  moreover have "\<not> iterator_eq (iterator_array v xs i) (iterator_array v xs (length xs))" using i by (simp add: iterator_eq_def iterator_array_def)
  ultimately show ?case using Suc i Cons_nth_drop_Suc [OF i, symmetric] by (subst iterate.simps) simp
qed

lemma iterate_object:
  assumes "vw_container v = Some (JObject kvs)" and "i \<le> length kvs"
  shows "iterate (iterator_object v kvs i) (iterator_object v kvs (length kvs)) seen =
    Some (Inr (seen @ map (\<lambda>(k, c). make_view_key k c) (drop i kvs)))"
  using assms(2)
proof (induction "length kvs - i" arbitrary: i seen)
  case 0
  then show ?case by (subst iterate.simps) (simp add: iterator_eq_def iterator_object_def)
next
  case (Suc d)
  then have i: "i < length kvs" by simp
  have "iterator_next (iterator_object v kvs i) = Some (Inr (iterator_object v kvs (Suc i)))"
    using assms(1) i by (simp add: iterator_next_def iterator_object_def view_get_object_def get_object_def)
  moreover have "it_current (iterator_object v kvs i) = make_view_key (fst (kvs ! i)) (snd (kvs ! i))" using i by (simp add: iterator_object_def object_element_def)
  moreover have "\<not> iterator_eq (iterator_object v kvs i) (iterator_object v kvs (length kvs))" using i by (simp add: iterator_eq_def iterator_object_def)
  ultimately show ?case using Suc i Cons_nth_drop_Suc [OF i, symmetric] by (subst iterate.simps) (simp add: case_prod_beta)
qed

text \<open>
  C15: the loop from \<^verbatim>\<open>begin()\<close> to \<^verbatim>\<open>end()\<close> over any view ends without an exception and sees the
  elements of an array in order, those of an object in the order of the keys and with their keys, and
  nothing for a base value or an empty view.
\<close>

theorem view_iteration_complete:
  "iterate (view_begin v) (view_end v) [] = Some (Inr (elements v))"
proof (cases "vw_container v")
  case None
  then show ?thesis by (subst iterate.simps) (simp add: view_begin_def view_end_def iterator_eq_def iterator_null_def)
next
  case (Some c)
  show ?thesis
  proof (cases c)
    case (JValue i x)
    with Some show ?thesis by (subst iterate.simps) (simp add: view_begin_def view_end_def iterator_eq_def iterator_null_def)
  next
    case (JArray xs)
    with Some iterate_array [of v xs 0 "[]"] show ?thesis by (simp add: view_begin_def view_end_def)
  next
    case (JObject kvs)
    with Some iterate_object [of v kvs 0 "[]"] show ?thesis by (simp add: view_begin_def view_end_def)
  qed
qed

section \<open>Comparison\<close>

fun json_wf :: "nat \<Rightarrow> ('k, 'v) json \<Rightarrow> bool" where
  "json_wf n (JValue i x) \<longleftrightarrow> i < n"
| "json_wf n (JArray xs) \<longleftrightarrow> (\<forall>x \<in> set xs. json_wf n x)"
| "json_wf n (JObject kvs) \<longleftrightarrow> (\<forall>p \<in> set kvs. json_wf n (snd p))"

definition one_of :: "bool \<Rightarrow> bool \<Rightarrow> bool \<Rightarrow> bool" where
  "one_of a b c \<longleftrightarrow> (a \<and> \<not> b \<and> \<not> c) \<or> (\<not> a \<and> b \<and> \<not> c) \<or> (\<not> a \<and> \<not> b \<and> c)"

definition trichotomous :: "(nat \<Rightarrow> 'v \<Rightarrow> 'v \<Rightarrow> bool) \<Rightarrow> bool" where
  "trichotomous lt \<longleftrightarrow> (\<forall>i x y. one_of (lt i x y) (x = y) (lt i y x))"

lemma less_trichotomy:
  fixes a b :: "('k :: linorder, 'v) json" and xs ys :: "('k, 'v) json list" and ps qs :: "('k \<times> ('k, 'v) json) list"
  shows "trichotomous lt \<Longrightarrow> json_wf n a \<Longrightarrow> json_wf n b \<Longrightarrow> one_of (json_less n lt a b) (a = b) (json_less n lt b a)"
    and "trichotomous lt \<Longrightarrow> (\<forall>x \<in> set xs. json_wf n x) \<Longrightarrow> (\<forall>y \<in> set ys. json_wf n y) \<Longrightarrow>
      one_of (vector_less n lt xs ys) (xs = ys) (vector_less n lt ys xs)"
    and "trichotomous lt \<Longrightarrow> (\<forall>p \<in> set ps. json_wf n (snd p)) \<Longrightarrow> (\<forall>q \<in> set qs. json_wf n (snd q)) \<Longrightarrow>
      one_of (map_less n lt ps qs) (ps = qs) (map_less n lt qs ps)"
proof (induction n lt a b and n lt xs ys and n lt ps qs rule: json_less_vector_less_map_less.induct)
  case (1 n lt i x j y)
  then show ?case by (auto simp: trichotomous_def one_of_def)
next
  case (5 n lt xs)
  then show ?case by (cases xs) (auto simp: one_of_def)
next
  case (7 n lt x xs y ys)
  then show ?case by (auto simp: one_of_def)
next
  case (8 n lt xs)
  then show ?case by (cases xs) (auto simp: one_of_def)
next
  case (10 n lt k x xs l y ys)
  then show ?case by (cases k l rule: linorder_cases) (auto simp: one_of_def)
qed (auto simp: one_of_def json_type_index_def)

lemma equals_iff:
  fixes a b :: "('k, 'v) json" and xs ys :: "('k, 'v) json list" and ps qs :: "('k \<times> ('k, 'v) json) list"
  shows "(\<And>i x y. eq i x y \<longleftrightarrow> x = y) \<Longrightarrow> json_equals eq a b \<longleftrightarrow> a = b"
    and "(\<And>i x y. eq i x y \<longleftrightarrow> x = y) \<Longrightarrow> vector_equals eq xs ys \<longleftrightarrow> xs = ys"
    and "(\<And>i x y. eq i x y \<longleftrightarrow> x = y) \<Longrightarrow> map_equals eq ps qs \<longleftrightarrow> ps = qs"
  by (induction eq a b and eq xs ys and eq ps qs rule: json_equals_vector_equals_map_equals.induct) auto

text \<open>With it the comparison of sequences is the lexicographic one.\<close>

lemma vector_less_Cons:
  assumes "trichotomous lt" and "json_wf n x" and "json_wf n y"
  shows "vector_less n lt (x # xs) (y # ys) \<longleftrightarrow> json_less n lt x y \<or> x = y \<and> vector_less n lt xs ys"
  using less_trichotomy(1) [OF assms] by (auto simp: one_of_def)

lemma map_less_Cons:
  assumes "trichotomous lt" and "json_wf n x" and "json_wf n y"
  shows "map_less n lt ((k, x) # ps) ((l, y) # qs) \<longleftrightarrow> k < l \<or> k = l \<and> (json_less n lt x y \<or> x = y \<and> map_less n lt ps qs)"
  using less_trichotomy(1) [OF assms] by (cases k l rule: linorder_cases) (auto simp: one_of_def)

definition less_trans_at :: "nat \<Rightarrow> (nat \<Rightarrow> 'v \<Rightarrow> 'v \<Rightarrow> bool) \<Rightarrow> ('k :: linorder, 'v) json \<Rightarrow> bool" where
  "less_trans_at n lt a \<longleftrightarrow> (\<forall>b c. json_wf n b \<longrightarrow> json_wf n c \<longrightarrow> json_less n lt a b \<longrightarrow> json_less n lt b c \<longrightarrow> json_less n lt a c)"

lemma less_trans_atD:
  "less_trans_at n lt a \<Longrightarrow> json_wf n b \<Longrightarrow> json_wf n c \<Longrightarrow> json_less n lt a b \<Longrightarrow> json_less n lt b c \<Longrightarrow> json_less n lt a c"
  unfolding less_trans_at_def by blast

lemma vector_less_trans:
  assumes tri: "trichotomous lt" and wf: "\<forall>x \<in> set xs. json_wf n x" "\<forall>x \<in> set ys. json_wf n x" "\<forall>x \<in> set zs. json_wf n x"
    and IH: "\<forall>x \<in> set xs. less_trans_at n lt x" and less: "vector_less n lt xs ys" "vector_less n lt ys zs"
  shows "vector_less n lt xs zs"
  using wf IH less
proof (induction xs arbitrary: ys zs)
  case Nil
  then show ?case by (cases ys; cases zs) auto
next
  case (Cons x xs)
  have "ys \<noteq> []" "zs \<noteq> []" using Cons.prems(5,6) by (auto simp del: vector_less.simps(3))
  then obtain y ys' z zs' where yz: "ys = y # ys'" "zs = z # zs'" by (meson list.exhaust)
  have wf: "json_wf n x" "json_wf n y" "json_wf n z" using Cons.prems(1-3) yz by auto
  note l = Cons.prems(5) [unfolded yz vector_less_Cons [OF tri wf(1,2)]] Cons.prems(6) [unfolded yz vector_less_Cons [OF tri wf(2,3)]]
  have "vector_less n lt xs zs'" if "vector_less n lt xs ys'" "vector_less n lt ys' zs'"
    by (rule Cons.IH [OF _ _ _ _ that]) (use Cons.prems(1-4) yz in simp_all)
  moreover have "json_less n lt x z" if "json_less n lt x y" "json_less n lt y z"
    using less_trans_atD [of n lt x y z] Cons.prems(4) wf that by simp
  ultimately show ?case using l unfolding yz vector_less_Cons [OF tri wf(1,3)] by blast
qed

lemma map_less_trans:
  assumes tri: "trichotomous lt" and wf: "\<forall>p \<in> set ps. json_wf n (snd p)" "\<forall>p \<in> set qs. json_wf n (snd p)" "\<forall>p \<in> set rs. json_wf n (snd p)"
    and IH: "\<forall>p \<in> set ps. less_trans_at n lt (snd p)" and less: "map_less n lt ps qs" "map_less n lt qs rs"
  shows "map_less n lt ps rs"
  using wf IH less
proof (induction ps arbitrary: qs rs)
  case Nil
  then show ?case by (cases qs; cases rs) auto
next
  case (Cons p ps)
  have "qs \<noteq> []" "rs \<noteq> []" using Cons.prems(5,6) by (auto simp del: map_less.simps(3))
  then obtain q qs' r rs' where yz: "qs = q # qs'" "rs = r # rs'" by (meson list.exhaust)
  obtain k x l y m z where kx: "p = (k, x)" "q = (l, y)" "r = (m, z)" by (cases p; cases q; cases r) auto
  have wf: "json_wf n x" "json_wf n y" "json_wf n z" using Cons.prems(1-3) yz kx by auto
  note l = Cons.prems(5) [unfolded yz kx map_less_Cons [OF tri wf(1,2)]] Cons.prems(6) [unfolded yz kx map_less_Cons [OF tri wf(2,3)]]
  have "map_less n lt ps rs'" if "map_less n lt ps qs'" "map_less n lt qs' rs'"
    by (rule Cons.IH [OF _ _ _ _ that]) (use Cons.prems(1-4) yz in simp_all)
  moreover have "json_less n lt x z" if "json_less n lt x y" "json_less n lt y z"
    using less_trans_atD [of n lt x y z] Cons.prems(4) wf that kx by simp
  moreover have "k < m" if "k < l" "l < m" using that by (rule less_trans)
  ultimately show ?case using l unfolding yz kx map_less_Cons [OF tri wf(1,3)] by blast
qed

lemma json_less_index:
  "json_wf n a \<Longrightarrow> json_wf n b \<Longrightarrow> json_less n lt a b \<Longrightarrow> json_type_index n a \<le> json_type_index n b"
  "json_wf n a \<Longrightarrow> json_wf n b \<Longrightarrow> json_type_index n a < json_type_index n b \<Longrightarrow> json_less n lt a b"
  by (cases a; cases b; auto simp: json_type_index_def split: if_splits)+

lemma json_less_trans:
  assumes tri: "trichotomous lt" and lt: "\<And>i x y z. lt i x y \<Longrightarrow> lt i y z \<Longrightarrow> lt i x z"
  shows "json_wf n a \<Longrightarrow> less_trans_at n lt a"
proof (induction a)
  case (JValue i x)
  show ?case unfolding less_trans_at_def
  proof (intro allI impI)
    fix b c assume "json_wf n b" "json_wf n c" "json_less n lt (JValue i x) b" "json_less n lt b c"
    with JValue lt show "json_less n lt (JValue i x) c"
      by (cases b; cases c) (auto simp: json_type_index_def split: if_splits)
  qed
next
  case (JArray xs)
  show ?case unfolding less_trans_at_def
  proof (intro allI impI)
    fix b c assume bc: "json_wf n b" "json_wf n c" "json_less n lt (JArray xs) b" "json_less n lt b c"
    show "json_less n lt (JArray xs) c"
    proof (cases "json_type_index n (JArray xs) < json_type_index n c")
      case True
      with json_less_index(2) [OF JArray.prems bc(2)] show ?thesis by blast
    next
      case False
      with json_less_index(1) [OF JArray.prems bc(1,3)] json_less_index(1) [OF bc(1,2,4)] bc(1,2)
      obtain ys zs where "b = JArray ys" "c = JArray zs" by (cases b; cases c) (auto simp: json_type_index_def)
      with bc JArray vector_less_trans [OF tri, of xs n ys zs] show ?thesis by auto
    qed
  qed
next
  case (JObject ps)
  show ?case unfolding less_trans_at_def
  proof (intro allI impI)
    fix b c assume bc: "json_wf n b" "json_wf n c" "json_less n lt (JObject ps) b" "json_less n lt b c"
    from json_less_index(1) [OF JObject.prems bc(1,3)] json_less_index(1) [OF bc(1,2,4)] bc(1,2)
    obtain qs rs where "b = JObject qs" "c = JObject rs" by (cases b; cases c) (auto simp: json_type_index_def)
    moreover have "\<forall>p \<in> set ps. less_trans_at n lt (snd p)" using JObject by fastforce
    ultimately show "json_less n lt (JObject ps) c" using bc JObject.prems map_less_trans [OF tri, of ps n qs rs] by auto
  qed
qed

text \<open>
  C13: the containers are totally ordered, so that they can be keys of a map themselves. If the comparisons of
  the base types are those of a total order, then of two containers exactly one is less, equal
  or greater by \<^verbatim>\<open>operator<\<close> and \<^verbatim>\<open>operator==\<close>, however deep they are nested, and \<^verbatim>\<open>operator<\<close> is transitive.
\<close>

theorem container_total_order:
  assumes "trichotomous lt" and "\<And>i x y z. lt i x y \<Longrightarrow> lt i y z \<Longrightarrow> lt i x z" and "\<And>i x y. eq i x y \<longleftrightarrow> x = y"
    and "json_wf n a" and "json_wf n b" and "json_wf n c"
  shows "one_of (json_less n lt a b) (json_equals eq a b) (json_less n lt b a) \<and>
    (json_less n lt a b \<and> json_less n lt b c \<longrightarrow> json_less n lt a c)"
proof (rule conjI)
  show "one_of (json_less n lt a b) (json_equals eq a b) (json_less n lt b a)"
    unfolding equals_iff(1) [OF assms(3)] by (rule less_trichotomy(1) [OF assms(1,4,5)])
  have "less_trans_at n lt a" by (rule json_less_trans [OF assms(1,2,4)])
  then show "json_less n lt a b \<and> json_less n lt b c \<longrightarrow> json_less n lt a c" unfolding less_trans_at_def using assms(5,6) by blast
qed

theorem container_total_order_witness:
  "one_of (json_less 2 (\<lambda>i x y. x < y) (JArray [JValue 0 3, JObject [(7 :: nat, JValue 1 (5 :: nat))]]) (JArray [JValue 0 4]))
     (json_equals (\<lambda>i x y. x = y) (JArray [JValue 0 3, JObject [(7 :: nat, JValue 1 (5 :: nat))]]) (JArray [JValue 0 4]))
     (json_less 2 (\<lambda>i x y. x < y) (JArray [JValue 0 4]) (JArray [JValue 0 3, JObject [(7 :: nat, JValue 1 (5 :: nat))]]))"
proof -
  let ?a = "JArray [JValue 0 3, JObject [(7 :: nat, JValue 1 (5 :: nat))]]" and ?b = "JArray [JValue 0 4] :: (nat, nat) json"
  have "trichotomous (\<lambda>(i :: nat) (x :: nat) y. x < y)" by (auto simp: trichotomous_def one_of_def)
  from container_total_order [OF this, of "\<lambda>i x y. x = y" 2 ?a ?b ?b, THEN conjunct1] show ?thesis by simp
qed

section \<open>The other accessors\<close>

lemma make_object_sorted: "keys_sorted kvs \<Longrightarrow> keys_sorted (fold map_insert els kvs)"
  by (induction els arbitrary: kvs) (auto simp: map_ensure_sorted)

text \<open>The first pair of a key in the initializer list is the one that stays.\<close>

lemma make_object_lookup:
  assumes "keys_sorted kvs"
  shows "map_of (fold map_insert els kvs) k = (case map_of kvs k of Some x \<Rightarrow> Some x | None \<Rightarrow> map_of els k)"
  using assms
proof (induction els arbitrary: kvs)
  case Nil
  then show ?case by (simp split: option.splits)
next
  case (Cons e els)
  obtain l x where e: "e = (l, x)" by fastforce
  have "keys_sorted (map_ensure x l kvs)" using Cons.prems by (rule map_ensure_sorted)
  from Cons.IH [OF this] map_of_ensure [OF Cons.prems, of x l k] show ?case by (auto simp: e split: option.splits)
qed

lemma array_assign_read:
  "container_at_assign i x c = Some (Inr c') \<Longrightarrow>
     container_at i c' = Some (Inr x) \<and> container_index i c' = Some x \<and> container_index_move i c' = Some (Inr x)"
  by (auto simp: container_at_assign_def container_at_def container_index_def container_index_move_def get_array_def split: json.splits)

lemma json_type_index_bound: "json_wf n c \<Longrightarrow> json_type_index n c < n + 2"
  by (cases c) (auto simp: json_type_index_def)

text \<open>
  The accessors of a view that promise a value have one. For a view that is empty or refers to
  a container, \<^verbatim>\<open>get\<close> with a default is \<^verbatim>\<open>get\<close> where that does not throw and the default elsewhere;
  \<^verbatim>\<open>as\<close> is the cast of what is there, or a default value where there is nothing or no cast; and the
  conversion operator is undefined exactly on an empty view, which it does not check.
\<close>

theorem view_accessors_total:
  assumes "case vw_container v of Some c \<Rightarrow> json_wf n c | None \<Rightarrow> True"
  shows "view_get_default n i p v = (case view_get n i v of Inl e \<Rightarrow> p | Inr x \<Rightarrow> x) \<and>
    view_as n cast d v = Some (case vw_container v of None \<Rightarrow> d | Some c \<Rightarrow>
      (case cast (json_type_index n c) of Some f \<Rightarrow> f (json_raw c) | None \<Rightarrow> d)) \<and>
    (view_convert n i v = None \<longleftrightarrow> vw_container v = None)"
proof (cases "vw_container v")
  case None
  then show ?thesis by (simp add: view_get_default_def view_get_def view_as_def view_convert_def)
next
  case (Some c)
  with assms have "json_wf n c" by simp
  then have "json_type_index n c < n + 2" by (rule json_type_index_bound)
  then have "vec_get (map (make_converter n cast d) [0..<n + 2]) (json_type_index n c) = Some (make_converter n cast d (json_type_index n c))"
    and "make_converter n cast d (json_type_index n c) (json_raw c) () = convert cast d (json_type_index n c) (json_raw c)"
    by (simp_all add: make_converter_def func_aggregate_visitor_def del: upt_Suc)
  then show ?thesis using Some
    by (simp add: view_get_default_def view_get_def view_as_def view_convert_def json_get_def apply_visitor_def convert_def del: upt_Suc)
qed

theorem view_accessors_total_witness:
  "view_as 2 (\<lambda>i. if i = 1 then Some (\<lambda>p. True) else None) False (make_view (JArray [JValue 0 (5 :: nat)]) :: (nat, nat) json_view) = Some False \<and>
   view_convert 2 0 (view_empty :: (nat, nat) json_view) = None"
  using view_accessors_total [where v = "make_view (JArray [JValue 0 (5 :: nat)]) :: (nat, nat) json_view" and n = 2
      and i = 0 and p = "PValue 0" and cast = "\<lambda>i. if i = 1 then Some (\<lambda>p. True) else None" and d = False]
    view_accessors_total [where v = "view_empty :: (nat, nat) json_view" and n = 2 and i = 0 and p = "PValue 0" and cast = "\<lambda>i. None" and d = False]
  by (simp add: make_view_def view_empty_def json_type_index_def)

end
