(* ===== verification/Syscalls.thy ===== *)
theory Syscalls
  imports Blocking
begin

unbundle bit_operations_syntax

text \<open>
  The system calls of boson (\<^verbatim>\<open>src/boson/src/syscalls.cc\<close>, \<^verbatim>\<open>src/boson/boson/syscalls.h\<close>,
  \<^verbatim>\<open>src/boson/boson/syscall_traits.h\<close>) as wrappers around the kernel, and the symbols that
  replace those of the C library (\<^verbatim>\<open>src/boson/src/syscall_shim.cc\<close>). The kernel is a
  parameter: a function from the request to its answer. The calls that may block are built
  on \<open>classic_syscall\<close> of \<open>Blocking\<close>, whose arguments are the answers of the kernel and the
  wakeups.
\<close>

section \<open>Requests\<close>

type_synonym flags = "32 word"

text \<open>Values of the Linux headers the source includes.\<close>

definition O_WRONLY :: flags where "O_WRONLY = 1"
definition O_CREAT :: flags where "O_CREAT = 0x40"
definition O_TRUNC :: flags where "O_TRUNC = 0x200"
definition O_NONBLOCK :: flags where "O_NONBLOCK = 0x800"
definition SOCK_NONBLOCK :: flags where "SOCK_NONBLOCK = 0x800"

text \<open>The requests that create a descriptor, and the change of its status flags.\<close>

datatype fd_request =
    SYS_open string flags flags
  | SYS_pipe2 flags
  | SYS_socket int flags int

fun request_flags :: "fd_request \<Rightarrow> flags" where
  "request_flags (SYS_open path fl mode) = fl"
| "request_flags (SYS_pipe2 fl) = fl"
| "request_flags (SYS_socket domain type protocol) = type"

definition boson_open :: "string \<Rightarrow> flags \<Rightarrow> fd_request" where
  "boson_open pathname fl = SYS_open pathname (fl OR O_NONBLOCK) 0x1ED"

definition boson_open_mode :: "string \<Rightarrow> flags \<Rightarrow> flags \<Rightarrow> fd_request" where
  "boson_open_mode pathname fl mode = SYS_open pathname (fl OR O_NONBLOCK) mode"

definition boson_creat :: "string \<Rightarrow> flags \<Rightarrow> fd_request" where
  "boson_creat pathname mode = SYS_open pathname (O_CREAT OR O_WRONLY OR O_TRUNC OR O_NONBLOCK) mode"

definition boson_pipe :: fd_request where
  "boson_pipe = SYS_pipe2 O_NONBLOCK"

definition boson_pipe2 :: "flags \<Rightarrow> fd_request" where
  "boson_pipe2 fl = SYS_pipe2 (fl OR O_NONBLOCK)"

definition boson_socket :: "int \<Rightarrow> flags \<Rightarrow> int \<Rightarrow> fd_request" where
  "boson_socket domain type protocol = SYS_socket domain (type OR SOCK_NONBLOCK) protocol"

section \<open>Calls that may block\<close>

text \<open>\<^verbatim>\<open>syscall_traits\<close>: what a call waits for.\<close>

datatype syscall_id = SYS_read | SYS_write | SYS_recvfrom | SYS_sendto | SYS_accept | SYS_connect

fun syscall_is_read :: "syscall_id \<Rightarrow> bool" where
  "syscall_is_read SYS_read = True"
| "syscall_is_read SYS_write = False"
| "syscall_is_read SYS_recvfrom = True"
| "syscall_is_read SYS_sendto = False"
| "syscall_is_read SYS_accept = True"
| "syscall_is_read SYS_connect = False"

text \<open>
  A call of \<^verbatim>\<open>boson_classic_syscall\<close>: the number of the system call, the descriptor, the timeout
  when \<^verbatim>\<open>HasTimer\<close> is set, and the other arguments, addresses and sizes as numbers. A timeout
  is the count of a duration cast to a 32-bit \<^verbatim>\<open>int\<close>.
\<close>

record classic_call =
  cc_syscall :: syscall_id
  cc_fd :: int
  cc_timer :: "int option"
  cc_args :: "int list"

definition static_cast_int :: "int \<Rightarrow> int" where
  "static_cast_int count = signed_take_bit 31 count"

definition boson_read :: "int \<Rightarrow> int \<Rightarrow> int \<Rightarrow> classic_call" where
  "boson_read fd buf count = \<lparr>cc_syscall = SYS_read, cc_fd = fd, cc_timer = None, cc_args = [buf, count]\<rparr>"

definition boson_write :: "int \<Rightarrow> int \<Rightarrow> int \<Rightarrow> classic_call" where
  "boson_write fd buf count = \<lparr>cc_syscall = SYS_write, cc_fd = fd, cc_timer = None, cc_args = [buf, count]\<rparr>"

definition boson_send :: "int \<Rightarrow> int \<Rightarrow> int \<Rightarrow> int \<Rightarrow> classic_call" where
  "boson_send socket buffer len fl =
     \<lparr>cc_syscall = SYS_sendto, cc_fd = socket, cc_timer = None, cc_args = [buffer, len, fl, 0, 0]\<rparr>"

definition boson_recv :: "int \<Rightarrow> int \<Rightarrow> int \<Rightarrow> int \<Rightarrow> classic_call" where
  "boson_recv socket buffer len fl =
     \<lparr>cc_syscall = SYS_recvfrom, cc_fd = socket, cc_timer = None, cc_args = [buffer, len, fl, 0, 0]\<rparr>"

definition boson_read_timeout :: "int \<Rightarrow> int \<Rightarrow> int \<Rightarrow> int \<Rightarrow> classic_call" where
  "boson_read_timeout fd buf count ms =
     \<lparr>cc_syscall = SYS_read, cc_fd = fd, cc_timer = Some (static_cast_int ms), cc_args = [buf, count]\<rparr>"

definition boson_write_timeout :: "int \<Rightarrow> int \<Rightarrow> int \<Rightarrow> int \<Rightarrow> classic_call" where
  "boson_write_timeout fd buf count ms =
     \<lparr>cc_syscall = SYS_write, cc_fd = fd, cc_timer = Some (static_cast_int ms), cc_args = [buf, count]\<rparr>"

definition boson_send_timeout :: "int \<Rightarrow> int \<Rightarrow> int \<Rightarrow> int \<Rightarrow> int \<Rightarrow> classic_call" where
  "boson_send_timeout socket buffer len fl ms =
     \<lparr>cc_syscall = SYS_sendto, cc_fd = socket, cc_timer = Some (static_cast_int ms), cc_args = [buffer, len, fl, 0, 0]\<rparr>"

definition boson_recv_timeout :: "int \<Rightarrow> int \<Rightarrow> int \<Rightarrow> int \<Rightarrow> int \<Rightarrow> classic_call" where
  "boson_recv_timeout socket buffer len fl ms =
     \<lparr>cc_syscall = SYS_recvfrom, cc_fd = socket, cc_timer = Some (static_cast_int ms), cc_args = [buffer, len, fl, 0, 0]\<rparr>"

text \<open>The call \<^verbatim>\<open>accept_impl\<close> makes, and the wait of \<^verbatim>\<open>connect_impl\<close>.\<close>

definition boson_accept :: "int \<Rightarrow> int \<Rightarrow> int \<Rightarrow> classic_call" where
  "boson_accept socket address len =
     \<lparr>cc_syscall = SYS_accept, cc_fd = socket, cc_timer = None, cc_args = [address, len]\<rparr>"

definition boson_accept_timeout :: "int \<Rightarrow> int \<Rightarrow> int \<Rightarrow> int \<Rightarrow> classic_call" where
  "boson_accept_timeout socket address len ms =
     \<lparr>cc_syscall = SYS_accept, cc_fd = socket, cc_timer = Some (static_cast_int ms), cc_args = [address, len]\<rparr>"

definition boson_connect :: "int \<Rightarrow> int \<Rightarrow> int \<Rightarrow> classic_call" where
  "boson_connect sockfd addr addrlen =
     \<lparr>cc_syscall = SYS_connect, cc_fd = sockfd, cc_timer = None, cc_args = [addr, addrlen]\<rparr>"

definition boson_connect_timeout :: "int \<Rightarrow> int \<Rightarrow> int \<Rightarrow> int \<Rightarrow> classic_call" where
  "boson_connect_timeout sockfd addr addrlen ms =
     \<lparr>cc_syscall = SYS_connect, cc_fd = sockfd, cc_timer = Some (static_cast_int ms), cc_args = [addr, addrlen]\<rparr>"

text \<open>
  The wait of a call that would block, which starts anew at every retry, and the date its
  timer is registered at (\<^verbatim>\<open>add_timer\<close>).
\<close>

definition call_wait_start :: "classic_call \<Rightarrow> int option \<Rightarrow> nat \<Rightarrow> int \<Rightarrow> world \<Rightarrow> world option" where
  "call_wait_start c ctl t now_ns w =
     (case cc_timer c of
        None \<Rightarrow> wait_readiness_start (syscall_is_read (cc_syscall c)) False ctl t (cc_fd c) (- 1) now_ns w
      | Some ms \<Rightarrow> wait_readiness_start (syscall_is_read (cc_syscall c)) True ctl t (cc_fd c) ms now_ns w)"

definition call_deadline :: "int \<Rightarrow> classic_call \<Rightarrow> int option" where
  "call_deadline now_ns c = map_option (\<lambda>ms. ceil_ms (now_ns + ms * 1000000)) (cc_timer c)"

lemmas timed_call_defs =
  boson_read_timeout_def boson_write_timeout_def boson_send_timeout_def boson_recv_timeout_def
  boson_accept_timeout_def boson_connect_timeout_def

lemmas untimed_call_defs =
  boson_read_def boson_write_def boson_send_def boson_recv_def boson_accept_def boson_connect_def

text \<open>The durations of the sleeping calls, in nanoseconds, as they reach \<^verbatim>\<open>usleep\<close>.\<close>

definition ceil_us :: "int \<Rightarrow> int" where
  "ceil_us d = (let t = (if 0 \<le> d then d div 1000 else - (- d div 1000)) in if t * 1000 < d then t + 1 else t)"

definition boson_sleep_seconds :: "nat \<Rightarrow> int" where
  "boson_sleep_seconds duration_seconds = int duration_seconds * 1000000000"

definition boson_usleep :: "nat \<Rightarrow> int" where
  "boson_usleep duration_us = int duration_us * 1000"

definition boson_nanosleep :: "int \<Rightarrow> int \<Rightarrow> int" where
  "boson_nanosleep tv_sec tv_nsec = ceil_us (tv_sec * 1000000000 + tv_nsec) * 1000"

definition boson_nanosleep_duration :: "int \<Rightarrow> int" where
  "boson_nanosleep_duration ns = (if 0 \<le> ns then ns div 1000 else - (- ns div 1000)) * 1000"

text \<open>
  \<^verbatim>\<open>accept_impl\<close>: the new socket gets the flags of its descriptor (\<^verbatim>\<open>F_GETFD\<close>) with
  \<^verbatim>\<open>O_NONBLOCK\<close> as status flags. The result is that of the call, and the new status flags.
\<close>

definition accept_impl :: "(int \<times> int) list \<Rightarrow> int list \<Rightarrow> flags \<Rightarrow> ((int \<times> int) \<times> flags option) option" where
  "accept_impl attempts wakeups descriptor_flags =
     do { (rc, errno) \<leftarrow> classic_syscall attempts wakeups;
          Some ((rc, errno), if 0 \<le> rc then Some (descriptor_flags OR O_NONBLOCK) else None) }"

section \<open>The replaced symbols\<close>

text \<open>
  \<^verbatim>\<open>DECLARE_SYSTEM_SYMBOL_SHIM\<close>: inside a boson thread the call goes to boson, elsewhere to the
  symbol of the next library, which is looked up at the first call and kept. \<open>dlsym\<close> is
  the dynamic linker, \<open>call\<close> the call through a pointer.
\<close>

record 'f shim =
  sh_resolved :: "'f option"
  sh_lookups :: nat

definition shim_new :: "'f shim" where
  "shim_new = \<lparr>sh_resolved = None, sh_lookups = 0\<rparr>"

definition shim_call :: "bool \<Rightarrow> 'f \<Rightarrow> ('f \<Rightarrow> 'a \<Rightarrow> 'r) \<Rightarrow> ('a \<Rightarrow> 'r) \<Rightarrow> 'a \<Rightarrow> 'f shim \<Rightarrow> 'r \<times> 'f shim" where
  "shim_call in_boson dlsym call boson_call args sh =
     (if in_boson then (boson_call args, sh)
      else (case sh_resolved sh of
              None \<Rightarrow> (call dlsym args, sh\<lparr>sh_resolved := Some dlsym, sh_lookups := Suc (sh_lookups sh)\<rparr>)
            | Some f \<Rightarrow> (call f args, sh)))"

section \<open>Properties\<close>

lemma accepted_socket_nonblocking:
  "accept_impl attempts wakeups df = Some ((rc, errno), Some fl) \<Longrightarrow> fl AND O_NONBLOCK = O_NONBLOCK"
  by (auto simp: accept_impl_def bit.conj_disj_distrib2 dest!: bind_eq_Some_conv [THEN iffD1] split: if_splits)

text \<open>
  Every descriptor boson makes is non-blocking. Whatever flags the caller passes, each
  request that creates a descriptor asks for it and passes the caller's own flags on, and a
  connection that \<^verbatim>\<open>accept\<close> returns has the flag set afterwards. No boson call on them
  therefore blocks its thread in the kernel.
\<close>

theorem descriptors_are_nonblocking:
  "list_all (\<lambda>r. request_flags r AND O_NONBLOCK = O_NONBLOCK)
     [boson_open p fl, boson_open_mode p fl m, boson_creat p m, boson_pipe, boson_pipe2 fl, boson_socket d fl k] \<and>
   list_all (\<lambda>r. fl AND request_flags r = fl)
     [boson_open p fl, boson_open_mode p fl m, boson_pipe2 fl, boson_socket d fl k] \<and>
   (accept_impl attempts wakeups df = Some ((rc, errno), status) \<longrightarrow>
      (0 \<le> rc \<longleftrightarrow> (\<exists>fl'. status = Some fl' \<and> fl' AND O_NONBLOCK = O_NONBLOCK)))"
proof (intro conjI impI)
  assume *: "accept_impl attempts wakeups df = Some ((rc, errno), status)"
  show "0 \<le> rc \<longleftrightarrow> (\<exists>fl'. status = Some fl' \<and> fl' AND O_NONBLOCK = O_NONBLOCK)"
  proof (cases status)
    case None
    with * show ?thesis by (auto simp: accept_impl_def dest!: bind_eq_Some_conv [THEN iffD1] split: if_splits)
  next
    case (Some fl')
    with * have "0 \<le> rc" by (auto simp: accept_impl_def dest!: bind_eq_Some_conv [THEN iffD1] split: if_splits)
    with Some accepted_socket_nonblocking [of attempts wakeups df rc errno fl'] * show ?thesis by simp
  qed
qed (simp_all add: boson_open_def boson_open_mode_def boson_creat_def boson_pipe_def boson_pipe2_def boson_socket_def
    SOCK_NONBLOCK_def O_NONBLOCK_def O_CREAT_def O_WRONLY_def O_TRUNC_def bit.conj_disj_distrib bit.conj_disj_distrib2)

theorem descriptors_are_nonblocking_witness:
  "accept_impl [(- 1, EAGAIN), (7, 0)] [0] 1 = Some ((7, 0), Some 0x801) \<and> (0x801 :: flags) AND O_NONBLOCK = O_NONBLOCK"
proof -
  have *: "accept_impl [(- 1, EAGAIN), (7, 0)] [0] 1 = Some ((7, 0), Some 0x801)"
    by (simp add: accept_impl_def classic_syscall_def readiness_code_def EAGAIN_def O_NONBLOCK_def)
  show ?thesis
    using descriptors_are_nonblocking [of "''f''" 0 0 0 0 "[(- 1, EAGAIN), (7, 0)]" "[0]" 1 7 0 "Some 0x801"] * by auto
qed

lemma static_cast_int_small: "0 \<le> ms \<Longrightarrow> ms < 2147483648 \<Longrightarrow> static_cast_int ms = ms"
  by (simp add: static_cast_int_def signed_take_bit_int_eq_self)

lemma static_cast_int_wraps: "static_cast_int 2147483648 = - 2147483648"
  by (simp add: static_cast_int_def signed_take_bit_def mask_eq_exp_minus_1 not_int_def)

text \<open>The wait of a timed call registers the descriptor in the direction of the call, and the deadline.\<close>

lemma call_wait_start_deadline:
  "call_wait_start c ctl t now w =
     do { r \<leftarrow> running_of t w;
          w1 \<leftarrow> routine_start_event_round r w;
          w2 \<leftarrow> (if syscall_is_read (cc_syscall c) then routine_add_read ctl r (cc_fd c) w1
                  else routine_add_write ctl r (cc_fd c) w1);
          w3 \<leftarrow> (case call_deadline now c of None \<Rightarrow> Some w2 | Some date \<Rightarrow> routine_add_timer r date w2);
          routine_commit_event_round r w3 }"
  by (simp add: call_wait_start_def call_deadline_def wait_readiness_start_def split: option.split)

text \<open>
  The deadline of a timed call. The six calls with a timeout register the same timer date for a
  timeout that fits an \<^verbatim>\<open>int\<close>: never before the timeout has passed and less than a
  millisecond later; the six without register none. A timeout of \<open>2\<^sup>3\<^sup>1\<close> milliseconds, which the
  parameter of type \<^verbatim>\<open>milliseconds\<close> allows, wraps to a date almost 25 days in the past, so the call
  times out at once.
\<close>

theorem timed_calls_deadline:
  assumes "0 \<le> ms" and "ms < 2147483648"
  shows "(\<exists>date. list_all (\<lambda>c. call_deadline now c = Some date)
       [boson_read_timeout fd b n ms, boson_write_timeout fd b n ms, boson_send_timeout fd b n fl ms,
        boson_recv_timeout fd b n fl ms, boson_accept_timeout fd b n ms, boson_connect_timeout fd b n ms] \<and>
     now + ms * 1000000 \<le> date * 1000000 \<and> date * 1000000 < now + ms * 1000000 + 1000000) \<and>
   list_all (\<lambda>c. call_deadline now c = None)
       [boson_read fd b n, boson_write fd b n, boson_send fd b n fl, boson_recv fd b n fl, boson_accept fd b n,
        boson_connect fd b n] \<and>
   (\<exists>date. call_deadline now (boson_read_timeout fd b n 2147483648) = Some date \<and>
       date * 1000000 < now - 2147483647 * 1000000)"
proof (intro conjI)
  show "\<exists>date. list_all (\<lambda>c. call_deadline now c = Some date)
       [boson_read_timeout fd b n ms, boson_write_timeout fd b n ms, boson_send_timeout fd b n fl ms,
        boson_recv_timeout fd b n fl ms, boson_accept_timeout fd b n ms, boson_connect_timeout fd b n ms] \<and>
     now + ms * 1000000 \<le> date * 1000000 \<and> date * 1000000 < now + ms * 1000000 + 1000000"
    using ceil_ms_bounds [of "now + ms * 1000000"]
    by (intro exI [of _ "ceil_ms (now + ms * 1000000)"])
      (simp add: call_deadline_def timed_call_defs static_cast_int_small [OF assms])
  show "list_all (\<lambda>c. call_deadline now c = None)
       [boson_read fd b n, boson_write fd b n, boson_send fd b n fl, boson_recv fd b n fl, boson_accept fd b n,
        boson_connect fd b n]"
    by (simp add: call_deadline_def untimed_call_defs)
  show "\<exists>date. call_deadline now (boson_read_timeout fd b n 2147483648) = Some date \<and>
       date * 1000000 < now - 2147483647 * 1000000"
    using ceil_ms_bounds [of "now - 2147483648 * 1000000"]
    by (simp add: call_deadline_def boson_read_timeout_def static_cast_int_wraps)
qed

theorem timed_calls_deadline_witness:
  "(0 :: int) \<le> 1500 \<and> (1500 :: int) < 2147483648 \<and> call_deadline 7 (boson_read_timeout 3 0 16 1500) = Some 1501 \<and>
   (\<exists>date. call_deadline 7 (boson_connect_timeout 3 0 16 1500) = Some date \<and> date * 1000000 < 7 + 1500 * 1000000 + 1000000)"
  using timed_calls_deadline [of 1500 7 3 0 16 0]
  by (auto simp: call_deadline_def timed_call_defs static_cast_int_small ceil_ms_def duration_cast_ms_def)

text \<open>Nanoseconds are rounded up to microseconds by \<^verbatim>\<open>nanosleep\<close> on \<^verbatim>\<open>timespec\<close>, and truncated by the one on durations.\<close>

lemma nanosleep_rounding:
  assumes "0 \<le> s * 1000000000 + ns"
  shows "s * 1000000000 + ns \<le> boson_nanosleep s ns \<and> boson_nanosleep_duration (s * 1000000000 + ns) \<le> s * 1000000000 + ns"
proof -
  have "k div 1000 * 1000 \<le> k \<and> k < k div 1000 * 1000 + 1000" for k :: int
    using div_mult_mod_eq [of k 1000] pos_mod_bound [of 1000 k] pos_mod_sign [of 1000 k] by linarith
  with assms show ?thesis by (auto simp: boson_nanosleep_def boson_nanosleep_duration_def ceil_us_def Let_def)
qed

text \<open>The next library is asked for a symbol at most once.\<close>

lemma shim_resolves_once:
  assumes "sh_lookups sh = (if sh_resolved sh = None then 0 else 1)"
  shows "sh_lookups (snd (shim_call b d call f a sh)) = (if sh_resolved (snd (shim_call b d call f a sh)) = None then 0 else 1)"
  using assms by (auto simp: shim_call_def split: option.splits)

end
