(* ===== verification/Durations.thy ===== *)
theory Durations
  imports Syscalls
begin

text \<open>
  Timeouts of any period: \<^verbatim>\<open>std::chrono::duration\<close> with its cast and comparison as the language
  defines them, \<^verbatim>\<open>experimental::chrono::ceil\<close> (\<^verbatim>\<open>src/boson/boson/std/experimental/chrono.h\<close>), and the
  templates built on them: the timed system calls and \<^verbatim>\<open>sleep\<close> (\<^verbatim>\<open>src/boson/boson/syscalls.h\<close>), the waits
  of semaphores and mutexes (\<^verbatim>\<open>src/boson/boson/semaphore.h\<close>, \<^verbatim>\<open>src/boson/boson/mutex.h\<close>).
  Counts are 64-bit integers; an operation that overflows is undefined (\<open>None\<close>).
\<close>

section \<open>Durations\<close>

text \<open>A count of periods of \<open>dur_num / dur_den\<close> seconds.\<close>

record duration =
  dur_count :: int
  dur_num :: int
  dur_den :: int

definition int64_max :: int where "int64_max = 9223372036854775807"

definition fits64 :: "int \<Rightarrow> bool" where
  "fits64 x \<longleftrightarrow> - int64_max - 1 \<le> x \<and> x \<le> int64_max"

text \<open>Division of integers, which truncates towards zero.\<close>

definition trunc_div :: "int \<Rightarrow> int \<Rightarrow> int" where
  "trunc_div a b = (if 0 \<le> a then a div b else - (- a div b))"

text \<open>\<^verbatim>\<open>std::ratio_divide\<close>, in lowest terms.\<close>

definition ratio_divide :: "int \<times> int \<Rightarrow> int \<times> int \<Rightarrow> int \<times> int" where
  "ratio_divide p q =
     (let n = fst p * snd q; d = snd p * fst q; g = gcd n d in (n div g, d div g))"

definition duration_cast :: "int \<times> int \<Rightarrow> duration \<Rightarrow> duration option" where
  "duration_cast to d =
     (let cf = ratio_divide (dur_num d, dur_den d) to; product = dur_count d * fst cf in
      if fits64 product
      then Some \<lparr>dur_count = trunc_div product (snd cf), dur_num = fst to, dur_den = snd to\<rparr> else None)"

text \<open>Two durations are compared in the period that both are multiples of.\<close>

definition common_period :: "duration \<Rightarrow> duration \<Rightarrow> int \<times> int" where
  "common_period c d = (gcd (dur_num c) (dur_num d), lcm (dur_den c) (dur_den d))"

definition duration_less :: "duration \<Rightarrow> duration \<Rightarrow> bool option" where
  "duration_less c d =
     do { c' \<leftarrow> duration_cast (common_period c d) c;
          d' \<leftarrow> duration_cast (common_period c d) d;
          Some (dur_count c' < dur_count d') }"

definition duration_ceil :: "int \<times> int \<Rightarrow> duration \<Rightarrow> duration option" where
  "duration_ceil to d =
     do { t \<leftarrow> duration_cast to d;
          below \<leftarrow> duration_less t d;
          if below then (if fits64 (dur_count t + 1) then Some (t\<lparr>dur_count := dur_count t + 1\<rparr>) else None)
          else Some t }"

abbreviation milli :: "int \<times> int" where "milli \<equiv> (1, 1000)"
abbreviation micro :: "int \<times> int" where "micro \<equiv> (1, 1000000)"

section \<open>The calls with a duration\<close>

definition boson_read_duration :: "int \<Rightarrow> int \<Rightarrow> int \<Rightarrow> duration \<Rightarrow> classic_call option" where
  "boson_read_duration fd buf count timeout =
     do { ms \<leftarrow> duration_ceil milli timeout; Some (boson_read_timeout fd buf count (dur_count ms)) }"

definition boson_write_duration :: "int \<Rightarrow> int \<Rightarrow> int \<Rightarrow> duration \<Rightarrow> classic_call option" where
  "boson_write_duration fd buf count timeout =
     do { ms \<leftarrow> duration_ceil milli timeout; Some (boson_write_timeout fd buf count (dur_count ms)) }"

definition boson_accept_duration :: "int \<Rightarrow> int \<Rightarrow> int \<Rightarrow> duration \<Rightarrow> classic_call option" where
  "boson_accept_duration socket address len timeout =
     do { ms \<leftarrow> duration_ceil milli timeout; Some (boson_accept_timeout socket address len (dur_count ms)) }"

definition boson_connect_duration :: "int \<Rightarrow> int \<Rightarrow> int \<Rightarrow> duration \<Rightarrow> classic_call option" where
  "boson_connect_duration sockfd addr addrlen timeout =
     do { ms \<leftarrow> duration_ceil milli timeout; Some (boson_connect_timeout sockfd addr addrlen (dur_count ms)) }"

definition boson_send_duration :: "int \<Rightarrow> int \<Rightarrow> int \<Rightarrow> int \<Rightarrow> duration \<Rightarrow> classic_call option" where
  "boson_send_duration socket buffer len fl timeout =
     do { ms \<leftarrow> duration_ceil milli timeout; Some (boson_send_timeout socket buffer len fl (dur_count ms)) }"

definition boson_recv_duration :: "int \<Rightarrow> int \<Rightarrow> int \<Rightarrow> int \<Rightarrow> duration \<Rightarrow> classic_call option" where
  "boson_recv_duration socket buffer len fl timeout =
     do { ms \<leftarrow> duration_ceil milli timeout; Some (boson_recv_timeout socket buffer len fl (dur_count ms)) }"

text \<open>\<^verbatim>\<open>sleep(duration)\<close> truncates to microseconds.\<close>

definition boson_sleep_start :: "nat \<Rightarrow> int \<Rightarrow> duration \<Rightarrow> world \<Rightarrow> world option" where
  "boson_sleep_start t now_ns d w =
     do { us \<leftarrow> duration_cast micro d; usleep_start t now_ns (dur_count us * 1000) w }"

text \<open>
  \<^verbatim>\<open>wait(milliseconds)\<close> of a semaphore narrows the count to the \<^verbatim>\<open>int\<close> of \<^verbatim>\<open>wait(int)\<close>;
  \<^verbatim>\<open>shared_semaphore\<close> and \<^verbatim>\<open>mutex\<close> pass the duration on.
\<close>

definition semaphore_wait_ms_start ::
  "nat \<Rightarrow> nat \<Rightarrow> int \<Rightarrow> int \<Rightarrow> world \<Rightarrow> (semaphore_return_value option \<times> world) option" where
  "semaphore_wait_ms_start s t timeout now_ns w = semaphore_wait_start s t (static_cast_int timeout) now_ns w"

definition mutex_lock_ms_start :: "nat \<Rightarrow> nat \<Rightarrow> int \<Rightarrow> int \<Rightarrow> world \<Rightarrow> (bool \<times> world) option" where
  "mutex_lock_ms_start m t timeout now_ns w =
     do { (v, w1) \<leftarrow> semaphore_wait_ms_start m t timeout now_ns w; Some (v \<noteq> None, w1) }"

section \<open>Rounding\<close>

lemma trunc_div_pos: "0 \<le> a \<Longrightarrow> trunc_div a b = a div b"
  by (simp add: trunc_div_def)

lemma trunc_div_1 [simp]: "trunc_div a 1 = a"
  by (simp add: trunc_div_def)

lemma fits64_nonneg: "0 \<le> x \<Longrightarrow> x \<le> y \<Longrightarrow> y < int64_max \<Longrightarrow> fits64 x"
  by (simp add: fits64_def int64_max_def)

text \<open>Between a period and one it is a multiple of, the cast is a multiplication.\<close>

lemma ratio_divide_dvd:
  assumes "0 < d * tn" and "d * tn dvd n * td" and "0 < n * td"
  shows "ratio_divide (n, d) (tn, td) = (n * td div (d * tn), 1)"
proof -
  have "gcd (n * td) (d * tn) = d * tn" using assms by (simp add: gcd_proj2_iff)
  moreover have "d * tn div (d * tn) = 1" using assms(1) by (intro div_self) linarith
  ultimately show ?thesis by (simp add: ratio_divide_def Let_def)
qed

lemma ratio_divide_exact:
  assumes "0 < n" "0 < d" "0 < tn" "0 < td" and "ratio_divide (n, d) (tn, td) = (p, q)"
  shows "0 < p" and "0 < q" and "p * (d * tn) = q * (n * td)"
proof -
  let ?g = "gcd (n * td) (d * tn)"
  have g: "0 < ?g" using assms(1-4) by (simp add: gcd_pos_int)
  have pq: "p = n * td div ?g" "q = d * tn div ?g" using assms(5) by (auto simp: ratio_divide_def Let_def)
  have m: "p * ?g = n * td" "q * ?g = d * tn" unfolding pq by (simp_all add: dvd_div_mult_self)
  have pos: "0 < n * td" "0 < d * tn" using assms(1-4) by simp_all
  show "0 < p" using m(1) pos(1) g by (metis zero_less_mult_pos2)
  show "0 < q" using m(2) pos(2) g by (metis zero_less_mult_pos2)
  show "p * (d * tn) = q * (n * td)" using m by (metis mult.assoc mult.commute)
qed

text \<open>The casts \<^verbatim>\<open>ceil<milliseconds>\<close> makes, for a duration that is not negative.\<close>

lemma cast_ms:
  assumes "0 \<le> c" "0 < n" "0 < d" and "c * n * 1000 < int64_max"
  shows "duration_cast milli \<lparr>dur_count = c, dur_num = n, dur_den = d\<rparr> =
    Some \<lparr>dur_count = c * n * 1000 div d, dur_num = 1, dur_den = 1000\<rparr>"
proof -
  obtain p q where pq: "ratio_divide (n, d) milli = (p, q)" by fastforce
  have e: "0 < p" "0 < q" "p * d = q * (n * 1000)" using ratio_divide_exact [OF assms(2,3) _ _ pq] by simp_all
  have "p * gcd (n * 1000) (d * 1) = n * 1000" using pq by (auto simp: ratio_divide_def Let_def dvd_div_mult_self)
  then have "p dvd n * 1000" by (metis dvd_triv_left)
  then have "p \<le> n * 1000" using assms(2) by (simp add: zdvd_imp_le)
  then have "c * p \<le> c * (n * 1000)" using assms(1) by (rule mult_left_mono)
  then have fits: "fits64 (c * p)" using assms(1,4) e(1) by (intro fits64_nonneg [of _ "c * (n * 1000)"]) (simp_all add: mult.assoc)
  have "c * p div q = (c * p) * d div (q * d)" using assms(3) by simp
  also have "(c * p) * d = q * (c * n * 1000)" using e(3) by (simp add: algebra_simps)
  also have "q * (c * n * 1000) div (q * d) = c * n * 1000 div d" using e(2) by simp
  finally have "c * p div q = c * n * 1000 div d" .
  then show ?thesis using fits assms(1) e(1) by (simp add: duration_cast_def pq Let_def trunc_div_pos)
qed

lemma cast_multiple:
  assumes "0 < n" "0 < d" "0 < l" "d dvd l" and "fits64 (c * (n * l div d))"
  shows "duration_cast (1, l) \<lparr>dur_count = c, dur_num = n, dur_den = d\<rparr> =
    Some \<lparr>dur_count = c * (n * l div d), dur_num = 1, dur_den = l\<rparr>"
proof -
  have "ratio_divide (n, d) (1, l) = (n * l div d, 1)" using ratio_divide_dvd [of d 1 n l] assms by simp
  with assms(5) show ?thesis by (simp add: duration_cast_def Let_def)
qed

lemma less_ms:
  assumes "0 \<le> t" "0 \<le> c" "0 < n" "0 < d" and "t * d < int64_max" and "c * n * 1000 < int64_max"
  shows "duration_less \<lparr>dur_count = t, dur_num = 1, dur_den = 1000\<rparr> \<lparr>dur_count = c, dur_num = n, dur_den = d\<rparr> =
    Some (t * d < c * n * 1000)"
proof -
  define l where "l = lcm 1000 d"
  have l: "0 < l" "1000 dvd l" "d dvd l" "l dvd 1000 * d" using assms(4) by (auto simp: l_def lcm_pos_int)
  then obtain a b where ab: "l = 1000 * a" "l = d * b" by (meson dvdE)
  have pos: "0 < a" "0 < b" using l(1) assms(4) ab(1) zero_less_mult_pos [of d b] by (simp_all flip: ab(2))
  have "a dvd d" "b dvd 1000" using l(4) ab assms(4) by (auto simp: ab(1), simp add: ab(2) mult.commute)
  then have le: "a \<le> d" "b \<le> 1000" using assms(4) by (simp_all add: zdvd_imp_le)
  have "t * a \<le> t * d" using le(1) assms(1) by (rule mult_left_mono)
  moreover have "c * (n * b) \<le> c * (n * 1000)" using le(2) assms(2,3) by (intro mult_left_mono) simp_all
  ultimately have fits: "fits64 (t * a)" "fits64 (c * (n * b))"
    using assms pos fits64_nonneg [of "t * a" "t * d"] fits64_nonneg [of "c * (n * b)" "c * (n * 1000)"] by (simp_all add: mult.assoc)
  have div: "1 * l div 1000 = a" using ab(1) by simp
  have div': "n * l div d = n * b" unfolding ab(2) using assms(4) by (simp add: mult.left_commute)
  have "t * a < c * (n * b) \<longleftrightarrow> (1000 * d) * (t * a) < (1000 * d) * (c * (n * b))" using assms(4) by simp
  also have "\<dots> \<longleftrightarrow> l * (t * d) < l * (c * n * 1000)"
  proof -
    have "(1000 * d) * (t * a) = l * (t * d)" unfolding ab(1) by (simp add: algebra_simps)
    moreover have "(1000 * d) * (c * (n * b)) = l * (c * n * 1000)" unfolding ab(2) by (simp add: algebra_simps)
    ultimately show ?thesis by (simp only:)
  qed
  also have "\<dots> \<longleftrightarrow> t * d < c * n * 1000" using l(1) by (simp add: mult.assoc)
  finally have iff: "t * a < c * (n * b) \<longleftrightarrow> t * d < c * n * 1000" .
  show ?thesis
    using cast_multiple [of 1 1000 l t] cast_multiple [of n d l c] fits div div' l assms(3,4) iff
    by (simp add: duration_less_def common_period_def flip: l_def)
qed

lemma ceil_ms_exact:
  assumes "0 \<le> c" "0 < n" "0 < d" and "c * n * 1000 < int64_max"
  shows "\<exists>ms. duration_ceil milli \<lparr>dur_count = c, dur_num = n, dur_den = d\<rparr> =
      Some \<lparr>dur_count = ms, dur_num = 1, dur_den = 1000\<rparr> \<and>
    c * n * 1000 \<le> ms * d \<and> (ms - 1) * d < c * n * 1000"
proof -
  let ?x = "c * n * 1000"
  define t where "t = ?x div d"
  have x: "0 \<le> ?x" using assms(1,2) by simp
  have "?x = t * d + ?x mod d" unfolding t_def by (rule div_mult_mod_eq [symmetric])
  moreover have "0 \<le> ?x mod d" "?x mod d < d" using assms(3) by simp_all
  moreover have "0 \<le> t" using x assms(3) by (simp add: t_def pos_imp_zdiv_nonneg_iff)
  ultimately have t: "0 \<le> t" "t * d \<le> ?x" "?x < t * d + d" by linarith+
  have "t \<le> t * d" using t(1) assms(3) by (simp add: mult_le_cancel_left1)
  then have fits: "fits64 (t + 1)" using t(1,2) assms(4) by (auto simp: fits64_def int64_max_def)
  have "t * d < int64_max" using t(2) assms(4) by linarith
  note casts = cast_ms [OF assms, folded t_def] less_ms [OF t(1) assms(1-3) this assms(4)]
  show ?thesis
  proof (cases "t * d < ?x")
    case True
    then have "duration_ceil milli \<lparr>dur_count = c, dur_num = n, dur_den = d\<rparr> =
        Some \<lparr>dur_count = t + 1, dur_num = 1, dur_den = 1000\<rparr>"
      using casts fits by (simp add: duration_ceil_def)
    with True t show ?thesis by (intro exI [of _ "t + 1"]) (simp add: distrib_right)
  next
    case False
    then have "duration_ceil milli \<lparr>dur_count = c, dur_num = n, dur_den = d\<rparr> =
        Some \<lparr>dur_count = t, dur_num = 1, dur_den = 1000\<rparr>"
      using casts by (simp add: duration_ceil_def)
    with False t assms(3) show ?thesis by (intro exI [of _ t]) (simp add: left_diff_distrib)
  qed
qed

section \<open>Properties\<close>

lemmas duration_call_defs =
  boson_read_duration_def boson_write_duration_def boson_accept_duration_def boson_connect_duration_def
  boson_send_duration_def boson_recv_duration_def

text \<open>
  C37: a timeout of any period is kept. For a duration whose period has a denominator up to that of
  nanoseconds and of at most \<open>2\<^sup>3\<^sup>1 - 1\<close> milliseconds, no step of the rounding overflows, the six timed calls
  all register the same date for their timer, and that date is not before the duration has passed
  and less than two milliseconds after it.
\<close>

theorem timed_calls_any_period:
  assumes "0 \<le> dur_count timeout" and "0 < dur_num timeout" and "0 < dur_den timeout" and "dur_den timeout \<le> 1000000000"
    and "dur_count timeout * dur_num timeout * 1000 \<le> 2147483647 * dur_den timeout"
  shows "\<exists>date. list_all (\<lambda>call. Option.bind call (call_deadline now) = Some date)
      [boson_read_duration fd b k timeout, boson_write_duration fd b k timeout, boson_accept_duration fd b k timeout,
       boson_connect_duration fd b k timeout, boson_send_duration fd b k fl timeout, boson_recv_duration fd b k fl timeout] \<and>
    dur_count timeout * dur_num timeout * 1000000000 \<le> (date * 1000000 - now) * dur_den timeout \<and>
    (date * 1000000 - now - 2000000) * dur_den timeout < dur_count timeout * dur_num timeout * 1000000000"
proof -
  define c n d where cnd: "c = dur_count timeout" "n = dur_num timeout" "d = dur_den timeout"
  note assms = assms [folded cnd]
  have timeout: "timeout = \<lparr>dur_count = c, dur_num = n, dur_den = d\<rparr>" by (simp add: cnd)
  have "c * n * 1000 < int64_max" using assms(4,5) by (simp add: int64_max_def)
  from ceil_ms_exact [OF assms(1-3) this] obtain ms where
    ms: "duration_ceil milli timeout = Some \<lparr>dur_count = ms, dur_num = 1, dur_den = 1000\<rparr>" and
    lower: "c * n * 1000 \<le> ms * d" and upper: "(ms - 1) * d < c * n * 1000" unfolding timeout by blast
  have "0 \<le> c * n * 1000" using assms(1,2) by simp
  then have "0 \<le> ms" using lower assms(3) by (metis order_trans zero_le_mult_iff not_less)
  moreover have "(ms - 1) * d < 2147483647 * d" using upper assms(5) by linarith
  then have "ms < 2147483648" using assms(3) by (simp add: mult_less_cancel_right)
  ultimately have cast: "static_cast_int ms = ms" by (rule static_cast_int_small)
  define date where "date = ceil_ms (now + ms * 1000000)"
  have dl: "ms * 1000000 \<le> date * 1000000 - now" "date * 1000000 - now - 2000000 < (ms - 1) * 1000000"
    using ceil_ms_bounds [of "now + ms * 1000000"] by (simp_all add: date_def)
  have "ms * 1000000 * d \<le> (date * 1000000 - now) * d" using dl(1) assms(3) by (intro mult_right_mono) simp_all
  then have "c * n * 1000000000 \<le> (date * 1000000 - now) * d" using lower by linarith
  moreover have "(date * 1000000 - now - 2000000) * d < (ms - 1) * 1000000 * d" using dl(2) assms(3) by (rule mult_strict_right_mono)
  then have "(date * 1000000 - now - 2000000) * d < c * n * 1000000000" using upper by linarith
  moreover have "list_all (\<lambda>call. Option.bind call (call_deadline now) = Some date)
      [boson_read_duration fd b k timeout, boson_write_duration fd b k timeout, boson_accept_duration fd b k timeout,
       boson_connect_duration fd b k timeout, boson_send_duration fd b k fl timeout, boson_recv_duration fd b k fl timeout]"
    by (simp add: duration_call_defs ms timed_call_defs call_deadline_def cast date_def)
  ultimately show ?thesis unfolding cnd by blast
qed

text \<open>Two and a half seconds in thirtieths of a second.\<close>

theorem timed_calls_any_period_witness:
  "\<exists>date. Option.bind (boson_read_duration 3 0 16 \<lparr>dur_count = 75, dur_num = 1, dur_den = 30\<rparr>) (call_deadline 7) = Some date \<and>
     75 * 1000000000 \<le> (date * 1000000 - 7) * 30 \<and> (date * 1000000 - 7 - 2000000) * 30 < 75 * 1000000000"
  using timed_calls_any_period [of "\<lparr>dur_count = 75, dur_num = 1, dur_den = 30\<rparr>" 7 3 0 16 0] by auto

text \<open>
  A wait of \<open>2\<^sup>3\<^sup>1\<close> milliseconds narrows to a negative \<^verbatim>\<open>int\<close>, which \<^verbatim>\<open>semaphore::wait\<close> takes
  for no timeout at all: the routine waits for ever. The system calls with the same timeout return at once.
\<close>

lemma semaphore_wait_ms_for_ever:
  "semaphore_wait_ms_start s t 2147483648 now w = semaphore_wait_start s t (- 1) now w"
  by (simp add: semaphore_wait_ms_start_def semaphore_wait_start_def static_cast_int_wraps cong: if_cong)

lemma semaphore_wait_ms_small:
  "0 \<le> ms \<Longrightarrow> ms < 2147483648 \<Longrightarrow> semaphore_wait_ms_start s t ms now w = semaphore_wait_start s t ms now w"
  by (simp add: semaphore_wait_ms_start_def static_cast_int_small)

text \<open>\<^verbatim>\<open>sleep\<close> never asks for more than the duration, and for less than a microsecond less.\<close>

lemma sleep_truncates:
  assumes "0 \<le> c" and "fits64 c"
  shows "boson_sleep_start t now \<lparr>dur_count = c, dur_num = 1, dur_den = 1000000000\<rparr> w = usleep_start t now (c div 1000 * 1000) w"
proof -
  have "ratio_divide (1, 1000000000) micro = (1, 1000)" by (simp add: ratio_divide_def Let_def gcd_non_0_int)
  with assms show ?thesis by (simp add: boson_sleep_start_def duration_cast_def trunc_div_pos)
qed

end
