(* ===== verification/Listening_Socket.thy ===== *)
theory Listening_Socket
  imports Syscalls
begin

unbundle bit_operations_syntax

text \<open>
  \<^verbatim>\<open>net::create_listening_socket\<close> (\<^verbatim>\<open>src/boson/src/net/socket.cc\<close>). The kernel is a parameter: a function
  from a request and its state to the answer and the next state; an exception is the left of a
  sum, with its message. The parameter \<^verbatim>\<open>non_block\<close> is not used by the code.
\<close>

section \<open>Requests\<close>

record sockaddr_in =
  sin_family :: "16 word"
  sin_addr :: "32 word"
  sin_port :: "16 word"

datatype net_request =
    Net_socket fd_request
  | Net_setsockopt_reuseaddr int int
  | Net_bind int sockaddr_in
  | Net_listen int int

text \<open>\<^verbatim>\<open>htons\<close> on a little-endian machine: the bytes of a 16-bit number swapped.\<close>

definition htons :: "16 word \<Rightarrow> 16 word" where
  "htons x = push_bit 8 x OR drop_bit 8 x"

definition serv_addr :: "int \<Rightarrow> int \<Rightarrow> 32 word \<Rightarrow> sockaddr_in" where
  "serv_addr domain port receive_from =
     \<lparr>sin_family = word_of_int domain, sin_addr = receive_from, sin_port = htons (word_of_int port)\<rparr>"

definition create_listening_socket ::
  "(net_request \<Rightarrow> 'k \<Rightarrow> int \<times> 'k) \<Rightarrow> int \<Rightarrow> int \<Rightarrow> int \<Rightarrow> flags \<Rightarrow> int \<Rightarrow> 32 word \<Rightarrow> 'k \<Rightarrow> (string + int) \<times> 'k" where
  "create_listening_socket answer port max_connections domain type protocol receive_from k =
     (case answer (Net_socket (boson_socket domain type protocol)) k of (sockfd, k1) \<Rightarrow>
      if sockfd < 0 then (Inl ''ERROR opening socket'', k1)
      else
        case answer (Net_setsockopt_reuseaddr sockfd 1) k1 of (rc, k2) \<Rightarrow>
        if rc < 0 then (Inl ''setsockopt'', k2)
        else
          case answer (Net_bind sockfd (serv_addr domain port receive_from)) k2 of (rc, k3) \<Rightarrow>
          if rc < 0 then (Inl ''ERROR on binding'', k3)
          else
            case answer (Net_listen sockfd max_connections) k3 of (_, k4) \<Rightarrow> (Inr sockfd, k4))"

section \<open>Ports\<close>

lemma htons_htons [simp]: "htons (htons x) = x"
proof (rule bit_word_eqI)
  fix n assume "n < LENGTH(16)"
  then show "bit (htons (htons x)) n \<longleftrightarrow> bit x n"
    by (auto simp: htons_def bit_simps not_le)
qed

text \<open>
  The port that is bound is the argument modulo \<open>2\<^sup>1\<^sup>6\<close>: a larger one is not refused.
\<close>

lemma bound_port: "uint (htons (sin_port (serv_addr domain port a))) = port mod 65536"
  by (simp add: serv_addr_def uint_word_of_int)

section \<open>Outcomes\<close>

text \<open>
  What the kernel promises: \<^verbatim>\<open>socket\<close> fails or opens a descriptor that was not open; the other requests
  open and close none; a successful \<^verbatim>\<open>bind\<close> gives the descriptor its address.
\<close>

definition net_kernel :: "(net_request \<Rightarrow> 'k \<Rightarrow> int \<times> 'k) \<Rightarrow> ('k \<Rightarrow> int set) \<Rightarrow> ('k \<Rightarrow> int \<Rightarrow> sockaddr_in option) \<Rightarrow> bool" where
  "net_kernel answer opened bound \<longleftrightarrow>
     (\<forall>r k fd k'. answer (Net_socket r) k = (fd, k') \<longrightarrow>
        (if fd < 0 then opened k' = opened k else fd \<notin> opened k \<and> opened k' = insert fd (opened k))) \<and>
     (\<forall>fd v k rc k'. answer (Net_setsockopt_reuseaddr fd v) k = (rc, k') \<longrightarrow> opened k' = opened k) \<and>
     (\<forall>fd a k rc k'. answer (Net_bind fd a) k = (rc, k') \<longrightarrow> opened k' = opened k \<and> (0 \<le> rc \<longrightarrow> bound k' fd = Some a)) \<and>
     (\<forall>fd n k rc k'. answer (Net_listen fd n) k = (rc, k') \<longrightarrow> opened k' = opened k \<and> bound k' = bound k)"

lemma net_kernelD:
  assumes "net_kernel answer opened bound"
  shows "answer (Net_socket r) k = (fd, k') \<Longrightarrow>
      (if fd < 0 then opened k' = opened k else fd \<notin> opened k \<and> opened k' = insert fd (opened k))"
    and "answer (Net_setsockopt_reuseaddr fd v) k = (rc, k') \<Longrightarrow> opened k' = opened k"
    and "answer (Net_bind fd a) k = (rc, k') \<Longrightarrow> opened k' = opened k \<and> (0 \<le> rc \<longrightarrow> bound k' fd = Some a)"
    and "answer (Net_listen fd n) k = (rc, k') \<Longrightarrow> opened k' = opened k \<and> bound k' = bound k"
  using assms unfolding net_kernel_def by - (elim conjE, metis)+

text \<open>
  A socket that is returned is new, open and bound to the port modulo \<open>2\<^sup>1\<^sup>6\<close>, even if \<^verbatim>\<open>listen\<close> failed; an
  exception after the creation of the socket leaves it open, and nobody knows its number.
\<close>

theorem listening_socket_outcome:
  assumes "net_kernel answer opened bound"
    and "create_listening_socket answer port n domain type protocol a k = (result, k')"
  shows "(case result of
      Inr fd \<Rightarrow> fd \<notin> opened k \<and> opened k' = insert fd (opened k) \<and> bound k' fd = Some (serv_addr domain port a)
    | Inl e \<Rightarrow> if e = ''ERROR opening socket'' then opened k' = opened k
        else \<exists>fd. fd \<notin> opened k \<and> opened k' = insert fd (opened k))"
proof -
  obtain fd k1 where s: "answer (Net_socket (boson_socket domain type protocol)) k = (fd, k1)" by fastforce
  obtain rc2 k2 where o: "answer (Net_setsockopt_reuseaddr fd 1) k1 = (rc2, k2)" by fastforce
  obtain rc3 k3 where b: "answer (Net_bind fd (serv_addr domain port a)) k2 = (rc3, k3)" by fastforce
  obtain rc4 k4 where l: "answer (Net_listen fd n) k3 = (rc4, k4)" by fastforce
  note laws = net_kernelD [OF assms(1)]
  show ?thesis
    using assms(2) laws(1) [OF s] laws(2) [OF o] laws(3) [OF b] laws(4) [OF l]
    by (auto simp: create_listening_socket_def s o b l split: if_splits)
qed

text \<open>A kernel with one counter of descriptors, where the port 80 is taken.\<close>

definition small_kernel :: "net_request \<Rightarrow> nat \<times> (int \<Rightarrow> sockaddr_in option) \<Rightarrow> int \<times> (nat \<times> (int \<Rightarrow> sockaddr_in option))" where
  "small_kernel r k =
     (case k of (n, b) \<Rightarrow>
        (case r of
           Net_socket _ \<Rightarrow> (int n, (Suc n, b))
         | Net_setsockopt_reuseaddr _ _ \<Rightarrow> (0, k)
         | Net_bind fd a \<Rightarrow> if sin_port a = htons 80 then (- 1, k) else (0, (n, b(fd \<mapsto> a)))
         | Net_listen _ _ \<Rightarrow> (0, k)))"

theorem listening_socket_outcome_witness:
  "(\<exists>k'. create_listening_socket small_kernel 8080 128 2 1 0 0 (3, \<lambda>_. None) = (Inr 3, k') \<and> snd k' 3 = Some (serv_addr 2 8080 0)) \<and>
   (\<exists>k'. create_listening_socket small_kernel 80 128 2 1 0 0 (3, \<lambda>_. None) = (Inl ''ERROR on binding'', k') \<and>
      (\<exists>fd. fd \<notin> int ` {..<3} \<and> int ` {..<fst k'} = insert fd (int ` {..<3})))"
proof -
  have laws: "net_kernel small_kernel (\<lambda>k. int ` {..<fst k}) snd"
    unfolding net_kernel_def small_kernel_def by (auto simp: lessThan_Suc split: prod.splits)
  have ok: "create_listening_socket small_kernel 8080 128 2 1 0 0 (3, \<lambda>_. None) = (Inr 3, (4, [3 \<mapsto> serv_addr 2 8080 0]))"
    by (simp add: create_listening_socket_def small_kernel_def serv_addr_def htons_def)
  have no: "create_listening_socket small_kernel 80 128 2 1 0 0 (3, \<lambda>_. None) = (Inl ''ERROR on binding'', (4, \<lambda>_. None))"
    by (simp add: create_listening_socket_def small_kernel_def serv_addr_def)
  show ?thesis using listening_socket_outcome [OF laws ok] listening_socket_outcome [OF laws no] ok no by auto
qed

end
