(* ===== verification/Routine_Arguments.thy ===== *)
theory Routine_Arguments
  imports Prelude
begin

text \<open>
  What a routine keeps of the arguments it is started with: the choice between a copy and a reference
  that \<^verbatim>\<open>extract_tuple_arguments\<close> makes at compile time (\<^verbatim>\<open>src/boson/boson/utility.h\<close>), the holder of the
  function and its arguments (\<^verbatim>\<open>src/boson/boson/internal/routine.h\<close>), and the call from the kept tuple
  (\<^verbatim>\<open>src/boson/boson/std/experimental/apply.h\<close>).
\<close>

section \<open>The choice at compile time\<close>

text \<open>A template argument \<^verbatim>\<open>Args\<close> deduced for \<^verbatim>\<open>Args&&\<close>: a type, or a reference to one for an lvalue.\<close>

datatype 'a arg = Val 'a | LRef 'a | CRef 'a

fun decay :: "'a arg \<Rightarrow> 'a" where
  "decay (Val a) = a"
| "decay (LRef a) = a"
| "decay (CRef a) = a"

text \<open>What stands in a call under test: an argument, \<^verbatim>\<open>value_arg\<close> of one, or \<^verbatim>\<open>routine_placeholder_probe\<close>.\<close>

datatype 'a operand = Operand "'a arg" | Value_arg "'a arg" | Probe

text \<open>
  \<open>call\<close> gives the return type of the function on operands, and \<open>None\<close> where the call is ill-formed.
  \<^verbatim>\<open>check_take\<close> puts its operand in the place of one argument and looks whether the return type stays.
\<close>

definition check_take :: "('a operand list \<Rightarrow> 'r option) \<Rightarrow> 'a arg list \<Rightarrow> nat \<Rightarrow> 'a operand \<Rightarrow> bool" where
  "check_take call args Index x =
     (case call (map Operand (take Index args) @ [x] @ map Operand (drop (Suc Index) args)) of
        None \<Rightarrow> False
      | Some r \<Rightarrow> call (map Operand args) = Some r)"

definition extract_tuple_argument :: "('a operand list \<Rightarrow> 'r option) \<Rightarrow> 'a arg list \<Rightarrow> nat \<Rightarrow> 'a arg" where
  "extract_tuple_argument call args Index =
     (let take_copy = check_take call args Index (Value_arg (args ! Index));
          is_generic = check_take call args Index Probe in
      if (\<not> take_copy \<and> is_generic) \<or> (take_copy \<and> \<not> is_generic) then Val (decay (args ! Index)) else args ! Index)"

definition extract_tuple_arguments :: "('a operand list \<Rightarrow> 'r option) \<Rightarrow> 'a arg list \<Rightarrow> 'a arg list option" where
  "extract_tuple_arguments call args =
     (case call (map Operand args) of
        None \<Rightarrow> None
      | Some _ \<Rightarrow> Some (map (extract_tuple_argument call args) [0..<length args]))"

section \<open>The holder\<close>

text \<open>
  An argument is a variable of the caller or a temporary; an element of the tuple is a value of its own or a
  reference to a variable. A temporary is moved into its element, a variable copied into an
  element that is not a reference; a reference to a temporary is ill-formed.
\<close>

datatype 'v source = Lvalue nat | Rvalue 'v

datatype 'v kept = Kept_value 'v | Kept_reference nat

fun keep :: "(nat \<Rightarrow> 'v) \<Rightarrow> 'a arg \<Rightarrow> 'v source \<Rightarrow> 'v kept option" where
  "keep vars (Val _) (Rvalue v) = Some (Kept_value v)"
| "keep vars (Val _) (Lvalue a) = Some (Kept_value (vars a))"
| "keep vars _ (Lvalue a) = Some (Kept_reference a)"
| "keep vars _ (Rvalue v) = None"

record ('a, 'v) function_holder =
  fh_types :: "'a arg list"
  fh_args :: "'v kept list"

fun keep_all :: "(nat \<Rightarrow> 'v) \<Rightarrow> 'a arg list \<Rightarrow> 'v source list \<Rightarrow> 'v kept list option" where
  "keep_all vars [] [] = Some []"
| "keep_all vars (e # es) (s # ss) = do { k \<leftarrow> keep vars e s; ks \<leftarrow> keep_all vars es ss; Some (k # ks) }"
| "keep_all vars _ _ = None"

definition function_holder_new ::
  "('a operand list \<Rightarrow> 'r option) \<Rightarrow> (nat \<Rightarrow> 'v) \<Rightarrow> 'a arg list \<Rightarrow> 'v source list \<Rightarrow> ('a, 'v) function_holder option" where
  "function_holder_new call vars args sources =
     do { types \<leftarrow> extract_tuple_arguments call args;
          kept \<leftarrow> keep_all vars types sources;
          Some \<lparr>fh_types = types, fh_args = kept\<rparr> }"

text \<open>
  \<^verbatim>\<open>experimental::apply\<close> expands the tuple into the arguments of the call. The elements of \<^verbatim>\<open>std::move(args_)\<close>
  are temporaries of their type, or the references. \<open>vars\<close> are the variables when the routine runs.
\<close>

definition tuple_apply :: "('v list \<Rightarrow> 'r) \<Rightarrow> 'v list \<Rightarrow> 'r" where
  "tuple_apply f t = f (map (\<lambda>i. t ! i) [0..<length t])"

fun kept_value :: "(nat \<Rightarrow> 'v) \<Rightarrow> 'v kept \<Rightarrow> 'v" where
  "kept_value vars (Kept_value v) = v"
| "kept_value vars (Kept_reference a) = vars a"

definition function_holder_call ::
  "('a operand list \<Rightarrow> 'r option) \<Rightarrow> ('v list \<Rightarrow> 'b) \<Rightarrow> (nat \<Rightarrow> 'v) \<Rightarrow> ('a, 'v) function_holder \<Rightarrow> 'b option" where
  "function_holder_call call func vars h =
     (case call (map Operand (fh_types h)) of
        None \<Rightarrow> None
      | Some _ \<Rightarrow> Some (tuple_apply func (map (kept_value vars) (fh_args h))))"

section \<open>Functions and generic functions\<close>

text \<open>
  The rules of the language for a function with given parameters: which operands initialise a parameter. A
  \<^verbatim>\<open>value_arg\<close> converts to a value and not to a constant reference, and is neither copied nor
  moved. The types can be copied and are not made from one another.
\<close>

datatype 'a param = By_value 'a | By_lref 'a | By_cref 'a | By_rref 'a | Auto | Auto_lref | Auto_cref | Auto_rref

fun binds :: "'a param \<Rightarrow> 'a operand \<Rightarrow> bool" where
  "binds (By_value a) (Operand x) \<longleftrightarrow> decay x = a"
| "binds (By_value a) (Value_arg x) \<longleftrightarrow> decay x = a"
| "binds (By_value a) Probe \<longleftrightarrow> False"
| "binds (By_lref a) x \<longleftrightarrow> x = Operand (LRef a)"
| "binds (By_cref a) (Operand x) \<longleftrightarrow> decay x = a"
| "binds (By_cref a) _ \<longleftrightarrow> False"
| "binds (By_rref a) (Operand x) \<longleftrightarrow> x = Val a"
| "binds (By_rref a) (Value_arg x) \<longleftrightarrow> decay x = a"
| "binds (By_rref a) Probe \<longleftrightarrow> False"
| "binds Auto (Operand x) \<longleftrightarrow> True"
| "binds Auto (Value_arg x) \<longleftrightarrow> False"
| "binds Auto Probe \<longleftrightarrow> True"
| "binds Auto_lref (Operand x) \<longleftrightarrow> x \<noteq> Val (decay x)"
| "binds Auto_lref _ \<longleftrightarrow> False"
| "binds Auto_cref _ \<longleftrightarrow> True"
| "binds Auto_rref _ \<longleftrightarrow> True"

definition param_call :: "'r \<Rightarrow> 'a param list \<Rightarrow> 'a operand list \<Rightarrow> 'r option" where
  "param_call ret ps xs = (if list_all2 binds ps xs then Some ret else None)"

text \<open>A parameter that is a value of its own, named or generic.\<close>

fun by_value :: "'a param \<Rightarrow> bool" where
  "by_value (By_value _) = True"
| "by_value (By_rref _) = True"
| "by_value Auto = True"
| "by_value _ = False"

text \<open>A variable is passed as an lvalue, a temporary as a plain type.\<close>

fun source_arg :: "'v source \<Rightarrow> 'a arg \<Rightarrow> bool" where
  "source_arg (Lvalue _) x \<longleftrightarrow> x \<noteq> Val (decay x)"
| "source_arg (Rvalue _) x \<longleftrightarrow> x = Val (decay x)"

section \<open>Properties\<close>

lemma tuple_apply_eq [simp]: "tuple_apply f t = f t"
  by (simp add: tuple_apply_def map_nth)

lemma check_take_binds:
  assumes "list_all2 binds ps (map Operand args)" and "i < length args"
  shows "check_take (param_call ret ps) args i x \<longleftrightarrow> binds (ps ! i) x"
proof -
  let ?xs = "map Operand (take i args) @ [x] @ map Operand (drop (Suc i) args)"
  have xs: "?xs = (map Operand args)[i := x]" using assms(2) by (simp add: upd_conv_take_nth_drop take_map drop_map)
  have len: "length ps = length args" using list_all2_lengthD [OF assms(1)] by simp
  have "list_all2 binds ps ((map Operand args)[i := x]) \<longleftrightarrow> binds (ps ! i) x"
    using assms len by (auto simp: list_all2_conv_all_nth nth_list_update)
  then show ?thesis unfolding check_take_def xs param_call_def using assms(1) by simp
qed

text \<open>The element for one argument: its plain type for a parameter by value, else what was passed.\<close>

definition element :: "'a param \<Rightarrow> 'a arg \<Rightarrow> 'a arg" where
  "element p x = (if by_value p then Val (decay x) else x)"

lemma extract_tuple_argument_element:
  assumes "list_all2 binds ps (map Operand args)" and "i < length args"
  shows "extract_tuple_argument (param_call ret ps) args i = element (ps ! i) (args ! i)"
proof -
  have "binds (ps ! i) (Operand (args ! i))" using assms by (auto simp: list_all2_conv_all_nth)
  then show ?thesis
    by (cases "ps ! i") (auto simp: extract_tuple_argument_def check_take_binds [OF assms] element_def)
qed

lemma extract_tuple_arguments_elements:
  assumes "list_all2 binds ps (map Operand args)"
  shows "extract_tuple_arguments (param_call ret ps) args = Some (map2 element ps args)"
proof -
  have len: "length ps = length args" using list_all2_lengthD [OF assms] by simp
  have "map (extract_tuple_argument (param_call ret ps) args) [0..<length args] = map2 element ps args"
    using len by (intro nth_equalityI) (simp_all add: extract_tuple_argument_element [OF assms])
  then show ?thesis using assms by (simp add: extract_tuple_arguments_def param_call_def)
qed

lemma element_binds: "binds p (Operand x) \<Longrightarrow> binds p (Operand (element p x))"
  by (cases p) (auto simp: element_def)

text \<open>What the parameter sees.\<close>

fun seen :: "(nat \<Rightarrow> 'v) \<Rightarrow> (nat \<Rightarrow> 'v) \<Rightarrow> 'a param \<Rightarrow> 'v source \<Rightarrow> 'v" where
  "seen before now p (Rvalue v) = v"
| "seen before now p (Lvalue a) = (if by_value p then before a else now a)"

lemma keep_element:
  assumes "source_arg s x"
  shows "\<exists>k. keep before (element p x) s = Some k \<and> kept_value now k = seen before now p s"
  using assms by (cases s; cases x) (auto simp: element_def)

lemma keep_all_elements:
  assumes "list_all2 source_arg sources args" and "length ps = length args"
  shows "\<exists>ks. keep_all before (map2 element ps args) sources = Some ks \<and> map (kept_value now) ks = map2 (seen before now) ps sources"
  using assms
proof (induction sources args arbitrary: ps rule: list_all2_induct)
  case (Cons s ss x xs)
  then obtain p ps' where ps: "ps = p # ps'" "length ps' = length xs" by (cases ps) auto
  from keep_element [OF Cons.hyps(1), of before p now] Cons.IH [OF ps(2)] show ?case by (auto simp: ps(1))
qed simp



end
