(* ===== verification/Interface.thy ===== *)
theory Interface
  imports Channel Engine Select Durations Fifo_Queue
begin

text \<open>
  The objects a program of boson uses: \<^verbatim>\<open>channel\<close> (\<^verbatim>\<open>src/boson/boson/channel.h\<close>), a copyable handle of a shared
  \<^verbatim>\<open>channel_impl\<close>; \<^verbatim>\<open>shared_semaphore\<close> (\<^verbatim>\<open>src/boson/boson/semaphore.h\<close>); and \<^verbatim>\<open>run\<close>, \<^verbatim>\<open>start\<close> and
  \<^verbatim>\<open>start_explicit\<close> (\<^verbatim>\<open>src/boson/boson/engine.h\<close>, \<^verbatim>\<open>src/boson/boson/internal/thread.h\<close>). The shared parts
  of the channels are a list and a handle has the index of its own; a handle of a semaphore is its
  index in the world. \<open>cur\<close> is \<^verbatim>\<open>current_thread()\<close>, \<open>None\<close> outside the threads of the engine.
\<close>

section \<open>Channels\<close>

record channel =
  chn_impl :: nat
  chn_thread_id :: nat

definition channel_make :: "'a \<Rightarrow> nat \<Rightarrow> 'a channel_impl list \<Rightarrow> world \<Rightarrow> channel \<times> 'a channel_impl list \<times> world" where
  "channel_make d Size chans w =
     (case channel_new d Size w of
        (c, w1) \<Rightarrow> (\<lparr>chn_impl = length chans, chn_thread_id = 0\<rparr>, chans @ [c], w1))"

text \<open>The id of the thread is asked for until it is not zero, and kept then.\<close>

definition channel_get_id :: "nat option \<Rightarrow> channel \<Rightarrow> (nat \<times> channel) option" where
  "channel_get_id cur ch =
     (if chn_thread_id ch = 0
      then do { t \<leftarrow> cur; Some (t, ch\<lparr>chn_thread_id := t\<rparr>) }
      else Some (chn_thread_id ch, ch))"

definition channel_obj_close :: "channel \<Rightarrow> 'a channel_impl list \<Rightarrow> world \<Rightarrow> world option" where
  "channel_obj_close ch chans w = do { c \<leftarrow> vec_get chans (chn_impl ch); channel_close c w }"

text \<open>
  The operations get the id, which the shared part does not use, and go on with the shared part; they run
  in the thread \<open>cur\<close>.
\<close>

definition channel_obj_consume_write ::
  "nat option \<Rightarrow> 'a \<Rightarrow> channel \<Rightarrow> 'a channel_impl list \<Rightarrow> world \<Rightarrow> (channel \<times> 'a channel_impl list \<times> world) option" where
  "channel_obj_consume_write cur v ch chans w =
     do { (_, ch1) \<leftarrow> channel_get_id cur ch;
          c \<leftarrow> vec_get chans (chn_impl ch);
          t \<leftarrow> cur;
          (c1, w1) \<leftarrow> channel_consume_write t v c w;
          Some (ch1, chans[chn_impl ch := c1], w1) }"

definition channel_obj_consume_read ::
  "nat option \<Rightarrow> channel \<Rightarrow> 'a channel_impl list \<Rightarrow> world \<Rightarrow> ('a \<times> channel \<times> 'a channel_impl list \<times> world) option" where
  "channel_obj_consume_read cur ch chans w =
     do { (_, ch1) \<leftarrow> channel_get_id cur ch;
          c \<leftarrow> vec_get chans (chn_impl ch);
          t \<leftarrow> cur;
          (v, c1, w1) \<leftarrow> channel_consume_read t c w;
          Some (v, ch1, chans[chn_impl ch := c1], w1) }"

definition channel_obj_write_start ::
  "nat option \<Rightarrow> 'a \<Rightarrow> int \<Rightarrow> int \<Rightarrow> channel \<Rightarrow> 'a channel_impl list \<Rightarrow> world \<Rightarrow>
     (channel_result_value option \<times> channel \<times> 'a channel_impl list \<times> world) option" where
  "channel_obj_write_start cur v timeout_ms now_ns ch chans w =
     do { (_, ch1) \<leftarrow> channel_get_id cur ch;
          c \<leftarrow> vec_get chans (chn_impl ch);
          t \<leftarrow> cur;
          (res, c1, w1) \<leftarrow> channel_write_start t v timeout_ms now_ns c w;
          Some (res, ch1, chans[chn_impl ch := c1], w1) }"

definition channel_obj_read_start ::
  "nat option \<Rightarrow> int \<Rightarrow> int \<Rightarrow> channel \<Rightarrow> 'a channel_impl list \<Rightarrow> world \<Rightarrow>
     ((channel_result_value \<times> 'a option) option \<times> channel \<times> 'a channel_impl list \<times> world) option" where
  "channel_obj_read_start cur timeout_ms now_ns ch chans w =
     do { (_, ch1) \<leftarrow> channel_get_id cur ch;
          c \<leftarrow> vec_get chans (chn_impl ch);
          t \<leftarrow> cur;
          (res, c1, w1) \<leftarrow> channel_read_start t timeout_ms now_ns c w;
          Some (res, ch1, chans[chn_impl ch := c1], w1) }"

text \<open>\<^verbatim>\<open>operator<<\<close> and \<^verbatim>\<open>operator>>\<close> wait without a timeout.\<close>

definition channel_put ::
  "nat option \<Rightarrow> 'a \<Rightarrow> int \<Rightarrow> channel \<Rightarrow> 'a channel_impl list \<Rightarrow> world \<Rightarrow>
     (channel_result_value option \<times> channel \<times> 'a channel_impl list \<times> world) option" where
  "channel_put cur v now_ns ch chans w = channel_obj_write_start cur v (- 1) now_ns ch chans w"

definition channel_take ::
  "nat option \<Rightarrow> int \<Rightarrow> channel \<Rightarrow> 'a channel_impl list \<Rightarrow> world \<Rightarrow>
     ((channel_result_value \<times> 'a option) option \<times> channel \<times> 'a channel_impl list \<times> world) option" where
  "channel_take cur now_ns ch chans w = channel_obj_read_start cur (- 1) now_ns ch chans w"

section \<open>Shared semaphores\<close>

definition shared_semaphore_new :: "int32 \<Rightarrow> world \<Rightarrow> nat \<times> world" where
  "shared_semaphore_new capacity w = (length (w_semas w), w\<lparr>w_semas := w_semas w @ [semaphore_new capacity]\<rparr>)"

definition shared_semaphore_disable :: "nat \<Rightarrow> world \<Rightarrow> world option" where
  "shared_semaphore_disable s w = semaphore_disable s w"

definition shared_semaphore_wait_start ::
  "nat \<Rightarrow> nat \<Rightarrow> int \<Rightarrow> int \<Rightarrow> world \<Rightarrow> (semaphore_return_value option \<times> world) option" where
  "shared_semaphore_wait_start s t timeout now_ns w = semaphore_wait_start s t timeout now_ns w"

definition shared_semaphore_wait_ms_start ::
  "nat \<Rightarrow> nat \<Rightarrow> int \<Rightarrow> int \<Rightarrow> world \<Rightarrow> (semaphore_return_value option \<times> world) option" where
  "shared_semaphore_wait_ms_start s t timeout now_ns w = semaphore_wait_ms_start s t timeout now_ns w"

definition shared_semaphore_post :: "nat \<Rightarrow> nat \<Rightarrow> world \<Rightarrow> (semaphore_return_value \<times> world) option" where
  "shared_semaphore_post s t w = semaphore_post s t w"

section \<open>Running a program\<close>

text \<open>The constructor of \<^verbatim>\<open>engine\<close> with a function creates the threads and starts the function.\<close>

definition engine_with_function :: "netpoller list \<Rightarrow> engine \<times> world" where
  "engine_with_function ps = (case engine_new ps of (e, w) \<Rightarrow> engine_start_in (e_max_nb_cores e) e w)"

text \<open>\<^verbatim>\<open>start\<close> and \<^verbatim>\<open>start_explicit\<close> in a routine.\<close>

definition boson_start :: "nat option \<Rightarrow> engine \<Rightarrow> world \<Rightarrow> (engine \<times> world) option" where
  "boson_start cur e w = do { t \<leftarrow> cur; Some (thread_start_routine e w) }"

definition boson_start_explicit :: "nat option \<Rightarrow> nat \<Rightarrow> engine \<Rightarrow> world \<Rightarrow> (engine \<times> world) option" where
  "boson_start_explicit cur target e w = do { t \<leftarrow> cur; Some (thread_start_routine_explicit target e w) }"

section \<open>A semaphore nobody waits for\<close>

definition sema_quiet :: "nat \<Rightarrow> nat \<Rightarrow> world \<Rightarrow> bool" where
  "sema_quiet s n w \<longleftrightarrow>
     (\<exists>sm. the_sema s w = Some sm \<and> s_counter sm = of_nat n \<and> vq_head (s_waiters sm) = vq_none)"

text \<open>Only the semaphore \<open>s\<close> differs.\<close>

definition only_sema :: "nat \<Rightarrow> world \<Rightarrow> world \<Rightarrow> bool" where
  "only_sema s w w' \<longleftrightarrow> w_threads w' = w_threads w \<and> w_routines w' = w_routines w \<and> (\<forall>u. u \<noteq> s \<longrightarrow> the_sema u w' = the_sema u w)"

lemma sint_counter: "n < 2 ^ 31 \<Longrightarrow> sint (of_nat n :: int32) = int n"
  by (simp add: signed_of_nat signed_take_bit_int_eq_self)

lemma sema_quiet_upd:
  assumes "sema_quiet s n w"
  shows "sema_quiet s m (upd_sema s (\<lambda>sm. sm\<lparr>s_counter := of_nat m\<rparr>) w)"
    and "only_sema s w (upd_sema s f w)"
  using assms by (auto simp: sema_quiet_def only_sema_def the_sema_upd)

lemma sema_quiet_other: "only_sema s w w' \<Longrightarrow> u \<noteq> s \<Longrightarrow> sema_quiet u n w' = sema_quiet u n w"
  by (simp add: only_sema_def sema_quiet_def)

lemma sema_quiet_wait:
  assumes "sema_quiet s (Suc n) w" and "Suc n \<le> 2 ^ 30"
  shows "\<exists>w'. semaphore_wait_start s t timeout now w = Some (Some sema_ok, w') \<and> sema_quiet s n w' \<and> only_sema s w w'"
proof -
  obtain sm where sm: "the_sema s w = Some sm" "s_counter sm = of_nat (Suc n)" using assms(1) by (auto simp: sema_quiet_def)
  have r: "sint (s_counter sm) = int (Suc n)" unfolding sm(2) using assms(2) by (intro sint_counter) simp
  have "s < length (w_semas w)" "w_semas w ! s = sm" using sm(1) by (simp_all add: the_sema_def)
  then have "upd_sema s (\<lambda>sm. sm\<lparr>s_counter := s_counter sm - 1\<rparr>) w = upd_sema s (\<lambda>sm. sm\<lparr>s_counter := of_nat n\<rparr>) w"
    using sm(2) by (simp add: upd_sema_def)
  then have "semaphore_wait_start s t timeout now w = Some (Some sema_ok, upd_sema s (\<lambda>sm. sm\<lparr>s_counter := of_nat n\<rparr>) w)"
    using sm(1) r assms(2) by (simp add: semaphore_wait_start_def sema_fetch_sub_def disabling_threshold_def)
  with sema_quiet_upd [OF assms(1)] show ?thesis by blast
qed

lemma sema_quiet_post:
  assumes "sema_quiet s n w" and "n \<le> 2 ^ 30"
  shows "\<exists>w'. semaphore_post s t w = Some (sema_ok, w') \<and> sema_quiet s (Suc n) w' \<and> only_sema s w w'"
proof -
  obtain sm where sm: "the_sema s w = Some sm" "s_counter sm = of_nat n" "vq_head (s_waiters sm) = vq_none"
    using assms(1) by (auto simp: sema_quiet_def)
  have r: "sint (s_counter sm) = int n" unfolding sm(2) using assms(2) by (intro sint_counter) simp
  let ?w = "upd_sema s (\<lambda>sm. sm\<lparr>s_counter := of_nat (Suc n)\<rparr>) w"
  have s: "s < length (w_semas w)" "w_semas w ! s = sm" using sm(1) by (simp_all add: the_sema_def)
  then have "upd_sema s (\<lambda>sm. sm\<lparr>s_counter := s_counter sm + 1\<rparr>) w = ?w" using sm(2) by (simp add: upd_sema_def add.commute)
  moreover have "pop_a_waiter s t ?w = Some (True, ?w)"
    using s sm(3) by (simp add: pop_a_waiter_def semaphore_read_def the_sema_def upd_sema_def vectorized_queue_read_def)
  ultimately have "semaphore_post s t w = Some (sema_ok, ?w)"
    using sm(1) r assms(2) by (simp add: semaphore_post_def sema_fetch_add_def disabling_threshold_def)
  with sema_quiet_upd [OF assms(1)] show ?thesis by blast
qed

section \<open>A channel nobody waits for\<close>

text \<open>\<open>ws\<close> are all the values written and \<open>l\<close> how many of them were read.\<close>

definition channel_inv :: "nat \<Rightarrow> nat \<Rightarrow> 'a list \<Rightarrow> nat \<Rightarrow> 'a channel_impl list \<times> world \<Rightarrow> bool" where
  "channel_inv k Size ws l s \<longleftrightarrow>
     (case s of (chans, w) \<Rightarrow>
        k < length chans \<and> length (ch_buffer (chans ! k)) = Size \<and>
        ch_head (chans ! k) = of_nat (length ws) \<and> ch_tail (chans ! k) = of_nat l \<and> l \<le> length ws \<and> length ws \<le> l + Size \<and>
        (\<forall>j. l \<le> j \<longrightarrow> j < length ws \<longrightarrow> ch_buffer (chans ! k) ! (j mod Size) = ws ! j) \<and>
        ch_readers_slots (chans ! k) \<noteq> ch_writer_slots (chans ! k) \<and>
        sema_quiet (ch_readers_slots (chans ! k)) (length ws - l) w \<and>
        sema_quiet (ch_writer_slots (chans ! k)) (l + Size - length ws) w)"

lemma channel_inv_make:
  assumes "channel_make d Size chans w = (ch, chans', w')"
  shows "channel_inv (chn_impl ch) Size [] 0 (chans', w')"
  using assms
  by (auto simp: channel_make_def channel_new_def Let_def channel_inv_def sema_quiet_def the_sema_def semaphore_new_def
      vectorized_queue_empty_def nth_append)

text \<open>The operations of a handle that has the thread id \<open>tid\<close>, called in thread \<open>t\<close>.\<close>

definition put_through :: "int \<Rightarrow> nat \<Rightarrow> nat \<times> nat \<Rightarrow> 'a \<Rightarrow> 'a channel_impl list \<times> world \<Rightarrow> ('a channel_impl list \<times> world) option" where
  "put_through now k user v s =
     (case user of (t, tid) \<Rightarrow>
        (case channel_put (Some t) v now \<lparr>chn_impl = k, chn_thread_id = tid\<rparr> (fst s) (snd s) of
           Some (Some chan_ok, _, chans, w) \<Rightarrow> Some (chans, w)
         | _ \<Rightarrow> None))"

definition take_through :: "int \<Rightarrow> nat \<Rightarrow> nat \<times> nat \<Rightarrow> 'a channel_impl list \<times> world \<Rightarrow> ('a option \<times> 'a channel_impl list \<times> world) option" where
  "take_through now k user s =
     (case user of (t, tid) \<Rightarrow>
        (case channel_take (Some t) now \<lparr>chn_impl = k, chn_thread_id = tid\<rparr> (fst s) (snd s) of
           Some (Some (chan_ok, v), _, chans, w) \<Rightarrow> Some (v, chans, w)
         | _ \<Rightarrow> None))"

lemma channel_get_id_some: "\<exists>p. channel_get_id (Some t) ch = Some p"
  by (simp add: channel_get_id_def)

lemma put_through_inv:
  assumes inv: "channel_inv k Size ws l (chans, w)" and room: "length ws < l + Size" and bound: "ring_bound Size (Suc (length ws))"
    and Size: "Size \<le> 2 ^ 30"
  shows "\<exists>chans' w'. put_through now k user v (chans, w) = Some (chans', w') \<and> channel_inv k Size (ws @ [v]) l (chans', w') \<and>
    w_threads w' = w_threads w \<and> w_routines w' = w_routines w"
proof -
  obtain t tid where user: "user = (t, tid)" by fastforce
  define c where "c = chans ! k"
  define c' where "c' = c\<lparr>ch_head := ch_head c + 1, ch_buffer := (ch_buffer c)[length ws mod Size := v]\<rparr>"
  have k: "k < length chans" "length (ch_buffer c) = Size" "ch_head c = of_nat (length ws)"
    "ch_readers_slots c \<noteq> ch_writer_slots c"
    "sema_quiet (ch_readers_slots c) (length ws - l) w" "sema_quiet (ch_writer_slots c) (l + Size - length ws) w"
    and lw: "l \<le> length ws" and tail: "ch_tail c = of_nat l"
    and cells: "\<And>j. l \<le> j \<Longrightarrow> j < length ws \<Longrightarrow> ch_buffer c ! (j mod Size) = ws ! j"
    using inv by (auto simp: channel_inv_def c_def)
  have "sema_quiet (ch_writer_slots c) (Suc (l + Size - Suc (length ws))) w" "Suc (l + Size - Suc (length ws)) \<le> 2 ^ 30"
    using k(6) room lw Size by (simp_all add: Suc_diff_Suc)
  from sema_quiet_wait [OF this, of t "- 1" now] obtain w1 where
    w1: "semaphore_wait_start (ch_writer_slots c) t (- 1) now w = Some (Some sema_ok, w1)"
    "sema_quiet (ch_writer_slots c) (l + Size - Suc (length ws)) w1" "only_sema (ch_writer_slots c) w w1" by blast
  have "sema_quiet (ch_readers_slots c) (length ws - l) w1" "length ws - l \<le> 2 ^ 30"
    using k(4,5) sema_quiet_other [OF w1(3)] room Size by simp_all
  from sema_quiet_post [OF this, of t] obtain w2 where
    w2: "semaphore_post (ch_readers_slots c) t w1 = Some (sema_ok, w2)" "sema_quiet (ch_readers_slots c) (Suc (length ws - l)) w2"
    "only_sema (ch_readers_slots c) w1 w2" by blast
  have cell: "ring_index Size (ch_head c) = length ws mod Size" unfolding k(3) by (rule ring_index_of_nat [OF bound]) simp
  have "put_through now k user v (chans, w) = Some (chans[k := c'], w2)"
    using channel_get_id_some [of t "\<lparr>chn_impl = k, chn_thread_id = tid\<rparr>"] k(1,2) w1(1) w2(1) cell
    by (auto simp: user put_through_def channel_put_def channel_obj_write_start_def channel_write_start_def channel_write_ticket_def
        channel_consume_write_def Let_def c'_def simp flip: c_def)
  moreover have "ch_buffer c' ! (j mod Size) = (ws @ [v]) ! j" if "l \<le> j" "j < Suc (length ws)" for j
  proof (cases "j = length ws")
    case True
    with room lw k(2) show ?thesis by (simp add: c'_def)
  next
    case False
    with that room have "j mod Size \<noteq> length ws mod Size" by (intro mod_neq) auto
    with False that cells [of j] show ?thesis by (simp add: c'_def nth_append)
  qed
  then have "channel_inv k Size (ws @ [v]) l (chans[k := c'], w2)"
    using k tail w1 w2 room lw sema_quiet_other [OF w2(3), of "ch_writer_slots c"]
    by (simp add: channel_inv_def c'_def Suc_diff_le)
  ultimately show ?thesis using w1(3) w2(3) by (auto simp: only_sema_def)
qed

lemma take_through_inv:
  assumes inv: "channel_inv k Size ws l (chans, w)" and some: "l < length ws" and bound: "ring_bound Size (length ws)"
    and Size: "Size \<le> 2 ^ 30"
  shows "\<exists>chans' w'. take_through now k user (chans, w) = Some (Some (ws ! l), chans', w') \<and> channel_inv k Size ws (Suc l) (chans', w') \<and>
    w_threads w' = w_threads w \<and> w_routines w' = w_routines w"
proof -
  obtain t tid where user: "user = (t, tid)" by fastforce
  define c where "c = chans ! k"
  have k: "k < length chans" "length (ch_buffer c) = Size" "ch_tail c = of_nat l" "ch_readers_slots c \<noteq> ch_writer_slots c"
    "sema_quiet (ch_readers_slots c) (length ws - l) w" "sema_quiet (ch_writer_slots c) (l + Size - length ws) w"
    "length ws \<le> l + Size" and cells: "\<And>j. l \<le> j \<Longrightarrow> j < length ws \<Longrightarrow> ch_buffer c ! (j mod Size) = ws ! j"
    and head: "ch_head c = of_nat (length ws)" using inv by (auto simp: channel_inv_def c_def)
  have "sema_quiet (ch_readers_slots c) (Suc (length ws - Suc l)) w" "Suc (length ws - Suc l) \<le> 2 ^ 30"
    using k(5,7) some Size by (simp_all add: Suc_diff_Suc)
  from sema_quiet_wait [OF this, of t "- 1" now] obtain w1 where
    w1: "semaphore_wait_start (ch_readers_slots c) t (- 1) now w = Some (Some sema_ok, w1)"
    "sema_quiet (ch_readers_slots c) (length ws - Suc l) w1" "only_sema (ch_readers_slots c) w w1" by blast
  have "sema_quiet (ch_writer_slots c) (l + Size - length ws) w1" "l + Size - length ws \<le> 2 ^ 30"
    using k(4,6) sema_quiet_other [OF w1(3), of "ch_writer_slots c"] some Size by simp_all
  from sema_quiet_post [OF this, of t] obtain w2 where
    w2: "semaphore_post (ch_writer_slots c) t w1 = Some (sema_ok, w2)" "sema_quiet (ch_writer_slots c) (Suc (l + Size - length ws)) w2"
    "only_sema (ch_writer_slots c) w1 w2" by blast
  have cell: "ring_index Size (ch_tail c) = l mod Size" unfolding k(3) by (rule ring_index_of_nat [OF bound some])
  have "take_through now k user (chans, w) = Some (Some (ws ! l), chans[k := c\<lparr>ch_tail := ch_tail c + 1\<rparr>], w2)"
    using channel_get_id_some [of t "\<lparr>chn_impl = k, chn_thread_id = tid\<rparr>"] k(1,2) w1(1) w2(1) cell cells [of l] some
    by (auto simp: user take_through_def channel_take_def channel_obj_read_start_def channel_read_start_def channel_read_ticket_def
        channel_consume_read_def Let_def simp flip: c_def)
  moreover have "channel_inv k Size ws (Suc l) (chans[k := c\<lparr>ch_tail := ch_tail c + 1\<rparr>], w2)"
    using k w1 w2 some cells head sema_quiet_other [OF w2(3), of "ch_readers_slots c"]
    by (simp add: channel_inv_def Suc_diff_le)
  ultimately show ?thesis using w1(3) w2(3) by (auto simp: only_sema_def)
qed

section \<open>Properties\<close>

text \<open>Operations that never find the channel full or empty; \<open>n\<close> is the number of values in it.\<close>

fun channel_room :: "nat \<Rightarrow> ('i, 'a) queue_op list \<Rightarrow> nat \<Rightarrow> bool" where
  "channel_room Size [] n \<longleftrightarrow> True"
| "channel_room Size (Put i v # ops) n \<longleftrightarrow> n < Size \<and> channel_room Size ops (Suc n)"
| "channel_room Size (Get i # ops) n \<longleftrightarrow> 0 < n \<and> channel_room Size ops (n - 1)"

lemma channel_run:
  assumes "channel_inv k Size ws l (chans, w)" and "channel_room Size ops (length ws - l)"
    and "ring_bound Size (length ws + length ops)" and "Size \<le> 2 ^ 30"
  shows "\<exists>chans' w'. run_queue (put_through now k) (take_through now k) ops (chans, w) =
      Some (fst (spec_run ops (drop l ws)), chans', w') \<and> w_threads w' = w_threads w \<and> w_routines w' = w_routines w"
  using assms(1-3)
proof (induction ops arbitrary: ws l chans w)
  case (Cons op ops)
  have lw: "l \<le> length ws" using Cons.prems(1) by (simp add: channel_inv_def)
  have b: "ring_bound Size (Suc (length ws))" "ring_bound Size (length ws)"
    by (rule ring_bound_mono [OF Cons.prems(3)], simp)+
  show ?case
  proof (cases op)
    case (Put i v)
    then have "length ws < l + Size" "channel_room Size ops (length (ws @ [v]) - l)" using Cons.prems(2) lw by (auto simp: Suc_diff_le)
    moreover from put_through_inv [OF Cons.prems(1) this(1) b(1) assms(4), of now i v] obtain chans1 w1 where
      1: "put_through now k i v (chans, w) = Some (chans1, w1)" "channel_inv k Size (ws @ [v]) l (chans1, w1)"
      "w_threads w1 = w_threads w" "w_routines w1 = w_routines w" by blast
    ultimately show ?thesis using Cons.IH [OF 1(2)] Cons.prems(3) lw Put by auto
  next
    case (Get i)
    then have "l < length ws" "channel_room Size ops (length ws - Suc l)" using Cons.prems(2) by auto
    moreover from take_through_inv [OF Cons.prems(1) this(1) b(2) assms(4), of now i] obtain chans1 w1 where
      1: "take_through now k i (chans, w) = Some (Some (ws ! l), chans1, w1)" "channel_inv k Size ws (Suc l) (chans1, w1)"
      "w_threads w1 = w_threads w" "w_routines w1 = w_routines w" by blast
    moreover have "ring_bound Size (length ws + length ops)" by (rule ring_bound_mono [OF Cons.prems(3)]) simp
    moreover have "drop l ws = ws ! l # drop (Suc l) ws" using \<open>l < length ws\<close> by (simp add: Cons_nth_drop_Suc)
    ultimately show ?thesis using Cons.IH [OF 1(2)] Get by (auto split: prod.splits)
  qed
qed simp

text \<open>
  C4: the copies of a channel are one first-in first-out queue. From a new channel, any sequence of writes and reads through
  any of its copies, in any thread and with any cached thread id, that never finds the channel full or empty
  returns at once from every call without a suspended routine or a command to a thread, and every read
  returns the oldest value not yet read, whichever copy wrote it. The channel, its two semaphores and their queues
  of waiters are those of the runtime.
\<close>

theorem channel_copies_fifo:
  assumes "channel_make d Size chans w = (ch, chans', w')" and "Size \<le> 2 ^ 30" and "ring_bound Size (length ops)"
    and "channel_room Size ops 0"
  shows "\<exists>chans'' w''. run_queue (put_through now (chn_impl ch)) (take_through now (chn_impl ch)) ops (chans', w') =
      Some (fst (spec_run ops []), chans'', w'') \<and> w_threads w'' = w_threads w \<and> w_routines w'' = w_routines w"
proof -
  have "w_threads w' = w_threads w" "w_routines w' = w_routines w"
    using assms(1) by (auto simp: channel_make_def channel_new_def Let_def)
  with channel_run [OF channel_inv_make [OF assms(1)], of ops now] assms(2-4) show ?thesis by simp
qed

theorem channel_copies_fifo_witness:
  "\<exists>chans w. run_queue (put_through 0 0) (take_through 0 0) [Put (1, 0) CHR ''a'', Put (2, 7) CHR ''b'', Get (2, 0), Put (1, 1) CHR ''c'', Get (1, 0), Get (3, 2)]
     (fst (snd (channel_make CHR ''x'' 2 [] world_empty)), snd (snd (channel_make CHR ''x'' 2 [] world_empty))) =
     Some ([Some CHR ''a'', Some CHR ''b'', Some CHR ''c''], chans, w)"
proof -
  obtain chans w where m: "channel_make CHR ''x'' 2 [] world_empty = (\<lparr>chn_impl = 0, chn_thread_id = 0\<rparr>, chans, w)"
    by (simp add: channel_make_def channel_new_def Let_def)
  from channel_copies_fifo [OF this, of "[Put (1, 0) CHR ''a'', Put (2, 7) CHR ''b'', Get (2, 0), Put (1, 1) CHR ''c'', Get (1, 0), Get (3, 2)]" 0]
  show ?thesis by (auto simp: m ring_bound_def)
qed

text \<open>
  A program starts with its function in thread 0; the \<open>i\<close>-th routine that is started before the engine
  turns goes to thread \<open>i\<close> modulo the number of threads.
\<close>

lemma engine_create_threads_wf:
  "engine_create_threads ps e w = (e', w') \<Longrightarrow>
     length (e_views e') = length (e_views e) + length ps \<and> length (w_threads w') = length (w_threads w) + length ps \<and>
     e_max_nb_cores e' = e_max_nb_cores e \<and> e_next_scheduled e' = e_next_scheduled e \<and>
     w_routines w' = w_routines w \<and> w_engine_queue w' = w_engine_queue w"
  by (induction ps arbitrary: e w) (auto simp: engine_register_thread_id_def)

lemma program_start:
  assumes "ps \<noteq> []" and "engine_with_function ps = (e, w)"
  shows "\<exists>e' w'. engine_execute_commands 2 e w = Some (e', w') \<and>
    (\<forall>t < length ps. thread_queue t w' = thread_queue t w @ (if t = 0 then [add_routine 0] else []))"
proof -
  obtain e0 w0 where new: "engine_new ps = (e0, w0)" by fastforce
  with engine_create_threads_wf [of ps _ world_empty e0 w0]
  have 0: "length (e_views e0) = length ps" "length (w_threads w0) = length ps" "e_max_nb_cores e0 = length ps" "e_next_scheduled e0 = 0"
    "w_routines w0 = []" "w_engine_queue w0 = []" by (simp_all add: engine_new_def world_empty_def)
  have ew: "e_max_nb_cores e = length ps" "e_next_scheduled e = 0" "engine_wf e w"
    "w_engine_queue w = map (ec_add_routine (length ps) (length ps)) [0]"
    using assms new 0
    by (auto simp: engine_with_function_def engine_start_in_def new_routine_def get_new_routine_id_def engine_push_command_def engine_wf_def)
  from round_robin [OF ew(3), of "length ps" "[0]" 2] ew show ?thesis by auto
qed

end
