(* ===== verification/Context_Switch.thy ===== *)
theory Context_Switch
  imports Prelude "HOL-Library.Word"
begin

text \<open>
  The context switch of boson on x86-64 (\<^verbatim>\<open>3rdparty/boost_context/asm\<close>, declared in
  \<^verbatim>\<open>boson/internal/fcontext.h\<close>): \<^verbatim>\<open>make_fcontext\<close> and \<^verbatim>\<open>jump_fcontext\<close>, instruction by
  instruction, on the registers they use and a memory of 64-bit words. A context is the address of a frame of
  seven words: the callee-saved registers and the address to continue at. The functions are entered as by a
  call, with the return address on top of the stack.
\<close>

unbundle bit_operations_syntax

section \<open>The machine\<close>

record cpu =
  rsp :: size_t
  rbp :: size_t
  rbx :: size_t
  r12 :: size_t
  r13 :: size_t
  r14 :: size_t
  r15 :: size_t
  rdi :: size_t
  rsi :: size_t
  rdx :: size_t
  rcx :: size_t
  rax :: size_t
  r8 :: size_t
  rip :: size_t
  mem :: "size_t \<Rightarrow> size_t"

definition pushq :: "(cpu \<Rightarrow> size_t) \<Rightarrow> cpu \<Rightarrow> cpu" where
  "pushq reg c = c\<lparr>rsp := rsp c - 8, mem := (mem c)(rsp c - 8 := reg c)\<rparr>"

definition popq :: "((size_t \<Rightarrow> size_t) \<Rightarrow> cpu \<Rightarrow> cpu) \<Rightarrow> cpu \<Rightarrow> cpu" where
  "popq reg_update c = (reg_update (\<lambda>_. mem c (rsp c)) c)\<lparr>rsp := rsp c + 8\<rparr>"

definition jump_fcontext :: "cpu \<Rightarrow> cpu" where
  "jump_fcontext c =
     (let c = pushq rbp c; c = pushq rbx c; c = pushq r15 c; c = pushq r14 c; c = pushq r13 c; c = pushq r12 c;
          c = c\<lparr>rax := rsp c\<rparr>; c = c\<lparr>rsp := rdi c\<rparr>;
          c = popq r12_update c; c = popq r13_update c; c = popq r14_update c; c = popq r15_update c;
          c = popq rbx_update c; c = popq rbp_update c; c = popq r8_update c;
          c = c\<lparr>rdx := rsi c\<rparr>; c = c\<lparr>rdi := rax c\<rparr>
      in c\<lparr>rip := r8 c\<rparr>)"

text \<open>\<open>finish\<close> is the address of the label that ends the program when the function of a context returns.\<close>

definition make_fcontext :: "size_t \<Rightarrow> cpu \<Rightarrow> cpu" where
  "make_fcontext finish c =
     (let c = c\<lparr>rax := rdi c\<rparr>; c = c\<lparr>rax := rax c AND - 16\<rparr>; c = c\<lparr>rax := rax c - 0x40\<rparr>;
          c = c\<lparr>mem := (mem c)(rax c + 0x30 := rdx c)\<rparr>;
          c = c\<lparr>rcx := finish\<rparr>;
          c = c\<lparr>mem := (mem c)(rax c + 0x38 := rcx c)\<rparr>
      in popq rip_update c)"

section \<open>Frames\<close>

text \<open>The words of the frame at an address, from the first popped to the address to continue at.\<close>

definition frame_addrs :: "size_t \<Rightarrow> size_t list" where
  "frame_addrs a = [a, a + 8, a + 16, a + 24, a + 32, a + 40, a + 48]"

definition frame :: "(size_t \<Rightarrow> size_t) \<Rightarrow> size_t \<Rightarrow> size_t list" where
  "frame m a = map m (frame_addrs a)"

text \<open>
  What the caller of a function finds when it returns: the callee-saved registers, where it continues, and
  its stack pointer.
\<close>

definition at_return :: "cpu \<Rightarrow> size_t list" where
  "at_return c = [r12 c, r13 c, r14 c, r15 c, rbx c, rbp c, mem c (rsp c), rsp c + 8]"

definition resumed :: "cpu \<Rightarrow> size_t list" where
  "resumed c = [r12 c, r13 c, r14 c, r15 c, rbx c, rbp c, rip c, rsp c]"

text \<open>The memory after the six registers were pushed below \<open>a + 48\<close>.\<close>

definition pushed :: "cpu \<Rightarrow> size_t \<Rightarrow> size_t \<Rightarrow> size_t" where
  "pushed c a = (mem c)(a + 40 := rbp c, a + 32 := rbx c, a + 24 := r15 c, a + 16 := r14 c, a + 8 := r13 c, a := r12 c)"

lemma pushes:
  "rsp c = a + 48 \<Longrightarrow>
     pushq r12 (pushq r13 (pushq r14 (pushq r15 (pushq rbx (pushq rbp c))))) = c\<lparr>rsp := a, mem := pushed c a\<rparr>"
  by (simp add: pushq_def pushed_def add.commute del: fun_upd_apply)

lemma pops:
  "popq r8_update (popq rbp_update (popq rbx_update (popq r15_update (popq r14_update (popq r13_update (popq r12_update c)))))) =
     c\<lparr>r12 := mem c (rsp c), r13 := mem c (rsp c + 8), r14 := mem c (rsp c + 16), r15 := mem c (rsp c + 24), rbx := mem c (rsp c + 32),
       rbp := mem c (rsp c + 40), r8 := mem c (rsp c + 48), rsp := rsp c + 56\<rparr>"
  by (simp add: popq_def add.assoc)

lemma jump_fcontext_eq:
  assumes "a = rsp c - 48" and "d = rdi c" and "m = pushed c a"
  shows "jump_fcontext c =
    c\<lparr>mem := m, rax := a, r12 := m d, r13 := m (d + 8), r14 := m (d + 16), r15 := m (d + 24), rbx := m (d + 32), rbp := m (d + 40),
      r8 := m (d + 48), rsp := d + 56, rdx := rsi c, rdi := a, rip := m (d + 48)\<rparr>"
proof -
  have "rsp c = a + 48" using assms(1) by simp
  from pushes [OF this] show ?thesis unfolding jump_fcontext_def Let_def by (simp add: pops assms(2,3))
qed

lemma pushed_same: "x \<notin> set (frame_addrs a) \<Longrightarrow> pushed c a x = mem c x"
  by (simp add: pushed_def frame_addrs_def)

lemma pushed_frame: "frame (pushed c a) a = [r12 c, r13 c, r14 c, r15 c, rbx c, rbp c, mem c (a + 48)]"
  by (simp add: pushed_def frame_def frame_addrs_def)

lemma jump_frame:
  assumes "set (frame_addrs (rdi c)) \<inter> set (frame_addrs (rsp c - 48)) = {}"
  shows "resumed (jump_fcontext c) = frame (mem c) (rdi c) @ [rdi c + 56]"
    and "frame (mem (jump_fcontext c)) (rsp c - 48) @ [rsp c + 8] = at_return c"
    and "rax (jump_fcontext c) = rsp c - 48" and "rdi (jump_fcontext c) = rsp c - 48"
    and "rdx (jump_fcontext c) = rsi c" and "rsi (jump_fcontext c) = rsi c"
    and "a \<notin> set (frame_addrs (rsp c - 48)) \<Longrightarrow> mem (jump_fcontext c) a = mem c a"
proof -
  note jump = jump_fcontext_eq [OF refl refl refl, of c]
  have "pushed c (rsp c - 48) x = mem c x" if "x \<in> set (frame_addrs (rdi c))" for x
    using assms that by (intro pushed_same) blast
  then have "frame (pushed c (rsp c - 48)) (rdi c) = frame (mem c) (rdi c)" by (simp add: frame_def)
  then show "resumed (jump_fcontext c) = frame (mem c) (rdi c) @ [rdi c + 56]"
    by (simp add: jump resumed_def frame_def frame_addrs_def)
  show "frame (mem (jump_fcontext c)) (rsp c - 48) @ [rsp c + 8] = at_return c"
    by (simp add: jump pushed_frame at_return_def)
  show "rax (jump_fcontext c) = rsp c - 48" "rdi (jump_fcontext c) = rsp c - 48"
    "rdx (jump_fcontext c) = rsi c" "rsi (jump_fcontext c) = rsi c" by (simp_all add: jump)
  show "mem (jump_fcontext c) a = mem c a" if "a \<notin> set (frame_addrs (rsp c - 48))"
    using pushed_same [OF that] by (simp add: jump)
qed

section \<open>New contexts\<close>

lemma align_down:
  assumes "2 ^ 4 dvd unat (w :: size_t)"
  shows "w AND - 16 = w"
proof -
  have "take_bit 4 w = 0"
  proof (rule word_unat_eq_iff [THEN iffD2])
    show "unat (take_bit 4 w) = unat (0 :: size_t)" using assms by (simp add: unsigned_take_bit_eq take_bit_eq_0_iff)
  qed
  then have low: "\<not> bit w n" if "n < 4" for n using that by (metis bit_0_eq bit_take_bit_iff bot_apply bot_bool_def)
  have eq: "(- 16 :: size_t) = NOT (mask 4)" by (simp add: mask_eq_exp_minus_1 not_eq_complement)
  show ?thesis
  proof (rule bit_eqI)
    fix n assume "possible_bit TYPE(size_t) n"
    then have n: "n < 64" by simp
    have "bit (w AND - 16) n \<longleftrightarrow> bit w n \<and> \<not> n < 4"
      unfolding eq by (simp only: bit_and_iff bit_not_iff bit_mask_iff) (use n in auto)
    with low show "bit (w AND - 16) n \<longleftrightarrow> bit w n" by blast
  qed
qed

text \<open>
  A context made on an aligned stack: the frame lies in the 64 bytes below its top, and the jump to it enters the
  function aligned as after a call, with the address of \<open>finish\<close> to return to.
\<close>

lemma make_frame:
  assumes "2 ^ 4 dvd unat (rdi c)"
  shows "rax (make_fcontext finish c) = rdi c - 64"
    and "frame (mem (make_fcontext finish c)) (rdi c - 64) ! 6 = rdx c"
    and "mem (make_fcontext finish c) (rdi c - 64 + 56) = finish"
    and "a \<notin> {rdi c - 16, rdi c - 8} \<Longrightarrow> mem (make_fcontext finish c) a = mem c a"
    and "rsp (make_fcontext finish c) = rsp c + 8"
    and "rip (make_fcontext finish c) = ((mem c)(rdi c - 16 := rdx c, rdi c - 8 := finish)) (rsp c)"
  by (simp_all add: make_fcontext_def Let_def popq_def align_down [OF assms] frame_def frame_addrs_def)

end
