(* ===== verification/Contexts.thy ===== *)
theory Contexts
  imports Context_Switch Runtime
begin

text \<open>
  The contexts and the stacks of the routines of one thread (\<^verbatim>\<open>boson/internal/stack.h\<close>, \<^verbatim>\<open>src/internal/stack.cc\<close>,
  \<^verbatim>\<open>src/internal/routine.cc\<close>, \<^verbatim>\<open>yield\<close> of \<^verbatim>\<open>src/syscalls.cc\<close>): creation, first and later resumption, suspension, end and
  destruction of routines, over the context switch of \<^verbatim>\<open>Context_Switch\<close>. Between two switches the running
  code is arbitrary, except that it leaves the stacks of the suspended contexts alone.
\<close>

section \<open>Stacks\<close>

record stack_context =
  sc_size :: size_t
  sc_sp :: size_t

record stack_traits =
  st_stack_size :: size_t
  st_page_size :: size_t
  st_locked_size :: size_t
  st_is_protected :: bool

definition default_stack_traits :: stack_traits where
  "default_stack_traits =
     \<lparr>st_stack_size = 64 * 1024, st_page_size = 4 * 1024, st_locked_size = 8 * 1024, st_is_protected = False\<rparr>"

datatype alloc_error = Bad_alloc

text \<open>
  The results of \<^verbatim>\<open>mmap\<close> (\<open>None\<close> for \<^verbatim>\<open>MAP_FAILED\<close>) and of \<^verbatim>\<open>mprotect\<close> are arguments. The latter is
  asserted where the traits ask for a guard page.
\<close>

definition allocate :: "stack_traits \<Rightarrow> size_t option \<Rightarrow> int \<Rightarrow> (alloc_error + stack_context) option" where
  "allocate traits vp mprotect_result =
     (case vp of
        None \<Rightarrow> Some (Inl Bad_alloc)
      | Some vp \<Rightarrow>
          if st_is_protected traits \<and> mprotect_result \<noteq> 0 then None
          else Some (Inr \<lparr>sc_size = st_stack_size traits, sc_sp = vp + st_stack_size traits\<rparr>))"

text \<open>The arguments of \<^verbatim>\<open>munmap\<close>.\<close>

definition deallocate :: "stack_context \<Rightarrow> size_t \<times> size_t" where
  "deallocate sctx = (sc_sp sctx - sc_size sctx, sc_size sctx)"

definition get_stack_offset :: "stack_context \<Rightarrow> size_t \<Rightarrow> size_t" where
  "get_stack_offset sctx pointer = sc_sp sctx - pointer"

text \<open>The words of a stack.\<close>

definition region :: "stack_context \<Rightarrow> size_t set" where
  "region sc = {a. unat (sc_sp sc) - unat (sc_size sc) \<le> unat a \<and> unat a < unat (sc_sp sc)}"

definition stack_ok :: "stack_context \<Rightarrow> bool" where
  "stack_ok sc \<longleftrightarrow> 64 \<le> unat (sc_size sc) \<and> unat (sc_size sc) \<le> unat (sc_sp sc) \<and> 2 ^ 4 dvd unat (sc_sp sc)"

text \<open>The stack pointer of a call of a switch, with room for the frame below it; it is a multiple of 8.\<close>

definition room :: "stack_context \<Rightarrow> cpu \<Rightarrow> bool" where
  "room sc c \<longleftrightarrow> unat (sc_sp sc) - unat (sc_size sc) + 48 \<le> unat (rsp c) \<and> unat (rsp c) + 8 \<le> unat (sc_sp sc) \<and> 8 dvd unat (rsp c)"

section \<open>Routines and their contexts\<close>

record routine_ctx =
  rx_stack :: stack_context
  rx_status :: routine_status
  rx_fctx :: size_t

text \<open>
  \<open>sw_at\<close> is the routine whose code runs, \<open>None\<close> the loop of the thread; \<open>sw_thread_fctx\<close> is the context
  kept in the thread. \<open>sw_maps\<close> are the mappings made for stacks. \<open>sw_saved\<close> is history: what each context
  found in its registers, and where it was going to continue, when it was left.
\<close>

record switch_state =
  sw_cpu :: cpu
  sw_at :: "nat option"
  sw_thread_stack :: stack_context
  sw_thread_fctx :: size_t
  sw_routines :: "nat \<rightharpoonup> routine_ctx"
  sw_maps :: "(size_t \<times> size_t) list"
  sw_saved :: "nat option \<Rightarrow> size_t list"

definition sw_init :: "stack_context \<Rightarrow> cpu \<Rightarrow> switch_state" where
  "sw_init sc c = \<lparr>sw_cpu = c, sw_at = None, sw_thread_stack = sc, sw_thread_fctx = 0, sw_routines = Map.empty, sw_maps = [],
     sw_saved = (\<lambda>_. [])\<rparr>"

definition create_routine :: "nat \<Rightarrow> size_t option \<Rightarrow> size_t \<Rightarrow> switch_state \<Rightarrow> (alloc_error + switch_state) option" where
  "create_routine r vp fctx s =
     (case allocate default_stack_traits vp 0 of
        None \<Rightarrow> None
      | Some (Inl e) \<Rightarrow> Some (Inl e)
      | Some (Inr sc) \<Rightarrow>
          Some (Inr (s\<lparr>sw_routines := (sw_routines s)(r \<mapsto> \<lparr>rx_stack = sc, rx_status = is_new, rx_fctx = fctx\<rparr>),
                       sw_maps := deallocate sc # sw_maps s\<rparr>)))"

definition destroy_routine :: "nat \<Rightarrow> switch_state \<Rightarrow> switch_state option" where
  "destroy_routine r s =
     (case sw_routines s r of
        None \<Rightarrow> None
      | Some rx \<Rightarrow> Some (s\<lparr>sw_routines := (sw_routines s)(r := None), sw_maps := remove1 (deallocate (rx_stack rx)) (sw_maps s)\<rparr>))"

definition call :: "size_t \<Rightarrow> cpu \<Rightarrow> cpu" where
  "call ra = pushq (\<lambda>_. ra)"

text \<open>
  A switch from the running context to the context \<open>fctx\<close>: the call of \<^verbatim>\<open>jump_fcontext(fctx, nullptr)\<close>, entered with the
  registers of \<open>c\<close>. The history records what the caller has to find again.
\<close>

definition switch_to :: "nat option \<Rightarrow> size_t \<Rightarrow> cpu \<Rightarrow> switch_state \<Rightarrow> switch_state" where
  "switch_to p fctx c s =
     s\<lparr>sw_cpu := jump_fcontext (c\<lparr>rdi := fctx, rsi := 0\<rparr>), sw_at := p, sw_saved := (sw_saved s)(sw_at s := at_return c)\<rparr>"

definition set_routine :: "nat \<Rightarrow> routine_ctx \<Rightarrow> switch_state \<Rightarrow> switch_state" where
  "set_routine r rx s = s\<lparr>sw_routines := (sw_routines s)(r \<mapsto> rx)\<rparr>"

text \<open>
  \<^verbatim>\<open>resume\<close>: a new routine gets a context that enters \<^verbatim>\<open>resume_routine\<close> at \<open>entry\<close>, which keeps its argument
  as the context of the thread; a yielding one continues behind its own switch, which keeps the result. \<open>ra\<close> is where
  the call of \<^verbatim>\<open>jump_fcontext\<close> in \<^verbatim>\<open>resume\<close> returns to.
\<close>

definition resume :: "size_t \<Rightarrow> size_t \<Rightarrow> size_t \<Rightarrow> nat \<Rightarrow> switch_state \<Rightarrow> switch_state option" where
  "resume finish entry ra r s =
     (case sw_routines s r of
        None \<Rightarrow> None
      | Some rx \<Rightarrow>
          (case rx_status rx of
             is_new \<Rightarrow>
               let c = make_fcontext finish ((sw_cpu s)\<lparr>rdi := sc_sp (rx_stack rx), rsi := sc_size (rx_stack rx), rdx := entry\<rparr>);
                   s = switch_to (Some r) (rax c) (call ra c) s
               in Some (set_routine r (rx\<lparr>rx_status := running\<rparr>) (s\<lparr>sw_thread_fctx := rdi (sw_cpu s)\<rparr>))
           | yielding \<Rightarrow>
               let s = switch_to (Some r) (rx_fctx rx) (sw_cpu s) s in Some (s\<lparr>sw_thread_fctx := rax (sw_cpu s)\<rparr>)
           | _ \<Rightarrow> None))"

text \<open>
  The running routine gives control back with a new status: \<^verbatim>\<open>yield\<close>, \<^verbatim>\<open>commit_event_round\<close>, or the end of
  \<^verbatim>\<open>resume_routine\<close>. The \<^verbatim>\<open>resume\<close> of the thread keeps the result of its switch as the context of the routine.
\<close>

definition suspend :: "routine_status \<Rightarrow> nat \<Rightarrow> switch_state \<Rightarrow> switch_state option" where
  "suspend status r s =
     (case sw_routines s r of
        None \<Rightarrow> None
      | Some rx \<Rightarrow>
          let s = switch_to None (sw_thread_fctx s) (sw_cpu s) s
          in Some (set_routine r (rx\<lparr>rx_status := status, rx_fctx := rax (sw_cpu s)\<rparr>) s))"

definition place_stack :: "nat option \<Rightarrow> switch_state \<Rightarrow> stack_context option" where
  "place_stack p s = (case p of None \<Rightarrow> Some (sw_thread_stack s) | Some r \<Rightarrow> map_option rx_stack (sw_routines s r))"

text \<open>The promise of the code: it writes to no stack but its own.\<close>

definition keeps_other_stacks :: "switch_state \<Rightarrow> cpu \<Rightarrow> bool" where
  "keeps_other_stacks s c' \<longleftrightarrow>
     (\<forall>p sc a. p \<noteq> sw_at s \<longrightarrow> place_stack p s = Some sc \<longrightarrow> a \<in> region sc \<longrightarrow> mem c' a = mem (sw_cpu s) a)"

text \<open>The promise of \<^verbatim>\<open>mmap\<close>: whole pages that are not in use.\<close>

definition fresh_pages :: "size_t \<Rightarrow> size_t \<Rightarrow> switch_state \<Rightarrow> bool" where
  "fresh_pages vp len s \<longleftrightarrow>
     4096 dvd unat vp \<and> unat vp + unat len < 2 ^ 64 \<and>
     (\<forall>p sc a. place_stack p s = Some sc \<longrightarrow> a \<in> region sc \<longrightarrow> unat a < unat vp \<or> unat vp + unat len \<le> unat a)"

inductive sw_step :: "size_t \<Rightarrow> size_t \<Rightarrow> switch_state \<Rightarrow> switch_state \<Rightarrow> bool" for finish entry where
  runs: "keeps_other_stacks s c' \<Longrightarrow> sw_step finish entry s (s\<lparr>sw_cpu := c'\<rparr>)"
| creates: "sw_routines s r = None \<Longrightarrow> fresh_pages vp (st_stack_size default_stack_traits) s \<Longrightarrow>
    create_routine r (Some vp) fctx s = Some (Inr s') \<Longrightarrow> sw_step finish entry s s'"
| resumes: "sw_at s = None \<Longrightarrow> room (sw_thread_stack s) (sw_cpu s) \<Longrightarrow> resume finish entry ra r s = Some s' \<Longrightarrow> sw_step finish entry s s'"
| marks: "sw_at s = Some r \<Longrightarrow> sw_routines s r = Some rx \<Longrightarrow> sw_step finish entry s (set_routine r (rx\<lparr>rx_status := running\<rparr>) s)"
| suspends: "sw_at s = Some r \<Longrightarrow> place_stack (Some r) s = Some sc \<Longrightarrow> room sc (sw_cpu s) \<Longrightarrow> status \<in> {yielding, wait_events, finished} \<Longrightarrow>
    suspend status r s = Some s' \<Longrightarrow> sw_step finish entry s s'"
| event: "sw_at s \<noteq> Some r \<Longrightarrow> sw_routines s r = Some rx \<Longrightarrow> rx_status rx \<in> {wait_events, sema_event_candidate} \<Longrightarrow>
    status \<in> {yielding, wait_events, sema_event_candidate} \<Longrightarrow> sw_step finish entry s (set_routine r (rx\<lparr>rx_status := status\<rparr>) s)"
| deletes: "sw_at s \<noteq> Some r \<Longrightarrow> destroy_routine r s = Some s' \<Longrightarrow> sw_step finish entry s s'"

abbreviation sw_reach :: "size_t \<Rightarrow> size_t \<Rightarrow> stack_context \<Rightarrow> cpu \<Rightarrow> switch_state \<Rightarrow> bool" where
  "sw_reach finish entry sc c s \<equiv> (sw_step finish entry)\<^sup>*\<^sup>* (sw_init sc c) s"

section \<open>Frames in stacks\<close>

lemma unat_bound: "unat (w :: size_t) < 2 ^ 64"
  using unsigned_less [of w, where 'a = nat] by simp

lemma frame_addrs_unat:
  assumes "unat a + 48 < 2 ^ 64" and "x \<in> set (frame_addrs a)"
  shows "unat a \<le> unat x \<and> unat x \<le> unat a + 48"
proof -
  have "unat (a + of_nat k) = unat a + k" if "k \<le> 48" for k :: nat
  proof -
    have "unat (of_nat k :: size_t) = k" using that by (simp add: unsigned_of_nat take_bit_nat_eq_self)
    then show ?thesis using that assms(1) unat_add_lem [of a "of_nat k"] by simp
  qed
  from this [of 0] this [of 8] this [of 16] this [of 24] this [of 32] this [of 40] this [of 48] assms(2)
  show ?thesis by (auto simp: frame_addrs_def)
qed

lemma room_frame:
  assumes "stack_ok sc" and "room sc c"
  shows "set (frame_addrs (rsp c - 48)) \<subseteq> region sc"
proof
  fix x assume x: "x \<in> set (frame_addrs (rsp c - 48))"
  have "(48 :: size_t) \<le> rsp c" using assms(2) by (simp add: room_def word_le_nat_alt)
  then have u: "unat (rsp c - 48) = unat (rsp c) - 48" by (simp add: unat_sub)
  have "unat (rsp c - 48) + 48 < 2 ^ 64" using u assms(2) unat_bound [of "rsp c"] by (simp add: room_def)
  from frame_addrs_unat [OF this x] u assms(2) show "x \<in> region sc" by (auto simp: region_def room_def)
qed

lemma new_frame:
  assumes "stack_ok sc"
  shows "set (frame_addrs (sc_sp sc - 64)) \<subseteq> region sc" and "sc_sp sc - 16 \<in> region sc" and "sc_sp sc - 8 \<in> region sc"
proof -
  have sp: "unat (sc_sp sc - k) = unat (sc_sp sc) - unat k" if "unat k \<le> 64" for k :: size_t
    using that assms by (intro unat_sub) (simp add: stack_ok_def word_le_nat_alt)
  show "sc_sp sc - 16 \<in> region sc" "sc_sp sc - 8 \<in> region sc" using sp [of 16] sp [of 8] assms by (auto simp: region_def stack_ok_def)
  show "set (frame_addrs (sc_sp sc - 64)) \<subseteq> region sc"
  proof
    fix x assume x: "x \<in> set (frame_addrs (sc_sp sc - 64))"
    have "unat (sc_sp sc - 64) + 48 < 2 ^ 64" using sp [of 64] unat_bound [of "sc_sp sc"] assms by (simp add: stack_ok_def)
    from frame_addrs_unat [OF this x] sp [of 64] assms show "x \<in> region sc" by (auto simp: region_def stack_ok_def)
  qed
qed

section \<open>The invariant\<close>

text \<open>A context that waits: its frame is in its stack and holds what its last switch saved.\<close>

definition suspended :: "switch_state \<Rightarrow> nat option \<Rightarrow> stack_context \<Rightarrow> size_t \<Rightarrow> bool" where
  "suspended s p sc fctx \<longleftrightarrow>
     set (frame_addrs fctx) \<subseteq> region sc \<and> frame (mem (sw_cpu s)) fctx @ [fctx + 56] = sw_saved s p"

definition stacks_inv :: "switch_state \<Rightarrow> bool" where
  "stacks_inv s \<longleftrightarrow>
     (\<forall>p sc. place_stack p s = Some sc \<longrightarrow> stack_ok sc) \<and>
     (\<forall>p q sc sd. place_stack p s = Some sc \<longrightarrow> place_stack q s = Some sd \<longrightarrow> p \<noteq> q \<longrightarrow> region sc \<inter> region sd = {})"

definition contexts_inv :: "switch_state \<Rightarrow> bool" where
  "contexts_inv s \<longleftrightarrow>
     (\<forall>r rx. sw_routines s r = Some rx \<longrightarrow> sw_at s \<noteq> Some r \<longrightarrow> rx_status rx \<noteq> is_new \<longrightarrow>
        rx_status rx \<noteq> running \<and> suspended s (Some r) (rx_stack rx) (rx_fctx rx)) \<and>
     (\<forall>r. sw_at s = Some r \<longrightarrow>
        (\<exists>rx. sw_routines s r = Some rx \<and> rx_status rx \<in> {running, yielding}) \<and> suspended s None (sw_thread_stack s) (sw_thread_fctx s))"

definition maps_inv :: "switch_state \<Rightarrow> bool" where
  "maps_inv s \<longleftrightarrow> distinct (sw_maps s) \<and> set (sw_maps s) = deallocate ` {sc. \<exists>r. place_stack (Some r) s = Some sc}"

lemma frame_cong: "(\<And>a. a \<in> set (frame_addrs fctx) \<Longrightarrow> m a = m' a) \<Longrightarrow> frame m fctx = frame m' fctx"
  by (simp add: frame_def)

lemma suspended_cong:
  assumes "suspended s p sc fctx" and "\<And>a. a \<in> region sc \<Longrightarrow> mem (sw_cpu s') a = mem (sw_cpu s) a" and "sw_saved s' p = sw_saved s p"
  shows "suspended s' p sc fctx"
proof -
  have "frame (mem (sw_cpu s')) fctx = frame (mem (sw_cpu s)) fctx"
    using assms(1,2) by (intro frame_cong) (auto simp: suspended_def)
  with assms show ?thesis by (simp add: suspended_def)
qed

text \<open>A switch: the target finds what it left, and the source is suspended.\<close>

lemma switch_to_ok:
  assumes ok: "stack_ok sc" and room: "room sc c" and target: "set (frame_addrs fctx) \<subseteq> region sd" and dis: "region sc \<inter> region sd = {}"
    and s': "s' = switch_to p fctx c s"
  shows "resumed (sw_cpu s') = frame (mem c) fctx @ [fctx + 56]"
    and "suspended s' (sw_at s) sc (rax (sw_cpu s'))" and "rdi (sw_cpu s') = rax (sw_cpu s')" and "rdx (sw_cpu s') = 0" and "rsi (sw_cpu s') = 0"
    and "a \<notin> region sc \<Longrightarrow> mem (sw_cpu s') a = mem c a"
proof -
  let ?c = "c\<lparr>rdi := fctx, rsi := 0\<rparr>"
  have own: "set (frame_addrs (rsp c - 48)) \<subseteq> region sc" by (rule room_frame [OF ok room])
  with target dis have "set (frame_addrs (rdi ?c)) \<inter> set (frame_addrs (rsp ?c - 48)) = {}" by auto
  note J = jump_frame [OF this]
  show "resumed (sw_cpu s') = frame (mem c) fctx @ [fctx + 56]" using J(1) by (simp add: s' switch_to_def)
  show "suspended s' (sw_at s) sc (rax (sw_cpu s'))"
    using J(2,3) own by (simp add: s' switch_to_def suspended_def at_return_def)
  show "rdi (sw_cpu s') = rax (sw_cpu s')" "rdx (sw_cpu s') = 0" "rsi (sw_cpu s') = 0" using J(3-6) by (simp_all add: s' switch_to_def)
  show "mem (sw_cpu s') a = mem c a" if "a \<notin> region sc" using J(7) [of a] own that by (auto simp: s' switch_to_def)
qed

lemma place_simps [simp]:
  "place_stack None s = Some (sw_thread_stack s)"
  "place_stack (Some r) s = map_option rx_stack (sw_routines s r)"
  by (simp_all add: place_stack_def)

lemma switch_simps [simp]:
  "sw_at (switch_to p f c s) = p" "sw_routines (switch_to p f c s) = sw_routines s" "sw_thread_stack (switch_to p f c s) = sw_thread_stack s"
  "sw_maps (switch_to p f c s) = sw_maps s" "q \<noteq> sw_at s \<Longrightarrow> sw_saved (switch_to p f c s) q = sw_saved s q"
  "sw_thread_fctx (switch_to p f c s) = sw_thread_fctx s"
  "sw_at (set_routine r rx s) = sw_at s" "sw_routines (set_routine r rx s) = (sw_routines s)(r \<mapsto> rx)" "sw_cpu (set_routine r rx s) = sw_cpu s"
  "sw_thread_stack (set_routine r rx s) = sw_thread_stack s" "sw_maps (set_routine r rx s) = sw_maps s" "sw_saved (set_routine r rx s) = sw_saved s"
  "sw_thread_fctx (set_routine r rx s) = sw_thread_fctx s"
  by (simp_all add: switch_to_def set_routine_def)

lemma stacks_invD:
  assumes "stacks_inv s"
  shows "place_stack p s = Some sc \<Longrightarrow> stack_ok sc"
    and "place_stack p s = Some sc \<Longrightarrow> place_stack q s = Some sd \<Longrightarrow> p \<noteq> q \<Longrightarrow> region sc \<inter> region sd = {}"
  using assms unfolding stacks_inv_def by blast+

lemma stacks_inv_cong:
  assumes "stacks_inv s" and "\<And>p. place_stack p s' = place_stack p s"
  shows "stacks_inv s'"
  using assms by (simp add: stacks_inv_def)

lemma contexts_invD:
  assumes "contexts_inv s"
  shows "sw_routines s r = Some rx \<Longrightarrow> sw_at s \<noteq> Some r \<Longrightarrow> rx_status rx \<noteq> is_new \<Longrightarrow> suspended s (Some r) (rx_stack rx) (rx_fctx rx)"
    and "sw_routines s r = Some rx \<Longrightarrow> sw_at s \<noteq> Some r \<Longrightarrow> rx_status rx \<noteq> running"
    and "sw_at s = Some r \<Longrightarrow> suspended s None (sw_thread_stack s) (sw_thread_fctx s)"
    and "sw_at s = Some r \<Longrightarrow> \<exists>rx. sw_routines s r = Some rx \<and> rx_status rx \<in> {running, yielding}"
  using assms unfolding contexts_inv_def by (metis routine_status.distinct(1))+

text \<open>The other suspended contexts do not notice a change of memory outside of their stacks.\<close>

lemma others_suspended:
  assumes "contexts_inv s" and "sw_routines s r = Some rx" and "sw_at s \<noteq> Some r" and "rx_status rx \<noteq> is_new"
    and "\<And>a. a \<in> region (rx_stack rx) \<Longrightarrow> mem (sw_cpu s') a = mem (sw_cpu s) a" and "sw_saved s' (Some r) = sw_saved s (Some r)"
  shows "suspended s' (Some r) (rx_stack rx) (rx_fctx rx)"
  by (rule suspended_cong [OF contexts_invD(1) [OF assms(1-4)] assms(5,6)])

definition sw_inv :: "switch_state \<Rightarrow> bool" where
  "sw_inv s \<longleftrightarrow> stacks_inv s \<and> contexts_inv s \<and> maps_inv s"

lemma runs_inv:
  assumes "sw_inv s" and "keeps_other_stacks s c'"
  shows "sw_inv (s\<lparr>sw_cpu := c'\<rparr>)" (is "sw_inv ?s")
proof -
  have C: "contexts_inv s" using assms(1) by (simp add: sw_inv_def)
  have keep: "mem (sw_cpu ?s) a = mem (sw_cpu s) a" if "p \<noteq> sw_at s" "place_stack p s = Some sc" "a \<in> region sc" for p sc a
    using assms(2) that by (simp add: keeps_other_stacks_def)
  have "contexts_inv ?s" unfolding contexts_inv_def
  proof (intro conjI allI impI)
    fix r rx assume a: "sw_routines ?s r = Some rx" "sw_at ?s \<noteq> Some r" "rx_status rx \<noteq> is_new"
    then show "rx_status rx \<noteq> running" using contexts_invD(2) [OF C] by simp
    from a show "suspended ?s (Some r) (rx_stack rx) (rx_fctx rx)"
      by (intro others_suspended [OF C]) (use keep [of "Some r"] in auto)
  next
    fix r assume at: "sw_at ?s = Some r"
    then show "\<exists>rx. sw_routines ?s r = Some rx \<and> rx_status rx \<in> {running, yielding}" using contexts_invD(4) [OF C] by simp
    from at have "suspended s None (sw_thread_stack s) (sw_thread_fctx s)" using contexts_invD(3) [OF C] by simp
    then show "suspended ?s None (sw_thread_stack ?s) (sw_thread_fctx ?s)" using keep [of None] at by (auto elim: suspended_cong)
  qed
  moreover have "stacks_inv ?s" using assms(1) by (auto simp: sw_inv_def place_stack_def elim!: stacks_inv_cong split: option.split)
  moreover have "maps_inv ?s" using assms(1) by (simp add: sw_inv_def maps_inv_def)
  ultimately show ?thesis by (simp add: sw_inv_def)
qed

lemma suspended_simps [simp]:
  "suspended (set_routine r rx s) p sc f = suspended s p sc f" "suspended (s\<lparr>sw_thread_fctx := x\<rparr>) p sc f = suspended s p sc f"
  "suspended (s\<lparr>sw_routines := rs, sw_maps := ms\<rparr>) p sc f = suspended s p sc f"
  by (simp_all add: suspended_def set_routine_def)

text \<open>A routine that keeps its stack keeps the stacks and the mappings.\<close>

lemma stacks_cong:
  assumes "\<And>p. place_stack p s' = place_stack p s" and "sw_maps s' = sw_maps s"
  shows "stacks_inv s' = stacks_inv s" and "maps_inv s' = maps_inv s"
  by (simp_all only: stacks_inv_def maps_inv_def assms)

lemma set_routine_stacks:
  assumes "sw_routines s r = Some rx" and "rx_stack rx' = rx_stack rx"
  shows "stacks_inv (set_routine r rx' s) = stacks_inv s" and "maps_inv (set_routine r rx' s) = maps_inv s"
proof -
  have "place_stack p (set_routine r rx' s) = place_stack p s" for p using assms by (cases p) auto
  then show "stacks_inv (set_routine r rx' s) = stacks_inv s" "maps_inv (set_routine r rx' s) = maps_inv s"
    using stacks_cong [of "set_routine r rx' s" s] by simp_all
qed

lemma stacks_same:
  "stacks_inv (switch_to p f c s) = stacks_inv s" "maps_inv (switch_to p f c s) = maps_inv s"
  "stacks_inv (s\<lparr>sw_thread_fctx := x\<rparr>) = stacks_inv s" "maps_inv (s\<lparr>sw_thread_fctx := x\<rparr>) = maps_inv s"
  "stacks_inv (s\<lparr>sw_cpu := y\<rparr>) = stacks_inv s" "maps_inv (s\<lparr>sw_cpu := y\<rparr>) = maps_inv s"
  by (rule stacks_cong; simp add: place_stack_def split: option.split)+

lemma status_inv:
  assumes inv: "sw_inv s" and rx: "sw_routines s r = Some rx"
    and st: "if sw_at s = Some r then st \<in> {running, yielding} else rx_status rx \<noteq> is_new \<and> st \<notin> {running, is_new}"
  shows "sw_inv (set_routine r (rx\<lparr>rx_status := st\<rparr>) s)" (is "sw_inv ?s")
proof -
  have C: "contexts_inv s" using inv by (simp add: sw_inv_def)
  have "contexts_inv ?s" unfolding contexts_inv_def
  proof (intro conjI allI impI)
    fix q rq assume a: "sw_routines ?s q = Some rq" "sw_at ?s \<noteq> Some q" "rx_status rq \<noteq> is_new"
    then show "rx_status rq \<noteq> running" using contexts_invD(2) [OF C] st by (auto split: if_splits)
    show "suspended ?s (Some q) (rx_stack rq) (rx_fctx rq)"
      using a contexts_invD(1) [OF C] rx st by (cases "q = r") auto
  next
    fix q assume at: "sw_at ?s = Some q"
    then show "\<exists>rq. sw_routines ?s q = Some rq \<and> rx_status rq \<in> {running, yielding}" using contexts_invD(4) [OF C] st by auto
    show "suspended ?s None (sw_thread_stack ?s) (sw_thread_fctx ?s)" using at contexts_invD(3) [OF C] by simp
  qed
  with inv show ?thesis using set_routine_stacks [OF rx, of "rx\<lparr>rx_status := st\<rparr>"] by (simp add: sw_inv_def)
qed

lemma suspend_inv:
  assumes inv: "sw_inv s" and at: "sw_at s = Some r" and rx: "sw_routines s r = Some rx" and room: "room (rx_stack rx) (sw_cpu s)"
    and st: "st \<in> {yielding, wait_events, finished}" and s': "suspend st r s = Some s'"
  shows "sw_inv s'" and "resumed (sw_cpu s') = sw_saved s None" and "rdx (sw_cpu s') = 0"
proof -
  have C: "contexts_inv s" and S: "stacks_inv s" using inv by (simp_all add: sw_inv_def)
  let ?s = "switch_to None (sw_thread_fctx s) (sw_cpu s) s"
  let ?rx = "rx\<lparr>rx_status := st, rx_fctx := rax (sw_cpu ?s)\<rparr>"
  have s'_eq: "s' = set_routine r ?rx ?s" using s' by (simp add: suspend_def rx Let_def)
  have thread: "suspended s None (sw_thread_stack s) (sw_thread_fctx s)" by (rule contexts_invD(3) [OF C at])
  have dis: "region (rx_stack rx) \<inter> region sd = {}" if "place_stack q s = Some sd" "q \<noteq> Some r" for q sd
    using stacks_invD(2) [OF S, of "Some r" "rx_stack rx" q sd] that rx by simp
  have ok: "stack_ok (rx_stack rx)" using stacks_invD(1) [OF S, of "Some r"] rx by simp
  have target: "set (frame_addrs (sw_thread_fctx s)) \<subseteq> region (sw_thread_stack s)" using thread by (simp add: suspended_def)
  note K = switch_to_ok [OF ok room target dis [of None "sw_thread_stack s"] refl, where s = s and p = None, simplified]
  show "resumed (sw_cpu s') = sw_saved s None" "rdx (sw_cpu s') = 0" using K(1,4) thread by (simp_all add: s'_eq suspended_def)
  have own: "suspended ?s (Some r) (rx_stack rx) (rax (sw_cpu ?s))" using K(2) at by simp
  have "contexts_inv s'" unfolding contexts_inv_def
  proof (intro conjI allI impI)
    fix q rq assume a: "sw_routines s' q = Some rq" "sw_at s' \<noteq> Some q" "rx_status rq \<noteq> is_new"
    then show "rx_status rq \<noteq> running" using contexts_invD(2) [OF C, of q rq] st at by (cases "q = r") (auto simp: s'_eq)
    show "suspended s' (Some q) (rx_stack rq) (rx_fctx rq)"
    proof (cases "q = r")
      case True
      with a own show ?thesis by (auto simp: s'_eq)
    next
      case False
      with a have q: "sw_routines s q = Some rq" by (simp add: s'_eq)
      have "mem (sw_cpu ?s) x = mem (sw_cpu s) x" if "x \<in> region (rx_stack rq)" for x
        using K(6) [of x] dis [of "Some q" "rx_stack rq"] q False that by auto
      then have "suspended ?s (Some q) (rx_stack rq) (rx_fctx rq)" using False at a(3) by (intro others_suspended [OF C q]) auto
      then show ?thesis by (simp add: s'_eq)
    qed
  qed (simp_all add: s'_eq)
  with inv show "sw_inv s'" using set_routine_stacks [of ?s r rx ?rx] rx by (simp add: sw_inv_def s'_eq stacks_same)
qed

text \<open>The loop of the thread enters a routine.\<close>

lemma enter_routine:
  assumes inv: "sw_inv s" and at: "sw_at s = None" and rx: "sw_routines s r = Some rx" and room: "room (sw_thread_stack s) c"
    and target: "set (frame_addrs fctx) \<subseteq> region (rx_stack rx)"
    and same: "\<And>a. a \<notin> region (sw_thread_stack s) \<Longrightarrow> a \<notin> region (rx_stack rx) \<Longrightarrow> mem c a = mem (sw_cpu s) a"
    and rx': "rx_status rx' \<in> {running, yielding}" "rx_stack rx' = rx_stack rx"
    and s1: "s1 = switch_to (Some r) fctx c s" and s': "s' = set_routine r rx' (s1\<lparr>sw_thread_fctx := rax (sw_cpu s1)\<rparr>)"
  shows "sw_inv s'" and "resumed (sw_cpu s') = frame (mem c) fctx @ [fctx + 56]" and "rsi (sw_cpu s') = 0" and "rdi (sw_cpu s1) = rax (sw_cpu s1)"
    and "a \<notin> region (sw_thread_stack s) \<Longrightarrow> mem (sw_cpu s') a = mem c a"
proof -
  have C: "contexts_inv s" and S: "stacks_inv s" using inv by (simp_all add: sw_inv_def)
  have dis: "region (sw_thread_stack s) \<inter> region (rx_stack rq) = {}" if "sw_routines s q = Some rq" for q rq
    using stacks_invD(2) [OF S, of None "sw_thread_stack s" "Some q" "rx_stack rq"] that by simp
  have ok: "stack_ok (sw_thread_stack s)" using stacks_invD(1) [OF S, of None] by simp
  note K = switch_to_ok [OF ok room target dis [OF rx] s1]
  show "resumed (sw_cpu s') = frame (mem c) fctx @ [fctx + 56]" "rsi (sw_cpu s') = 0" using K(1,5) by (simp_all add: s')
  show "rdi (sw_cpu s1) = rax (sw_cpu s1)" by (rule K(3))
  show "mem (sw_cpu s') a = mem c a" if "a \<notin> region (sw_thread_stack s)" using K(6) [OF that] by (simp add: s')
  have "contexts_inv s'" unfolding contexts_inv_def
  proof (intro conjI allI impI)
    fix q rq assume a: "sw_routines s' q = Some rq" "sw_at s' \<noteq> Some q" "rx_status rq \<noteq> is_new"
    then have q: "q \<noteq> r" "sw_routines s q = Some rq" by (auto simp: s' s1)
    then show "rx_status rq \<noteq> running" using contexts_invD(2) [OF C q(2)] at by simp
    have "mem (sw_cpu s1) x = mem (sw_cpu s) x" if "x \<in> region (rx_stack rq)" for x
    proof -
      have "x \<notin> region (rx_stack rx)" using stacks_invD(2) [OF S, of "Some q" "rx_stack rq" "Some r" "rx_stack rx"] q rx that by auto
      moreover have "x \<notin> region (sw_thread_stack s)" using dis [OF q(2)] that by blast
      ultimately show ?thesis using K(6) same by simp
    qed
    then have "suspended s1 (Some q) (rx_stack rq) (rx_fctx rq)" using a(3) at by (intro others_suspended [OF C q(2)]) (auto simp: s1)
    then show "suspended s' (Some q) (rx_stack rq) (rx_fctx rq)" by (simp add: s')
  next
    fix q assume "sw_at s' = Some q"
    then show "\<exists>rq. sw_routines s' q = Some rq \<and> rx_status rq \<in> {running, yielding}" using rx' by (simp add: s' s1)
    show "suspended s' None (sw_thread_stack s') (sw_thread_fctx s')" using K(2) at by (simp add: s' s1)
  qed
  moreover have "stacks_inv s'" "maps_inv s'"
    using inv set_routine_stacks [of "s1\<lparr>sw_thread_fctx := rax (sw_cpu s1)\<rparr>" r rx rx'] rx rx'(2) by (simp_all add: sw_inv_def s' s1 stacks_same)
  ultimately show "sw_inv s'" by (simp add: sw_inv_def)
qed

lemma set_routine_same: "sw_routines s r = Some rx \<Longrightarrow> set_routine r rx s = s"
  by (simp add: set_routine_def fun_upd_idem)

lemma resume_yielding:
  assumes inv: "sw_inv s" and at: "sw_at s = None" and room: "room (sw_thread_stack s) (sw_cpu s)"
    and rx: "sw_routines s r = Some rx" "rx_status rx = yielding" and s': "resume finish entry ra r s = Some s'"
  shows "sw_inv s'" and "resumed (sw_cpu s') = sw_saved s (Some r)"
proof -
  have sus: "suspended s (Some r) (rx_stack rx) (rx_fctx rx)"
    using contexts_invD(1) [of s r rx] inv at rx by (simp add: sw_inv_def)
  define s1 where "s1 = switch_to (Some r) (rx_fctx rx) (sw_cpu s) s"
  have "s' = s1\<lparr>sw_thread_fctx := rax (sw_cpu s1)\<rparr>" using s' rx by (simp add: resume_def s1_def Let_def)
  moreover have "sw_routines (s1\<lparr>sw_thread_fctx := rax (sw_cpu s1)\<rparr>) r = Some rx" using rx by (simp add: s1_def)
  ultimately have "s' = set_routine r rx (s1\<lparr>sw_thread_fctx := rax (sw_cpu s1)\<rparr>)" by (simp add: set_routine_same)
  note E = enter_routine [OF inv at rx(1) room _ _ _ refl s1_def this]
  show "sw_inv s'" using E(1) sus rx(2) by (simp add: suspended_def)
  show "resumed (sw_cpu s') = sw_saved s (Some r)" using E(2) sus rx(2) by (simp add: suspended_def)
qed

lemma resume_new:
  assumes inv: "sw_inv s" and at: "sw_at s = None" and room: "room (sw_thread_stack s) (sw_cpu s)"
    and rx: "sw_routines s r = Some rx" "rx_status rx = is_new" and s': "resume finish entry ra r s = Some s'"
  shows "sw_inv s'" and "rip (sw_cpu s') = entry" and "mem (sw_cpu s') (rsp (sw_cpu s')) = finish"
    and "rsp (sw_cpu s') = sc_sp (rx_stack rx) - 8" and "rdi (sw_cpu s') = sw_thread_fctx s'" and "rsi (sw_cpu s') = 0"
proof -
  let ?sc = "rx_stack rx" and ?th = "sw_thread_stack s"
  have S: "stacks_inv s" using inv by (simp add: sw_inv_def)
  have ok: "stack_ok ?sc" using stacks_invD(1) [OF S, of "Some r"] rx by simp
  have dis: "region ?th \<inter> region ?sc = {}" using stacks_invD(2) [OF S, of None ?th "Some r" ?sc] rx by simp
  define c0 where "c0 = (sw_cpu s)\<lparr>rdi := sc_sp ?sc, rsi := sc_size ?sc, rdx := entry\<rparr>"
  define c where "c = call ra (make_fcontext finish c0)"
  define s1 where "s1 = switch_to (Some r) (rax (make_fcontext finish c0)) c s"
  have "2 ^ 4 dvd unat (rdi c0)" using ok by (simp add: c0_def stack_ok_def)
  note M = make_frame [OF this, where finish = finish]
  have fctx: "rax (make_fcontext finish c0) = sc_sp ?sc - 64" using M(1) by (simp add: c0_def)
  have rsp: "rsp c = rsp (sw_cpu s)" using M(5) by (simp add: c_def call_def pushq_def c0_def)
  have "rsp (sw_cpu s) \<in> region ?th" using room by (auto simp: room_def region_def)
  then have rsp_out: "rsp c \<notin> region ?sc" "rsp c \<in> region ?th" using dis rsp by auto
  have mem_c: "mem c a = (if a = rsp c then ra else mem (make_fcontext finish c0) a)" for a
    using M(5) by (simp add: c_def call_def pushq_def c0_def)
  have s'_eq: "s' = set_routine r (rx\<lparr>rx_status := running\<rparr>) (s1\<lparr>sw_thread_fctx := rdi (sw_cpu s1)\<rparr>)"
    using s' rx by (simp add: resume_def s1_def c_def c0_def Let_def)
  have same: "mem c a = mem (sw_cpu s) a" if "a \<notin> region ?th" "a \<notin> region ?sc" for a
    using that mem_c [of a] M(4) [where a = a] new_frame(2,3) [OF ok] rsp_out by (auto simp: c0_def)
  have room': "room ?th c" using room rsp by (simp add: room_def)
  have target: "set (frame_addrs (rax (make_fcontext finish c0))) \<subseteq> region ?sc" using new_frame(1) [OF ok] fctx by simp
  define s2 where "s2 = set_routine r (rx\<lparr>rx_status := running\<rparr>) (s1\<lparr>sw_thread_fctx := rax (sw_cpu s1)\<rparr>)"
  have "rx_status (rx\<lparr>rx_status := running\<rparr>) \<in> {running, yielding}" "rx_stack (rx\<lparr>rx_status := running\<rparr>) = ?sc" by simp_all
  note E = enter_routine [OF inv at rx(1) room' target same this s1_def s2_def]
  have s2: "s' = s2" using s'_eq E(4) by (simp add: s2_def)
  have res: "resumed (sw_cpu s') = frame (mem c) (sc_sp ?sc - 64) @ [sc_sp ?sc - 8]" using E(2) fctx by (simp add: s2)
  have sp: "sc_sp ?sc - 16 \<noteq> rsp c" "sc_sp ?sc - 8 \<noteq> rsp c" "sc_sp ?sc - 8 \<notin> region ?th" using new_frame(2,3) [OF ok] rsp_out dis by auto
  show "sw_inv s'" "rsi (sw_cpu s') = 0" using E(1,3) s2 by simp_all
  show "rip (sw_cpu s') = entry" using res M(2) mem_c sp(1) by (simp add: resumed_def frame_def frame_addrs_def c0_def)
  show rsp': "rsp (sw_cpu s') = sc_sp ?sc - 8" using res by (simp add: resumed_def frame_def frame_addrs_def)
  show "mem (sw_cpu s') (rsp (sw_cpu s')) = finish" using E(5) [OF _ _ sp(3)] M(3) mem_c sp(2) unfolding rsp' by (simp add: s2 c0_def)
  show "rdi (sw_cpu s') = sw_thread_fctx s'" by (simp add: s'_eq)
qed

lemma new_stack:
  assumes "fresh_pages vp (st_stack_size default_stack_traits) s" and "sc = \<lparr>sc_size = st_stack_size default_stack_traits, sc_sp = vp + st_stack_size default_stack_traits\<rparr>"
  shows "stack_ok sc" and "place_stack p s = Some sd \<Longrightarrow> region sc \<inter> region sd = {}" and "deallocate sc = (vp, st_stack_size default_stack_traits)"
proof -
  let ?n = "st_stack_size default_stack_traits"
  have n: "unat ?n = 65536" by (simp add: default_stack_traits_def)
  have vp: "4096 dvd unat vp" "unat vp + unat ?n < 2 ^ 64" using assms(1) by (simp_all add: fresh_pages_def)
  then have sp: "unat (sc_sp sc) = unat vp + 65536" using unat_add_lem [of vp ?n] n by (simp add: assms(2))
  have "16 dvd unat vp" using vp(1) by (rule dvd_trans [rotated]) simp
  then have "16 dvd unat vp + 65536" by (rule dvd_add) simp
  then show "stack_ok sc" using n sp by (simp add: stack_ok_def assms(2))
  show "region sc \<inter> region sd = {}" if "place_stack p s = Some sd"
  proof (rule ccontr)
    assume "region sc \<inter> region sd \<noteq> {}"
    then obtain a where a: "a \<in> region sc" "a \<in> region sd" by blast
    then have "unat a < unat vp \<or> unat vp + unat ?n \<le> unat a" using assms(1) that unfolding fresh_pages_def by blast
    with a(1) n sp show False by (auto simp: region_def assms(2))
  qed
  show "deallocate sc = (vp, ?n)" by (simp add: deallocate_def assms(2))
qed

lemma place_new:
  "place_stack p (s\<lparr>sw_routines := (sw_routines s)(r := x), sw_maps := ms\<rparr>) = (if p = Some r then map_option rx_stack x else place_stack p s)"
  by (cases p) auto

text \<open>Two stacks do not overlap, so that they are two mappings.\<close>

lemma deallocate_inj:
  assumes "stack_ok sc" and "stack_ok sd" and "region sc \<inter> region sd = {}"
  shows "deallocate sc \<noteq> deallocate sd"
proof
  assume eq: "deallocate sc = deallocate sd"
  then have "sc_size sc = sc_size sd" "sc_sp sc = sc_sp sd" by (auto simp: deallocate_def)
  then have "region sc = region sd" by (simp add: region_def)
  moreover have "sc_sp sc - 8 \<in> region sc" by (rule new_frame(3) [OF assms(1)])
  ultimately show False using assms(3) by blast
qed

lemma creates_inv:
  assumes inv: "sw_inv s" and new: "sw_routines s r = None" and fresh: "fresh_pages vp (st_stack_size default_stack_traits) s"
    and s': "create_routine r (Some vp) fctx s = Some (Inr s')"
  shows "sw_inv s'"
proof -
  define sc where "sc = \<lparr>sc_size = st_stack_size default_stack_traits, sc_sp = vp + st_stack_size default_stack_traits\<rparr>"
  note N = new_stack [OF fresh sc_def]
  have C: "contexts_inv s" and S: "stacks_inv s" and M: "maps_inv s" using inv by (simp_all add: sw_inv_def)
  have s'_eq: "s' = s\<lparr>sw_routines := (sw_routines s)(r := Some \<lparr>rx_stack = sc, rx_status = is_new, rx_fctx = fctx\<rparr>),
      sw_maps := deallocate sc # sw_maps s\<rparr>"
    using s' by (simp add: create_routine_def allocate_def default_stack_traits_def sc_def)
  have place: "place_stack p s' = (if p = Some r then Some sc else place_stack p s)" for p by (simp add: s'_eq place_new)
  have "region sd \<inter> region sc = {}" if "place_stack p s = Some sd" for p sd using N(2) [OF that] by blast
  then have "stacks_inv s'" using S N(1,2) unfolding stacks_inv_def place by (auto split: if_splits)
  moreover have "contexts_inv s'" using C new unfolding contexts_inv_def by (auto simp: s'_eq split: if_splits)
  moreover have "maps_inv s'"
  proof -
    have "deallocate sc \<notin> set (sw_maps s)"
      using M deallocate_inj [OF N(1)] stacks_invD(1) [OF S] N(2) unfolding maps_inv_def by blast
    moreover have "{sd. \<exists>q. place_stack (Some q) s' = Some sd} = insert sc {sd. \<exists>q. place_stack (Some q) s = Some sd}"
    proof (rule set_eqI)
      have "place_stack (Some r) s = None" using new by simp
      then show "sd \<in> {sd. \<exists>q. place_stack (Some q) s' = Some sd} \<longleftrightarrow> sd \<in> insert sc {sd. \<exists>q. place_stack (Some q) s = Some sd}" for sd
        unfolding mem_Collect_eq insert_iff place by (metis option.distinct(1) option.inject)
    qed
    ultimately show ?thesis using M unfolding maps_inv_def by (simp add: s'_eq)
  qed
  ultimately show ?thesis by (simp add: sw_inv_def)
qed

lemma image_remove1:
  assumes "A = insert x B" and "\<And>y. y \<in> B \<Longrightarrow> f y \<noteq> f x" and "distinct ms" and "set ms = f ` A"
  shows "set (remove1 (f x) ms) = f ` B"
  using assms by (auto simp: set_remove1_eq)

lemma deletes_inv:
  assumes inv: "sw_inv s" and at: "sw_at s \<noteq> Some r" and s': "destroy_routine r s = Some s'"
  shows "sw_inv s'"
proof -
  obtain rx where rx: "sw_routines s r = Some rx" and s'_eq: "s' = s\<lparr>sw_routines := (sw_routines s)(r := None),
      sw_maps := remove1 (deallocate (rx_stack rx)) (sw_maps s)\<rparr>"
    using s' by (auto simp: destroy_routine_def split: option.splits)
  have C: "contexts_inv s" and S: "stacks_inv s" and M: "maps_inv s" using inv by (simp_all add: sw_inv_def)
  have r: "place_stack (Some r) s = Some (rx_stack rx)" using rx by simp
  have place: "place_stack p s' = (if p = Some r then None else place_stack p s)" for p by (simp add: s'_eq place_new)
  let ?A = "{sd. \<exists>q. place_stack (Some q) s = Some sd}" and ?B = "{sd. \<exists>q. place_stack (Some q) s' = Some sd}"
  have "stacks_inv s'" using S unfolding stacks_inv_def place by (auto split: if_splits)
  moreover have "contexts_inv s'" using C at unfolding contexts_inv_def by (auto simp: s'_eq split: if_splits)
  moreover have "?A = insert (rx_stack rx) ?B"
    using r unfolding set_eq_iff mem_Collect_eq insert_iff place by (metis option.distinct(1) option.inject)
  moreover have "deallocate sd \<noteq> deallocate (rx_stack rx)" if "sd \<in> ?B" for sd
  proof -
    from that obtain q where q: "place_stack (Some q) s = Some sd" "Some q \<noteq> Some r" unfolding mem_Collect_eq place by (metis option.distinct(1))
    from stacks_invD(2) [OF S q(1) r q(2)] show ?thesis by (rule deallocate_inj [OF stacks_invD(1) [OF S q(1)] stacks_invD(1) [OF S r]])
  qed
  ultimately show ?thesis
    using M image_remove1 [of ?A "rx_stack rx" ?B deallocate "sw_maps s"] unfolding sw_inv_def maps_inv_def by (simp add: s'_eq)
qed

section \<open>Every switch continues where its target was left\<close>

lemma resume_cases:
  assumes "resume finish entry ra r s = Some s'"
  obtains (new) rx where "sw_routines s r = Some rx" "rx_status rx = is_new"
  | (again) rx where "sw_routines s r = Some rx" "rx_status rx = yielding"
  using assms by (auto simp: resume_def split: option.splits routine_status.splits)

lemma resume_at: "resume finish entry ra r s = Some s' \<Longrightarrow> sw_at s' = Some r"
  by (auto simp: resume_def Let_def split: option.splits routine_status.splits)

lemma suspend_at: "suspend st r s = Some s' \<Longrightarrow> sw_at s' = None"
  by (auto simp: suspend_def Let_def split: option.splits)

lemma new_delete_at: "create_routine r vp f s = Some (Inr s') \<Longrightarrow> sw_at s' = sw_at s" "destroy_routine r s = Some s' \<Longrightarrow> sw_at s' = sw_at s"
  by (auto simp: create_routine_def destroy_routine_def split: option.splits sum.splits)

lemma sw_step_inv: "sw_step finish entry s s' \<Longrightarrow> sw_inv s \<Longrightarrow> sw_inv s'"
proof (induction rule: sw_step.induct)
  case (resumes s ra r s')
  from resumes(3) show ?case
  proof (cases rule: resume_cases)
    case new
    then show ?thesis by (rule resume_new(1) [OF resumes(4,1,2) _ _ resumes(3)])
  next
    case again
    then show ?thesis by (rule resume_yielding(1) [OF resumes(4,1,2) _ _ resumes(3)])
  qed
next
  case (suspends s r sc status s')
  then obtain rx where "sw_routines s r = Some rx" "sc = rx_stack rx" by auto
  with suspends show ?case by (auto intro: suspend_inv(1))
next
  case (marks s r rx)
  then show ?case by (intro status_inv) simp_all
next
  case (event s r rx status)
  then show ?case by (intro status_inv) auto
qed (auto intro: runs_inv creates_inv deletes_inv)

lemma sw_reach_inv:
  assumes "stack_ok sc" and "sw_reach finish entry sc c s"
  shows "sw_inv s"
  using assms(2)
proof (induction rule: rtranclp_induct)
  case base
  show ?case using assms(1)
    by (auto simp: sw_inv_def stacks_inv_def contexts_inv_def maps_inv_def sw_init_def place_stack_def split: option.splits)
next
  case (step s s')
  then show ?case by (blast intro: sw_step_inv)
qed

text \<open>
  C10: Whatever the routines of a thread do between two switches, short of writing to each other's stacks or overflowing
  their own, every switch continues its target where the target was left: \<^verbatim>\<open>jump_fcontext\<close> returns to the loop of the thread, or to a
  routine that was suspended, with the callee-saved registers, the stack pointer and the return address of the call that
  left it, and to the loop with no data, so that \<^verbatim>\<open>resume\<close> has no request to serve; a new routine enters \<^verbatim>\<open>resume_routine\<close> on top of its own
  stack, aligned as after a call, with the context of the loop as its argument. The mappings are exactly the stacks of the living routines.
\<close>

theorem switch_continues_where_left:
  assumes "stack_ok sc" and "sw_reach finish entry sc c s" and "sw_step finish entry s s'" and "sw_at s' \<noteq> sw_at s"
  shows "(case sw_at s' of
      None \<Rightarrow> resumed (sw_cpu s') = sw_saved s None \<and> rdx (sw_cpu s') = 0
    | Some r \<Rightarrow>
        (\<exists>rx. sw_routines s r = Some rx \<and>
           (if rx_status rx = is_new
            then rip (sw_cpu s') = entry \<and> rsp (sw_cpu s') = sc_sp (rx_stack rx) - 8 \<and> 2 ^ 4 dvd unat (rsp (sw_cpu s') + 8) \<and>
              mem (sw_cpu s') (rsp (sw_cpu s')) = finish \<and> rdi (sw_cpu s') = sw_thread_fctx s' \<and> rsi (sw_cpu s') = 0
            else resumed (sw_cpu s') = sw_saved s (Some r)))) \<and>
    distinct (sw_maps s') \<and> set (sw_maps s') = {deallocate (rx_stack rx) |r rx. sw_routines s' r = Some rx}"
proof -
  have inv: "sw_inv s" by (rule sw_reach_inv [OF assms(1,2)])
  have maps: "distinct (sw_maps s')" "set (sw_maps s') = {deallocate (rx_stack rx) |r rx. sw_routines s' r = Some rx}"
    using sw_step_inv [OF assms(3) inv] by (auto simp: sw_inv_def maps_inv_def)
  show ?thesis using assms(3)
  proof cases
    case (resumes ra r)
    from resumes(3) show ?thesis
    proof (cases rule: resume_cases)
      case (new rx)
      have "stack_ok (rx_stack rx)" using inv new(1) stacks_invD(1) [of s "Some r"] by (simp add: sw_inv_def)
      with resume_new [OF inv resumes(1,2) new resumes(3)] maps new show ?thesis by (simp add: resume_at [OF resumes(3)] stack_ok_def)
    next
      case (again rx)
      with resume_yielding [OF inv resumes(1,2) again resumes(3)] maps show ?thesis by (simp add: resume_at [OF resumes(3)])
    qed
  next
    case (suspends r sd status)
    then obtain rx where rx: "sw_routines s r = Some rx" "room (rx_stack rx) (sw_cpu s)" by auto
    from suspend_inv [OF inv suspends(1) rx suspends(4,5)] maps show ?thesis by (simp add: suspend_at [OF suspends(5)])
  qed (use assms(4) new_delete_at in auto)
qed

text \<open>A run: a routine is created, enters, and yields to the loop of the thread.\<close>

definition example_thread_stack :: stack_context where
  "example_thread_stack = \<lparr>sc_size = 4096, sc_sp = 8192\<rparr>"

definition example_cpu :: cpu where
  "example_cpu = \<lparr>rsp = 8000, rbp = 1, rbx = 2, r12 = 3, r13 = 4, r14 = 5, r15 = 6, rdi = 0, rsi = 0, rdx = 0, rcx = 0, rax = 0, r8 = 0,
     rip = 0, mem = (\<lambda>_. 0)\<rparr>"

lemma switch_example:
  obtains s s' where "sw_reach 7 9 example_thread_stack example_cpu s" "sw_step 7 9 s s'" "sw_at s = Some 0" "sw_at s' = None"
    "sw_saved s None = [3, 4, 5, 6, 2, 1, 11, 8008]"
proof -
  let ?i = "sw_init example_thread_stack example_cpu"
  have ok: "stack_ok example_thread_stack" by (simp add: stack_ok_def example_thread_stack_def)
  define sc where "sc = \<lparr>sc_size = 65536, sc_sp = 131072 :: size_t\<rparr>"
  define rx where "rx = \<lparr>rx_stack = sc, rx_status = is_new, rx_fctx = 0\<rparr>"
  define s1 where "s1 = ?i\<lparr>sw_routines := [0 \<mapsto> rx], sw_maps := [deallocate sc]\<rparr>"
  have "create_routine 0 (Some 65536) 0 ?i = Some (Inr s1)"
    by (simp add: create_routine_def allocate_def default_stack_traits_def s1_def rx_def sc_def sw_init_def)
  moreover have "fresh_pages 65536 (st_stack_size default_stack_traits) ?i"
    by (auto simp: fresh_pages_def default_stack_traits_def sw_init_def place_stack_def region_def example_thread_stack_def split: option.splits)
  ultimately have "sw_step 7 9 ?i s1" by (intro creates [of ?i 0 65536 0]) (simp_all add: sw_init_def)
  then have r1: "sw_reach 7 9 example_thread_stack example_cpu s1" by (rule r_into_rtranclp)
  have s1: "sw_routines s1 0 = Some rx" "sw_at s1 = None" "sw_cpu s1 = example_cpu" "room (sw_thread_stack s1) (sw_cpu s1)"
    by (simp_all add: s1_def sw_init_def room_def example_thread_stack_def example_cpu_def)
  obtain s2 where s2: "resume 7 9 11 0 s1 = Some s2" using s1 by (simp add: resume_def rx_def Let_def)
  have "sw_step 7 9 s1 s2" by (rule resumes [OF s1(2,4) s2])
  with r1 have r2: "sw_reach 7 9 example_thread_stack example_cpu s2" by (rule rtranclp.rtrancl_into_rtrancl)
  have "rx_status rx = is_new" by (simp add: rx_def)
  note N = resume_new [OF sw_reach_inv [OF ok r1] s1(2,4,1) this s2]
  have at2: "sw_at s2 = Some 0" by (rule resume_at [OF s2])
  have rx2: "sw_routines s2 0 = Some (rx\<lparr>rx_status := running\<rparr>)" using s2 s1 by (auto simp: resume_def rx_def Let_def)
  have saved: "sw_saved s2 None = [3, 4, 5, 6, 2, 1, 11, 8008]"
    using s2 s1 by (auto simp: resume_def rx_def Let_def switch_to_def set_routine_def at_return_def call_def pushq_def make_fcontext_def popq_def
        example_cpu_def)
  obtain s3 where s3: "suspend yielding 0 s2 = Some s3" using rx2 by (simp add: suspend_def Let_def)
  have "room sc (sw_cpu s2)" using N(4) by (simp add: room_def rx_def sc_def)
  then have "sw_step 7 9 s2 s3" using at2 rx2 s3 by (intro suspends [of s2 0 sc yielding]) (simp_all add: rx_def)
  then show thesis using that r2 at2 suspend_at [OF s3] saved by blast
qed

theorem switch_continues_where_left_witness:
  "\<exists>s s'. sw_reach 7 9 example_thread_stack example_cpu s \<and> sw_step 7 9 s s' \<and> sw_at s = Some 0 \<and>
     resumed (sw_cpu s') = [3, 4, 5, 6, 2, 1, 11, 8008]"
proof -
  obtain s s' where s: "sw_reach 7 9 example_thread_stack example_cpu s" "sw_step 7 9 s s'" "sw_at s = Some 0" "sw_at s' = None"
    "sw_saved s None = [3, 4, 5, 6, 2, 1, 11, 8008]" by (rule switch_example)
  have "stack_ok example_thread_stack" by (simp add: stack_ok_def example_thread_stack_def)
  from switch_continues_where_left [OF this s(1,2)] s show ?thesis by auto
qed

end
