(* ===== verification/Spec2Isabelle.thy ===== *)
theory Spec2Isabelle
  imports Sparse_Vector Linear_Allocator Vectorized_Queue Simple_Queue Flat_Unordered_Set Local_Ptr
    Semaphore_Protocol Channel_Protocol Select Engine_Protocol Weakrb Variant Shared_Buffers
    Semaphore_Wakeups Command_Loop Lcrq_Memory Lcrq_Retired_Tail Json_Container Durations Listening_Socket Routine_Arguments Interface Contexts
begin

text \<open>
  Verification of the boson framework (\<^verbatim>\<open>src/boson\<close>): routines that are scheduled
  cooperatively on a fixed set of threads, with semaphores, mutexes, channels, timers and
  system calls that suspend the routine instead of its thread.

  \<^bold>\<open>The parts of the program.\<close> An \<^verbatim>\<open>engine\<close> owns a list of \<^verbatim>\<open>thread\<close>s, each running \<^verbatim>\<open>loop()\<close> in
  an OS thread of its own, and receives their commands through an \<^verbatim>\<open>mpsc\<close> queue. A thread
  owns its routines: a queue of scheduled ones, a map of timers by date, a
  \<^verbatim>\<open>sparse_vector\<close> of slots for the ones that wait, and a \<^verbatim>\<open>netpoller\<close>, which translates the
  events of the platform's \<^verbatim>\<open>io_event_loop\<close> into calls of the thread. A routine that is going
  to wait opens an event round, registers a set of timers, descriptors and semaphores, and
  switches to its thread; the first event that happens ends the round and cancels the others.
  Semaphores keep their waiters in a \<^verbatim>\<open>vectorized_queue\<close> and hand a wakeup to a thread as a
  command; mutexes and channels are built on semaphores, and \<^verbatim>\<open>select_any\<close> registers several
  events in one round. The system calls of boson retry a non-blocking call after a wait for
  readiness. Pointers to waiting routines are \<^verbatim>\<open>local_ptr\<close>s, whose invalidation makes the late
  events of a finished round harmless.

  \<^bold>\<open>How the model is built.\<close> Data are records and datatypes with the fields and constructors of
  the source; each operation is a function with the same guards and early returns. An
  assertion that fails, an access out of range or another undefined behaviour is the value
  \<open>None\<close> (see \<open>Prelude\<close>). Counters that wrap are words. Threads, routines and semaphores refer to
  each other, so they live in one record \<open>world\<close> (\<open>Runtime\<close>) and operations pass it on.
  A blocking operation is cut at its context switch into a start and a finish; that the switch comes back there is a property
  of \<open>Contexts\<close>. The kernel, the
  clock and the code of the routines are arguments. Where several OS threads share data, the
  operations are also given as an inductive step relation, one step per atomic operation,
  and the properties hold under every interleaving of the steps. Interleavings are
  sequentially consistent: the orderings weaker than that are not modelled.

  \<^bold>\<open>The theories.\<close>

  \<^item> \<open>Prelude\<close>, \<open>Slot_Allocator\<close>, \<open>Fifo_Queue\<close>: shared lemmas, and the contracts the containers
  have in common as locales. \<open>slot_allocator\<close> is interpreted by \<^verbatim>\<open>sparse_vector\<close> and
  \<^verbatim>\<open>linear_allocator\<close>, \<open>fifo_queue\<close> by \<^verbatim>\<open>vectorized_queue\<close>, \<^verbatim>\<open>simple_queue\<close>, \<^verbatim>\<open>simple_void_queue\<close>, the
  locked \<^verbatim>\<open>lcrq\<close> and \<^verbatim>\<open>mpsc\<close>, and \<open>shared_queue\<close>, a queue whose users are numbered, by the
  lock-free \<^verbatim>\<open>lcrq\<close>.

  \<^item> \<open>Sparse_Vector\<close>, \<open>Linear_Allocator\<close>, \<open>Flat_Unordered_Set\<close>, \<open>Local_Ptr\<close> (\<^verbatim>\<open>boson/memory\<close>): free lists
  threaded through vectors, a set refinement, and reference counts over an explicit store,
  with memory safety of every program over \<^verbatim>\<open>local_ptr\<close>.

  \<^item> \<open>Vectorized_Queue\<close>, \<open>Simple_Queue\<close>, \<open>Mpsc\<close>, \<open>Weakrb\<close>, \<open>Hazard_Pointers\<close> (\<^verbatim>\<open>boson/queues\<close>,
  \<^verbatim>\<open>src/queues\<close>): the queue of waiters with removal from the middle refines a list of entries;
  the producers and the consumer of \<^verbatim>\<open>mpsc\<close> interleave at the exchange, the link, the move and
  the deletion, and neither touches a deleted node; the ring buffer keeps first-in first-out
  order while its 64-bit counters wrap; and the scan of the retired pointers of \<^verbatim>\<open>lcrq\<close> equals
  filtering by the protected ones.

  \<^item> \<open>Lcrq\<close>, \<open>Lcrq_Queue\<close>, \<open>Lcrq_Memory\<close> (\<^verbatim>\<open>boson/queues/lcrq.h\<close>, \<^verbatim>\<open>src/queues/lcrq.cc\<close>): the rings of the
  lock-free queue with their words, the turns of \<^verbatim>\<open>lcrq_put\<close> and \<^verbatim>\<open>lcrq_get\<close>, the handles and the destructor. A position that a
  dequeuer has given up refuses a late enqueuer; sequences of whole calls are those of a queue, however many rings are
  closed, linked and retired; and the destructor frees nothing twice. \<open>Lcrq_Steps\<close> cuts the use of one ring into the accesses to its memory
  for any number of enqueuers and dequeuers; with the invariant of \<open>Lcrq_Invariant\<close>, \<open>Lcrq_Protocol\<close> shows that no interleaving of them invents, duplicates
  or loses a value. \<open>Lcrq_Rings\<close> puts rings together to the queue, with the accesses to \<^verbatim>\<open>rq->next\<close>, \<^verbatim>\<open>q->head\<close> and \<^verbatim>\<open>q->tail\<close>, and \<open>Lcrq_Concurrent\<close> shows
  the same of the queue, and that values leave ring by ring. \<open>Lcrq_Retired_Tail\<close> is a run in which a ring is retired that \<^verbatim>\<open>q->tail\<close> still points to.

  \<^item> \<open>Io_Event_Loop\<close> (\<^verbatim>\<open>src/linux/io_event_loop_impl.cc\<close>) and \<open>Netpoller\<close>
  (\<^verbatim>\<open>boson/internal/netpoller.h\<close>): epoll as a table of registrations, the poller over it, and a turn
  of the poller against its contract.

  \<^item> \<open>Type_List\<close>, \<open>Variant\<close> (\<^verbatim>\<open>boson/external/json_backbone.hpp\<close>): the choice of an alternative at
  compile time, and the tagged union over an explicit heap. The locale \<open>variant_instance\<close> states what the
  language guarantees of an instance and is interpreted by the data of the waited events. \<open>Json_Container\<close> has the
  containers built on it, with comparison, visitors, views and iterators: containers are totally ordered, a view reads what the
  checked accesses of the container reach, and an iteration sees every element once.

  \<^item> \<open>Runtime\<close>, \<open>Semaphore\<close>, \<open>Routine\<close>, \<open>Thread\<close> (\<^verbatim>\<open>boson/semaphore.h\<close>, \<^verbatim>\<open>src/semaphore.cc\<close>,
  \<^verbatim>\<open>src/internal/routine.cc\<close>, \<^verbatim>\<open>src/internal/thread.cc\<close>): the world and every operation on it.
  \<open>Event_Rounds\<close> shows what a round guarantees, \<open>Scheduling\<close> the order of timers, the time a
  thread sleeps, the turns of the ready routines and the end of a thread. \<open>Command_Loop\<close> shows that the
  loop over the commands of a thread ends. \<open>Shared_Buffers\<close>
  has the buffers a thread lends to its routines, \<open>Routine_Arguments\<close> (\<^verbatim>\<open>boson/utility.h\<close>, \<^verbatim>\<open>boson/internal/routine.h\<close>)
  what a routine keeps of its arguments.

  \<^item> \<open>Context_Switch\<close> (\<^verbatim>\<open>3rdparty/boost_context/asm\<close>), \<open>Contexts\<close> (\<^verbatim>\<open>boson/internal/stack.h\<close>, \<^verbatim>\<open>src/internal/stack.cc\<close>,
  \<^verbatim>\<open>src/internal/routine.cc\<close>): the switch between contexts, instruction by instruction on x86-64, and the stacks and contexts of the
  routines of a thread over it. Every switch continues its target where it was left, and the mappings are the
  stacks of the living routines.

  \<^item> \<open>Semaphore_Protocol\<close>: wait, post and disable at the level of the counter and the queue of
  waiters; tickets are conserved and no wakeup is lost. \<open>Semaphore_Wakeups\<close> composes the
  semaphore with the queue of waiters and the command queues of the threads.

  \<^item> \<open>Blocking\<close>, \<open>Syscalls\<close> (\<^verbatim>\<open>src/syscalls.cc\<close>, \<^verbatim>\<open>boson/mutex.h\<close>, \<^verbatim>\<open>boson/syscall_traits.h\<close>,
  \<^verbatim>\<open>src/syscall_shim.cc\<close>): sleeping, mutexes, waiting for readiness, the retry loop and the wrappers
  of the system calls with their deadlines. \<open>Durations\<close> (\<^verbatim>\<open>boson/syscalls.h\<close>, \<^verbatim>\<open>boson/std/experimental/chrono.h\<close>) has the timeouts of
  any period, with the overflow of their 64-bit counts, and \<open>Listening_Socket\<close> \<^verbatim>\<open>src/net/socket.cc\<close>.

  \<^item> \<open>Channel\<close>, \<open>Channel_Protocol\<close> (\<^verbatim>\<open>boson/channel.h\<close>): the channel on the world, and writers, readers
  and close at the level of its positions and semaphores.

  \<^item> \<open>Select\<close> (\<^verbatim>\<open>boson/select.h\<close>): the selectors and \<^verbatim>\<open>select_any\<close>; a select keeps at most one ticket.

  \<^item> \<open>Engine\<close>, \<open>Engine_Protocol\<close> (\<^verbatim>\<open>boson/engine.h\<close>, \<^verbatim>\<open>src/engine.cc\<close>): dispatch of new routines and
  the end of the program; and the count of pushers against the wait of the engine.

  \<^item> \<open>Interface\<close>: the handles a program holds, \<^verbatim>\<open>channel\<close> and \<^verbatim>\<open>shared_semaphore\<close>, and the start of a program. The copies of a
  channel are one queue, over the semaphores of the world and not only their tickets.

  \<^bold>\<open>Fuel and bounds.\<close> The loops that drain a queue (\<open>thread_handle_engine_event\<close>,
  \<open>engine_execute_commands\<close>, \<open>mpsc_drain\<close>) take fuel. For the engine one more than the number of queued
  commands is enough, and for a thread one more than its commands and the waiters of all semaphores; both are properties. The loops of the rings and of
  an iteration are \<open>partial_function\<close>s, whose properties state that they return. The turns of a thread and of the engine are unbounded
  by design, and a turn is a function. The semaphore protocol asks that the capacity, the accepted
  posts and the number of routines stay below the threshold of the disabled state; the channel and the ring
  buffer ask that the size of the buffer divides \<open>2 ^ 64\<close> or that fewer elements were written. Each
  property states its bound as a hypothesis and its witness meets it.

  \<^bold>\<open>Where the code falls short.\<close> Some properties and lemmas state what the code does where that is not what it means to
  do: a channel with two writers can deliver a value nobody wrote, \<^verbatim>\<open>select_any\<close> consumes from a
  closed channel, \<^verbatim>\<open>thread::read\<close> drops the status of its event, an idle notification can end the
  program with a routine left, a timeout of
  \<open>2\<^sup>3\<^sup>1\<close> milliseconds ends at once for a system call and never for a semaphore, the destructor of \<^verbatim>\<open>lcrq\<close> leaks retired
  rings, a ring of \<^verbatim>\<open>lcrq\<close> is retired while \<^verbatim>\<open>q->tail\<close> still points to it, and a listening socket that cannot be bound stays open.

  \<^bold>\<open>Not modelled.\<close> The hazard pointers of \<^verbatim>\<open>lcrq\<close> between the steps of different threads: in \<open>Lcrq_Rings\<close> a ring stays allocated,
  and the scan of the retired rings is modelled as one call (\<open>Hazard_Pointers\<close>, \<open>Lcrq_Memory\<close>). Memory orders weaker than sequential consistency. The context switches of other processors than x86-64; the logger
  and the exception class, which are calls of libraries; the type traits and the overloads of \<^verbatim>\<open>INVOKE\<close> in \<^verbatim>\<open>utility.h\<close> and
  \<^verbatim>\<open>std/experimental\<close>, which choose types; the queue of \<^verbatim>\<open>queues/mpmc.h\<close>, a declaration around
  a third-party library; the examples and the tests.
\<close>

end
